(* ===== verification/Prelude.thy ===== *)
theory Prelude
  imports Main "HOL-Library.Word" "HOL-Library.Multiset" "HOL-Library.Mapping"
    "HOL-Library.AList_Mapping"
begin

unbundle bit_operations_syntax

text \<open>
  What every component of the development shares: the machine types of the Go source, byte
  strings and Go slices, the fixed-width big-endian and little-endian encodings of
  \<^verbatim>\<open>encoding/binary\<close>, a few facts on lists and words, and the locale that lifts a property kept
  by every operation of a component to its runs.
\<close>

section \<open>Types\<close>

type_synonym byte = "8 word"
type_synonym bytes = "byte list"
type_synonym u16 = "16 word"
type_synonym u32 = "32 word"
type_synonym u64 = "64 word"

named_theorems enc \<open>lengths and round trips of fixed-width encodings\<close>

section \<open>Slices\<close>

text \<open>
  \<open>gslice xs a b\<close> is Go's \<^verbatim>\<open>xs[a:b]\<close>. Go panics when \<open>b\<close> exceeds the length; the models below take
  slices only behind the length checks the code makes.
\<close>

definition gslice :: "'a list \<Rightarrow> nat \<Rightarrow> nat \<Rightarrow> 'a list" where
  "gslice xs a b = take (b - a) (drop a xs)"

lemma length_gslice [simp]: "b \<le> length xs \<Longrightarrow> length (gslice xs a b) = b - a"
  by (simp add: gslice_def)

lemma gslice_append_left: "b \<le> length xs \<Longrightarrow> gslice (xs @ ys) a b = gslice xs a b"
  by (cases "a \<le> b") (simp_all add: gslice_def)

lemma gslice_append_right:
  "length xs \<le> a \<Longrightarrow> gslice (xs @ ys) a b = gslice ys (a - length xs) (b - length xs)"
  by (cases "length xs \<le> b") (simp_all add: gslice_def)

lemma gslice_exact: "n = length xs \<Longrightarrow> gslice xs 0 n = xs"
  by (simp add: gslice_def)

lemma nth_gslice: "i < b - a \<Longrightarrow> b \<le> length xs \<Longrightarrow> gslice xs a b ! i = xs ! (a + i)"
  by (simp add: gslice_def add.commute)

section \<open>Fixed-width encodings\<close>

text \<open>
  \<open>be_bytes n w\<close> is what \<^verbatim>\<open>binary.BigEndian.PutUint\<close> of an \<open>n\<close>-byte value writes, most
  significant byte first; \<open>be_val\<close> and \<open>le_val\<close> are the big-endian and little-endian readers.
\<close>

fun be_bytes :: "nat \<Rightarrow> 'a::len word \<Rightarrow> bytes" where
  "be_bytes 0 w = []"
| "be_bytes (Suc n) w = ucast (drop_bit (8 * n) w) # be_bytes n w"

fun be_acc :: "'a::len word \<Rightarrow> bytes \<Rightarrow> 'a word" where
  "be_acc acc [] = acc"
| "be_acc acc (b # bs) = be_acc (push_bit 8 acc OR ucast b) bs"

definition be_val :: "bytes \<Rightarrow> 'a::len word" where
  "be_val bs = be_acc 0 bs"

definition le_val :: "bytes \<Rightarrow> 'a::len word" where
  "le_val bs = be_val (rev bs)"

abbreviation be16 :: "u16 \<Rightarrow> bytes" where
  "be16 \<equiv> be_bytes 2"

abbreviation be32 :: "u32 \<Rightarrow> bytes" where
  "be32 \<equiv> be_bytes 4"

abbreviation be64 :: "u64 \<Rightarrow> bytes" where
  "be64 \<equiv> be_bytes 8"

lemma length_be_bytes [simp, enc]: "length (be_bytes n w) = n"
  by (induction n) simp_all

lemma be_acc_split: "be_acc acc bs = push_bit (8 * length bs) acc OR be_acc 0 bs"
proof (induction bs arbitrary: acc)
  case Nil
  show ?case by simp
next
  case (Cons b bs)
  have "be_acc acc (b # bs) = push_bit (8 * length bs) (push_bit 8 acc OR ucast b) OR be_acc 0 bs"
    using Cons.IH [of "push_bit 8 acc OR ucast b"] by simp
  also have "\<dots> = push_bit (8 * length (b # bs)) acc OR (push_bit (8 * length bs) (ucast b) OR be_acc 0 bs)"
    by (simp add: push_bit_or push_bit_push_bit ac_simps)
  also have "push_bit (8 * length bs) (ucast b :: 'a word) OR be_acc 0 bs = be_acc 0 (b # bs)"
    using Cons.IH [of "ucast b", symmetric] by simp
  finally show ?case .
qed

lemma be_val_Cons: "be_val (b # bs) = push_bit (8 * length bs) (ucast b) OR be_val bs"
  using be_acc_split [of "ucast b" bs] by (simp add: be_val_def)

lemma be_val_be_bytes_take: "be_val (be_bytes n w) = take_bit (8 * n) w"
proof (induction n)
  case 0
  show ?case by (simp add: be_val_def)
next
  case (Suc n)
  have "be_val (be_bytes (Suc n) w) =
      push_bit (8 * n) (ucast (ucast (drop_bit (8 * n) w) :: byte)) OR take_bit (8 * n) w"
    by (simp add: be_val_Cons Suc.IH)
  also have "\<dots> = take_bit (8 * Suc n) w"
    by (rule bit_word_eqI) (auto simp: bit_simps)
  finally show ?case .
qed

lemma be_val_be_bytes [simp, enc]:
  "8 * n = LENGTH('a) \<Longrightarrow> be_val (be_bytes n (w :: 'a::len word)) = w"
  by (simp add: be_val_be_bytes_take)

lemma bit_be_val: "bit (be_val bs) i \<Longrightarrow> i < 8 * length bs"
proof (induction bs)
  case (Cons b bs)
  have "bit (ucast b :: 'a word) (i - 8 * length bs) \<Longrightarrow> i - 8 * length bs < 8"
    by (auto simp: bit_simps dest: bit_imp_le_length)
  with Cons show ?case
    by (auto simp: be_val_Cons bit_or_iff bit_push_bit_iff)
qed (simp add: be_val_def)

lemma be_bytes_cong:
  "(\<And>i. i < 8 * n \<Longrightarrow> bit v i = bit w i) \<Longrightarrow> be_bytes n v = be_bytes n w"
proof (induction n)
  case (Suc n)
  have "ucast (drop_bit (8 * n) v) = (ucast (drop_bit (8 * n) w) :: byte)"
    using Suc.prems by (intro bit_word_eqI) (auto simp: bit_simps)
  with Suc show ?case by simp
qed simp

lemma be_bytes_be_val:
  "8 * length bs \<le> LENGTH('a) \<Longrightarrow> n = length bs \<Longrightarrow> be_bytes n (be_val bs :: 'a::len word) = bs"
proof (induction bs arbitrary: n)
  case (Cons b bs)
  let ?w = "be_val (b # bs) :: 'a word"
  have low: "bit ?w i = bit (be_val bs :: 'a word) i" if "i < 8 * length bs" for i
    using that by (auto simp: be_val_Cons bit_simps)
  have "ucast (drop_bit (8 * length bs) ?w) = b"
  proof (rule bit_word_eqI)
    fix i assume "i < LENGTH(8)"
    moreover have "\<not> bit (be_val bs :: 'a word) (8 * length bs + i)"
      using bit_be_val [of bs "8 * length bs + i"] by auto
    ultimately show "bit (ucast (drop_bit (8 * length bs) ?w) :: byte) i = bit b i"
      using Cons.prems(1) by (auto simp: be_val_Cons bit_simps)
  qed
  moreover have "be_bytes (length bs) ?w = bs"
    using Cons.IH [of "length bs"] Cons.prems be_bytes_cong [OF low] by simp
  ultimately show ?case using Cons.prems by simp
qed simp

section \<open>Lists\<close>

text \<open>
  \<open>swap_remove xs i\<close> is the Go idiom of an unordered delete: the last element moves into the hole
  and the list shrinks by one.
\<close>

definition swap_remove :: "'a list \<Rightarrow> nat \<Rightarrow> 'a list" where
  "swap_remove xs i = butlast (xs[i := last xs])"

lemma length_swap_remove [simp]: "length (swap_remove xs i) = length xs - 1"
  by (simp add: swap_remove_def)

lemma swap_remove_split:
  assumes "i < length xs"
  obtains ys zs where "xs = ys @ xs ! i # zs"
    and "swap_remove xs i = ys @ (if zs = [] then [] else last zs # butlast zs)"
proof
  let ?ys = "take i xs" and ?zs = "drop (Suc i) xs"
  show eq: "xs = ?ys @ xs ! i # ?zs"
    using assms by (simp add: id_take_nth_drop)
  have "xs[i := last xs] = ?ys @ last xs # ?zs"
    using assms by (simp add: upd_conv_take_nth_drop)
  moreover have "?zs \<noteq> [] \<Longrightarrow> last xs = last ?zs"
    using assms by (simp add: last_drop)
  ultimately show "swap_remove xs i = ?ys @ (if ?zs = [] then [] else last ?zs # butlast ?zs)"
    by (auto simp: swap_remove_def butlast_append)
qed

lemma mset_swap_remove: "i < length xs \<Longrightarrow> mset (swap_remove xs i) = mset xs - {#xs ! i#}"
proof -
  assume "i < length xs"
  then obtain ys zs where eq: "xs = ys @ xs ! i # zs"
    and sw: "swap_remove xs i = ys @ (if zs = [] then [] else last zs # butlast zs)"
    by (rule swap_remove_split)
  have "mset (if zs = [] then [] else last zs # butlast zs) = mset zs"
    by (cases zs rule: rev_cases) simp_all
  with sw have "mset (swap_remove xs i) = mset ys + mset zs" by simp
  moreover have "mset xs = mset ys + {#xs ! i#} + mset zs"
    by (subst eq) simp
  ultimately show ?thesis by simp
qed

section \<open>Byte strings\<close>

text \<open>
  A Go string is its bytes: \<open>ascii\<close> is a string literal. \<open>has_prefix\<close>, \<open>cut_prefix\<close> and \<open>split_on\<close> are
  \<^verbatim>\<open>strings.HasPrefix\<close>, \<^verbatim>\<open>strings.CutPrefix\<close> and \<^verbatim>\<open>strings.Split\<close> with a one-byte separator;
  \<open>itoa\<close> is \<^verbatim>\<open>strconv.Itoa\<close>, the verb \<^verbatim>\<open>%d\<close>.
\<close>

definition ascii :: "string \<Rightarrow> bytes" where
  "ascii s = map of_char s"

definition has_prefix :: "'a list \<Rightarrow> 'a list \<Rightarrow> bool" where
  "has_prefix p s \<longleftrightarrow> take (length p) s = p"

definition cut_prefix :: "'a list \<Rightarrow> 'a list \<Rightarrow> 'a list option" where
  "cut_prefix p s = (if has_prefix p s then Some (drop (length p) s) else None)"

fun split_on :: "'a \<Rightarrow> 'a list \<Rightarrow> 'a list list" where
  "split_on c [] = [[]]"
| "split_on c (x # xs) =
     (if x = c then [] # split_on c xs
      else (case split_on c xs of [] \<Rightarrow> [[x]] | p # ps \<Rightarrow> (x # p) # ps))"

fun join_with :: "'a \<Rightarrow> 'a list list \<Rightarrow> 'a list" where
  "join_with c [] = []"
| "join_with c [p] = p"
| "join_with c (p # q # ps) = p @ c # join_with c (q # ps)"

fun digits :: "nat \<Rightarrow> bytes" where
  "digits n = (if n < 10 then [of_nat (48 + n)] else digits (n div 10) @ [of_nat (48 + n mod 10)])"

declare digits.simps [simp del]

definition itoa :: "int \<Rightarrow> bytes" where
  "itoa i = (if i < 0 then 0x2d # digits (nat (- i)) else digits (nat i))"

lemma has_prefix_append [simp]: "has_prefix p (p @ s)"
  by (simp add: has_prefix_def)

lemma cut_prefix_append [simp]: "cut_prefix p (p @ s) = Some s"
  by (simp add: cut_prefix_def)

lemma cut_prefix_Some: "cut_prefix p s = Some r \<longleftrightarrow> s = p @ r"
  by (auto simp: cut_prefix_def has_prefix_def) (metis append_take_drop_id)

lemma has_prefix_iff: "has_prefix p s \<longleftrightarrow> (\<exists>r. s = p @ r)"
  by (auto simp: has_prefix_def) (metis append_take_drop_id)

lemma split_on_ne [simp]: "split_on c xs \<noteq> []"
  by (cases xs) (auto split: list.splits)

lemma split_on_sep [simp]: "c \<notin> set p \<Longrightarrow> split_on c (p @ c # xs) = p # split_on c xs"
  by (induction p) auto

lemma split_on_last [simp]: "c \<notin> set p \<Longrightarrow> split_on c p = [p]"
  by (induction p) auto

lemma split_join:
  "ps \<noteq> [] \<Longrightarrow> (\<And>p. p \<in> set ps \<Longrightarrow> c \<notin> set p) \<Longrightarrow> split_on c (join_with c ps) = ps"
  by (induction c ps rule: join_with.induct) auto

lemma join_split: "join_with c (split_on c xs) = xs"
proof (induction xs)
  case (Cons x xs)
  then show ?case
    by (cases "split_on c xs" rule: remdups_adj.cases) (auto split: list.splits)
qed simp

lemma split_on_no_sep: "p \<in> set (split_on c xs) \<Longrightarrow> c \<notin> set p"
  by (induction xs arbitrary: p) (auto split: list.splits if_splits)

text \<open>Decimal text holds digits only, so no separator can occur in it.\<close>

lemma set_digits: "set (digits n) \<subseteq> {0x30..0x39}"
proof (induction n rule: digits.induct)
  case (1 n)
  have "(of_nat (48 + d) :: byte) \<in> {0x30..0x39}" if "d < 10" for d
    using that by (simp add: word_le_nat_alt unsigned_of_nat take_bit_nat_eq_self del: of_nat_add)
  from this [of n] this [of "n mod 10"] show ?case
    using 1 by (auto simp: digits.simps [of n])
qed

lemma set_itoa: "set (itoa i) \<subseteq> insert 0x2d {0x30..0x39}"
  using set_digits by (auto simp: itoa_def)

section \<open>Words\<close>

lemma xor_eq_0_iff: "v XOR w = 0 \<longleftrightarrow> v = (w :: 'a::len word)"
  by (auto simp: bit_eq_iff bit_simps)

lemma drop_bit_beyond: "LENGTH('a) \<le> n \<Longrightarrow> drop_bit n (w :: 'a::len word) = 0"
  by (rule bit_word_eqI) (auto simp: bit_drop_bit_eq dest: bit_imp_le_length)

lemma word_less_succ: "w \<noteq> - 1 \<Longrightarrow> w < w + (1 :: 'a::len word)"
  using measure_unat [of "w + 1"] by (simp add: word_less_nat_alt eq_neg_iff_add_eq_0)

section \<open>Finite maps\<close>

lemma in_keys_iff: "k \<in> Mapping.keys m \<longleftrightarrow> Mapping.lookup m k \<noteq> None"
  by (simp add: keys_dom_lookup domIff)

lemma size_update_le:
  assumes "finite (Mapping.keys m)"
  shows "Mapping.size (Mapping.update k v m) \<le> Suc (Mapping.size m)"
  using assms by (simp add: Mapping.size_def card_insert_if)

lemma size_update_known:
  "Mapping.lookup m k \<noteq> None \<Longrightarrow> Mapping.size (Mapping.update k v m) = Mapping.size m"
  using in_keys_iff [of k m] by (simp add: Mapping.size_def insert_absorb)

lemma size_empty_mapping [simp]: "Mapping.size Mapping.empty = 0"
  by (simp add: Mapping.size_def)

section \<open>Loops over an array\<close>

text \<open>A loop over the indices of an array whose turn \<open>i\<close> rewrites the entry \<open>i\<close> maps the array.\<close>

lemma foldl_update:
  assumes "\<And>s i. get (step s i) = (get s)[i := f (get s ! i)]" and "n \<le> length (get s)"
  shows "get (foldl step s [0..<n]) = map f (take n (get s)) @ drop n (get s)"
  using assms(2)
proof (induction n)
  case (Suc n)
  then have IH: "get (foldl step s [0..<n]) = map f (take n (get s)) @ drop n (get s)" by simp
  have "get (foldl step s [0..<Suc n]) = (map f (take n (get s)) @ drop n (get s))[n := f (get s ! n)]"
    using Suc.prems by (simp add: assms(1) IH nth_append)
  also have "\<dots> = map f (take n (get s)) @ (drop n (get s))[0 := f (get s ! n)]"
    using Suc.prems by (simp add: list_update_append)
  also have "drop n (get s) = get s ! n # drop (Suc n) (get s)"
    using Suc.prems by (simp add: Cons_nth_drop_Suc)
  finally show ?case
    using Suc.prems by (simp add: take_Suc_conv_app_nth)
qed simp

lemma foldl_update_all:
  assumes "\<And>s i. get (step s i) = (get s)[i := f (get s ! i)]"
  shows "get (foldl step s [0..<length (get s)]) = map f (get s)"
  using foldl_update [of get step f "length (get s)" s] assms by simp

lemma foldl_preserves:
  assumes "\<And>s x. g (step s x) = g s"
  shows "g (foldl step s xs) = g s"
  by (induction xs arbitrary: s) (simp_all add: assms)

section \<open>Runs of a component\<close>

text \<open>
  A component is a state and a step function over its events. What every step keeps, every run
  keeps; the components interpret this with their own operations and invariants.
\<close>

fun run :: "('s \<Rightarrow> 'e \<Rightarrow> 's) \<Rightarrow> 's \<Rightarrow> 'e list \<Rightarrow> 's" where
  "run step s [] = s"
| "run step s (e # es) = run step (step s e) es"

lemma run_append: "run step s (es @ fs) = run step (run step s es) fs"
  by (induction es arbitrary: s) simp_all

locale invariant_machine =
  fixes step :: "'s \<Rightarrow> 'e \<Rightarrow> 's"
    and inv :: "'s \<Rightarrow> bool"
  assumes step_inv: "inv s \<Longrightarrow> inv (step s e)"
begin

lemma run_inv: "inv s \<Longrightarrow> inv (run step s es)"
  by (induction es arbitrary: s) (simp_all add: step_inv)

end

end
