(* ===== verification/Frame.thy ===== *)
theory Frame
  imports Prelude
begin

unbundle bit_operations_syntax

text \<open>
  CQF1 flow frames, \<^verbatim>\<open>src/pkg/csqtt/frame.go\<close>: the 24-byte frame header and its codec, the flow id
  of a TCP packet, the outbound sequencer and the inbound reassembler. Go maps are finite maps of
  \<^verbatim>\<open>HOL-Library.Mapping\<close>; sequence numbers, ids and the millisecond clock keep their widths.
\<close>

section \<open>The frame header\<close>

definition frame_len :: nat where
  "frame_len = 24"

definition frame_magic :: bytes where
  "frame_magic = [0x43, 0x51, 0x46, 0x31]"

definition max_tracked_flows :: nat where
  "max_tracked_flows = 4096"

definition max_pending_per_flow :: nat where
  "max_pending_per_flow = 96"

definition max_pending_total :: int where
  "max_pending_total = 4096"

text \<open>\<^verbatim>\<open>gapRelease\<close> in milliseconds.\<close>

definition gap_release_ms :: u64 where
  "gap_release_ms = 12"

lemmas frame_consts = frame_len_def frame_magic_def max_tracked_flows_def
  max_pending_per_flow_def max_pending_total_def gap_release_ms_def

record frame_header =
  fh_sender :: u64
  fh_flow :: u64
  fh_seq :: u32

text \<open>\<^verbatim>\<open>Encode\<close> writes into the first 24 bytes of \<open>dst\<close>; the result is the flag and the buffer.\<close>

definition encode_frame :: "frame_header \<Rightarrow> bytes \<Rightarrow> bool \<times> bytes" where
  "encode_frame h dst =
     (if length dst < frame_len then (False, dst)
      else (True, frame_magic @ be64 (fh_sender h) @ be64 (fh_flow h) @ be32 (fh_seq h)
                    @ drop frame_len dst))"

definition decode_frame :: "bytes \<Rightarrow> (frame_header \<times> bytes) option" where
  "decode_frame pkt =
     (if length pkt < frame_len \<or> take 4 pkt \<noteq> frame_magic then None
      else Some (\<lparr>fh_sender = be_val (gslice pkt 4 12), fh_flow = be_val (gslice pkt 12 20),
                  fh_seq = be_val (gslice pkt 20 24)\<rparr>, drop frame_len pkt))"

definition frame_payload :: "bytes \<Rightarrow> bytes" where
  "frame_payload pkt = (case decode_frame pkt of Some (_, p) \<Rightarrow> p | None \<Rightarrow> pkt)"

lemma decode_frame_layout:
  "decode_frame (frame_magic @ be64 sid @ be64 fl @ be32 sq @ p) =
     Some (\<lparr>fh_sender = sid, fh_flow = fl, fh_seq = sq\<rparr>, p)"
  by (simp add: decode_frame_def frame_len_def frame_magic_def gslice_def)

lemma length_encode_frame [simp]: "length (snd (encode_frame h dst)) = length dst"
  by (auto simp: encode_frame_def frame_consts)

section \<open>Flow ids\<close>

fun fnv1a :: "u64 \<Rightarrow> bytes \<Rightarrow> u64" where
  "fnv1a h [] = h"
| "fnv1a h (c # b) = fnv1a ((h XOR ucast c) * 0x100000001b3) b"

definition mix64 :: "u64 \<Rightarrow> u64" where
  "mix64 v =
     (let v = v XOR drop_bit 30 v;
          v = v * 0xbf58476d1ce4e5b9;
          v = v XOR drop_bit 27 v;
          v = v * 0x94d049bb133111eb
      in v XOR drop_bit 31 v)"

text \<open>
  The header switch of \<^verbatim>\<open>TCPFlowID\<close>: header length, protocol, source and destination of an
  IPv4 or IPv6 packet long enough to hold a TCP header behind it.
\<close>

definition ip_tuple :: "bytes \<Rightarrow> (nat \<times> byte \<times> bytes \<times> bytes) option" where
  "ip_tuple pkt =
     (if pkt = [] then None
      else if drop_bit 4 (pkt ! 0) = 4 then
        (if length pkt < 20 then None
         else let hl = unat (pkt ! 0 AND 0x0f) * 4 in
           if hl < 20 \<or> length pkt < hl + 20 then None
           else Some (hl, pkt ! 9, gslice pkt 12 16, gslice pkt 16 20))
      else if drop_bit 4 (pkt ! 0) = 6 then
        (if length pkt < 60 then None
         else Some (40, pkt ! 6, gslice pkt 8 24, gslice pkt 24 40))
      else None)"

definition tcp_flow_id :: "bytes \<Rightarrow> u64 option" where
  "tcp_flow_id pkt =
     (case ip_tuple pkt of None \<Rightarrow> None
      | Some (hl, proto, src, dst) \<Rightarrow>
          if proto \<noteq> 6 then None
          else let tcp = drop hl pkt; dataOffset = unat (drop_bit 4 (tcp ! 12)) * 4 in
            if dataOffset < 20 \<or> length tcp < dataOffset then None
            else if length tcp = dataOffset \<and> (tcp ! 13) AND 0x03 = 0 then None
            else Some (mix64 (fnv1a (fnv1a (fnv1a (fnv1a 0xcbf29ce484222325 [proto]) src) dst)
                                (take 4 tcp))))"

lemma ip_tuple_hl: "ip_tuple pkt = Some (hl, pr, s, d) \<Longrightarrow> 20 \<le> hl \<and> hl + 20 \<le> length pkt"
  by (auto simp: ip_tuple_def Let_def split: if_splits)

text \<open>An IP packet never starts with the frame magic: its first byte says version 4, length 12.\<close>

lemma ip_tuple_not_magic: "ip_tuple pkt = Some x \<Longrightarrow> take 4 pkt \<noteq> frame_magic"
  by (cases pkt) (auto simp: ip_tuple_def frame_magic_def Let_def split: if_splits)

section \<open>The sequencer\<close>

record sequencer =
  sq_sender :: u64
  sq_seqs :: "(u64, u32) mapping"

text \<open>\<open>rnd\<close> is the value of the eight random bytes drawn when no sender id is given.\<close>

definition new_sequencer :: "u64 \<Rightarrow> u64 \<Rightarrow> sequencer" where
  "new_sequencer senderID rnd =
     (let sid = (if senderID = 0 then mix64 rnd else senderID);
          sid = (if sid = 0 then 1 else sid)
      in \<lparr>sq_sender = sid, sq_seqs = Mapping.empty\<rparr>)"

text \<open>The full-table branch of \<^verbatim>\<open>Next\<close>: the table is dropped whole and the sender id re-mixed.\<close>

definition sequencer_reset :: "sequencer \<Rightarrow> sequencer" where
  "sequencer_reset s =
     (let sid = mix64 (sq_sender s + 0x9e3779b97f4a7c15)
      in \<lparr>sq_sender = (if sid = 0 then 1 else sid), sq_seqs = Mapping.empty\<rparr>)"

definition sequencer_next :: "sequencer \<Rightarrow> bytes \<Rightarrow> frame_header option \<times> sequencer" where
  "sequencer_next s pkt =
     (case tcp_flow_id pkt of None \<Rightarrow> (None, s)
      | Some flow \<Rightarrow>
          let s = (if Mapping.lookup (sq_seqs s) flow = None
                     \<and> max_tracked_flows \<le> Mapping.size (sq_seqs s)
                   then sequencer_reset s else s);
              sq = Mapping.lookup_default 0 (sq_seqs s) flow
          in (Some \<lparr>fh_sender = sq_sender s, fh_flow = flow, fh_seq = sq\<rparr>,
              s\<lparr>sq_seqs := Mapping.update flow (sq + 1) (sq_seqs s)\<rparr>))"

text \<open>
  \<open>dst\<close> is the storage of the caller's buffer, its length the capacity: it is reused when large
  enough and replaced by a zeroed buffer otherwise. The header overwrites the first 24 bytes and
  the packet the rest.
\<close>

definition sequencer_frame :: "sequencer \<Rightarrow> bytes \<Rightarrow> bytes \<Rightarrow> (bytes \<times> bool) \<times> sequencer" where
  "sequencer_frame s dst pkt =
     (case sequencer_next s pkt of
        (None, s') \<Rightarrow> ((pkt, False), s')
      | (Some h, s') \<Rightarrow>
          let need = frame_len + length pkt;
              out = (if length dst < need then replicate need 0 else take need dst);
              out = snd (encode_frame h out)
          in ((take frame_len out @ pkt, True), s'))"


section \<open>The reassembler\<close>

record 'a flow_state =
  fs_expected :: u32
  fs_gap_set :: bool
  fs_gap_ms :: u64
  fs_pending :: "(u32 \<times> 'a) list"

definition new_flow_state :: "'a flow_state" where
  "new_flow_state = \<lparr>fs_expected = 0, fs_gap_set = False, fs_gap_ms = 0, fs_pending = []\<rparr>"

record 'a reassembler =
  ra_flows :: "(u64 \<times> u64, 'a flow_state) mapping"
  ra_total :: int

definition new_reassembler :: "'a reassembler" where
  "new_reassembler = \<lparr>ra_flows = Mapping.empty, ra_total = 0\<rparr>"

definition is_forward :: "u32 \<Rightarrow> u32 \<Rightarrow> bool" where
  "is_forward sq expected \<longleftrightarrow> sq \<noteq> expected \<and> sq - expected < 2 ^ 31"

fun find_index :: "('a \<Rightarrow> bool) \<Rightarrow> 'a list \<Rightarrow> nat option" where
  "find_index P [] = None"
| "find_index P (x # xs) = (if P x then Some 0 else map_option Suc (find_index P xs))"

lemma find_index_Some: "find_index P xs = Some i \<Longrightarrow> i < length xs \<and> P (xs ! i)"
  by (induction xs arbitrary: i) (auto split: if_splits)

lemma find_index_None: "find_index P xs = None \<longleftrightarrow> (\<forall>x\<in>set xs. \<not> P x)"
  by (induction xs) auto

text \<open>
  The operations on one flow take the flow's state and the reassembler's \<^verbatim>\<open>pendingTotal\<close>, and
  return both with the packets they append to \<^verbatim>\<open>*out\<close>.
\<close>

type_synonym 'a flow_result = "'a flow_state \<times> int \<times> 'a list"

function (sequential) drain_contiguous :: "'a flow_state \<Rightarrow> int \<Rightarrow> 'a flow_result" where
  "drain_contiguous st tot =
     (case find_index (\<lambda>p. fst p = fs_expected st) (fs_pending st) of
        None \<Rightarrow> (st, tot, [])
      | Some idx \<Rightarrow>
          let p = fs_pending st ! idx;
              st1 = st\<lparr>fs_pending := swap_remove (fs_pending st) idx,
                       fs_expected := fs_expected st + 1\<rparr>;
              (st2, total2, out) = drain_contiguous st1 (tot - 1)
          in (st2, total2, snd p # out))"
  by pat_completeness auto
termination
  by (relation "measure (\<lambda>(st, _). length (fs_pending st))")
    (auto dest!: find_index_Some)

declare drain_contiguous.simps [simp del]

text \<open>The scan of \<^verbatim>\<open>releaseLowest\<close>: index and distance of the pending packet closest ahead.\<close>

fun lowest_from :: "u32 \<Rightarrow> nat \<Rightarrow> (nat \<times> u32) option \<Rightarrow> (u32 \<times> 'a) list \<Rightarrow> (nat \<times> u32) option"
where
  "lowest_from e i best [] = best"
| "lowest_from e i best (p # ps) =
     (if \<not> is_forward (fst p) e then lowest_from e (Suc i) best ps
      else let d = fst p - e in
        if (case best of None \<Rightarrow> True | Some (_, bd) \<Rightarrow> d < bd)
        then lowest_from e (Suc i) (Some (i, d)) ps
        else lowest_from e (Suc i) best ps)"

definition release_lowest :: "'a flow_state \<Rightarrow> int \<Rightarrow> u64 \<Rightarrow> 'a flow_result" where
  "release_lowest st tot now =
     (case lowest_from (fs_expected st) 0 None (fs_pending st) of
        None \<Rightarrow> (st\<lparr>fs_gap_set := False\<rparr>, tot, [])
      | Some (best, _) \<Rightarrow>
          let p = fs_pending st ! best;
              st1 = st\<lparr>fs_pending := swap_remove (fs_pending st) best,
                       fs_expected := fst p + 1, fs_gap_set := False\<rparr>;
              (st2, total2, out) = drain_contiguous st1 (tot - 1);
              st3 = (if fs_pending st2 \<noteq> [] then st2\<lparr>fs_gap_set := True, fs_gap_ms := now\<rparr>
                     else st2)
          in (st3, total2, snd p # out))"

definition release_expired :: "'a flow_state \<Rightarrow> int \<Rightarrow> u64 \<Rightarrow> 'a flow_result" where
  "release_expired st tot now =
     (if fs_gap_set st \<and> gap_release_ms \<le> now - fs_gap_ms st then release_lowest st tot now
      else (st, tot, []))"

text \<open>\<^verbatim>\<open>PushAt\<close> on the flow's own state, after the expiry check.\<close>

definition push_flow :: "'a flow_state \<Rightarrow> int \<Rightarrow> u32 \<Rightarrow> 'a \<Rightarrow> u64 \<Rightarrow> 'a flow_result" where
  "push_flow st tot sq v now =
     (if sq = fs_expected st then
        (let st1 = st\<lparr>fs_expected := fs_expected st + 1, fs_gap_set := False\<rparr>;
             (st2, total2, out) = drain_contiguous st1 tot
         in (st2, total2, v # out))
      else if \<not> is_forward sq (fs_expected st) then (st, tot, [])
      else if \<exists>p\<in>set (fs_pending st). fst p = sq then (st, tot, [])
      else
        (let (st1, tot1, out1) =
               (if max_pending_per_flow \<le> length (fs_pending st)
                then release_lowest st tot now else (st, tot, []))
         in if max_pending_total \<le> tot1 \<and> fs_pending st1 = [] then
              (st1\<lparr>fs_expected := sq + 1, fs_gap_set := False\<rparr>, tot1, out1 @ [v])
            else
              (let (st2, total2, out2) =
                     (if max_pending_total \<le> tot1 then release_lowest st1 tot1 now
                      else (st1, tot1, []));
                   st3 = st2\<lparr>fs_pending := fs_pending st2 @ [(sq, v)]\<rparr>;
                   (st4, total4, out4) =
                     (if max_pending_total < total2 + 1 then release_lowest st3 (total2 + 1) now
                      else (st3, total2 + 1, []));
                   st5 = (if fs_gap_set st4 then st4
                          else st4\<lparr>fs_gap_set := True, fs_gap_ms := now\<rparr>)
               in (st5, total4, out1 @ out2 @ out4))))"

definition flow_push :: "'a flow_state \<Rightarrow> int \<Rightarrow> u32 \<Rightarrow> 'a \<Rightarrow> u64 \<Rightarrow> 'a flow_result" where
  "flow_push st tot sq v now =
     (let (st1, tot1, out1) = release_expired st tot now;
          (st2, tot2, out2) = push_flow st1 tot1 sq v now
      in (st2, tot2, out1 @ out2))"

text \<open>
  The state a push works on: the flow table, the pending total and the flow's own state. A new
  flow that finds the table full drops the whole table first.
\<close>

type_synonym flow_key = "u64 \<times> u64"

definition open_flow ::
  "'a reassembler \<Rightarrow> flow_key \<Rightarrow> (flow_key, 'a flow_state) mapping \<times> int \<times> 'a flow_state" where
  "open_flow r key =
     (case Mapping.lookup (ra_flows r) key of
        Some st \<Rightarrow> (ra_flows r, ra_total r, st)
      | None \<Rightarrow>
          if max_tracked_flows \<le> Mapping.size (ra_flows r)
          then (Mapping.empty, 0, new_flow_state)
          else (ra_flows r, ra_total r, new_flow_state))"

definition push_at :: "'a reassembler \<Rightarrow> frame_header \<Rightarrow> 'a \<Rightarrow> u64 \<Rightarrow> 'a reassembler \<times> 'a list" where
  "push_at r h v now =
     (let key = (fh_sender h, fh_flow h);
          (flows, tot, st) = open_flow r key;
          (st', tot', out) = flow_push st tot (fh_seq h) v now
      in (\<lparr>ra_flows = Mapping.update key st' flows, ra_total = tot'\<rparr>, out))"

text \<open>\<^verbatim>\<open>Push\<close>: the clock is the time since the reassembler started, in whole milliseconds.\<close>

definition push :: "'a reassembler \<Rightarrow> frame_header \<Rightarrow> 'a \<Rightarrow> nat \<Rightarrow> 'a reassembler \<times> 'a list" where
  "push r h v elapsed_ns = push_at r h v (of_nat (elapsed_ns div 1000000))"


section \<open>Header and flow id: what they guarantee\<close>

lemma decode_encode_frame:
  "frame_len \<le> length dst \<Longrightarrow>
     decode_frame (snd (encode_frame h dst)) = Some (h, drop frame_len dst)"
  by (simp add: encode_frame_def decode_frame_layout)

lemma encode_decode_frame:
  assumes "decode_frame pkt = Some (h, p)"
  shows "length pkt = frame_len + length p" and "take 4 pkt = frame_magic" and "p = drop frame_len pkt"
  using assms by (auto simp: decode_frame_def frame_len_def split: if_splits)

lemma xorshift_inj:
  fixes v w :: "'a::len word"
  assumes "0 < k" and "v XOR drop_bit k v = w XOR drop_bit k w"
  shows "v = w"
proof -
  let ?d = "v XOR w"
  have "?d XOR drop_bit k ?d = (v XOR drop_bit k v) XOR (w XOR drop_bit k w)"
    by (rule bit_word_eqI) (auto simp: bit_simps)
  also have "\<dots> = 0"
    unfolding assms(2) by simp
  finally have step: "drop_bit k ?d = ?d"
    unfolding xor_eq_0_iff by (rule sym)
  have iter: "drop_bit (k * n) ?d = ?d" for n
  proof (induction n)
    case (Suc n)
    have "drop_bit (k * Suc n) ?d = drop_bit (k * n) (drop_bit k ?d)"
      by (simp only: drop_bit_drop_bit mult_Suc_right add.commute)
    with Suc.IH show ?case by (simp only: step)
  qed simp
  have "drop_bit (k * LENGTH('a)) ?d = 0"
    using assms(1) by (intro drop_bit_beyond) simp
  then show ?thesis
    unfolding iter xor_eq_0_iff .
qed

lemma word_mult_inj: "c * c' = 1 \<Longrightarrow> v * c = w * c \<Longrightarrow> v = (w :: 'a::len word)"
  by (metis mult.assoc mult.right_neutral)

lemma mix64_eqD: "mix64 v = mix64 w \<Longrightarrow> v = w"
proof -
  assume eq: "mix64 v = mix64 w"
  have odd1: "(0xbf58476d1ce4e5b9 :: u64) * 0x96de1b173f119089 = 1" by simp
  have odd2: "(0x94d049bb133111eb :: u64) * 0x319642b2d24d8ec3 = 1" by simp
  from eq show ?thesis
    unfolding mix64_def Let_def
    by (auto dest!: xorshift_inj [rotated] word_mult_inj [OF odd1] word_mult_inj [OF odd2])
qed


lemma sequencer_frame_payload:
  assumes "take 1 pkt \<noteq> [0x43]"
  shows "frame_payload (fst (fst (sequencer_frame s dst pkt))) = pkt
     \<and> (snd (fst (sequencer_frame s dst pkt)) \<longrightarrow>
          decode_frame (fst (fst (sequencer_frame s dst pkt)))
            = Some (the (fst (sequencer_next s pkt)), pkt))"
proof (cases "fst (sequencer_next s pkt)")
  case None
  then have "fst (sequencer_frame s dst pkt) = (pkt, False)"
    by (simp add: sequencer_frame_def split_beta split: prod.split)
  moreover have "decode_frame pkt = None"
    using assms by (cases pkt) (auto simp: decode_frame_def frame_magic_def)
  ultimately show ?thesis by (simp add: frame_payload_def)
next
  case (Some h)
  let ?buf = "if length dst < frame_len + length pkt then replicate (frame_len + length pkt) 0
    else take (frame_len + length pkt) dst"
  have "fst (sequencer_frame s dst pkt) = (take frame_len (snd (encode_frame h ?buf)) @ pkt, True)"
    using Some by (auto simp: sequencer_frame_def Let_def split: prod.split)
  moreover have "take frame_len (snd (encode_frame h ?buf)) =
      frame_magic @ be64 (fh_sender h) @ be64 (fh_flow h) @ be32 (fh_seq h)"
    by (auto simp: encode_frame_def frame_len_def frame_magic_def)
  ultimately show ?thesis
    using Some by (simp add: frame_payload_def decode_frame_layout)
qed

section \<open>Sequencer: what it guarantees\<close>

definition sequencer_inv :: "sequencer \<Rightarrow> bool" where
  "sequencer_inv s \<longleftrightarrow> sq_sender s \<noteq> 0 \<and> finite (Mapping.keys (sq_seqs s))
     \<and> Mapping.size (sq_seqs s) \<le> max_tracked_flows"

lemma sequencer_reset_inv: "sequencer_inv (sequencer_reset s)"
  by (simp add: sequencer_inv_def sequencer_reset_def Let_def)

lemma sequencer_next_inv: "sequencer_inv s \<Longrightarrow> sequencer_inv (snd (sequencer_next s pkt))"
proof (cases "tcp_flow_id pkt")
  case None
  then show "sequencer_inv s \<Longrightarrow> ?thesis" by (simp add: sequencer_next_def)
next
  case (Some flow)
  assume inv: "sequencer_inv s"
  let ?s = "if Mapping.lookup (sq_seqs s) flow = None \<and> max_tracked_flows \<le> Mapping.size (sq_seqs s)
            then sequencer_reset s else s"
  have inv': "sequencer_inv ?s" using inv by (simp add: sequencer_reset_inv)
  have fin: "finite (Mapping.keys (sq_seqs ?s))" using inv' by (simp only: sequencer_inv_def)
  have room: "Mapping.lookup (sq_seqs ?s) flow = None \<Longrightarrow> Mapping.size (sq_seqs ?s) < max_tracked_flows"
    by (auto simp: sequencer_reset_def Let_def max_tracked_flows_def)
  have "Mapping.size (Mapping.update flow q (sq_seqs ?s)) \<le> max_tracked_flows" for q
    using inv' size_update_le [OF fin, of flow q] room size_update_known [of "sq_seqs ?s" flow q]
    by (cases "Mapping.lookup (sq_seqs ?s) flow") (auto simp: sequencer_inv_def simp del: not_None_eq)
  then show ?thesis
    using inv' Some by (simp add: sequencer_next_def sequencer_inv_def Let_def)
qed

definition sequencer_step :: "sequencer \<Rightarrow> bytes \<Rightarrow> sequencer" where
  "sequencer_step s pkt = snd (sequencer_next s pkt)"

interpretation sqm: invariant_machine sequencer_step sequencer_inv
  by unfold_locales (simp add: sequencer_step_def sequencer_next_inv)

fun sequencer_run :: "sequencer \<Rightarrow> bytes list \<Rightarrow> frame_header option list" where
  "sequencer_run s [] = []"
| "sequencer_run s (p # ps) =
     (let (h, s') = sequencer_next s p in h # sequencer_run s' ps)"

lemma length_sequencer_run [simp]: "length (sequencer_run s ps) = length ps"
  by (induction ps arbitrary: s) (simp_all add: split_beta Let_def)

text \<open>The flows of a list of packets, and how often one of them occurs.\<close>

definition flows_of :: "bytes list \<Rightarrow> u64 set" where
  "flows_of ps = {f. \<exists>p\<in>set ps. tcp_flow_id p = Some f}"

definition flow_count :: "u64 \<Rightarrow> bytes list \<Rightarrow> nat" where
  "flow_count f ps = length (filter (\<lambda>p. tcp_flow_id p = Some f) ps)"

lemma finite_flows_of [simp]: "finite (flows_of ps)"
proof -
  have "flows_of ps \<subseteq> (\<lambda>p. the (tcp_flow_id p)) ` set ps"
    by (force simp: flows_of_def image_iff)
  then show ?thesis by (rule finite_subset) simp
qed

lemma sequencer_next_Some:
  assumes "tcp_flow_id p = Some f"
    and "Mapping.lookup (sq_seqs s) f = None \<Longrightarrow> Mapping.size (sq_seqs s) < max_tracked_flows"
  shows "sequencer_next s p =
    (Some \<lparr>fh_sender = sq_sender s, fh_flow = f, fh_seq = Mapping.lookup_default 0 (sq_seqs s) f\<rparr>,
     s\<lparr>sq_seqs := Mapping.update f (Mapping.lookup_default 0 (sq_seqs s) f + 1) (sq_seqs s)\<rparr>)"
  using assms by (cases "Mapping.lookup (sq_seqs s) f") (simp_all add: sequencer_next_def Let_def)

lemma sequencer_run_numbers:
  assumes "finite (Mapping.keys (sq_seqs s))"
    and "card (Mapping.keys (sq_seqs s) \<union> flows_of ps) \<le> max_tracked_flows"
    and "i < length ps" and "tcp_flow_id (ps ! i) = Some f"
  shows "sequencer_run s ps ! i =
    Some \<lparr>fh_sender = sq_sender s, fh_flow = f,
          fh_seq = Mapping.lookup_default 0 (sq_seqs s) f + of_nat (flow_count f (take i ps))\<rparr>"
  using assms
proof (induction ps arbitrary: s i)
  case (Cons p ps)
  show ?case
  proof (cases "tcp_flow_id p")
    case None
    then have next_s: "sequencer_next s p = (None, s)" by (simp add: sequencer_next_def)
    have fl: "flows_of (p # ps) = flows_of ps" using None by (auto simp: flows_of_def)
    obtain j where i: "i = Suc j" using Cons.prems(4) None by (cases i) auto
    show ?thesis
      using Cons.IH [of s j] Cons.prems None
      by (simp add: i next_s fl flow_count_def)
  next
    case (Some g)
    have g: "g \<in> flows_of (p # ps)" using Some by (auto simp: flows_of_def)
    have room: "Mapping.lookup (sq_seqs s) g = None \<Longrightarrow> Mapping.size (sq_seqs s) < max_tracked_flows"
    proof -
      assume "Mapping.lookup (sq_seqs s) g = None"
      then have "g \<notin> Mapping.keys (sq_seqs s)" by (simp add: in_keys_iff)
      then have "Mapping.keys (sq_seqs s) \<subset> Mapping.keys (sq_seqs s) \<union> flows_of (p # ps)"
        using g by blast
      then have "card (Mapping.keys (sq_seqs s)) < card (Mapping.keys (sq_seqs s) \<union> flows_of (p # ps))"
        using Cons.prems(1) by (intro psubset_card_mono) simp_all
      then show ?thesis using Cons.prems(2) by (simp add: Mapping.size_def)
    qed
    have step: "sequencer_next s p =
      (Some \<lparr>fh_sender = sq_sender s, fh_flow = g, fh_seq = Mapping.lookup_default 0 (sq_seqs s) g\<rparr>,
       s\<lparr>sq_seqs := Mapping.update g (Mapping.lookup_default 0 (sq_seqs s) g + 1) (sq_seqs s)\<rparr>)"
      using Some by (rule sequencer_next_Some) (rule room)
    let ?s = "snd (sequencer_next s p)"
    have fl: "flows_of (p # ps) = insert g (flows_of ps)" using Some by (auto simp: flows_of_def)
    have keys: "Mapping.keys (sq_seqs ?s) = insert g (Mapping.keys (sq_seqs s))"
      by (simp add: step)
    show ?thesis
    proof (cases i)
      case 0
      then show ?thesis using Cons.prems(4) Some by (simp add: step flow_count_def)
    next
      case (Suc j)
      have "sequencer_run ?s ps ! j =
        Some \<lparr>fh_sender = sq_sender ?s, fh_flow = f,
          fh_seq = Mapping.lookup_default 0 (sq_seqs ?s) f + of_nat (flow_count f (take j ps))\<rparr>"
        using Cons.IH [of ?s j] Cons.prems Suc by (simp add: keys fl)
      moreover have "Mapping.lookup_default 0 (sq_seqs ?s) f =
          Mapping.lookup_default 0 (sq_seqs s) f + (if g = f then 1 else 0)"
        by (simp add: step lookup_default_def lookup_update')
      ultimately show ?thesis
        using Suc Some by (simp add: step flow_count_def ac_simps)
    qed
  qed
qed simp

section \<open>Reassembler: one flow\<close>

text \<open>
  \<open>in_order e qs e'\<close>: delivering the sequence numbers \<open>qs\<close> moves the expected number from \<open>e\<close> to
  \<open>e'\<close>, each of them being the expected one or ahead of it by less than half the sequence space.
\<close>

fun in_order :: "u32 \<Rightarrow> u32 list \<Rightarrow> u32 \<Rightarrow> bool" where
  "in_order e [] e' \<longleftrightarrow> e = e'"
| "in_order e (q # qs) e' \<longleftrightarrow> (q = e \<or> is_forward q e) \<and> in_order (q + 1) qs e'"

lemma in_order_append:
  "in_order e qs e' \<Longrightarrow> in_order e' qs' e'' \<Longrightarrow> in_order e (qs @ qs') e''"
  by (induction qs arbitrary: e) auto

text \<open>
  \<open>moves st ds st'\<close>: the pending packets \<open>ds\<close> were delivered in order, and nothing else left or
  entered the pending list.
\<close>

definition moves :: "'a flow_state \<Rightarrow> (u32 \<times> 'a) list \<Rightarrow> 'a flow_state \<Rightarrow> bool" where
  "moves st ds st' \<longleftrightarrow> in_order (fs_expected st) (map fst ds) (fs_expected st')
     \<and> mset (fs_pending st) = mset (fs_pending st') + mset ds"

lemma moves_refl [simp]: "moves st [] st"
  by (simp add: moves_def)

lemma moves_trans: "moves st ds st' \<Longrightarrow> moves st' ds' st'' \<Longrightarrow> moves st (ds @ ds') st''"
  by (auto simp: moves_def intro: in_order_append)

lemma moves_gap [simp]:
  "moves st ds (st'\<lparr>fs_gap_set := g\<rparr>) = moves st ds st'"
  "moves st ds (st'\<lparr>fs_gap_ms := t\<rparr>) = moves st ds st'"
  "moves (st\<lparr>fs_gap_set := g\<rparr>) ds st' = moves st ds st'"
  "moves (st\<lparr>fs_gap_ms := t\<rparr>) ds st' = moves st ds st'"
  by (simp_all add: moves_def)

lemma moves_length: "moves st ds st' \<Longrightarrow> length (fs_pending st) = length (fs_pending st') + length ds"
  unfolding moves_def by (metis size_mset size_union)

lemma moves_take:
  assumes "i < length (fs_pending st)" and "p = fs_pending st ! i"
    and "fst p = fs_expected st \<or> is_forward (fst p) (fs_expected st)"
    and "fs_pending st' = swap_remove (fs_pending st) i" and "fs_expected st' = fst p + 1"
  shows "moves st [p] st'"
  using assms by (simp add: moves_def mset_swap_remove)

lemma drain_contiguous_moves:
  "drain_contiguous st tot = (st', tot', out) \<Longrightarrow>
     \<exists>ds. out = map snd ds \<and> moves st ds st' \<and> tot' = tot - int (length ds)
        \<and> fs_gap_set st' = fs_gap_set st \<and> fs_expected st' \<notin> fst ` set (fs_pending st')"
proof (induction st tot arbitrary: st' tot' out rule: drain_contiguous.induct)
  case (1 st tot)
  show ?case
  proof (cases "find_index (\<lambda>p. fst p = fs_expected st) (fs_pending st)")
    case None
    with 1(2) have "st' = st" "tot' = tot" "out = []"
      by (simp_all add: drain_contiguous.simps [of st])
    with None show ?thesis by (intro exI [of _ "[]"]) (auto simp: find_index_None)
  next
    case (Some i)
    let ?p = "fs_pending st ! i"
    let ?st = "st\<lparr>fs_pending := swap_remove (fs_pending st) i, fs_expected := fs_expected st + 1\<rparr>"
    obtain st2 t2 o2 where rec: "drain_contiguous ?st (tot - 1) = (st2, t2, o2)"
      by (cases "drain_contiguous ?st (tot - 1)") auto
    have res: "st' = st2" "tot' = t2" "out = snd ?p # o2"
      using 1(2) Some rec by (simp_all add: drain_contiguous.simps [of st])
    obtain ds where ds: "o2 = map snd ds" "moves ?st ds st2" "t2 = tot - 1 - int (length ds)"
      "fs_gap_set st2 = fs_gap_set ?st" "fs_expected st2 \<notin> fst ` set (fs_pending st2)"
      using "1.IH" [OF Some refl refl rec] by blast
    have "moves st [?p] ?st"
      using find_index_Some [OF Some] by (intro moves_take [of i]) simp_all
    from moves_trans [OF this ds(2)] show ?thesis
      using ds res by (intro exI [of _ "?p # ds"]) simp
  qed
qed

lemma lowest_from_some:
  "lowest_from e i best ps = Some (j, d) \<Longrightarrow>
     best = Some (j, d) \<or> (i \<le> j \<and> j < i + length ps \<and> is_forward (fst (ps ! (j - i))) e
       \<and> d = fst (ps ! (j - i)) - e)"
proof (induction ps arbitrary: i best)
  case (Cons p ps)
  from Cons.prems have "lowest_from e (Suc i) best ps = Some (j, d)
      \<or> (is_forward (fst p) e \<and> lowest_from e (Suc i) (Some (i, fst p - e)) ps = Some (j, d))"
    by (auto simp: Let_def split: if_splits)
  then show ?case
  proof
    assume "lowest_from e (Suc i) best ps = Some (j, d)"
    from Cons.IH [OF this] show ?thesis by (auto simp: nth_Cons' le_Suc_eq Suc_diff_le
      intro: diff_Suc_less)
  next
    assume *: "is_forward (fst p) e \<and> lowest_from e (Suc i) (Some (i, fst p - e)) ps = Some (j, d)"
    from Cons.IH [OF conjunct2 [OF this]] show ?thesis using * by auto
  qed
qed simp

lemma lowest_from_none:
  "lowest_from e i best ps = None \<longleftrightarrow> best = None \<and> (\<forall>p\<in>set ps. \<not> is_forward (fst p) e)"
proof -
  have keep: "lowest_from e i (Some b) ps \<noteq> None" for i b ps
    by (induction ps arbitrary: i b) (auto simp: Let_def)
  show ?thesis
    by (induction ps arbitrary: i best)
      (auto simp: Let_def keep simp del: not_None_eq split: option.splits prod.splits)
qed

lemma lowest_from_least:
  "lowest_from e i best ps = Some (j, d) \<Longrightarrow>
     (\<forall>bj bd. best = Some (bj, bd) \<longrightarrow> d \<le> bd)
     \<and> (\<forall>p\<in>set ps. is_forward (fst p) e \<longrightarrow> d \<le> fst p - e)"
proof (induction ps arbitrary: i best)
  case (Cons p ps)
  then show ?case
    by (fastforce simp: Let_def split: if_splits option.splits prod.splits)
qed simp

lemma release_lowest_moves:
  assumes "release_lowest st tot now = (st', tot', out)"
  shows "\<exists>ds. out = map snd ds \<and> moves st ds st' \<and> tot' = tot - int (length ds)
     \<and> (ds = [] \<longrightarrow> (\<forall>p\<in>set (fs_pending st). \<not> is_forward (fst p) (fs_expected st)))"
proof (cases "lowest_from (fs_expected st) 0 None (fs_pending st)")
  case None
  with assms show ?thesis
    by (intro exI [of _ "[]"]) (auto simp: release_lowest_def lowest_from_none)
next
  case (Some x)
  obtain i d where x: "x = (i, d)" by (cases x)
  let ?p = "fs_pending st ! i"
  let ?st = "st\<lparr>fs_pending := swap_remove (fs_pending st) i, fs_expected := fst ?p + 1,
               fs_gap_set := False\<rparr>"
  from lowest_from_some [OF Some [unfolded x]]
  have i: "i < length (fs_pending st)" "is_forward (fst ?p) (fs_expected st)" by auto
  obtain st2 t2 o2 where rec: "drain_contiguous ?st (tot - 1) = (st2, t2, o2)"
    by (cases "drain_contiguous ?st (tot - 1)") auto
  obtain ds where ds: "o2 = map snd ds" "moves ?st ds st2" "t2 = tot - 1 - int (length ds)"
    using drain_contiguous_moves [OF rec] by blast
  have "moves st [?p] ?st"
    using i by (intro moves_take [of i]) simp_all
  from moves_trans [OF this ds(2)] show ?thesis
    using assms Some x rec ds
    by (intro exI [of _ "?p # ds"]) (auto simp: release_lowest_def Let_def)
qed

lemma release_expired_moves:
  assumes "release_expired st tot now = (st', tot', out)"
  shows "\<exists>ds. out = map snd ds \<and> moves st ds st' \<and> tot' = tot - int (length ds)"
proof (cases "fs_gap_set st \<and> gap_release_ms \<le> now - fs_gap_ms st")
  case True
  then show ?thesis
    using assms release_lowest_moves [of st tot now st' tot' out] by (auto simp: release_expired_def)
next
  case False
  then show ?thesis
    using assms by (intro exI [of _ "[]"]) (auto simp: release_expired_def)
qed


text \<open>
  A packet is accepted when it is the expected one, or ahead of it and not already pending;
  anything else is a duplicate or a straggler and leaves the flow as it was.
\<close>

definition accepts :: "'a flow_state \<Rightarrow> u32 \<Rightarrow> bool" where
  "accepts st sq \<longleftrightarrow> sq = fs_expected st
     \<or> is_forward sq (fs_expected st) \<and> sq \<notin> fst ` set (fs_pending st)"

definition takes :: "'a flow_state \<Rightarrow> u32 \<times> 'a \<Rightarrow> (u32 \<times> 'a) list \<Rightarrow> 'a flow_state \<Rightarrow> bool" where
  "takes st p ds st' \<longleftrightarrow> in_order (fs_expected st) (map fst ds) (fs_expected st')
     \<and> add_mset p (mset (fs_pending st)) = mset (fs_pending st') + mset ds"

lemma takes_append:
  "takes (st\<lparr>fs_pending := ps\<rparr>) p [] (st\<lparr>fs_pending := ps @ [p]\<rparr>)"
  by (simp add: takes_def)

lemma takes_first: "takes st p ds st' \<Longrightarrow> moves st' ds' st'' \<Longrightarrow> takes st p (ds @ ds') st''"
  by (auto simp: takes_def moves_def intro: in_order_append)

lemma takes_last: "moves st ds st' \<Longrightarrow> takes st' p ds' st'' \<Longrightarrow> takes st p (ds @ ds') st''"
  by (auto simp: takes_def moves_def intro: in_order_append)

lemma takes_gap [simp]:
  "takes st p ds (st'\<lparr>fs_gap_set := g\<rparr>) = takes st p ds st'"
  "takes st p ds (st'\<lparr>fs_gap_ms := t\<rparr>) = takes st p ds st'"
  by (simp_all add: takes_def)

lemma distinct_fst_subset:
  assumes "mset ys \<subseteq># mset xs" and "distinct (map fst xs)"
  shows "distinct (map fst ys)"
proof -
  obtain zs where "mset xs = mset (ys @ zs)"
    using assms(1) by (metis ex_mset mset_append subset_mset.add_diff_inverse)
  then have "mset (map fst xs) = mset (map fst (ys @ zs))"
    by (metis mset_map)
  with assms(2) have "distinct (map fst (ys @ zs))"
    using mset_eq_imp_distinct_iff by blast
  then show ?thesis by simp
qed

lemma moves_distinct:
  "moves st ds st' \<Longrightarrow> distinct (map fst (fs_pending st)) \<Longrightarrow> distinct (map fst (fs_pending st'))"
  by (rule distinct_fst_subset [of "fs_pending st'" "fs_pending st"]) (auto simp: moves_def)

lemma takes_distinct:
  "takes st p ds st' \<Longrightarrow> fst p \<notin> fst ` set (fs_pending st) \<Longrightarrow> distinct (map fst (fs_pending st))
     \<Longrightarrow> distinct (map fst (fs_pending st'))"
  by (rule distinct_fst_subset [of "fs_pending st'" "p # fs_pending st"]) (auto simp: takes_def)

lemma push_flow_refused:
  "\<not> accepts st sq \<Longrightarrow> push_flow st tot sq v now = (st, tot, [])"
  by (auto simp: push_flow_def accepts_def)

lemma push_flow_expected:
  assumes "push_flow st tot (fs_expected st) v now = (st', tot', out)"
  shows "\<exists>ds. out = map snd ds \<and> takes st (fs_expected st, v) ds st'
     \<and> tot' = tot + 1 - int (length ds) \<and> tot' \<le> tot
     \<and> (distinct (map fst (fs_pending st)) \<longrightarrow> distinct (map fst (fs_pending st')))"
proof -
  let ?st = "st\<lparr>fs_expected := fs_expected st + 1, fs_gap_set := False\<rparr>"
  obtain st2 t2 o2 where rec: "drain_contiguous ?st tot = (st2, t2, o2)" by (rule prod_cases3)
  obtain ds where ds: "o2 = map snd ds" "moves ?st ds st2" "t2 = tot - int (length ds)"
    using drain_contiguous_moves [OF rec] by blast
  have "takes st (fs_expected st, v) [(fs_expected st, v)] ?st"
    by (simp add: takes_def)
  from takes_first [OF this ds(2)] moves_distinct [OF ds(2)] show ?thesis
    using assms rec ds
    by (intro exI [of _ "(fs_expected st, v) # ds"]) (auto simp: push_flow_def Let_def)
qed

text \<open>The three guarded releases of \<^verbatim>\<open>PushAt\<close>.\<close>

lemma guarded_release:
  assumes "(if c then release_lowest st tot now else (st, tot, [])) = (st', tot', out)"
  obtains ds where "out = map snd ds" "moves st ds st'" "tot' = tot - int (length ds)"
    "ds = [] \<Longrightarrow> c \<Longrightarrow> \<forall>p\<in>set (fs_pending st). \<not> is_forward (fst p) (fs_expected st)"
proof (cases c)
  case True
  with assms have "release_lowest st tot now = (st', tot', out)" by simp
  from release_lowest_moves [OF this] show ?thesis by (auto intro!: that)
next
  case False
  with assms show ?thesis by (intro that [of "[]"]) auto
qed

lemma moves_Nil: "moves st [] st' \<longleftrightarrow>
    fs_expected st' = fs_expected st \<and> mset (fs_pending st') = mset (fs_pending st)"
  by (auto simp: moves_def)

lemma push_flow_ahead:
  assumes res: "push_flow st tot sq v now = (st', tot', out)"
    and fwd: "is_forward sq (fs_expected st)" and new: "sq \<notin> fst ` set (fs_pending st)"
    and cap: "tot \<le> max_pending_total"
  shows "\<exists>ds. out = map snd ds \<and> takes st (sq, v) ds st'
     \<and> tot' = tot + 1 - int (length ds) \<and> tot' \<le> max_pending_total"
proof -
  obtain st1 t1 o1 where r1: "(if max_pending_per_flow \<le> length (fs_pending st)
      then release_lowest st tot now else (st, tot, [])) = (st1, t1, o1)" by (rule prod_cases3)
  obtain d1 where d1: "o1 = map snd d1" "moves st d1 st1" "t1 = tot - int (length d1)"
    by (rule guarded_release [OF r1])
  have ne: "sq \<noteq> fs_expected st" using fwd by (simp add: is_forward_def)
  have nd: "\<not> (\<exists>p\<in>set (fs_pending st). fst p = sq)" using new by force
  have full: "max_pending_total \<le> t1 \<Longrightarrow> d1 = []"
    using cap d1(3) by (cases d1) auto
  show ?thesis
  proof (cases "max_pending_total \<le> t1 \<and> fs_pending st1 = []")
    case True
    with full have "d1 = []" by simp
    with d1 True have "fs_pending st = []" "fs_expected st1 = fs_expected st"
      by (simp_all add: moves_Nil)
    then show ?thesis
      using res True r1 ne nd fwd d1 \<open>d1 = []\<close> cap
      by (intro exI [of _ "[(sq, v)]"]) (auto simp: push_flow_def Let_def takes_def)
  next
    case False
    obtain st2 t2 o2 where r2: "(if max_pending_total \<le> t1 then release_lowest st1 t1 now
        else (st1, t1, [])) = (st2, t2, o2)" by (rule prod_cases3)
    obtain d2 where d2: "o2 = map snd d2" "moves st1 d2 st2" "t2 = t1 - int (length d2)"
      by (rule guarded_release [OF r2])
    have idle: "fs_expected st2 = fs_expected st \<and> t2 = max_pending_total" if "max_pending_total \<le> t2"
    proof -
      have "d1 = []" using that d2(3) full by simp
      moreover have "d2 = []" using that d1(3) d2(3) cap by (cases d2) auto
      ultimately show ?thesis using that d1 d2 cap by (auto simp: moves_Nil)
    qed
    let ?st3 = "st2\<lparr>fs_pending := fs_pending st2 @ [(sq, v)]\<rparr>"
    obtain st4 t4 o4 where r4: "(if max_pending_total < t2 + 1 then release_lowest ?st3 (t2 + 1) now
        else (?st3, t2 + 1, [])) = (st4, t4, o4)" by (rule prod_cases3)
    obtain d4 where d4: "o4 = map snd d4" "moves ?st3 d4 st4" "t4 = t2 + 1 - int (length d4)"
      and some: "d4 = [] \<Longrightarrow> max_pending_total < t2 + 1 \<Longrightarrow>
        \<forall>p\<in>set (fs_pending ?st3). \<not> is_forward (fst p) (fs_expected ?st3)"
      by (rule guarded_release [OF r4]) blast
    have "t4 \<le> max_pending_total"
    proof (cases "max_pending_total \<le> t2")
      case True
      then have "d4 \<noteq> []" using some idle fwd by auto
      then show ?thesis using d4(3) idle [OF True] by (cases d4) auto
    qed (simp add: d4(3))
    moreover have "takes st2 (sq, v) [] ?st3" by (simp add: takes_def)
    from takes_first [OF takes_last [OF moves_trans [OF d1(2) d2(2)] this] d4(2)]
    have "takes st (sq, v) (d1 @ d2 @ d4) st4" by simp
    moreover have "st' = (if fs_gap_set st4 then st4 else st4\<lparr>fs_gap_set := True, fs_gap_ms := now\<rparr>)
        \<and> tot' = t4 \<and> out = o1 @ o2 @ o4"
      using res ne fwd nd False r1 r2 r4 by (simp add: push_flow_def Let_def)
    ultimately show ?thesis
      using d1 d2 d4 by (intro exI [of _ "d1 @ d2 @ d4"]) auto
  qed
qed

lemma push_flow_accepted:
  assumes "push_flow st tot sq v now = (st', tot', out)"
    and "accepts st sq" and "tot \<le> max_pending_total"
  obtains ds where "out = map snd ds" "takes st (sq, v) ds st'" "tot' = tot + 1 - int (length ds)"
    "tot' \<le> max_pending_total"
    "distinct (map fst (fs_pending st)) \<Longrightarrow> distinct (map fst (fs_pending st'))"
proof (cases "sq = fs_expected st")
  case True
  obtain ds where "out = map snd ds" "takes st (fs_expected st, v) ds st'"
    "tot' = tot + 1 - int (length ds)" "tot' \<le> tot"
    "distinct (map fst (fs_pending st)) \<longrightarrow> distinct (map fst (fs_pending st'))"
    using push_flow_expected [OF assms(1) [unfolded True]] by blast
  with assms(3) True that show ?thesis by auto
next
  case False
  with assms(2) have new: "is_forward sq (fs_expected st)" "sq \<notin> fst ` set (fs_pending st)"
    by (simp_all add: accepts_def)
  obtain ds where "out = map snd ds" "takes st (sq, v) ds st'"
    "tot' = tot + 1 - int (length ds)" "tot' \<le> max_pending_total"
    using push_flow_ahead [OF assms(1) new assms(3)] by blast
  moreover from this(2) new(2)
  have "distinct (map fst (fs_pending st)) \<Longrightarrow> distinct (map fst (fs_pending st'))"
    using takes_distinct by fastforce
  ultimately show ?thesis using that by blast
qed

text \<open>
  One push on a flow: what it delivers continues the flow's order, and pending packets and the new
  one are delivered, kept, or (the new one only) dropped.
\<close>

lemma flow_push_spec:
  assumes res: "flow_push st tot sq v now = (st', tot', out)" and cap: "tot \<le> max_pending_total"
  obtains ds new where "out = map snd ds" "in_order (fs_expected st) (map fst ds) (fs_expected st')"
    "new = [] \<or> new = [(sq, v)]"
    "mset (fs_pending st) + mset new = mset (fs_pending st') + mset ds"
    "distinct (map fst (fs_pending st)) \<Longrightarrow> distinct (map fst (fs_pending st'))"
    "tot' = tot - int (length (fs_pending st)) + int (length (fs_pending st'))"
    "tot' \<le> max_pending_total"
proof -
  obtain st1 t1 o1 where r1: "release_expired st tot now = (st1, t1, o1)" by (rule prod_cases3)
  obtain d1 where d1: "o1 = map snd d1" "moves st d1 st1" "t1 = tot - int (length d1)"
    using release_expired_moves [OF r1] by blast
  have cap1: "t1 \<le> max_pending_total" using cap d1(3) by simp
  obtain st2 t2 o2 where r2: "push_flow st1 t1 sq v now = (st2, t2, o2)" by (rule prod_cases3)
  have out: "st' = st2" "tot' = t2" "out = o1 @ o2"
    using res r1 r2 by (simp_all add: flow_push_def)
  show ?thesis
  proof (cases "accepts st1 sq")
    case True
    obtain d2 where d2: "o2 = map snd d2" "takes st1 (sq, v) d2 st2" "t2 = t1 + 1 - int (length d2)"
      "t2 \<le> max_pending_total"
      "distinct (map fst (fs_pending st1)) \<Longrightarrow> distinct (map fst (fs_pending st2))"
      using push_flow_accepted [OF r2 True cap1] by metis
    have tk: "takes st (sq, v) (d1 @ d2) st2" by (rule takes_last [OF d1(2) d2(2)])
    from arg_cong [OF conjunct2 [OF tk [unfolded takes_def]], of size]
    have "Suc (length (fs_pending st)) = length (fs_pending st2) + length (d1 @ d2)" by simp
    then show ?thesis
      using tk d1 d2 moves_distinct [OF d1(2)]
      by (intro that [of "d1 @ d2" "[(sq, v)]"]) (auto simp: out takes_def)
  next
    case False
    with r2 have "st2 = st1" "t2 = t1" "o2 = []" by (simp_all add: push_flow_refused)
    then show ?thesis
      using d1 cap1 moves_length [OF d1(2)] moves_distinct [OF d1(2)]
      by (intro that [of d1 "[]"]) (auto simp: out moves_def)
  qed
qed


section \<open>Reassembler: the flow table\<close>

abbreviation key_of :: "frame_header \<Rightarrow> flow_key" where
  "key_of h \<equiv> (fh_sender h, fh_flow h)"

definition flow_at :: "(flow_key, 'a flow_state) mapping \<Rightarrow> flow_key \<Rightarrow> 'a flow_state" where
  "flow_at fl k = (case Mapping.lookup fl k of Some st \<Rightarrow> st | None \<Rightarrow> new_flow_state)"

definition pending_count :: "(flow_key, 'a flow_state) mapping \<Rightarrow> int" where
  "pending_count fl = (\<Sum>k\<in>Mapping.keys fl. int (length (fs_pending (flow_at fl k))))"

definition table_inv :: "(flow_key, 'a flow_state) mapping \<Rightarrow> int \<Rightarrow> bool" where
  "table_inv fl tot \<longleftrightarrow> finite (Mapping.keys fl) \<and> Mapping.size fl \<le> max_tracked_flows
     \<and> tot = pending_count fl \<and> tot \<le> max_pending_total
     \<and> (\<forall>k. distinct (map fst (fs_pending (flow_at fl k))))"

definition ra_inv :: "'a reassembler \<Rightarrow> bool" where
  "ra_inv r \<longleftrightarrow> table_inv (ra_flows r) (ra_total r)"

lemma flow_at_empty [simp]: "flow_at Mapping.empty k = new_flow_state"
  by (simp add: flow_at_def)

lemma flow_at_update: "flow_at (Mapping.update k st fl) k' = (if k = k' then st else flow_at fl k')"
  by (simp add: flow_at_def lookup_update')

lemma fs_pending_new [simp]: "fs_pending new_flow_state = []" "fs_expected new_flow_state = 0"
  "fs_gap_set new_flow_state = False"
  by (simp_all add: new_flow_state_def)

lemma pending_count_update:
  assumes "finite (Mapping.keys fl)"
  shows "pending_count (Mapping.update k st fl) =
    pending_count fl - int (length (fs_pending (flow_at fl k))) + int (length (fs_pending st))"
proof (cases "k \<in> Mapping.keys fl")
  case True
  have "(\<Sum>x\<in>Mapping.keys fl - {k}. int (length (fs_pending (flow_at (Mapping.update k st fl) x)))) =
        (\<Sum>x\<in>Mapping.keys fl - {k}. int (length (fs_pending (flow_at fl x))))"
    by (rule sum.cong) (auto simp: flow_at_update)
  then show ?thesis
    using assms True by (simp add: pending_count_def sum.remove [of _ k] insert_absorb flow_at_update)
next
  case False
  then have "flow_at fl k = new_flow_state"
    by (simp add: flow_at_def in_keys_iff)
  moreover have "(\<Sum>x\<in>Mapping.keys fl. int (length (fs_pending (flow_at (Mapping.update k st fl) x)))) =
        (\<Sum>x\<in>Mapping.keys fl. int (length (fs_pending (flow_at fl x))))"
    using False by (intro sum.cong) (auto simp: flow_at_update)
  ultimately show ?thesis
    using assms False by (simp add: pending_count_def flow_at_update)
qed

lemma new_reassembler_inv: "ra_inv new_reassembler"
  by (simp add: ra_inv_def table_inv_def new_reassembler_def pending_count_def max_pending_total_def)

lemma table_inv_empty: "table_inv Mapping.empty 0"
  by (simp add: table_inv_def pending_count_def max_pending_total_def)

lemma open_flow_inv:
  assumes "ra_inv r" and "open_flow r k = (fl, tot, st)"
  shows "table_inv fl tot" and "st = flow_at fl k"
    and "Mapping.lookup fl k = None \<Longrightarrow> Mapping.size fl < max_tracked_flows"
  using assms by (auto simp: open_flow_def ra_inv_def flow_at_def table_inv_empty max_tracked_flows_def
      split: option.splits if_splits)

lemma table_inv_update:
  assumes "table_inv fl tot" and "Mapping.lookup fl k = None \<Longrightarrow> Mapping.size fl < max_tracked_flows"
    and "tot' = tot - int (length (fs_pending (flow_at fl k))) + int (length (fs_pending st'))"
    and "tot' \<le> max_pending_total" and "distinct (map fst (fs_pending st'))"
  shows "table_inv (Mapping.update k st' fl) tot'"
proof -
  have fin: "finite (Mapping.keys fl)" using assms(1) by (simp only: table_inv_def)
  have "Mapping.size (Mapping.update k st' fl) \<le> max_tracked_flows"
    using assms(1,2) size_update_le [OF fin, of k st'] size_update_known [of fl k st']
    by (cases "Mapping.lookup fl k") (auto simp: table_inv_def)
  then show ?thesis
    using assms fin pending_count_update [OF fin, of k st'] by (simp add: table_inv_def flow_at_update)
qed

lemma push_at_inv: "ra_inv r \<Longrightarrow> ra_inv (fst (push_at r h v now))"
proof -
  assume inv: "ra_inv r"
  obtain fl tot st where op: "open_flow r (key_of h) = (fl, tot, st)" by (rule prod_cases3)
  note opi = open_flow_inv [OF inv op]
  obtain st' tot' out where fp: "flow_push st tot (fh_seq h) v now = (st', tot', out)"
    by (rule prod_cases3)
  have cap: "tot \<le> max_pending_total" using opi(1) by (auto simp: table_inv_def)
  have "distinct (map fst (fs_pending st))" using opi(1,2) by (simp add: table_inv_def)
  then have "distinct (map fst (fs_pending st'))"
    "tot' = tot - int (length (fs_pending (flow_at fl (key_of h)))) + int (length (fs_pending st'))"
    "tot' \<le> max_pending_total"
    using opi(2) by - (rule flow_push_spec [OF fp cap], simp)+
  then have "table_inv (Mapping.update (key_of h) st' fl) tot'"
    using opi(1,3) by (intro table_inv_update) simp_all
  then show ?thesis
    using op fp by (simp add: push_at_def ra_inv_def)
qed

definition ra_step :: "'a reassembler \<Rightarrow> frame_header \<times> 'a \<times> u64 \<Rightarrow> 'a reassembler" where
  "ra_step r e = (case e of (h, v, now) \<Rightarrow> fst (push_at r h v now))"

interpretation ram: invariant_machine ra_step ra_inv
  by unfold_locales (simp add: ra_step_def push_at_inv split: prod.split)

fun ra_run :: "'a reassembler \<Rightarrow> (frame_header \<times> 'a \<times> u64) list \<Rightarrow> 'a reassembler \<times> 'a list" where
  "ra_run r [] = (r, [])"
| "ra_run r ((h, v, now) # es) =
     (let (r1, out1) = push_at r h v now; (r2, out2) = ra_run r1 es in (r2, out1 @ out2))"

lemma ra_run_append:
  "ra_run r (es @ fs) = (let (r1, out1) = ra_run r es; (r2, out2) = ra_run r1 fs in (r2, out1 @ out2))"
  by (induction es arbitrary: r) (auto split: prod.splits)

lemma ra_run_state: "fst (ra_run r es) = run ra_step r es"
proof (induction es arbitrary: r)
  case (Cons e es)
  then show ?case by (cases e) (simp add: ra_step_def split_beta)
qed simp


text \<open>A push that does not drop the table changes the flow it addresses and no other.\<close>

definition has_room :: "'a reassembler \<Rightarrow> flow_key \<Rightarrow> bool" where
  "has_room r k \<longleftrightarrow> Mapping.lookup (ra_flows r) k \<noteq> None \<or> Mapping.size (ra_flows r) < max_tracked_flows"

abbreviation flow_of :: "'a reassembler \<Rightarrow> flow_key \<Rightarrow> 'a flow_state" where
  "flow_of r \<equiv> flow_at (ra_flows r)"

lemma push_at_room:
  assumes "has_room r (key_of h)"
    and "flow_push (flow_of r (key_of h)) (ra_total r) (fh_seq h) v now = (st', tot', out)"
  shows "push_at r h v now = (\<lparr>ra_flows = Mapping.update (key_of h) st' (ra_flows r), ra_total = tot'\<rparr>, out)"
  using assms by (auto simp: push_at_def open_flow_def has_room_def flow_at_def split: option.splits)

lemma push_at_flow:
  assumes inv: "ra_inv r" and room: "has_room r (key_of h)" and res: "push_at r h v now = (r', out)"
  obtains ds new where "out = map snd ds"
    "in_order (fs_expected (flow_of r (key_of h))) (map fst ds) (fs_expected (flow_of r' (key_of h)))"
    "new = [] \<or> new = [(fh_seq h, v)]"
    "mset (fs_pending (flow_of r (key_of h))) + mset new = mset (fs_pending (flow_of r' (key_of h))) + mset ds"
    "\<And>k. k \<noteq> key_of h \<Longrightarrow> flow_of r' k = flow_of r k"
    "Mapping.keys (ra_flows r') = insert (key_of h) (Mapping.keys (ra_flows r))"
proof -
  obtain st' tot' out' where fp:
    "flow_push (flow_of r (key_of h)) (ra_total r) (fh_seq h) v now = (st', tot', out')"
    by (rule prod_cases3)
  have r': "r' = \<lparr>ra_flows = Mapping.update (key_of h) st' (ra_flows r), ra_total = tot'\<rparr>" "out = out'"
    using push_at_room [OF room fp] res by simp_all
  have cap: "ra_total r \<le> max_pending_total" using inv by (auto simp: ra_inv_def table_inv_def)
  obtain ds new where "out' = map snd ds"
    "in_order (fs_expected (flow_of r (key_of h))) (map fst ds) (fs_expected st')"
    "new = [] \<or> new = [(fh_seq h, v)]"
    "mset (fs_pending (flow_of r (key_of h))) + mset new = mset (fs_pending st') + mset ds"
    by (rule flow_push_spec [OF fp cap])
  then show ?thesis
    by (intro that) (auto simp: r' flow_at_update)
qed

text \<open>
  To say which packet came out where, the packets of a run carry their own header. \<open>to_flow k\<close>
  keeps those of one flow.
\<close>

type_synonym 'b tagged = "frame_header \<times> 'b"

definition to_flow :: "flow_key \<Rightarrow> 'b tagged list \<Rightarrow> 'b tagged list" where
  "to_flow k vs = filter (\<lambda>v. key_of (fst v) = k) vs"

definition tagged_run :: "'b tagged reassembler \<Rightarrow> ('b tagged \<times> u64) list \<Rightarrow> 'b tagged reassembler \<times> 'b tagged list" where
  "tagged_run r es = ra_run r (map (\<lambda>(v, now). (fst v, v, now)) es)"

definition tags_ok :: "'b tagged reassembler \<Rightarrow> bool" where
  "tags_ok r \<longleftrightarrow> (\<forall>k. \<forall>p\<in>set (fs_pending (flow_of r k)). key_of (fst (snd p)) = k \<and> fh_seq (fst (snd p)) = fst p)"

lemma tagged_run_Nil [simp]: "tagged_run r [] = (r, [])"
  by (simp add: tagged_run_def)

lemma tagged_run_Cons: "tagged_run r ((v, now) # es) =
    (let (r1, out1) = push_at r (fst v) v now; (r2, out2) = tagged_run r1 es in (r2, out1 @ out2))"
  by (simp add: tagged_run_def)

lemma to_flow_append [simp]: "to_flow k (xs @ ys) = to_flow k xs @ to_flow k ys"
  by (simp add: to_flow_def)

lemma to_flow_Nil [simp]: "to_flow k [] = []"
  by (simp add: to_flow_def)

lemma to_flow_all: "(\<And>v. v \<in> set vs \<Longrightarrow> key_of (fst v) = k') \<Longrightarrow> to_flow k vs = (if k = k' then vs else [])"
  by (induction vs) (auto simp: to_flow_def)

lemma push_at_tagged:
  assumes "ra_inv r" and "has_room r (key_of (fst v))" and "tags_ok r"
    and res: "push_at r (fst v) v now = (r', out)"
  shows "tags_ok r'"
    and "in_order (fs_expected (flow_of r k)) (map (fh_seq \<circ> fst) (to_flow k out)) (fs_expected (flow_of r' k))"
    and "mset (to_flow k out) + mset (map snd (fs_pending (flow_of r' k)))
       \<subseteq># mset (map snd (fs_pending (flow_of r k))) + mset (to_flow k [v])"
proof -
  let ?k = "key_of (fst v)"
  obtain ds new where p: "out = map snd ds"
    "in_order (fs_expected (flow_of r ?k)) (map fst ds) (fs_expected (flow_of r' ?k))"
    "new = [] \<or> new = [(fh_seq (fst v), v)]"
    "mset (fs_pending (flow_of r ?k)) + mset new = mset (fs_pending (flow_of r' ?k)) + mset ds"
    "\<And>k. k \<noteq> ?k \<Longrightarrow> flow_of r' k = flow_of r k"
    "Mapping.keys (ra_flows r') = insert ?k (Mapping.keys (ra_flows r))"
    by (rule push_at_flow [OF assms(1,2) res]) (rule that)
  have tags: "key_of (fst (snd q)) = ?k \<and> fh_seq (fst (snd q)) = fst q"
    if "q \<in> set (fs_pending (flow_of r' ?k)) \<union> set ds" for q
  proof -
    have "q \<in># mset (fs_pending (flow_of r ?k)) + mset new" using that p(4) by auto
    then show ?thesis using assms(3) p(3) by (auto simp: tags_ok_def)
  qed
  show "tags_ok r'"
    unfolding tags_ok_def
  proof (intro allI ballI)
    fix k q assume q: "q \<in> set (fs_pending (flow_of r' k))"
    show "key_of (fst (snd q)) = k \<and> fh_seq (fst (snd q)) = fst q"
    proof (cases "k = ?k")
      case True
      with q tags [of q] show ?thesis by blast
    next
      case False
      with q have "q \<in> set (fs_pending (flow_of r k))" by (simp only: p(5) not_False_eq_True)
      with assms(3) show ?thesis unfolding tags_ok_def by blast
    qed
  qed
  have sel: "to_flow k out = (if k = ?k then map snd ds else [])"
    unfolding p(1) by (rule to_flow_all) (use tags in \<open>force simp del: prod.inject\<close>)
  have "\<forall>q\<in>set ds. fh_seq (fst (snd q)) = fst q"
    using tags by blast
  then have seqs: "map (fh_seq \<circ> fst) (map snd ds) = map fst ds"
    by simp
  show "in_order (fs_expected (flow_of r k)) (map (fh_seq \<circ> fst) (to_flow k out)) (fs_expected (flow_of r' k))"
  proof (cases "k = ?k")
    case True
    show ?thesis unfolding sel using p(2) by (simp only: True simp_thms if_True seqs)
  next
    case False
    show ?thesis unfolding sel p(5) [OF False] by (simp only: False if_False list.map in_order.simps)
  qed
  show "mset (to_flow k out) + mset (map snd (fs_pending (flow_of r' k)))
       \<subseteq># mset (map snd (fs_pending (flow_of r k))) + mset (to_flow k [v])"
  proof (cases "k = ?k")
    case True
    have "image_mset snd (mset (fs_pending (flow_of r ?k)) + mset new) =
          image_mset snd (mset (fs_pending (flow_of r' ?k)) + mset ds)"
      by (simp only: p(4))
    then have "mset (map snd ds) + mset (map snd (fs_pending (flow_of r' ?k))) =
        mset (map snd (fs_pending (flow_of r ?k))) + mset (map snd new)"
      by (simp add: ac_simps)
    moreover have "mset (map snd new) \<subseteq># mset (to_flow ?k [v])"
      using p(3) by (auto simp: to_flow_def)
    moreover have "to_flow ?k out = map snd ds"
      using sel unfolding True by (simp only: simp_thms if_True)
    ultimately show ?thesis
      unfolding True by simp
  next
    case False
    show ?thesis unfolding sel p(5) [OF False] by (simp add: False)
  qed
qed

lemma has_room_card:
  assumes "ra_inv r" and "card (Mapping.keys (ra_flows r) \<union> K) \<le> max_tracked_flows"
    and "k \<in> K" and "finite K"
  shows "has_room r k"
proof (cases "k \<in> Mapping.keys (ra_flows r)")
  case False
  then have "Mapping.keys (ra_flows r) \<subset> Mapping.keys (ra_flows r) \<union> K" using assms(3) by blast
  then have "card (Mapping.keys (ra_flows r)) < card (Mapping.keys (ra_flows r) \<union> K)"
    using assms(1,4) by (intro psubset_card_mono) (auto simp: ra_inv_def table_inv_def)
  then show ?thesis using assms(2) by (simp add: has_room_def Mapping.size_def)
qed (simp add: has_room_def in_keys_iff)

definition keys_of :: "('b tagged \<times> u64) list \<Rightarrow> flow_key set" where
  "keys_of es = (\<lambda>e. key_of (fst (fst e))) ` set es"

lemma tagged_run_flow:
  assumes "ra_inv r" and "tags_ok r"
    and "card (Mapping.keys (ra_flows r) \<union> keys_of es) \<le> max_tracked_flows"
    and "tagged_run r es = (r', out)"
  shows "in_order (fs_expected (flow_of r k)) (map (fh_seq \<circ> fst) (to_flow k out)) (fs_expected (flow_of r' k))
    \<and> mset (to_flow k out) + mset (map snd (fs_pending (flow_of r' k)))
       \<subseteq># mset (map snd (fs_pending (flow_of r k))) + mset (to_flow k (map fst es))"
  using assms
proof (induction es arbitrary: r out)
  case (Cons e es)
  obtain v now where e: "e = (v, now)" by (cases e)
  obtain r1 o1 where s1: "push_at r (fst v) v now = (r1, o1)" by (cases "push_at r (fst v) v now")
  obtain o2 where s2: "tagged_run r1 es = (r', o2)" and out: "out = o1 @ o2"
    using Cons.prems(4) s1 by (auto simp: e tagged_run_Cons split: prod.splits)
  have room: "has_room r (key_of (fst v))"
    by (rule has_room_card [OF Cons.prems(1,3)]) (simp_all add: keys_of_def e)
  have inv1: "ra_inv r1" using push_at_inv [OF Cons.prems(1)] s1 by (metis fst_conv)
  have keys1: "Mapping.keys (ra_flows r1) = insert (key_of (fst v)) (Mapping.keys (ra_flows r))"
    by (rule push_at_flow [OF Cons.prems(1) room s1])
  have card1: "card (Mapping.keys (ra_flows r1) \<union> keys_of es) \<le> max_tracked_flows"
    using Cons.prems(3) by (simp add: keys1 keys_of_def e)
  note step = push_at_tagged [OF Cons.prems(1) room Cons.prems(2) s1]
  note IH = Cons.IH [OF inv1 step(1) card1 s2]
  have "mset (to_flow k (map fst (e # es))) = mset (to_flow k [v]) + mset (to_flow k (map fst es))"
    by (simp add: to_flow_def e)
  with subset_mset.add_mono [OF step(3) [of k] conjunct2 [OF IH]] in_order_append [OF step(2) [of k] conjunct1 [OF IH]]
  show ?case
    by (simp add: out ac_simps subseteq_mset_def comp_def)
qed simp


section \<open>Reassembler: nothing is lost inside the window\<close>

text \<open>
  \<open>holds e P st\<close>: the flow waits for number \<open>e\<close> and has exactly the numbers of \<open>P\<close> pending, each
  packet being its own number.
\<close>

definition holds :: "nat \<Rightarrow> nat set \<Rightarrow> nat flow_state \<Rightarrow> bool" where
  "holds e P st \<longleftrightarrow> fs_expected st = of_nat e \<and> finite P \<and> P \<subseteq> {e..<2 ^ 31}
     \<and> mset (fs_pending st) = image_mset (\<lambda>j. (of_nat j, j)) (mset_set P)"

lemma of_nat_u32_eq:
  assumes "i \<le> 2 ^ 31" and "j \<le> 2 ^ 31"
  shows "(of_nat i :: u32) = of_nat j \<longleftrightarrow> i = j"
proof -
  have "unat (of_nat k :: u32) = k" if "k \<le> 2 ^ 31" for k
    using that by (simp add: unsigned_of_nat take_bit_nat_eq_self)
  then show ?thesis using assms by metis
qed

lemma holds_set:
  assumes "holds e P st"
  shows "set (fs_pending st) = (\<lambda>j. (of_nat j, j)) ` P"
proof -
  have "set_mset (mset (fs_pending st)) = (\<lambda>j. (of_nat j, j)) ` P"
    using assms unfolding holds_def by (elim conjE) (simp only: set_image_mset finite_set_mset_mset_set)
  then show ?thesis by simp
qed

lemma holds_length:
  assumes "holds e P st"
  shows "length (fs_pending st) = card P"
proof -
  have "size (mset (fs_pending st)) = card P"
    using assms unfolding holds_def by (elim conjE) (simp only: size_image_mset size_mset_set)
  then show ?thesis by simp
qed

lemma holds_gap [simp]:
  "holds e P (st\<lparr>fs_gap_set := g\<rparr>) = holds e P st" "holds e P (st\<lparr>fs_gap_ms := t\<rparr>) = holds e P st"
  by (simp_all add: holds_def)

lemma holds_take:
  assumes "holds e P st" and "find_index (\<lambda>p. fst p = fs_expected st) (fs_pending st) = Some i"
    and "e < 2 ^ 31"
  shows "e \<in> P" and "snd (fs_pending st ! i) = e"
    and "holds (Suc e) (P - {e}) (st\<lparr>fs_pending := swap_remove (fs_pending st) i,
           fs_expected := fs_expected st + 1\<rparr>)"
proof -
  note i = find_index_Some [OF assms(2)]
  have "fs_pending st ! i \<in> (\<lambda>j. (of_nat j, j)) ` P"
    using conjunct1 [OF i] holds_set [OF assms(1)] nth_mem by blast
  then obtain j where j: "j \<in> P" "fs_pending st ! i = (of_nat j, j)" by blast
  have "j \<le> 2 ^ 31" using j(1) assms(1) by (auto simp: holds_def)
  moreover have "(of_nat j :: u32) = of_nat e" using i j(2) assms(1) by (simp add: holds_def)
  ultimately have "j = e" using of_nat_u32_eq [of j e] assms(3) by simp
  then show "e \<in> P" "snd (fs_pending st ! i) = e" using j by simp_all
  have "mset (swap_remove (fs_pending st) i) = mset (fs_pending st) - {#(of_nat e, e)#}"
    using i j \<open>j = e\<close> by (simp add: mset_swap_remove)
  also have "\<dots> = image_mset (\<lambda>j. (of_nat j, j)) (mset_set (P - {e}))"
    using assms(1) \<open>e \<in> P\<close> by (simp add: holds_def mset_set_Diff image_mset_Diff)
  finally show "holds (Suc e) (P - {e}) (st\<lparr>fs_pending := swap_remove (fs_pending st) i,
           fs_expected := fs_expected st + 1\<rparr>)"
    using assms(1) by (auto simp: holds_def add.commute)
qed

lemma drain_contiguous_holds:
  "drain_contiguous st tot = (st', tot', out) \<Longrightarrow> holds e P st \<Longrightarrow> e \<le> 2 ^ 31 \<Longrightarrow>
     \<exists>e'. e \<le> e' \<and> {e..<e'} \<subseteq> P \<and> e' \<notin> P \<and> out = [e..<e'] \<and> holds e' (P - {e..<e'}) st'
        \<and> tot' = tot - int (e' - e) \<and> fs_gap_set st' = fs_gap_set st"
proof (induction st tot arbitrary: st' tot' out e P rule: drain_contiguous.induct)
  case (1 st tot)
  show ?case
  proof (cases "find_index (\<lambda>p. fst p = fs_expected st) (fs_pending st)")
    case None
    then have "e \<notin> P" using holds_set [OF 1(3)] 1(3) by (auto simp: find_index_None holds_def)
    moreover have "st' = st" "tot' = tot" "out = []"
      using None 1(2) by (simp_all add: drain_contiguous.simps [of st])
    ultimately show ?thesis using 1(3) by (intro exI [of _ e]) simp
  next
    case (Some i)
    let ?st = "st\<lparr>fs_pending := swap_remove (fs_pending st) i, fs_expected := fs_expected st + 1\<rparr>"
    obtain st2 t2 o2 where rec: "drain_contiguous ?st (tot - 1) = (st2, t2, o2)" by (rule prod_cases3)
    have "e \<noteq> 2 ^ 31"
    proof
      assume *: "e = 2 ^ 31"
      then have "P = {}" using 1(3) by (auto simp: holds_def)
      then show False using holds_set [OF 1(3)] find_index_Some [OF Some] by simp
    qed
    then have lt: "e < 2 ^ 31" using 1(4) by simp
    note tk = holds_take [OF 1(3) Some lt]
    from "1.IH" [OF Some refl refl rec tk(3)] lt obtain e' where
      e': "Suc e \<le> e'" "{Suc e..<e'} \<subseteq> P - {e}" "e' \<notin> P - {e}" "o2 = [Suc e..<e']"
      "holds e' (P - {e} - {Suc e..<e'}) st2" "t2 = tot - 1 - int (e' - Suc e)"
      "fs_gap_set st2 = fs_gap_set ?st" by auto
    have "P - {e} - {Suc e..<e'} = P - {e..<e'}" using e'(1) by auto
    moreover have "[e..<e'] = e # [Suc e..<e']" using e'(1) by (simp add: upt_conv_Cons)
    moreover have "{e..<e'} = insert e {Suc e..<e'}" using e'(1) by auto
    moreover have "st' = st2" "tot' = t2" "out = e # o2"
      using 1(2) Some rec tk(2) by (simp_all add: drain_contiguous.simps [of st])
    ultimately show ?thesis
      using e' tk(1) by (intro exI [of _ e']) auto
  qed
qed


text \<open>
  One push on a flow with room in its pending list, before the gap timer runs out: nothing is
  released and the packet is delivered or kept.
\<close>

lemma window_push:
  assumes st: "holds e P st" and P: "i \<noteq> e \<Longrightarrow> card P < max_pending_per_flow" "e \<notin> P"
    and i: "e \<le> i" "i \<notin> P" "i < 2 ^ 31"
    and gap: "fs_gap_set st \<Longrightarrow> now - fs_gap_ms st < gap_release_ms"
  obtains e' P' st' where
    "flow_push st (int (card P)) (of_nat i) i now = (st', int (card P'), [e..<e'])"
    "holds e' P' st'" "e \<le> e'" "e' \<notin> P'" "{..<e'} \<union> P' = insert i ({..<e} \<union> P)"
    "fs_gap_set st' \<Longrightarrow> fs_gap_set st \<and> fs_gap_ms st' = fs_gap_ms st \<or> fs_gap_ms st' = now"
proof -
  have fin: "finite P" and exp: "fs_expected st = of_nat e" and above: "P \<subseteq> {e..<2 ^ 31}"
    using st by (auto simp: holds_def)
  have noexp: "release_expired st (int (card P)) now = (st, int (card P), [])"
    using gap by (auto simp: release_expired_def not_le)
  show ?thesis
  proof (cases "i = e")
    case True
    let ?st = "st\<lparr>fs_expected := fs_expected st + 1, fs_gap_set := False\<rparr>"
    obtain st2 t2 o2 where rec: "drain_contiguous ?st (int (card P)) = (st2, t2, o2)"
      by (rule prod_cases3)
    have "P \<subseteq> {Suc e..<2 ^ 31}" using above P(2) by (fastforce simp: le_eq_less_or_eq)
    then have "holds (Suc e) P ?st" using st by (simp add: holds_def add.commute)
    from drain_contiguous_holds [OF rec this] i(3) True obtain e' where
      e': "Suc e \<le> e'" "{Suc e..<e'} \<subseteq> P" "e' \<notin> P" "o2 = [Suc e..<e']"
      "holds e' (P - {Suc e..<e'}) st2" "t2 = int (card P) - int (e' - Suc e)" "\<not> fs_gap_set st2"
      by auto
    have card: "int (card (P - {Suc e..<e'})) = int (card P) - int (e' - Suc e)"
      using e'(2) fin card_mono [OF fin e'(2)] by (simp add: card_Diff_subset of_nat_diff)
    have out: "flow_push st (int (card P)) (of_nat i) i now = (st2, t2, e # o2)"
      using noexp rec True exp by (simp add: flow_push_def push_flow_def Let_def)
    have "[e..<e'] = e # [Suc e..<e']" using e'(1) by (simp add: upt_conv_Cons)
    moreover have "{..<e'} \<union> (P - {Suc e..<e'}) = insert i ({..<e} \<union> P)"
    proof -
      have "{..<e'} = {..<e} \<union> {e} \<union> {Suc e..<e'}" using e'(1) by auto
      then show ?thesis using True e'(2) by blast
    qed
    ultimately show ?thesis
      using out e' card by (intro that [of st2 "P - {Suc e..<e'}" e']) auto
  next
    case False
    have lt: "e < i" "i < 2 ^ 31" using False i by auto
    have "(of_nat i :: u32) - of_nat e = of_nat (i - e)" using lt by (simp add: of_nat_diff)
    moreover have "(of_nat (i - e) :: u32) < 2 ^ 31"
      using lt(2) by (simp add: word_less_nat_alt unsigned_of_nat take_bit_nat_eq_self)
    moreover have "(of_nat i :: u32) \<noteq> of_nat e"
      using of_nat_u32_eq [of i e] lt by simp
    ultimately have fwd: "of_nat i \<noteq> fs_expected st" "is_forward (of_nat i) (fs_expected st)"
      by (simp_all add: exp is_forward_def)
    have nd: "\<not> (\<exists>p\<in>set (fs_pending st). fst p = of_nat i)"
    proof
      assume "\<exists>p\<in>set (fs_pending st). fst p = of_nat i"
      then obtain j where "j \<in> P" "(of_nat j :: u32) = of_nat i" using holds_set [OF st] by auto
      moreover from this have "j \<le> 2 ^ 31" using above by auto
      ultimately show False using of_nat_u32_eq [of j i] lt i(2) by auto
    qed
    have small: "card P < max_pending_per_flow" using P(1) False by simp
    let ?st = "st\<lparr>fs_pending := fs_pending st @ [(of_nat i, i)]\<rparr>"
    let ?st' = "if fs_gap_set ?st then ?st else ?st\<lparr>fs_gap_set := True, fs_gap_ms := now\<rparr>"
    have "flow_push st (int (card P)) (of_nat i) i now = (?st', int (card P) + 1, [])"
      using small noexp fwd nd holds_length [OF st]
      by (simp add: flow_push_def push_flow_def Let_def frame_consts)
    moreover have "holds e (insert i P) ?st'"
      using st lt i(2) by (simp add: holds_def)
    moreover have "int (card (insert i P)) = int (card P) + 1"
      using fin i(2) by simp
    ultimately show ?thesis
      using P(2) lt by (intro that [of ?st' "insert i P" e]) auto
  qed
qed


abbreviation numbered :: "flow_key \<Rightarrow> nat \<Rightarrow> frame_header" where
  "numbered k i \<equiv> \<lparr>fh_sender = fst k, fh_flow = snd k, fh_seq = of_nat i\<rparr>"

lemma window_run:
  assumes "finite U" and "U \<subseteq> {..<2 ^ 31}" and "card (U - {0}) \<le> max_pending_per_flow"
    and "holds e P (flow_of r k)" and "e \<notin> P" and "{..<e} \<union> P \<subseteq> U"
    and "ra_total r = int (card P)" and "has_room r k"
    and "distinct (map fst es)" and "set (map fst es) \<inter> ({..<e} \<union> P) = {}"
    and "set (map fst es) \<subseteq> U"
    and "sorted_wrt (\<lambda>t t'. t' - t < gap_release_ms) (map snd es)"
    and "fs_gap_set (flow_of r k) \<Longrightarrow> \<forall>t\<in>set (map snd es). t - fs_gap_ms (flow_of r k) < gap_release_ms"
  shows "\<exists>e' P' r'. ra_run r (map (\<lambda>(i, t). (numbered k i, i, t)) es) = (r', [e..<e'])
     \<and> e \<le> e' \<and> e' \<notin> P' \<and> {..<e'} \<union> P' = {..<e} \<union> P \<union> set (map fst es)
     \<and> holds e' P' (flow_of r' k) \<and> ra_total r' = int (card P') \<and> has_room r' k
     \<and> (fs_gap_set (flow_of r' k) \<longrightarrow>
          fs_gap_set (flow_of r k) \<and> fs_gap_ms (flow_of r' k) = fs_gap_ms (flow_of r k)
          \<or> fs_gap_ms (flow_of r' k) \<in> set (map snd es))"
  using assms
proof (induction es arbitrary: e P r)
  case Nil
  then show ?case by (intro exI [of _ e] exI [of _ P]) auto
next
  case (Cons x es)
  obtain i t where x: "x = (i, t)" by (cases x)
  have i: "e \<le> i" "i \<notin> P" "i \<in> U" "i < 2 ^ 31" using Cons.prems(2,10,11) by (auto simp: x)
  have small: "card P < max_pending_per_flow" if "i \<noteq> e"
  proof -
    have "P \<subseteq> {e..<2 ^ 31}" using Cons.prems(4) by (simp only: holds_def)
    then have "insert i P \<subseteq> U - {0}"
      using Cons.prems(5,6) i that by (fastforce simp: less_Suc_eq_0_disj)
    from card_mono [OF _ this] show ?thesis
      using Cons.prems(1,3) finite_subset [OF Cons.prems(6) Cons.prems(1)] i(2) by simp
  qed
  obtain e1 P1 st1 where s1:
    "flow_push (flow_of r k) (int (card P)) (of_nat i) i t = (st1, int (card P1), [e..<e1])"
    "holds e1 P1 st1" "e \<le> e1" "e1 \<notin> P1" "{..<e1} \<union> P1 = insert i ({..<e} \<union> P)"
    "fs_gap_set st1 \<Longrightarrow> fs_gap_set (flow_of r k) \<and> fs_gap_ms st1 = fs_gap_ms (flow_of r k) \<or> fs_gap_ms st1 = t"
    by (rule window_push [OF Cons.prems(4) small Cons.prems(5) i(1,2,4), of t])
      (use Cons.prems(13) x in auto)
  define r1 where "r1 = \<lparr>ra_flows = Mapping.update k st1 (ra_flows r), ra_total = int (card P1)\<rparr>"
  have pa: "push_at r (numbered k i) i t = (r1, [e..<e1])"
    using push_at_room [of r "numbered k i" i t] s1(1) Cons.prems(7,8) by (simp add: r1_def)
  have fo: "flow_of r1 k = st1" by (simp add: r1_def flow_at_update)
  have r1: "ra_total r1 = int (card P1)" "has_room r1 k"
    by (simp_all add: r1_def has_room_def)
  have sub: "{..<e1} \<union> P1 \<subseteq> U" using s1(5) Cons.prems(6) i(3) by auto
  have gap: "fs_gap_set (flow_of r1 k) \<Longrightarrow>
      \<forall>u\<in>set (map snd es). u - fs_gap_ms (flow_of r1 k) < gap_release_ms"
    using s1(6) Cons.prems(12,13) by (fastforce simp: fo x)
  have "\<exists>e' P' r'. ra_run r1 (map (\<lambda>(i, t). (numbered k i, i, t)) es) = (r', [e1..<e'])
     \<and> e1 \<le> e' \<and> e' \<notin> P' \<and> {..<e'} \<union> P' = {..<e1} \<union> P1 \<union> set (map fst es)
     \<and> holds e' P' (flow_of r' k) \<and> ra_total r' = int (card P') \<and> has_room r' k
     \<and> (fs_gap_set (flow_of r' k) \<longrightarrow>
          fs_gap_set (flow_of r1 k) \<and> fs_gap_ms (flow_of r' k) = fs_gap_ms (flow_of r1 k)
          \<or> fs_gap_ms (flow_of r' k) \<in> set (map snd es))"
    using s1(2,4) Cons.prems sub s1(5)
    by (intro Cons.IH gap) (auto simp: fo x r1)
  then obtain e' P' r' where rec:
    "ra_run r1 (map (\<lambda>(i, t). (numbered k i, i, t)) es) = (r', [e1..<e'])"
    "e1 \<le> e'" "e' \<notin> P'" "{..<e'} \<union> P' = {..<e1} \<union> P1 \<union> set (map fst es)"
    "holds e' P' (flow_of r' k)" "ra_total r' = int (card P')" "has_room r' k"
    "fs_gap_set (flow_of r' k) \<Longrightarrow> fs_gap_set st1 \<and> fs_gap_ms (flow_of r' k) = fs_gap_ms st1
          \<or> fs_gap_ms (flow_of r' k) \<in> set (map snd es)"
    unfolding fo by blast
  have "[e..<e1] @ [e1..<e'] = [e..<e']" using s1(3) rec(2) 
    using upt_add_eq_append [OF s1(3), of "e' - e1"] by simp
  then have "ra_run r (map (\<lambda>(i, t). (numbered k i, i, t)) (x # es)) = (r', [e..<e'])"
    using pa rec(1) by (simp add: x)
  then show ?case
    using rec s1(3,5,6) by (intro exI [of _ e'] exI [of _ P'] exI [of _ r']) (auto simp: x)
qed


section \<open>Reassembler: the overflow of a full flow\<close>

lemma lowest_from_next:
  assumes st: "holds e P st" and P: "e \<notin> P" "Suc e \<in> P"
  obtains j where "lowest_from (fs_expected st) 0 None (fs_pending st) = Some (j, 1)"
    "j < length (fs_pending st)" "fs_pending st ! j = (of_nat (Suc e), Suc e)"
proof -
  have above: "P \<subseteq> {..<2 ^ 31}" using st by (auto simp: holds_def)
  have exp: "fs_expected st = of_nat e" using st by (simp add: holds_def)
  have fwd: "is_forward (of_nat (Suc e)) (of_nat e)"
    by (simp add: is_forward_def)
  have mem: "(of_nat (Suc e), Suc e) \<in> set (fs_pending st)"
    unfolding holds_set [OF st] using P(2) by (rule imageI)
  obtain j d where jd: "lowest_from (fs_expected st) 0 None (fs_pending st) = Some (j, d)"
    using mem fwd lowest_from_none [of "of_nat e" 0 None "fs_pending st"] exp
    by (cases "lowest_from (fs_expected st) 0 None (fs_pending st)") fastforce+
  from lowest_from_some [OF jd]
  have j: "j < length (fs_pending st)" "is_forward (fst (fs_pending st ! j)) (of_nat e)"
    "d = fst (fs_pending st ! j) - of_nat e" by (auto simp: exp)
  have "d \<le> of_nat (Suc e) - of_nat e"
    using lowest_from_least [OF jd] mem fwd exp by force
  then have "unat d \<le> 1" by (simp add: word_le_nat_alt)
  moreover have "unat d \<noteq> 0" using j(2,3) by (simp add: is_forward_def unat_eq_zero)
  ultimately have "unat d = 1" by linarith
  then have "(of_nat (unat d) :: u32) = of_nat 1" by (rule arg_cong)
  then have d: "d = 1" by simp
  obtain i where i: "i \<in> P" "fs_pending st ! j = (of_nat i, i)"
    using j(1) holds_set [OF st] nth_mem [OF j(1)] by auto
  have "(of_nat i :: u32) = of_nat (Suc e)" using j(3) i(2) d by (simp add: algebra_simps)
  then have "i = Suc e"
    by (rule iffD1 [OF of_nat_u32_eq, rotated 2]) (use above i(1) P(2) in auto)
  then show ?thesis using that jd d i j(1) by simp
qed

lemma release_lowest_next:
  assumes st: "holds e P st" and P: "e \<notin> P" "Suc e \<in> P" "Suc (Suc e) \<notin> P"
  obtains st' where "release_lowest st tot now = (st', tot - 1, [Suc e])"
    "holds (Suc (Suc e)) (P - {Suc e}) st'"
proof -
  obtain j where j: "lowest_from (fs_expected st) 0 None (fs_pending st) = Some (j, 1)"
    "j < length (fs_pending st)" "fs_pending st ! j = (of_nat (Suc e), Suc e)"
    by (rule lowest_from_next [OF st P(1,2)])
  let ?st = "st\<lparr>fs_pending := swap_remove (fs_pending st) j, fs_expected := of_nat (Suc e) + 1,
               fs_gap_set := False\<rparr>"
  have fin: "finite P" and above: "P \<subseteq> {e..<2 ^ 31}" using st by (auto simp: holds_def)
  have "P - {Suc e} \<subseteq> {Suc (Suc e)..<2 ^ 31}"
    using above P(1) by (fastforce simp: le_eq_less_or_eq Suc_le_eq)
  moreover have "mset (swap_remove (fs_pending st) j) = mset (fs_pending st) - {#(of_nat (Suc e), Suc e)#}"
    using j(2,3) by (simp only: mset_swap_remove)
  moreover have "\<dots> = image_mset (\<lambda>j. (of_nat j, j)) (mset_set (P - {Suc e}))"
    using st P(2) fin by (simp add: holds_def mset_set_Diff image_mset_Diff)
  ultimately have new: "holds (Suc (Suc e)) (P - {Suc e}) ?st"
    using fin by (simp add: holds_def add.commute)
  obtain st2 t2 o2 where rec: "drain_contiguous ?st (tot - 1) = (st2, t2, o2)" by (rule prod_cases3)
  have "Suc (Suc e) \<le> 2 ^ 31" using P(2) above by auto
  from drain_contiguous_holds [OF rec new this] obtain e' where
    e': "Suc (Suc e) \<le> e'" "{Suc (Suc e)..<e'} \<subseteq> P - {Suc e}" "o2 = [Suc (Suc e)..<e']"
    "holds e' (P - {Suc e} - {Suc (Suc e)..<e'}) st2" "t2 = tot - 1 - int (e' - Suc (Suc e))"
    by blast
  have "e' = Suc (Suc e)"
  proof (rule ccontr)
    assume "e' \<noteq> Suc (Suc e)"
    then have "Suc (Suc e) \<in> {Suc (Suc e)..<e'}" using e'(1) by simp
    then show False using e'(2) P(3) by blast
  qed
  then show ?thesis
    using e' j rec
    by (intro that [of "if fs_pending st2 \<noteq> [] then st2\<lparr>fs_gap_set := True, fs_gap_ms := now\<rparr> else st2"])
      (simp_all add: release_lowest_def Let_def)
qed

lemma overflow_push:
  assumes st: "holds e P st" and P: "e \<notin> P" "Suc e \<in> P" "Suc (Suc e) \<notin> P"
    and full: "max_pending_per_flow \<le> card P" "int (card P) \<le> max_pending_total"
    and gap: "fs_gap_set st \<Longrightarrow> now - fs_gap_ms st < gap_release_ms"
  obtains st' where
    "flow_push st (int (card P)) (of_nat (Suc (Suc e))) (Suc (Suc e)) now = (st', int (card P), [Suc e])"
    "fs_expected st' = of_nat (Suc (Suc e))"
    "(of_nat (Suc (Suc e)), Suc (Suc e)) \<in> set (fs_pending st')"
proof -
  have exp: "fs_expected st = of_nat e" and above: "P \<subseteq> {..<2 ^ 31}"
    using st by (auto simp: holds_def)
  have noexp: "release_expired st (int (card P)) now = (st, int (card P), [])"
    using gap by (auto simp: release_expired_def not_le)
  obtain st1 where rl: "release_lowest st (int (card P)) now = (st1, int (card P) - 1, [Suc e])"
    "holds (Suc (Suc e)) (P - {Suc e}) st1"
    by (rule release_lowest_next [OF st P])
  have nd: "\<not> (\<exists>p\<in>set (fs_pending st). fst p = of_nat (Suc (Suc e)))"
  proof
    assume "\<exists>p\<in>set (fs_pending st). fst p = of_nat (Suc (Suc e))"
    then obtain j where j: "j \<in> P" "(of_nat j :: u32) = of_nat (Suc (Suc e))"
      using holds_set [OF st] by auto
    have "j = Suc (Suc e)"
      by (rule iffD1 [OF of_nat_u32_eq j(2)]) (use j(1) P(2) above in auto)
    then show False using j(1) P(3) by simp
  qed
  have fwd: "of_nat (Suc (Suc e)) \<noteq> fs_expected st" "is_forward (of_nat (Suc (Suc e))) (fs_expected st)"
    by (simp_all add: exp is_forward_def)
  let ?st2 = "st1\<lparr>fs_pending := fs_pending st1 @ [(of_nat (Suc (Suc e)), Suc (Suc e))]\<rparr>"
  let ?st3 = "if fs_gap_set ?st2 then ?st2 else ?st2\<lparr>fs_gap_set := True, fs_gap_ms := now\<rparr>"
  have "flow_push st (int (card P)) (of_nat (Suc (Suc e))) (Suc (Suc e)) now = (?st3, int (card P), [Suc e])"
    using noexp fwd nd full rl(1)
    by (simp add: flow_push_def push_flow_def Let_def holds_length [OF st] del: of_nat_Suc)
  then show ?thesis
    using rl(2) by (intro that) (auto simp: holds_def)
qed

lemma flow_of_new: "flow_of new_reassembler k = new_flow_state" "ra_total new_reassembler = 0"
  "has_room new_reassembler k"
  by (simp_all add: new_reassembler_def has_room_def max_tracked_flows_def)

text \<open>A TCP SYN, 10.0.0.1:80 to 10.0.0.2:443, for the concrete instances.\<close>

definition syn_packet :: bytes where
  "syn_packet = [0x45, 0, 0, 40, 0, 0, 0, 0, 64, 6, 0, 0, 10, 0, 0, 1, 10, 0, 0, 2,
     0, 80, 1, 187, 0, 0, 0, 0, 0, 0, 0, 0, 0x50, 2, 0, 0, 0, 0, 0, 0]"

lemma syn_packet_flow: "tcp_flow_id syn_packet = Some 0x6167a10d4bdb5f25"
  by code_simp

section \<open>Properties\<close>

text \<open>
   framing is lossless. Whatever buffer is passed and whatever the sequencer's state, the payload
  of what \<^verbatim>\<open>Frame\<close> returns is the packet, for every packet that does not itself begin with the
  letter C of the magic (no IP packet with a legal header does); a framed result decodes to the
  header the sequencer assigned.
\<close>

theorem frame_payload_of_framed:
  assumes "take 1 pkt \<noteq> [0x43]"
  shows "frame_payload (fst (fst (sequencer_frame s dst pkt))) = pkt
     \<and> (snd (fst (sequencer_frame s dst pkt)) \<longrightarrow>
          decode_frame (fst (fst (sequencer_frame s dst pkt)))
            = Some (the (fst (sequencer_next s pkt)), pkt))"
  using assms by (rule sequencer_frame_payload)

text \<open>
  C1: a reassembler that receives the numbers \<open>0, \<dots>, n - 1\<close> of a flow in any order, all within the
  gap timeout, with \<open>n\<close> at most 97, hands them on in order, each exactly once, none missing.
\<close>

theorem reassembler_restores_order:
  assumes "distinct (map fst es)" and "set (map fst es) = {..<n}" and "n \<le> 97"
    and "sorted_wrt (\<lambda>t t'. t' - t < gap_release_ms) (map snd es)"
  shows "snd (ra_run new_reassembler (map (\<lambda>(i, t). (numbered k i, i, t)) es)) = [0..<n]"
proof -
  have "{..<n} - {0} = {1..<n}" by auto
  then have U: "finite {..<n}" "{..<n} \<subseteq> {..<2 ^ 31}" "card ({..<n} - {0}) \<le> max_pending_per_flow"
    using assms(3) by (simp_all add: max_pending_per_flow_def lessThan_subset_iff)
  note run = window_run [OF U _ _ _ _ _ assms(1) _ eq_refl [OF assms(2)] assms(4), of 0 "{}" new_reassembler k]
  from run obtain e' P' r' where
    r': "ra_run new_reassembler (map (\<lambda>(i, t). (numbered k i, i, t)) es) = (r', [0..<e'])"
    and P': "e' \<notin> P'" "{..<e'} \<union> P' = {..<0} \<union> {} \<union> set (map fst es)"
    by (auto simp: flow_of_new holds_def)
  have all: "{..<e'} \<union> P' = {..<n}"
    using P'(2) unfolding assms(2) by (simp only: lessThan_0 Un_empty_left Un_empty_right)
  have "e' = n"
  proof (rule ccontr)
    assume ne: "e' \<noteq> n"
    have "{..<e'} \<subseteq> {..<n}" using Un_upper1 [of "{..<e'}" P'] unfolding all .
    then have "e' \<le> n" by (simp only: lessThan_subset_iff)
    with ne have "e' \<in> {..<n}" by simp
    then show False unfolding all [symmetric] using P'(1) by simp
  qed
  with r' show ?thesis by simp
qed




text \<open>
   in any run of a fresh sequencer over at most 4096 flows, the packet at position \<open>i\<close> of flow
  \<open>f\<close> carries the sequencer's one sender id and, as sequence number, the number of earlier packets
  of the same flow, whatever the interleaving with other flows and unframed packets.
\<close>

theorem sequencer_numbers_flows:
  assumes "card (flows_of ps) \<le> max_tracked_flows" and "i < length ps"
    and "tcp_flow_id (ps ! i) = Some f"
  shows "sequencer_run (new_sequencer sid rnd) ps ! i =
    Some \<lparr>fh_sender = sq_sender (new_sequencer sid rnd), fh_flow = f,
          fh_seq = of_nat (flow_count f (take i ps))\<rparr>"
  using sequencer_run_numbers [of "new_sequencer sid rnd" ps i f] assms
  by (simp add: new_sequencer_def Let_def lookup_default_def)



lemma sequencer_numbers_flows_witness:
  "sequencer_run (new_sequencer 7 0) [syn_packet, [0x60], syn_packet] ! 2
     = Some \<lparr>fh_sender = 7, fh_flow = 0x6167a10d4bdb5f25, fh_seq = 1\<rparr>"
proof -
  have other: "tcp_flow_id [0x60] = None"
    by (simp add: tcp_flow_id_def ip_tuple_def)
  have sender: "sq_sender (new_sequencer 7 0) = 7"
    by (simp add: new_sequencer_def)
  have "flows_of [syn_packet, [0x60], syn_packet] \<subseteq> {0x6167a10d4bdb5f25}"
    by (auto simp: flows_of_def syn_packet_flow other)
  from card_mono [OF _ this]
  have "card (flows_of [syn_packet, [0x60], syn_packet]) \<le> max_tracked_flows"
    by (simp add: max_tracked_flows_def)
  from sequencer_numbers_flows [OF this, of 2 "0x6167a10d4bdb5f25" 7 0] show ?thesis
    by (simp add: syn_packet_flow other flow_count_def sender)
qed

lemma frame_payload_of_framed_witness:
  "frame_payload (fst (fst (sequencer_frame (new_sequencer 7 0) [] syn_packet))) = syn_packet"
  by (rule conjunct1 [OF frame_payload_of_framed]) (simp add: syn_packet_def)

lemma reassembler_restores_order_witness:
  "snd (ra_run new_reassembler (map (\<lambda>(i, t). (numbered (7, 9) i, i, t)) [(2, 0), (0, 5), (1, 11)]))
     = [0, 1, 2]"
proof -
  have "set (map fst [(2 :: nat, 0 :: u64), (0, 5), (1, 11)]) = {..<3}"
    by (auto simp: numeral_3_eq_3 less_Suc_eq)
  then have "snd (ra_run new_reassembler (map (\<lambda>(i, t). (numbered (7, 9) i, i, t))
      [(2, 0), (0, 5), (1, 11)])) = [0..<3]"
    by (intro reassembler_restores_order) (simp_all add: gap_release_ms_def)
  then show ?thesis by (simp add: upt_rec)
qed

text \<open>
   the sequencer's sender id is never 0 on the wire and its flow table never exceeds 4096 flows,
  after any sequence of packets.
\<close>

theorem sequencer_table_bounded:
  "sq_sender (run sequencer_step (new_sequencer sid rnd) ps) \<noteq> 0
   \<and> Mapping.size (sq_seqs (run sequencer_step (new_sequencer sid rnd) ps)) \<le> 4096"
proof -
  have "sequencer_inv (new_sequencer sid rnd)"
    by (simp add: sequencer_inv_def new_sequencer_def Let_def)
  from sqm.run_inv [OF this] show ?thesis
    by (simp add: sequencer_inv_def max_tracked_flows_def)
qed

text \<open>
   whatever arrives, the reassembler tracks at most 4096 flows, \<^verbatim>\<open>pendingTotal\<close> is exactly the
  number of pending packets, never more than 4096, and no flow holds two packets with one number.
\<close>

theorem reassembler_memory_bounded:
  "let r = fst (ra_run new_reassembler es)
   in Mapping.size (ra_flows r) \<le> 4096 \<and> ra_total r = pending_count (ra_flows r) \<and> ra_total r \<le> 4096
      \<and> distinct (map fst (fs_pending (flow_of r k)))"
proof -
  have "ra_inv (run ra_step new_reassembler es)"
    by (rule ram.run_inv [OF new_reassembler_inv])
  then show ?thesis
    by (cases k) (simp add: ra_run_state ra_inv_def table_inv_def max_tracked_flows_def max_pending_total_def)
qed

text \<open>
  C2: in any run over at most 4096 flows, with any loss, duplication, reordering and timing, what
  the reassembler delivers of each flow is in the order of its sequence numbers (each number is the
  expected one or jumps ahead by less than half the number space), and no packet is delivered more
  often than it arrived.
\<close>

theorem reassembler_delivers_in_order:
  assumes "card (keys_of es) \<le> max_tracked_flows"
  shows "(\<exists>e. in_order 0 (map (fh_seq \<circ> fst) (to_flow k (snd (tagged_run new_reassembler es)))) e)
     \<and> mset (to_flow k (snd (tagged_run new_reassembler es))) \<subseteq># mset (to_flow k (map fst es))"
proof -
  obtain r' out where res: "tagged_run new_reassembler es = (r', out)" by (rule prod.exhaust)
  have tags: "tags_ok new_reassembler"
    by (simp add: tags_ok_def flow_of_new)
  have "card (Mapping.keys (ra_flows new_reassembler) \<union> keys_of es) \<le> max_tracked_flows"
    using assms by (simp add: new_reassembler_def)
  note flow = tagged_run_flow [OF new_reassembler_inv tags this res, of k]
  from flow show ?thesis
    by (auto simp: res flow_of_new intro: subset_mset.trans [OF mset_subset_eq_add_left])
qed

lemma reassembler_delivers_in_order_witness:
  "\<exists>e. in_order 0 (map (fh_seq \<circ> fst) (to_flow (7, 9) (snd (tagged_run new_reassembler
     [((numbered (7, 9) 2, ''b''), 0), ((numbered (7, 9) 0, ''a''), 5), ((numbered (7, 9) 2, ''b''), 20)])))) e"
  by (rule conjunct1 [OF reassembler_delivers_in_order]) (simp add: keys_of_def max_tracked_flows_def)

text \<open>
   a full flow strands a packet. With numbers 1 and 3 to 97 pending (96 packets) the arrival of
  2 makes \<^verbatim>\<open>PushAt\<close> give up on number 0 and deliver 1, and then append 2 to the pending list
  although it has just become the expected number: it is in hand, next in order, and not delivered.
\<close>

theorem reassembler_overflow_strands:
  "\<exists>r'. ra_run new_reassembler (map (\<lambda>i. (numbered k i, i, 0)) (1 # [3..<98] @ [2])) = (r', [1])
     \<and> fs_expected (flow_of r' k) = 2 \<and> (2, 2) \<in> set (fs_pending (flow_of r' k))"
proof -
  let ?es = "map (\<lambda>i. (i, 0)) (1 # [3..<98]) :: (nat \<times> u64) list"
  have nums: "map fst ?es = 1 # [3..<98]" by (simp add: comp_def del: upt_Suc)
  have clock: "set (map snd ?es) = {0}" by auto
  have "sorted_wrt (\<lambda>t t'. t' - t < gap_release_ms) (map snd (map (\<lambda>i. (i, 0 :: u64)) is))"
    for "is" :: "nat list" by (induction "is") (auto simp: gap_release_ms_def)
  then have sorted: "sorted_wrt (\<lambda>t t'. t' - t < gap_release_ms) (map snd ?es)" .
  have U: "finite (set (map fst ?es))" "set (map fst ?es) \<subseteq> {..<2 ^ 31}"
    "card (set (map fst ?es) - {0}) \<le> max_pending_per_flow"
    unfolding nums by (auto simp: max_pending_per_flow_def card_insert_if)
  have dist: "distinct (map fst ?es)" unfolding nums by simp
  note run = window_run [OF U _ _ _ _ _ dist _ subset_refl sorted, of 0 "{}" new_reassembler k]
  from run obtain e P r where r: "ra_run new_reassembler (map (\<lambda>(i, t). (numbered k i, i, t)) ?es) = (r, [0..<e])"
    and P: "e \<notin> P" "{..<e} \<union> P = {..<0} \<union> {} \<union> set (map fst ?es)" and hold: "holds e P (flow_of r k)"
    and tot: "ra_total r = int (card P)" and room: "has_room r k"
    and gap: "fs_gap_set (flow_of r k) \<Longrightarrow> fs_gap_ms (flow_of r k) \<in> set (map snd ?es)"
    by (auto simp: flow_of_new holds_def)
  have P2: "{..<e} \<union> P = insert 1 {3..<98}"
    using P(2) unfolding nums by (simp only: list.set set_upt lessThan_0 Un_empty_left Un_empty_right)
  have e: "e = 0"
  proof (rule ccontr)
    assume "e \<noteq> 0"
    then have "0 \<in> {..<e} \<union> P" by simp
    then show False unfolding P2 by simp
  qed
  then have P_eq: "P = insert 1 {3..<98}" using P2 by simp
  have "fs_gap_set (flow_of r k) \<Longrightarrow> 0 - fs_gap_ms (flow_of r k) < gap_release_ms"
    using gap unfolding clock by (simp add: gap_release_ms_def)
  from overflow_push [OF hold [unfolded e], of 0, OF _ _ _ _ _ this] obtain st' where
    st': "flow_push (flow_of r k) (int (card P)) (of_nat (Suc (Suc 0))) (Suc (Suc 0)) 0 = (st', int (card P), [Suc 0])"
    "fs_expected st' = of_nat (Suc (Suc 0))" "(of_nat (Suc (Suc 0)), Suc (Suc 0)) \<in> set (fs_pending st')"
    by (auto simp: P_eq frame_consts)
  let ?r' = "\<lparr>ra_flows = Mapping.update k st' (ra_flows r), ra_total = int (card P)\<rparr>"
  have "push_at r (numbered k 2) 2 0 = (?r', [1])"
    using push_at_room [of r "numbered k 2" 2 0 st' "int (card P)" "[1]"] room st'(1) tot
    by (simp add: numeral_2_eq_2)
  then have "ra_run new_reassembler (map (\<lambda>i. (numbered k i, i, 0)) (1 # [3..<98] @ [2])) = (?r', [1])"
    using r e ra_run_append [of new_reassembler "map (\<lambda>i. (numbered k i, i, 0)) (1 # [3..<98])"
      "[(numbered k 2, 2, 0)]"] by (simp add: comp_def del: upt_Suc)
  then show ?thesis
    using st'(2,3) by (intro exI [of _ ?r']) (simp add: flow_at_update numeral_2_eq_2)
qed

text \<open>
   an in-order delivery stops the gap timer even when a later gap remains. With 2 waiting for 1,
  the delivery of 0 leaves that gap untimed: whenever the flow's next duplicate comes, however late,
  2 is still held.
\<close>

theorem reassembler_gap_untimed:
  "snd (ra_run new_reassembler
     [(numbered k 2, a, 0), (numbered k 0, b, 0), (numbered k 0, b, now)]) = [b]"
  by (simp add: new_reassembler_def push_at_def open_flow_def flow_push_def release_expired_def
      push_flow_def new_flow_state_def is_forward_def frame_consts drain_contiguous.simps
      Mapping.size_def lookup_update' Let_def)

end
