(* ===== verification/Control.thy ===== *)
theory Control
  imports Frame
begin

unbundle bit_operations_syntax

text \<open>
  The control plane, \<^verbatim>\<open>src/pkg/csqtt/control.go\<close>: the GETCONF request and its replies, the
  classification of inbound datagrams and the stream repair notices. A datagram and a Go string are
  both byte lists.
\<close>

section \<open>Messages\<close>

definition wire_revision :: bytes where
  "wire_revision = ascii ''CSQTT-WIRE-3''"

definition max_workers :: nat where
  "max_workers = 126"

definition ready_request :: bytes where
  "ready_request = ascii ''READY''"

definition ready_ok :: bytes where
  "ready_ok = ascii ''READY_OK''"

definition no_config_response :: bytes where
  "no_config_response = ascii ''NOCONF''"

definition disconnected_response :: bytes where
  "disconnected_response = ascii ''OK:disconnected''"

definition panel_restart_notice :: bytes where
  "panel_restart_notice = 0xff # ascii ''CSQTT_PANEL_RESTART_V1'' @ [0x00, 0x91, 0x7d, 0x03, 0xa8]"

definition stream_repair_prefix :: bytes where
  "stream_repair_prefix = 0xff # ascii ''CSQTT_STREAM_REPAIR_V1''"

definition stream_alive_prefix :: bytes where
  "stream_alive_prefix = 0xff # ascii ''CSQTT_STREAM_ALIVE_V1''"

definition idle_keepalive :: bytes where
  "idle_keepalive = replicate 16 0xff"

definition config_request ::
  "bytes \<Rightarrow> bytes \<Rightarrow> bytes \<Rightarrow> u64 \<Rightarrow> bytes \<Rightarrow> int \<Rightarrow> int \<Rightarrow> bytes \<Rightarrow> bytes" where
  "config_request localPort deviceID password generation salt workerID desiredCount revision =
     (let desired = (if 0 < desiredCount then itoa desiredCount else [])
      in ascii ''GETCONF:'' @ localPort @ ascii ''|'' @ deviceID @ ascii ''|'' @ password @ ascii ''|''
           @ itoa (uint generation) @ ascii ''|'' @ salt @ ascii ''|'' @ itoa workerID @ ascii ''|''
           @ desired @ ascii ''|'' @ revision)"

definition disconnect_request :: "bytes \<Rightarrow> bytes \<Rightarrow> bytes" where
  "disconnect_request deviceID salt = ascii ''DISCONNECT:'' @ deviceID @ ascii ''|'' @ salt"

lemmas control_texts = ready_request_def ready_ok_def no_config_response_def
  disconnected_response_def panel_restart_notice_def stream_repair_prefix_def
  stream_alive_prefix_def idle_keepalive_def ascii_def

section \<open>Replies to GETCONF\<close>

record config_response =
  cr_tunnel_ip :: bytes
  cr_dns :: bytes
  cr_local_port :: bytes
  cr_stream_revision :: bytes
  cr_raw :: bytes

definition frames_data :: "config_response \<Rightarrow> bool" where
  "frames_data c \<longleftrightarrow> cr_stream_revision c = ascii ''stream-v2''"

text \<open>The errors of \<^verbatim>\<open>ParseConfigResponse\<close>; the text of the last two is the (truncated) reply.\<close>

datatype config_error = Err_no_config | Denied_error bytes | Unexpected_reply bytes | Malformed_tunconf bytes

definition truncate_text :: "bytes \<Rightarrow> bytes" where
  "truncate_text s = (if 64 < length s then take 64 s @ [0xe2, 0x80, 0xa6] else s)"

definition parse_config_response :: "bytes \<Rightarrow> config_error + config_response" where
  "parse_config_response s =
     (if s = no_config_response then Inl Err_no_config
      else case cut_prefix (ascii ''DENIED:'') s of
        Some reason \<Rightarrow> Inl (Denied_error reason)
      | None \<Rightarrow>
          (case cut_prefix (ascii ''TUNCONF:'') s of
             None \<Rightarrow> Inl (Unexpected_reply (truncate_text s))
           | Some body \<Rightarrow>
               let parts = split_on 0x3a body in
               if length parts < 2 \<or> parts ! 0 = [] then Inl (Malformed_tunconf (truncate_text s))
               else Inr \<lparr>cr_tunnel_ip = parts ! 0, cr_dns = parts ! 1,
                         cr_local_port = (if 2 < length parts then parts ! 2 else []),
                         cr_stream_revision = (if 3 < length parts then parts ! 3 else []),
                         cr_raw = s\<rparr>))"

section \<open>Classification of inbound datagrams\<close>

definition is_config_response :: "bytes \<Rightarrow> bool" where
  "is_config_response p \<longleftrightarrow> has_prefix (ascii ''TUNCONF:'') p \<or> p = no_config_response
     \<or> has_prefix (ascii ''DENIED:'') p"

definition is_panel_restart :: "bytes \<Rightarrow> bool" where
  "is_panel_restart p \<longleftrightarrow> p = panel_restart_notice"

definition is_control :: "bytes \<Rightarrow> bool" where
  "is_control p \<longleftrightarrow> is_panel_restart p \<or> is_config_response p \<or> p = ready_ok
     \<or> p = disconnected_response \<or> has_prefix stream_repair_prefix p
     \<or> has_prefix stream_alive_prefix p"

definition is_idle_keepalive :: "bytes \<Rightarrow> bool" where
  "is_idle_keepalive p \<longleftrightarrow>
     (if length p = 0 then False
      else if p ! 0 \<noteq> 0xff then False
      else if 4 \<le> length p \<and> length p \<le> 9 then True
      else list_all (\<lambda>b. b = 0xff) p)"

section \<open>Stream notices\<close>

record stream_command =
  sc_sequence :: u64
  sc_desired :: u16
  sc_workers :: "u16 list"

text \<open>The loop over the worker ids: two bytes each, every id in \<open>1 \<dots> desired\<close>.\<close>

fun parse_ids :: "u16 \<Rightarrow> nat \<Rightarrow> bytes \<Rightarrow> u16 list option" where
  "parse_ids desired 0 ids = Some []"
| "parse_ids desired (Suc n) ids =
     (let i = be_val (gslice ids 0 2) in
      if i = 0 \<or> desired < i then None
      else map_option ((#) i) (parse_ids desired n (drop 2 ids)))"

definition parse_stream :: "bytes \<Rightarrow> bytes \<Rightarrow> stream_command option" where
  "parse_stream p prefix =
     (case cut_prefix prefix p of
        None \<Rightarrow> None
      | Some rest \<Rightarrow>
          if length rest < 11 then None
          else
            let sq = be_val (gslice rest 0 8);
                desired = be_val (gslice rest 8 10);
                count = unat (rest ! 10);
                ids = drop 11 rest
            in if sq = 0 \<or> desired = 0 \<or> of_nat max_workers < desired \<or> length ids \<noteq> count * 2 \<or> count = 0
               then None
               else map_option (\<lambda>ws. \<lparr>sc_sequence = sq, sc_desired = desired, sc_workers = ws\<rparr>)
                      (parse_ids desired count ids))"

definition parse_stream_repair :: "bytes \<Rightarrow> stream_command option" where
  "parse_stream_repair p = parse_stream p stream_repair_prefix"

definition parse_stream_alive :: "bytes \<Rightarrow> stream_command option" where
  "parse_stream_alive p = parse_stream p stream_alive_prefix"


section \<open>Lemmas\<close>

text \<open>What a server that grants a configuration sends: the fields of \<^verbatim>\<open>TUNCONF\<close> joined by colons.\<close>

definition tunconf_reply :: "bytes list \<Rightarrow> bytes" where
  "tunconf_reply fs = ascii ''TUNCONF:'' @ join_with 0x3a fs"

lemma tunconf_not_other:
  "ascii ''TUNCONF:'' @ b \<noteq> no_config_response" "cut_prefix (ascii ''DENIED:'') (ascii ''TUNCONF:'' @ b) = None"
  by (simp_all add: control_texts cut_prefix_def has_prefix_def)

lemma denied_not_noconf: "ascii ''DENIED:'' @ b \<noteq> no_config_response"
  by (simp add: control_texts)

lemma parse_tunconf:
  "parse_config_response (ascii ''TUNCONF:'' @ body) =
     (let parts = split_on 0x3a body in
      if length parts < 2 \<or> parts ! 0 = []
      then Inl (Malformed_tunconf (truncate_text (ascii ''TUNCONF:'' @ body)))
      else Inr \<lparr>cr_tunnel_ip = parts ! 0, cr_dns = parts ! 1,
                cr_local_port = (if 2 < length parts then parts ! 2 else []),
                cr_stream_revision = (if 3 < length parts then parts ! 3 else []),
                cr_raw = ascii ''TUNCONF:'' @ body\<rparr>)"
  by (simp add: parse_config_response_def tunconf_not_other)

text \<open>The bytes of a stream notice, as the server lays it out.\<close>

definition stream_bytes :: "bytes \<Rightarrow> stream_command \<Rightarrow> bytes" where
  "stream_bytes prefix c = prefix @ be64 (sc_sequence c) @ be16 (sc_desired c)
     @ [of_nat (length (sc_workers c))] @ concat (map be16 (sc_workers c))"

definition stream_ok :: "stream_command \<Rightarrow> bool" where
  "stream_ok c \<longleftrightarrow> sc_sequence c \<noteq> 0 \<and> sc_desired c \<noteq> 0 \<and> unat (sc_desired c) \<le> max_workers
     \<and> sc_workers c \<noteq> [] \<and> length (sc_workers c) < 256
     \<and> (\<forall>i\<in>set (sc_workers c). i \<noteq> 0 \<and> i \<le> sc_desired c)"


lemma length_ids: "length (concat (map be16 ws)) = 2 * length ws"
  by (induction ws) simp_all

lemma parse_ids_iff:
  "length ids = 2 * n \<Longrightarrow> parse_ids desired n ids = Some ws \<longleftrightarrow>
     ids = concat (map be16 ws) \<and> length ws = n \<and> (\<forall>i\<in>set ws. i \<noteq> 0 \<and> i \<le> desired)"
proof (induction desired n ids arbitrary: ws rule: parse_ids.induct)
  case (1 desired ids)
  then show ?case by auto
next
  case (2 desired n ids)
  let ?i = "be_val (gslice ids 0 2) :: u16"
  obtain a b rest where ids: "ids = a # b # rest" and len: "length rest = 2 * n"
    using 2(2) by (cases ids rule: remdups_adj.cases) auto
  have g: "gslice ids 0 2 = [a, b]" by (simp add: ids gslice_def)
  have split: "be16 ?i = [a, b]"
    unfolding g by (rule be_bytes_be_val) simp_all
  have inj: "j = ?i" if "be16 j = [a, b]" for j
  proof -
    have "be_val (be16 j) = j" by simp
    then show ?thesis unfolding that g by simp
  qed
  define i where "i = ?i"
  have step: "parse_ids desired (Suc n) ids =
      (if i = 0 \<or> desired < i then None else map_option ((#) i) (parse_ids desired n rest))"
    by (simp add: i_def ids Let_def)
  have IH: "\<not> (i = 0 \<or> desired < i) \<Longrightarrow> parse_ids desired n rest = Some js \<longleftrightarrow>
     rest = concat (map be16 js) \<and> length js = n \<and> (\<forall>i\<in>set js. i \<noteq> 0 \<and> i \<le> desired)" for js
    using 2(1) [OF refl, of js] len by (simp add: i_def ids)
  have ids_i: "ids = be16 i @ rest" using split by (simp add: ids i_def)
  show ?case
  proof (cases ws)
    case Nil
    then show ?thesis unfolding step by (auto simp: ids_i)
  next
    case (Cons j js)
    have "ids = concat (map be16 ws) \<longleftrightarrow> j = i \<and> rest = concat (map be16 js)"
    proof
      assume "ids = concat (map be16 ws)"
      then have *: "be16 i @ rest = be16 j @ concat (map be16 js)" by (simp add: ids_i Cons)
      then have "be16 i = be16 j \<and> rest = concat (map be16 js)"
        by (subst (asm) append_eq_append_conv) simp_all
      then show "j = i \<and> rest = concat (map be16 js)"
        using inj [of j] split by (simp add: i_def)
    qed (simp add: ids_i Cons)
    then show ?thesis
      unfolding step using IH [of js] by (auto simp: Cons not_less)
  qed
qed


text \<open>The parser accepts exactly the notices a server can lay out.\<close>

lemma parse_stream_iff:
  "parse_stream p prefix = Some c \<longleftrightarrow> p = stream_bytes prefix c \<and> stream_ok c"
proof
  assume "parse_stream p prefix = Some c"
  then obtain rest where p: "p = prefix @ rest" and len: "11 \<le> length rest"
    and fields: "be_val (gslice rest 0 8) = sc_sequence c" "be_val (gslice rest 8 10) = sc_desired c"
    and ok: "sc_sequence c \<noteq> 0" "sc_desired c \<noteq> 0" "\<not> of_nat max_workers < sc_desired c"
      "length (drop 11 rest) = unat (rest ! 10) * 2" "unat (rest ! 10) \<noteq> 0"
    and ids: "parse_ids (sc_desired c) (unat (rest ! 10)) (drop 11 rest) = Some (sc_workers c)"
    by (auto simp: parse_stream_def cut_prefix_Some Let_def not_less split: option.splits if_splits)
  have ws: "drop 11 rest = concat (map be16 (sc_workers c))" "length (sc_workers c) = unat (rest ! 10)"
    "\<forall>i\<in>set (sc_workers c). i \<noteq> 0 \<and> i \<le> sc_desired c"
    using parse_ids_iff [of "drop 11 rest" "unat (rest ! 10)"] ids ok(4) by (simp_all add: mult.commute)
  have "be64 (sc_sequence c) = gslice rest 0 8" "be16 (sc_desired c) = gslice rest 8 10"
    unfolding fields [symmetric] by (rule be_bytes_be_val; use len in simp)+
  moreover have "rest = gslice rest 0 8 @ gslice rest 8 10 @ [rest ! 10] @ drop 11 rest"
  proof -
    have "rest = take 8 rest @ take 2 (drop 8 rest) @ drop 10 rest"
      using append_take_drop_id [of 2 "drop 8 rest"] append_take_drop_id [of 8 rest] by simp
    moreover have "drop 10 rest = rest ! 10 # drop 11 rest"
      using Cons_nth_drop_Suc [of 10 rest] len by simp
    ultimately show ?thesis by (simp add: gslice_def)
  qed
  moreover have "rest ! 10 = of_nat (length (sc_workers c))" using ws(2) by simp
  ultimately have "p = stream_bytes prefix c"
    using p ws(1) by (simp add: stream_bytes_def)
  moreover have "length (sc_workers c) < 256"
    using ws(2) unsigned_less [of "rest ! 10"] by simp
  moreover have "unat (sc_desired c) \<le> max_workers"
    using ok(3) by (simp add: max_workers_def word_less_nat_alt not_less)
  ultimately show "p = stream_bytes prefix c \<and> stream_ok c"
    using ok ws by (auto simp: stream_ok_def)
next
  assume *: "p = stream_bytes prefix c \<and> stream_ok c"
  let ?ws = "concat (map be16 (sc_workers c))" and ?n = "length (sc_workers c)"
  let ?rest = "be64 (sc_sequence c) @ be16 (sc_desired c) @ [of_nat ?n] @ ?ws"
  define R where "R = ?rest"
  have cut: "cut_prefix prefix p = Some R" using * by (simp add: stream_bytes_def R_def)
  have n: "unat (of_nat ?n :: byte) = ?n"
    using * by (simp add: stream_ok_def unsigned_of_nat take_bit_nat_eq_self)
  have parts: "gslice R 0 8 = be64 (sc_sequence c)" "gslice R 8 10 = be16 (sc_desired c)"
    "R ! 10 = of_nat ?n" "drop 11 R = ?ws" "length R = 11 + 2 * ?n"
    by (simp_all add: R_def gslice_def nth_append length_ids)
  have small: "\<not> of_nat max_workers < sc_desired c"
    using * by (simp add: stream_ok_def max_workers_def word_less_nat_alt not_less)
  have "parse_ids (sc_desired c) ?n ?ws = Some (sc_workers c)"
    using * parse_ids_iff [OF length_ids] by (simp add: stream_ok_def)
  then show "parse_stream p prefix = Some c"
    using conjunct2 [OF *] small n
    unfolding parse_stream_def cut by (simp add: parts length_ids Let_def stream_ok_def)
qed


text \<open>An IP packet with a legal header: version 6, or version 4 with a header of 20 bytes or more.\<close>

definition ip_packet :: "bytes \<Rightarrow> bool" where
  "ip_packet p \<longleftrightarrow> p \<noteq> [] \<and>
     (drop_bit 4 (p ! 0) = 6 \<or> drop_bit 4 (p ! 0) = 4 \<and> 5 \<le> p ! 0 AND 0x0f \<and> 20 \<le> length p)"

lemma has_prefix_Cons: "has_prefix (x # xs) p \<Longrightarrow> p \<noteq> [] \<and> p ! 0 = x"
  by (cases p) (simp_all add: has_prefix_def)

lemma is_control_first:
  assumes "is_control p"
  shows "p ! 0 \<in> {0xff, 0x54, 0x44} \<or> length p < 20 \<and> p ! 0 \<in> {0x4e, 0x52, 0x4f}"
proof -
  have "p = panel_restart_notice \<Longrightarrow> p ! 0 = 0xff" "has_prefix (ascii ''TUNCONF:'') p \<Longrightarrow> p ! 0 = 0x54"
    "p = no_config_response \<Longrightarrow> length p < 20 \<and> p ! 0 = 0x4e" "has_prefix (ascii ''DENIED:'') p \<Longrightarrow> p ! 0 = 0x44"
    "p = ready_ok \<Longrightarrow> length p < 20 \<and> p ! 0 = 0x52"
    "p = disconnected_response \<Longrightarrow> length p < 20 \<and> p ! 0 = 0x4f"
    "has_prefix stream_repair_prefix p \<Longrightarrow> p ! 0 = 0xff" "has_prefix stream_alive_prefix p \<Longrightarrow> p ! 0 = 0xff"
    by (auto simp: control_texts dest: has_prefix_Cons)
  then show ?thesis
    using assms unfolding is_control_def is_panel_restart_def is_config_response_def by blast
qed

lemma is_idle_keepalive_first: "is_idle_keepalive p \<Longrightarrow> p ! 0 = 0xff"
  by (auto simp: is_idle_keepalive_def split: if_splits)

lemma ip_packet_not_control: "ip_packet p \<Longrightarrow> \<not> is_control p \<and> \<not> is_idle_keepalive p"
  using is_control_first [of p] is_idle_keepalive_first [of p] by (auto simp: ip_packet_def)

definition config_fields ::
  "bytes \<Rightarrow> bytes \<Rightarrow> bytes \<Rightarrow> u64 \<Rightarrow> bytes \<Rightarrow> int \<Rightarrow> int \<Rightarrow> bytes \<Rightarrow> bytes list" where
  "config_fields lp dev pw gen salt w n rv =
     [lp, dev, pw, itoa (uint gen), salt, itoa w, if 0 < n then itoa n else [], rv]"

lemma config_request_join:
  "config_request lp dev pw gen salt w n rv =
     ascii ''GETCONF:'' @ join_with 0x7c (config_fields lp dev pw gen salt w n rv)"
  by (simp add: config_request_def config_fields_def Let_def ascii_def)

section \<open>Properties\<close>

text \<open>
   no data packet is mistaken for a control message. Whatever the uplink sends for a packet with
  a legal IP header, framed or not, the classifiers of inbound datagrams neither take for a control
  message nor for an idle keepalive.
\<close>

theorem data_never_control:
  assumes "ip_packet pkt"
  shows "\<not> is_control (fst (fst (sequencer_frame s dst pkt)))
     \<and> \<not> is_idle_keepalive (fst (fst (sequencer_frame s dst pkt)))"
proof -
  obtain out framed where res: "fst (sequencer_frame s dst pkt) = (out, framed)" by (rule prod.exhaust)
  have "out = pkt \<or> out ! 0 = 0x43"
  proof (cases framed)
    case True
    then obtain h buf where "out = take frame_len (snd (encode_frame h buf)) @ pkt" "frame_len \<le> length buf"
      using res by (fastforce simp: sequencer_frame_def Let_def split: prod.splits option.splits if_splits)
    then show ?thesis by (simp add: encode_frame_def frame_len_def frame_magic_def)
  next
    case False
    then show ?thesis
      using res by (auto simp: sequencer_frame_def Let_def split: prod.splits option.splits)
  qed
  then show ?thesis
    using ip_packet_not_control [OF assms] is_control_first [of out] is_idle_keepalive_first [of out]
    by (auto simp: res)
qed

lemma data_never_control_witness:
  "\<not> is_control (fst (fst (sequencer_frame (new_sequencer 7 0) [] syn_packet)))"
  by (rule conjunct1 [OF data_never_control]) (simp add: syn_packet_def ip_packet_def)

text \<open>
   a stream notice is accepted exactly when it is the byte layout of a sequence number that is
  not 0, a worker count between 1 and 126 and one to 255 worker ids between 1 and that count, and
  parsing returns these fields.
\<close>

theorem parse_stream_exact:
  "parse_stream_repair p = Some c \<longleftrightarrow> p = stream_bytes stream_repair_prefix c \<and> stream_ok c"
  by (simp add: parse_stream_repair_def parse_stream_iff)

lemma parse_stream_exact_witness:
  "parse_stream_repair (stream_bytes stream_repair_prefix \<lparr>sc_sequence = 9, sc_desired = 4, sc_workers = [1, 4]\<rparr>)
     = Some \<lparr>sc_sequence = 9, sc_desired = 4, sc_workers = [1, 4]\<rparr>"
  by (simp add: parse_stream_exact stream_ok_def max_workers_def)

text \<open>
   a TUNCONF reply parses back to the fields the server joined: the address, the DNS, and the
  local port and stream revision when present, each empty when the reply stops before it.
\<close>

theorem tunconf_roundtrip:
  assumes "ip \<noteq> []" and "\<And>f. f \<in> set (ip # dns # rest) \<Longrightarrow> 0x3a \<notin> set f"
  shows "parse_config_response (tunconf_reply (ip # dns # rest)) =
    Inr \<lparr>cr_tunnel_ip = ip, cr_dns = dns,
         cr_local_port = (case rest of [] \<Rightarrow> [] | p # _ \<Rightarrow> p),
         cr_stream_revision = (case rest of _ # r # _ \<Rightarrow> r | _ \<Rightarrow> []),
         cr_raw = tunconf_reply (ip # dns # rest)\<rparr>"
proof -
  have "split_on 0x3a (join_with 0x3a (ip # dns # rest)) = ip # dns # rest"
    using assms(2) by (intro split_join) simp_all
  then show ?thesis
    using assms(1) unfolding tunconf_reply_def parse_tunconf
    by (auto simp: Let_def split: list.splits)
qed

lemma tunconf_roundtrip_witness:
  "parse_config_response (tunconf_reply [ascii ''10.8.0.2/24'', ascii ''1.1.1.1'', ascii ''9000'', ascii ''stream-v2'']) =
    Inr \<lparr>cr_tunnel_ip = ascii ''10.8.0.2/24'', cr_dns = ascii ''1.1.1.1'', cr_local_port = ascii ''9000'',
         cr_stream_revision = ascii ''stream-v2'',
         cr_raw = tunconf_reply [ascii ''10.8.0.2/24'', ascii ''1.1.1.1'', ascii ''9000'', ascii ''stream-v2'']\<rparr>"
  by (subst tunconf_roundtrip) (auto simp: ascii_def)

text \<open>
   the wait for the GETCONF reply and the parser agree: a datagram is taken for a reply exactly
  when the parser recognises it, and then it yields a configuration with a non-empty address, the
  no-configuration error, a denial, or a malformed-TUNCONF error, never an unexpected-reply error.
\<close>

theorem config_reply_classified:
  "is_config_response p \<longleftrightarrow> (\<forall>t. parse_config_response p \<noteq> Inl (Unexpected_reply t))"
proof (cases "p = no_config_response")
  case True
  then show ?thesis by (simp add: is_config_response_def parse_config_response_def)
next
  case False
  then show ?thesis
    by (auto simp: is_config_response_def parse_config_response_def cut_prefix_def Let_def
        split: option.splits)
qed

text \<open>
   the GETCONF request carries its eight fields: splitting what follows the keyword at the bars
  gives back exactly the fields, provided none of the free-text ones contains a bar.
\<close>

theorem config_request_fields:
  assumes "\<And>f. f \<in> {lp, dev, pw, salt, rv} \<Longrightarrow> 0x7c \<notin> set f"
  shows "map_option (split_on 0x7c) (cut_prefix (ascii ''GETCONF:'') (config_request lp dev pw gen salt w n rv))
    = Some [lp, dev, pw, itoa (uint gen), salt, itoa w, if 0 < n then itoa n else [], rv]"
proof -
  have "0x7c \<notin> set (itoa i)" for i
    using set_itoa [of i] by (auto simp: word_le_nat_alt)
  then have no_bar: "\<And>f. f \<in> set (config_fields lp dev pw gen salt w n rv) \<Longrightarrow> 0x7c \<notin> set f"
    using assms by (auto simp: config_fields_def)
  have "split_on 0x7c (join_with 0x7c (config_fields lp dev pw gen salt w n rv)) = config_fields lp dev pw gen salt w n rv"
    by (rule split_join [OF _ no_bar]) (simp_all add: config_fields_def)
  then show ?thesis
    by (simp add: config_request_join config_fields_def)
qed

lemma config_request_fields_witness:
  "map_option (split_on 0x7c) (cut_prefix (ascii ''GETCONF:'')
     (config_request (ascii ''9000'') (ascii ''dev'') (ascii ''pw'') 42 (ascii ''salt'') 1 0 wire_revision))
    = Some [ascii ''9000'', ascii ''dev'', ascii ''pw'', itoa 42, ascii ''salt'', itoa 1, [], wire_revision]"
  by (subst config_request_fields) (auto simp: ascii_def wire_revision_def)

end
