(* ===== verification/Dispatch.thy ===== *)
theory Dispatch
  imports Prelude
begin

unbundle bit_operations_syntax

text \<open>
  Uplink striping, \<^verbatim>\<open>src/pkg/csqtt/dispatch.go\<close>: the class of a packet and the class-aware round
  robin over the workers. The arrays indexed by class are functions of the class; \<^verbatim>\<open>alive\<close> is the
  caller's predicate.
\<close>

section \<open>Packet classes\<close>

datatype packet_class = Class_small | Class_medium | Class_bulk

definition default_chunks :: "packet_class \<Rightarrow> int" where
  "default_chunks c = (case c of Class_small \<Rightarrow> 4 | Class_medium \<Rightarrow> 16 | Class_bulk \<Rightarrow> 64)"

definition small_max_len :: nat where
  "small_max_len = 164"

definition bulk_min_len :: nat where
  "bulk_min_len = 1000"

text \<open>The transport header offset and protocol of \<^verbatim>\<open>isControlLike\<close>.\<close>

definition ip_proto :: "bytes \<Rightarrow> (nat \<times> byte) option" where
  "ip_proto pkt =
     (if drop_bit 4 (pkt ! 0) = 4 then
        (if length pkt < 20 then None else Some (unat (pkt ! 0 AND 0x0f) * 4, pkt ! 9))
      else if drop_bit 4 (pkt ! 0) = 6 then
        (if length pkt < 40 then None else Some (40, pkt ! 6))
      else None)"

definition is_control_like :: "bytes \<Rightarrow> bool" where
  "is_control_like pkt =
     (case ip_proto pkt of None \<Rightarrow> False
      | Some (hl, proto) \<Rightarrow>
          if hl < 20 \<or> length pkt < hl then False
          else let l4 = drop hl pkt in
            if proto = 1 \<or> proto = 58 then True
            else if proto = 17 then
              (if length l4 < 8 then False
               else be_val (gslice l4 0 2) = (53 :: u16) \<or> be_val (gslice l4 2 4) = (53 :: u16))
            else False)"

definition classify :: "bytes \<Rightarrow> packet_class" where
  "classify pkt =
     (if length pkt \<le> small_max_len then Class_small
      else if is_control_like pkt then Class_small
      else if bulk_min_len \<le> length pkt then Class_bulk
      else Class_medium)"

section \<open>The striper\<close>

record cursor =
  cu_worker :: int
  cu_remaining :: int

record striper =
  sp_n :: int
  sp_chunk :: "packet_class \<Rightarrow> int"
  sp_cursor :: "packet_class \<Rightarrow> cursor"

definition resize :: "striper \<Rightarrow> int \<Rightarrow> striper" where
  "resize s n =
     (let n = (if n < 1 then 1 else n)
      in s\<lparr>sp_n := n,
           sp_cursor := (\<lambda>c. if n \<le> cu_worker (sp_cursor s c)
                             then (sp_cursor s c)\<lparr>cu_worker := 0, cu_remaining := 0\<rparr>
                             else sp_cursor s c)\<rparr>)"

definition new_striper :: "int \<Rightarrow> striper" where
  "new_striper n =
     resize \<lparr>sp_n = 0, sp_chunk = default_chunks,
             sp_cursor = (\<lambda>_. \<lparr>cu_worker = 0, cu_remaining = 0\<rparr>)\<rparr> n"

definition set_chunks :: "striper \<Rightarrow> (packet_class \<Rightarrow> int) \<Rightarrow> striper" where
  "set_chunks s chunks = s\<lparr>sp_chunk := (\<lambda>c. if 1 \<le> chunks c then chunks c else sp_chunk s c)\<rparr>"

text \<open>The search for the next live worker, in the order of the loop \<open>i = 1, \<dots>, n\<close>.\<close>

definition next_live :: "int \<Rightarrow> int \<Rightarrow> (int \<Rightarrow> bool) \<Rightarrow> int option" where
  "next_live n start alive = find alive (map (\<lambda>i. (start + int i) mod n) [1..<nat n + 1])"

definition pick :: "striper \<Rightarrow> packet_class \<Rightarrow> (int \<Rightarrow> bool) \<Rightarrow> int \<times> striper" where
  "pick s c alive =
     (let cur = sp_cursor s c;
          found = (if cu_remaining cur = 0 \<or> \<not> alive (cu_worker cur)
                   then (case next_live (sp_n s) (cu_worker cur) alive of
                           Some w \<Rightarrow> Some (cur\<lparr>cu_worker := w, cu_remaining := sp_chunk s c\<rparr>)
                         | None \<Rightarrow> if 1 \<le> sp_n s then None else Some cur)
                   else Some cur)
      in case found of None \<Rightarrow> (-1, s)
         | Some cur \<Rightarrow>
             (cu_worker cur,
              s\<lparr>sp_cursor := (sp_cursor s)(c := cur\<lparr>cu_remaining := cu_remaining cur - 1\<rparr>)\<rparr>))"

section \<open>Lemmas\<close>

definition striper_inv :: "striper \<Rightarrow> bool" where
  "striper_inv s \<longleftrightarrow> 1 \<le> sp_n s \<and>
     (\<forall>c. 1 \<le> sp_chunk s c \<and> 0 \<le> cu_worker (sp_cursor s c) \<and> cu_worker (sp_cursor s c) < sp_n s
        \<and> 0 \<le> cu_remaining (sp_cursor s c))"

lemma cursor_update [simp]:
  "(cu :: cursor)\<lparr>cu_worker := a, cu_remaining := b\<rparr> = \<lparr>cu_worker = a, cu_remaining = b\<rparr>"
  "(cu :: cursor)\<lparr>cu_remaining := b\<rparr> = \<lparr>cu_worker = cu_worker cu, cu_remaining = b\<rparr>"
  by (cases cu, simp)+

lemma default_chunks_pos: "1 \<le> default_chunks c"
  by (cases c) (simp_all add: default_chunks_def)

lemma new_striper_inv: "striper_inv (new_striper n)"
  by (simp add: striper_inv_def new_striper_def resize_def Let_def default_chunks_pos)

lemma resize_inv: "striper_inv s \<Longrightarrow> striper_inv (resize s n)"
  by (auto simp: striper_inv_def resize_def Let_def)

lemma set_chunks_inv: "striper_inv s \<Longrightarrow> striper_inv (set_chunks s ch)"
  by (auto simp: striper_inv_def set_chunks_def)

lemma next_live_Some:
  "next_live n start alive = Some w \<Longrightarrow> 1 \<le> n \<Longrightarrow> alive w \<and> 0 \<le> w \<and> w < n"
  by (auto simp: next_live_def find_Some_iff)

lemma next_live_None:
  assumes "next_live n start alive = None" and "0 \<le> w" "w < n" "0 \<le> start" "start < n"
  shows "\<not> alive w"
proof -
  define i where "i = (if start < w then w - start else n - (start - w))"
  have i: "1 \<le> i" "i \<le> n" using assms by (auto simp: i_def)
  have "(start + i) mod n = w"
  proof (cases "start < w")
    case True
    then show ?thesis using assms by (simp add: i_def)
  next
    case False
    then have "start + i = w + n" by (simp add: i_def)
    then show ?thesis using assms by simp
  qed
  then have "w = (start + int (nat i)) mod n" using i by simp
  moreover have "nat i \<in> set [1..<nat n + 1]" using i by simp linarith
  ultimately have "w \<in> set (map (\<lambda>i. (start + int i) mod n) [1..<nat n + 1])"
    unfolding list.set_map by (rule image_eqI)
  then show ?thesis
    using assms(1) unfolding next_live_def find_None_iff by blast
qed

lemma pick_spec:
  assumes "striper_inv s" and "pick s c alive = (w, s')"
  shows "w = -1 \<and> s' = s \<and> (\<forall>i. 0 \<le> i \<and> i < sp_n s \<longrightarrow> \<not> alive i)
     \<or> 0 \<le> w \<and> w < sp_n s \<and> alive w \<and> striper_inv s' \<and> sp_n s' = sp_n s"
proof (cases "cu_remaining (sp_cursor s c) = 0 \<or> \<not> alive (cu_worker (sp_cursor s c))")
  case True
  show ?thesis
  proof (cases "next_live (sp_n s) (cu_worker (sp_cursor s c)) alive")
    case None
    with assms True next_live_None [OF None] show ?thesis
      by (auto simp: pick_def Let_def striper_inv_def)
  next
    case (Some v)
    have ch: "1 \<le> sp_chunk s c" "1 \<le> sp_n s" using assms(1) by (simp_all add: striper_inv_def)
    have res: "w = v" "s' = s\<lparr>sp_cursor := (sp_cursor s)
        (c := \<lparr>cu_worker = v, cu_remaining = sp_chunk s c - 1\<rparr>)\<rparr>"
      using assms(2) [symmetric] True Some by (simp_all add: pick_def Let_def)
    have zero_less: "0 < sp_chunk s c" using ch(1) by simp
    have "striper_inv s'"
      using assms(1) zero_less next_live_Some [OF Some ch(2)] by (simp add: res striper_inv_def)
    then show ?thesis
      using next_live_Some [OF Some ch(2)] by (simp add: res)
  qed
next
  case False
  have res: "w = cu_worker (sp_cursor s c)" "s' = s\<lparr>sp_cursor := (sp_cursor s)
      (c := \<lparr>cu_worker = cu_worker (sp_cursor s c), cu_remaining = cu_remaining (sp_cursor s c) - 1\<rparr>)\<rparr>"
    using assms(2) [symmetric] False by (simp_all add: pick_def Let_def)
  have "0 \<le> cu_remaining (sp_cursor s c)" using assms(1) by (simp add: striper_inv_def)
  with False have "0 \<le> cu_remaining (sp_cursor s c) - 1" by linarith
  then show ?thesis
    using assms(1) False by (simp add: res striper_inv_def)
qed

datatype striper_op = Op_resize int | Op_chunks "packet_class \<Rightarrow> int" | Op_pick packet_class "int \<Rightarrow> bool"

fun striper_step :: "striper \<Rightarrow> striper_op \<Rightarrow> striper" where
  "striper_step s (Op_resize n) = resize s n"
| "striper_step s (Op_chunks ch) = set_chunks s ch"
| "striper_step s (Op_pick c alive) = snd (pick s c alive)"

lemma striper_step_inv: "striper_inv s \<Longrightarrow> striper_inv (striper_step s e)"
proof (cases e)
  case (Op_pick c alive)
  then show "striper_inv s \<Longrightarrow> ?thesis"
    using pick_spec [of s c alive] by (cases "pick s c alive") auto
qed (simp_all add: resize_inv set_chunks_inv)

interpretation spm: invariant_machine striper_step striper_inv
  by unfold_locales (rule striper_step_inv)

text \<open>The workers chosen for a sequence of packets, every worker being alive.\<close>

fun pick_run :: "striper \<Rightarrow> packet_class list \<Rightarrow> int list" where
  "pick_run s [] = []"
| "pick_run s (c # cs) = (let (w, s') = pick s c (\<lambda>_. True) in w # pick_run s' cs)"

text \<open>
  After \<open>k c\<close> packets of class \<open>c\<close> the cursor stands at worker \<open>1 + (k - 1) div chunk\<close>, with the rest
  of its chunk to go.
\<close>

definition position :: "striper \<Rightarrow> (packet_class \<Rightarrow> int) \<Rightarrow> bool" where
  "position s k \<longleftrightarrow> striper_inv s \<and> (\<forall>c. 0 \<le> k c
     \<and> cu_worker (sp_cursor s c) = (1 + (k c - 1) div sp_chunk s c) mod sp_n s
     \<and> cu_remaining (sp_cursor s c) = (- k c) mod sp_chunk s c)"


lemma chunk_arith:
  fixes k m :: int
  assumes "1 \<le> m"
  shows "(- k) mod m = 0 \<Longrightarrow> (k - 1) div m = k div m - 1 \<and> (- (k + 1)) mod m = m - 1"
    and "(- k) mod m \<noteq> 0 \<Longrightarrow> (k - 1) div m = k div m \<and> (- (k + 1)) mod m = (- k) mod m - 1"
proof -
  define q r where "q = k div m" and "r = k mod m"
  have k: "k = m * q + r" and r: "0 \<le> r" "r < m" using assms by (simp_all add: q_def r_def)
  have succ: "(- (k + 1)) mod m = m - 1 - r"
    by (rule int_mod_pos_eq [of _ _ "- q - 1"]) (use k r in \<open>simp_all add: algebra_simps\<close>)
  show "(- k) mod m = 0 \<Longrightarrow> (k - 1) div m = k div m - 1 \<and> (- (k + 1)) mod m = m - 1"
  proof -
    assume "(- k) mod m = 0"
    then have "r = 0" by (simp add: r_def dvd_eq_mod_eq_0 [symmetric])
    moreover from this have "(k - 1) div m = q - 1"
      by (intro int_div_pos_eq [of _ _ _ "m - 1"]) (use k assms in \<open>simp_all add: algebra_simps\<close>)
    ultimately show ?thesis using succ by (simp add: q_def)
  qed
  show "(- k) mod m \<noteq> 0 \<Longrightarrow> (k - 1) div m = k div m \<and> (- (k + 1)) mod m = (- k) mod m - 1"
  proof -
    assume "(- k) mod m \<noteq> 0"
    then have "r \<noteq> 0" by (simp add: r_def dvd_eq_mod_eq_0 [symmetric])
    moreover from this have "(k - 1) div m = q"
      by (intro int_div_pos_eq [of _ _ _ "r - 1"]) (use k r in \<open>simp_all add: algebra_simps\<close>)
    moreover from \<open>r \<noteq> 0\<close> have "(- k) mod m = m - r"
      by (intro int_mod_pos_eq [of _ _ "- q - 1"]) (use k r in \<open>simp_all add: algebra_simps\<close>)
    ultimately show ?thesis using succ by (simp add: q_def)
  qed
qed

lemma next_live_all: "1 \<le> n \<Longrightarrow> next_live n start (\<lambda>_. True) = Some ((start + 1) mod n)"
proof -
  assume "1 \<le> n"
  then have "[1..<nat n + 1] = 1 # [Suc 1..<nat n + 1]" by (intro upt_conv_Cons) simp
  then show ?thesis by (simp add: next_live_def del: upt_Suc)
qed

lemma pick_position:
  assumes "position s k"
  shows "fst (pick s c (\<lambda>_. True)) = (1 + k c div sp_chunk s c) mod sp_n s
     \<and> position (snd (pick s c (\<lambda>_. True))) (k(c := k c + 1))
     \<and> sp_chunk (snd (pick s c (\<lambda>_. True))) = sp_chunk s
     \<and> sp_n (snd (pick s c (\<lambda>_. True))) = sp_n s"
proof -
  have inv: "striper_inv s"
    and at: "cu_worker (sp_cursor s c) = (1 + (k c - 1) div sp_chunk s c) mod sp_n s"
      "cu_remaining (sp_cursor s c) = (- k c) mod sp_chunk s c" and k: "0 \<le> k c"
    using assms by (simp_all add: position_def)
  have n: "1 \<le> sp_n s" and m: "1 \<le> sp_chunk s c"
    using inv by (simp_all add: striper_inv_def)
  have inv': "striper_inv (snd (pick s c (\<lambda>_. True)))"
    using pick_spec [OF inv, of c "\<lambda>_. True"] n by (cases "pick s c (\<lambda>_. True)") force
  show ?thesis
  proof (cases "cu_remaining (sp_cursor s c) = 0")
    case True
    have step: "pick s c (\<lambda>_. True) = ((cu_worker (sp_cursor s c) + 1) mod sp_n s,
        s\<lparr>sp_cursor := (sp_cursor s)(c := \<lparr>cu_worker = (cu_worker (sp_cursor s c) + 1) mod sp_n s,
            cu_remaining = sp_chunk s c - 1\<rparr>)\<rparr>)"
      using True n by (simp add: pick_def Let_def next_live_all)
    have ar: "(k c - 1) div sp_chunk s c = k c div sp_chunk s c - 1"
      "(- (k c + 1)) mod sp_chunk s c = sp_chunk s c - 1"
      using chunk_arith(1) [OF m, of "k c"] True at(2) by simp_all
    have "(cu_worker (sp_cursor s c) + 1) mod sp_n s = (1 + k c div sp_chunk s c) mod sp_n s"
      by (simp add: at(1) ar(1) mod_simps add.commute)
    then show ?thesis
      using assms inv' ar(2) unfolding step by (auto simp: position_def)
  next
    case False
    have step: "pick s c (\<lambda>_. True) = (cu_worker (sp_cursor s c),
        s\<lparr>sp_cursor := (sp_cursor s)(c := \<lparr>cu_worker = cu_worker (sp_cursor s c),
            cu_remaining = cu_remaining (sp_cursor s c) - 1\<rparr>)\<rparr>)"
      using False by (simp add: pick_def Let_def)
    have ar: "(k c - 1) div sp_chunk s c = k c div sp_chunk s c"
      "(- (k c + 1)) mod sp_chunk s c = (- k c) mod sp_chunk s c - 1"
      using chunk_arith(2) [OF m, of "k c"] False at(2) by simp_all
    then show ?thesis
      using assms inv' at unfolding step by (auto simp: position_def)
  qed
qed


definition count_class :: "packet_class \<Rightarrow> packet_class list \<Rightarrow> int" where
  "count_class c cs = int (length (filter (\<lambda>d. d = c) cs))"

lemma pick_run_position:
  assumes "position s k" and "i < length cs"
  shows "pick_run s cs ! i =
    (1 + (k (cs ! i) + count_class (cs ! i) (take i cs)) div sp_chunk s (cs ! i)) mod sp_n s"
  using assms
proof (induction cs arbitrary: s k i)
  case (Cons c cs)
  obtain w s' where pk: "pick s c (\<lambda>_. True) = (w, s')" by (rule prod.exhaust)
  note step = pick_position [OF Cons.prems(1), of c, unfolded pk fst_conv snd_conv]
  show ?case
  proof (cases i)
    case 0
    then show ?thesis using step by (simp add: pk count_class_def)
  next
    case (Suc j)
    have pos: "position s' (k(c := k c + 1))" using step by blast
    from Suc have "pick_run s' cs ! j = (1 + ((k(c := k c + 1)) (cs ! j) + count_class (cs ! j) (take j cs))
        div sp_chunk s' (cs ! j)) mod sp_n s'"
      using Cons.IH [OF pos, of j] Cons.prems(2) by simp
    moreover have "sp_chunk s' = sp_chunk s" "sp_n s' = sp_n s" using step by simp_all
    moreover have "(k(c := k c + 1)) (cs ! j) + count_class (cs ! j) (take j cs) =
        k (cs ! j) + count_class (cs ! j) (take i (c # cs))"
      by (simp add: count_class_def Suc)
    ultimately show ?thesis
      by (simp only: pick_run.simps pk Let_def prod.case Suc nth_Cons_Suc)
  qed
qed simp

section \<open>Properties\<close>

text \<open>
   after any sequence of resizes, chunk overrides and picks, a pick returns the index of a live
  worker of the current range, or -1 exactly when no worker of the range is alive; a failed pick
  changes nothing.
\<close>

theorem pick_live:
  "let s = run striper_step (new_striper n) ops; (w, s') = pick s c alive
   in w = -1 \<and> s' = s \<and> (\<forall>i. 0 \<le> i \<and> i < sp_n s \<longrightarrow> \<not> alive i)
      \<or> 0 \<le> w \<and> w < sp_n s \<and> alive w"
proof -
  have "striper_inv (run striper_step (new_striper n) ops)"
    by (rule spm.run_inv [OF new_striper_inv])
  from pick_spec [OF this, of c alive] show ?thesis
    by (auto simp: Let_def split: prod.split)
qed

text \<open>An instance: two of three workers are dead, then all are.\<close>

lemma pick_live_witness:
  "fst (pick (run striper_step (new_striper 3) [Op_pick Class_bulk (\<lambda>_. True)]) Class_bulk (\<lambda>i. i = 2)) = 2
   \<and> fst (pick (run striper_step (new_striper 3) [Op_pick Class_bulk (\<lambda>_. True)]) Class_bulk (\<lambda>_. False)) = -1"
proof -
  let ?s = "run striper_step (new_striper 3) [Op_pick Class_bulk (\<lambda>_. True)]"
  have n: "sp_n ?s = 3"
    using pick_spec [OF new_striper_inv, of 3 Class_bulk "\<lambda>_. True"]
    by (cases "pick (new_striper 3) Class_bulk (\<lambda>_. True)") (force simp: new_striper_def resize_def)
  show ?thesis
    using pick_live [of 3 "[Op_pick Class_bulk (\<lambda>_. True)]" Class_bulk "\<lambda>i. i = 2"]
      pick_live [of 3 "[Op_pick Class_bulk (\<lambda>_. True)]" Class_bulk "\<lambda>_. False"] n
    by (auto simp: Let_def split: prod.splits dest: spec [of _ 2])
qed

text \<open>
   with every worker alive a fresh striper deals each class in contiguous chunks: the packet of
  class \<open>c\<close> with \<open>k\<close> packets of its class before it goes to worker \<open>1 + k div chunk\<close> modulo the worker
  count, with chunks of 4, 16 and 64 packets, however the classes are interleaved.
\<close>

theorem chunks_contiguous:
  assumes "i < length cs"
  shows "pick_run (new_striper n) cs ! i =
    (1 + count_class (cs ! i) (take i cs) div default_chunks (cs ! i)) mod (if n < 1 then 1 else n)"
proof -
  have "cu_worker (sp_cursor (new_striper n) c) = 0" "cu_remaining (sp_cursor (new_striper n) c) = 0"
    "sp_chunk (new_striper n) = default_chunks" for c
    by (simp_all add: new_striper_def resize_def Let_def)
  moreover have "(-1 :: int) div default_chunks c = -1" for c
    by (cases c) (simp_all add: default_chunks_def)
  ultimately have "position (new_striper n) (\<lambda>_. 0)"
    by (simp add: position_def new_striper_inv)
  from pick_run_position [OF this assms] show ?thesis
    by (simp add: new_striper_def resize_def Let_def)
qed

lemma chunks_contiguous_witness:
  "pick_run (new_striper 3) [Class_small, Class_bulk, Class_small, Class_small, Class_small, Class_small] ! 5 = 2"
  by (subst chunks_contiguous) (simp_all add: count_class_def default_chunks_def)

text \<open>
  A TCP segment without payload is always small: IPv4 and TCP headers are at most 60 bytes each,
  so the length rule covers every SYN, FIN, RST and bare ACK and no packet of 165 bytes or more can be
  one of them.
\<close>

theorem bare_segment_small:
  assumes "ip_proto pkt = Some (hl, 6)" and "length pkt = hl + unat (drop_bit 4 (pkt ! (hl + 12))) * 4"
  shows "classify pkt = Class_small"
proof -
  have "unat (drop_bit 4 b) \<le> 15" for b :: byte
  proof -
    have "unat b < 2 ^ LENGTH(8)" by (rule unsigned_less)
    then show ?thesis unfolding unsigned_drop_bit_eq by (simp add: drop_bit_eq_div take_bit_nat_eq_self)
  qed
  then have off: "unat (drop_bit 4 (pkt ! (hl + 12))) \<le> 15" .
  have "unat (b AND 0x0f) \<le> 15" for b :: byte
    using word_and_le1 [of b "0x0f"] by (simp add: word_le_nat_alt)
  from this [of "pkt ! 0"] have "hl \<le> 60"
    using assms(1) by (auto simp: ip_proto_def split: if_splits)
  with off have "length pkt \<le> small_max_len"
    unfolding assms(2) small_max_len_def by linarith
  then show ?thesis by (simp add: classify_def)
qed

lemma bare_segment_small_witness:
  "classify ([0x45, 0, 0, 40, 0, 0, 0, 0, 64, 6] @ replicate 22 0 @ [0x50, 2, 0, 0, 0, 0, 0, 0]) = Class_small"
  by (rule bare_segment_small [of _ 20]) (simp_all add: ip_proto_def nth_append)

end
