(* ===== verification/Liveness.thy ===== *)
theory Liveness
  imports Prelude
begin

unbundle bit_operations_syntax

text \<open>
  The resilience rules, \<^verbatim>\<open>src/pkg/csqtt/liveness.go\<close>, and the restart backoff of
  \<^verbatim>\<open>src/pkg/csqtt/client.go\<close>: the identity of a new connection, the pacing of worker starts, the
  verdict on a silent worker. A \<^verbatim>\<open>time.Time\<close> is the number of nanoseconds since Go's zero time, so
  \<^verbatim>\<open>IsZero\<close> is being 0; a \<^verbatim>\<open>time.Duration\<close> is a number of nanoseconds.
\<close>

type_synonym time = int
type_synonym duration = int

abbreviation second :: duration where
  "second \<equiv> 1000000000"

abbreviation millisecond :: duration where
  "millisecond \<equiv> 1000000"

text \<open>\<^verbatim>\<open>Time.Sub\<close> saturates at the ends of the duration type.\<close>

definition time_sub :: "time \<Rightarrow> time \<Rightarrow> duration" where
  "time_sub a b = max (- (2 ^ 63)) (min (2 ^ 63 - 1) (a - b))"

lemma time_sub_le: "d < 2 ^ 63 - 1 \<Longrightarrow> - (2 ^ 63) \<le> d \<Longrightarrow> time_sub a b \<le> d \<longleftrightarrow> a - b \<le> d"
  by (auto simp: time_sub_def)

lemma time_sub_ge: "d \<le> 2 ^ 63 - 1 \<Longrightarrow> - (2 ^ 63) < d \<Longrightarrow> d \<le> time_sub a b \<longleftrightarrow> d \<le> a - b"
  by (auto simp: time_sub_def)

section \<open>Identity\<close>

definition hex_digit :: "byte \<Rightarrow> byte" where
  "hex_digit n = (if n < 10 then 0x30 + n else 0x57 + n)"

definition hex_encode :: "bytes \<Rightarrow> bytes" where
  "hex_encode bs = concat (map (\<lambda>b. [hex_digit (drop_bit 4 b), hex_digit (b AND 0x0f)]) bs)"

text \<open>
  \<open>unix\<close> is the clock in seconds, \<open>nanos\<close> in nanoseconds; \<open>rnd\<close> is the result of reading 16 random
  bytes, \<open>None\<close> when that fails.
\<close>

definition new_identity :: "u64 \<Rightarrow> u64 \<Rightarrow> u64 \<Rightarrow> bytes option \<Rightarrow> u64 \<times> bytes" where
  "new_identity prev unix nanos rnd =
     (let generation = (if unix \<le> prev then prev + 1 else unix);
          b = (case rnd of Some b \<Rightarrow> b | None \<Rightarrow> be64 nanos @ be64 generation)
      in (generation, hex_encode b))"

section \<open>Start pacing\<close>

record start_gate =
  gt_every :: duration
  gt_last :: time
  gt_held :: bool

definition new_start_gate :: "duration \<Rightarrow> start_gate" where
  "new_start_gate every = \<lparr>gt_every = every, gt_last = 0, gt_held = False\<rparr>"

text \<open>
  \<^verbatim>\<open>begin\<close> at clock reading \<open>now\<close>: \<open>None\<close> while another start holds the slot (the caller blocks on
  the mutex), otherwise the gate with the slot taken and how long the caller sleeps, 0 for not at
  all. The returned function is \<open>gate_done\<close>.
\<close>

definition gate_begin :: "start_gate \<Rightarrow> time \<Rightarrow> (start_gate \<times> duration) option" where
  "gate_begin g now =
     (if gt_held g then None
      else Some (g\<lparr>gt_held := True\<rparr>,
             if gt_last g \<noteq> 0 then max 0 (gt_every g - time_sub now (gt_last g)) else 0))"

definition gate_done :: "start_gate \<Rightarrow> time \<Rightarrow> start_gate" where
  "gate_done g now = g\<lparr>gt_last := now, gt_held := False\<rparr>"

section \<open>Liveness\<close>

definition liveness_tick :: duration where
  "liveness_tick = 5 * second"

definition probe_after :: duration where
  "probe_after = 30 * second"

definition dead_after_probe :: duration where
  "dead_after_probe = 30 * second"

definition ready_grace :: duration where
  "ready_grace = 20 * second"

definition descheduled_slack :: duration where
  "descheduled_slack = 5 * second"

lemmas liveness_consts = liveness_tick_def probe_after_def dead_after_probe_def ready_grace_def
  descheduled_slack_def

record liveness_input =
  li_now :: time
  li_prev_tick :: time
  li_ready_at :: time
  li_last_rx :: time
  li_probe_sent_at :: time
  li_any_rx :: time

datatype liveness_action = Liveness_none | Liveness_probe | Liveness_restart | Liveness_reset_all

definition liveness_verdict :: "liveness_input \<Rightarrow> liveness_action" where
  "liveness_verdict i =
     (if li_prev_tick i \<noteq> 0 \<and> liveness_tick + descheduled_slack < time_sub (li_now i) (li_prev_tick i)
      then Liveness_reset_all
      else if li_ready_at i = 0 \<or> time_sub (li_now i) (li_ready_at i) < ready_grace then Liveness_none
      else if probe_after \<le> time_sub (li_now i) (li_any_rx i) then Liveness_none
      else if time_sub (li_now i) (li_last_rx i) < probe_after then Liveness_none
      else if li_probe_sent_at i = 0 then Liveness_probe
      else if dead_after_probe \<le> time_sub (li_now i) (li_probe_sent_at i) then Liveness_restart
      else Liveness_none)"

section \<open>Backoff\<close>

definition restart_backoff :: duration where
  "restart_backoff = second"

definition max_backoff :: duration where
  "max_backoff = 30 * second"

definition healthy_session :: duration where
  "healthy_session = 2 * ready_grace"

definition next_backoff :: "duration \<Rightarrow> duration \<Rightarrow> duration" where
  "next_backoff prev lived =
     (if healthy_session \<le> lived then restart_backoff
      else if max_backoff < prev * 2 then max_backoff else prev * 2)"

section \<open>Lemmas\<close>

lemma new_identity_newer:
  "prev \<noteq> - 1 \<Longrightarrow> prev < fst (new_identity prev unix nanos rnd) \<and> unix \<le> fst (new_identity prev unix nanos rnd)"
  using word_less_succ [of prev] by (auto simp: new_identity_def Let_def)

lemma length_hex_encode: "length (hex_encode bs) = 2 * length bs"
  by (induction bs) (simp_all add: hex_encode_def)

text \<open>
  A run of the gate: for each start, how long after the previous one ended it reaches the gate, by
  how much the sleep overshoots, and how long the step inside takes. The result is the list of
  intervals in which the slot was used.
\<close>

fun gate_run :: "start_gate \<Rightarrow> time \<Rightarrow> (duration \<times> duration \<times> duration) list \<Rightarrow> (time \<times> time) list" where
  "gate_run g clock [] = []"
| "gate_run g clock ((wait, late, work) # es) =
     (case gate_begin g (clock + wait) of
        None \<Rightarrow> []
      | Some (g1, d) \<Rightarrow>
          let start = clock + wait + (if 0 < d then d + late else 0);
              stop = start + work
          in (start, stop) # gate_run (gate_done g1 stop) stop es)"

definition nonneg :: "(duration \<times> duration \<times> duration) list \<Rightarrow> bool" where
  "nonneg es \<longleftrightarrow> (\<forall>(wait, late, work)\<in>set es. 0 \<le> wait \<and> 0 \<le> late \<and> 0 \<le> work)"

fun spaced :: "duration \<Rightarrow> (time \<times> time) list \<Rightarrow> bool" where
  "spaced every ((s1, e1) # (s2, e2) # xs) \<longleftrightarrow> s1 \<le> e1 \<and> every \<le> s2 - e1 \<and> spaced every ((s2, e2) # xs)"
| "spaced every xs \<longleftrightarrow> True"

lemma gate_delay:
  assumes "0 \<le> gt_every g" "gt_every g < 2 ^ 63" and "gt_last g \<noteq> 0" and "gt_last g \<le> now"
    and "gate_begin g now = Some (g1, d)"
  shows "gt_every g \<le> now + d - gt_last g" and "0 \<le> d"
  using assms by (auto simp: gate_begin_def time_sub_def split: if_splits)

lemma gate_run_first:
  "gate_run g clock es = (s, e) # xs \<Longrightarrow> nonneg es \<Longrightarrow> 0 \<le> gt_every g \<Longrightarrow> gt_every g < 2 ^ 63 \<Longrightarrow>
     clock \<le> s \<and> s \<le> e \<and> (gt_last g \<noteq> 0 \<longrightarrow> gt_last g \<le> clock \<longrightarrow> gt_every g \<le> s - gt_last g)"
proof -
  assume run: "gate_run g clock es = (s, e) # xs" and nn: "nonneg es"
    and every: "0 \<le> gt_every g" "gt_every g < 2 ^ 63"
  then obtain wait late work es' where es: "es = (wait, late, work) # es'"
    by (cases es) auto
  obtain g1 d where gb: "gate_begin g (clock + wait) = Some (g1, d)"
    using run by (auto simp: es split: option.splits)
  have pos: "0 \<le> wait" "0 \<le> late" "0 \<le> work" using nn by (auto simp: nonneg_def es)
  have se: "s = clock + wait + (if 0 < d then d + late else 0)" "e = s + work"
    using run gb by (auto simp: es Let_def)
  show ?thesis
    using gate_delay [OF every _ _ gb] pos se by (auto split: if_splits)
qed

lemma gate_run_spaced:
  "nonneg es \<Longrightarrow> 0 \<le> gt_every g \<Longrightarrow> gt_every g < 2 ^ 63 \<Longrightarrow> 0 < clock \<Longrightarrow> \<not> gt_held g \<Longrightarrow>
     spaced (gt_every g) (gate_run g clock es) \<and> length (gate_run g clock es) = length es"
proof (induction es arbitrary: g clock)
  case (Cons x es)
  obtain wait late work where x: "x = (wait, late, work)" by (cases x)
  obtain g1 d where gb: "gate_begin g (clock + wait) = Some (g1, d)"
    using Cons.prems(5) by (auto simp: gate_begin_def)
  have g1: "gt_every g1 = gt_every g" using gb by (auto simp: gate_begin_def split: if_splits)
  define s where "s = clock + wait + (if 0 < d then d + late else 0)"
  define e where "e = s + work"
  let ?g = "gate_done g1 e"
  have run: "gate_run g clock (x # es) = (s, e) # gate_run ?g e es"
    using gb by (simp add: x s_def e_def Let_def)
  have nn: "nonneg es" "0 \<le> wait" "0 \<le> late" "0 \<le> work" using Cons.prems(1) by (auto simp: nonneg_def x)
  have e: "0 < e" "s \<le> e" using nn Cons.prems(4) by (auto simp: e_def s_def)
  have IH: "spaced (gt_every g) (gate_run ?g e es)" "length (gate_run ?g e es) = length es"
    using Cons.IH [of ?g e] nn(1) Cons.prems(2,3) e(1) g1 by (simp_all add: gate_done_def)
  show ?case
  proof (cases "gate_run ?g e es")
    case Nil
    then show ?thesis using IH(2) run by simp
  next
    case (Cons y ys)
    obtain s2 e2 where y: "y = (s2, e2)" by (cases y)
    from gate_run_first [OF Cons [unfolded y] nn(1)] e(1) Cons.prems(2,3) g1
    have "gt_every g \<le> s2 - e" by (auto simp: gate_done_def)
    then show ?thesis using IH run Cons y e(2) by simp
  qed
qed simp


section \<open>Properties\<close>

text \<open>
   a new identity supersedes the old one: its generation is strictly greater than the previous one
  and not below the clock (short of the largest 64-bit value, where the increment would wrap), and
  its salt is 32 hexadecimal digits whether or not the random source works.
\<close>

theorem new_identity_supersedes:
  assumes "prev \<noteq> - 1" and "\<And>b. rnd = Some b \<Longrightarrow> length b = 16"
  shows "prev < fst (new_identity prev unix nanos rnd) \<and> unix \<le> fst (new_identity prev unix nanos rnd)
     \<and> length (snd (new_identity prev unix nanos rnd)) = 32"
  using new_identity_newer [OF assms(1), of unix nanos rnd] assms(2)
  by (auto simp: new_identity_def Let_def length_hex_encode split: option.split)

lemma new_identity_supersedes_witness:
  "10 < fst (new_identity 10 7 0 None) \<and> length (snd (new_identity 10 7 0 None)) = 32"
  using new_identity_supersedes [of 10 None 7 0] by simp

text \<open>
   worker starts never bunch up. In any run of the start gate, whatever the arrival times, sleep
  overshoots and lengths of the steps inside, every start is served and begins at least the pacing
  interval after the previous one has finished.
\<close>

theorem starts_spaced:
  assumes "nonneg es" and "0 \<le> every" and "every < 2 ^ 63" and "0 < clock"
  shows "spaced every (gate_run (new_start_gate every) clock es)
     \<and> length (gate_run (new_start_gate every) clock es) = length es"
  using gate_run_spaced [of es "new_start_gate every" clock] assms by (simp add: new_start_gate_def)

lemma starts_spaced_witness:
  "spaced (100 * millisecond) (gate_run (new_start_gate (100 * millisecond)) second
     [(0, 0, 40 * millisecond), (0, 0, 700 * millisecond), (0, millisecond, 0)])"
  by (rule conjunct1 [OF starts_spaced]) (simp_all add: nonneg_def)

text \<open>
   a worker is given up on only with evidence: the tick was not late, the worker has been ready for
  20 s, it has heard nothing for 30 s, a probe sent for this silence has gone unanswered for 30 s, and
  some other worker has heard something within 30 s.
\<close>

theorem restart_needs_evidence:
  assumes "liveness_verdict i = Liveness_restart"
  shows "li_probe_sent_at i \<noteq> 0 \<and> 30 * second \<le> li_now i - li_probe_sent_at i
     \<and> 30 * second \<le> li_now i - li_last_rx i \<and> li_now i - li_any_rx i < 30 * second
     \<and> li_ready_at i \<noteq> 0 \<and> 20 * second \<le> li_now i - li_ready_at i
     \<and> (li_prev_tick i = 0 \<or> li_now i - li_prev_tick i \<le> 10 * second)"
  using assms
  by (auto simp: liveness_verdict_def liveness_consts time_sub_le time_sub_ge not_le not_less
      split: if_splits simp flip: linorder_not_le)

lemma restart_needs_evidence_witness:
  "let i = \<lparr>li_now = 100 * second, li_prev_tick = 95 * second, li_ready_at = second,
            li_last_rx = 30 * second, li_probe_sent_at = 65 * second, li_any_rx = 99 * second\<rparr>
   in liveness_verdict i = Liveness_restart \<and> 30 * second \<le> li_now i - li_probe_sent_at i"
proof -
  let ?i = "\<lparr>li_now = 100 * second, li_prev_tick = 95 * second, li_ready_at = second,
            li_last_rx = 30 * second, li_probe_sent_at = 65 * second, li_any_rx = 99 * second\<rparr>"
  have "liveness_verdict ?i = Liveness_restart"
    by (simp add: liveness_verdict_def liveness_consts time_sub_def)
  with restart_needs_evidence [OF this] show ?thesis by (simp add: Let_def)
qed

text \<open>
   a silent worker on a live path is found: when ticks are on time and others hear traffic, a ready
  worker silent for 30 s is probed, and once the probe is 30 s old it is restarted, never ignored.
\<close>

theorem silent_worker_found:
  assumes "li_prev_tick i = 0 \<or> li_now i - li_prev_tick i \<le> 10 * second"
    and "li_ready_at i \<noteq> 0" and "20 * second \<le> li_now i - li_ready_at i"
    and "li_now i - li_any_rx i < 30 * second" and "30 * second \<le> li_now i - li_last_rx i"
  shows "liveness_verdict i =
    (if li_probe_sent_at i = 0 then Liveness_probe
     else if 30 * second \<le> li_now i - li_probe_sent_at i then Liveness_restart else Liveness_none)"
proof -
  have "\<not> (li_prev_tick i \<noteq> 0 \<and> liveness_tick + descheduled_slack < time_sub (li_now i) (li_prev_tick i))"
    using assms(1) by (auto simp: liveness_consts not_less time_sub_le)
  moreover have "\<not> time_sub (li_now i) (li_ready_at i) < ready_grace"
    using assms(3) by (simp add: liveness_consts not_less time_sub_ge)
  moreover have "\<not> probe_after \<le> time_sub (li_now i) (li_any_rx i)"
    using assms(4) by (simp add: liveness_consts time_sub_ge)
  moreover have "\<not> time_sub (li_now i) (li_last_rx i) < probe_after"
    using assms(5) by (simp add: liveness_consts not_less time_sub_ge)
  ultimately show ?thesis
    using assms(2) by (simp add: liveness_verdict_def liveness_consts time_sub_ge)
qed

lemma silent_worker_found_witness:
  "liveness_verdict \<lparr>li_now = 100 * second, li_prev_tick = 95 * second, li_ready_at = second,
     li_last_rx = 30 * second, li_probe_sent_at = 0, li_any_rx = 99 * second\<rparr> = Liveness_probe"
  by (subst silent_worker_found) simp_all

text \<open>
   the backoff stays between 1 s and 30 s for every sequence of session lengths, starts over at 1 s
  after a session of 40 s, and doubles up to 30 s after a shorter one.
\<close>

theorem backoff_bounded:
  "let b = foldl next_backoff restart_backoff lives
   in 1 * second \<le> b \<and> b \<le> 30 * second \<and> next_backoff b (40 * second) = 1 * second
      \<and> (\<forall>l < 40 * second. next_backoff b l = min (2 * b) (30 * second))"
proof -
  have "1 * second \<le> foldl next_backoff restart_backoff lives
      \<and> foldl next_backoff restart_backoff lives \<le> 30 * second"
    by (induction lives rule: rev_induct)
      (auto simp: next_backoff_def restart_backoff_def max_backoff_def)
  then show ?thesis
    by (auto simp: Let_def next_backoff_def restart_backoff_def max_backoff_def healthy_session_def
        ready_grace_def)
qed

lemma backoff_bounded_witness:
  "next_backoff (foldl next_backoff restart_backoff [second, second]) second = 8 * second"
  using backoff_bounded [of "[second, second]"]
  by (simp add: Let_def next_backoff_def restart_backoff_def max_backoff_def healthy_session_def ready_grace_def)

end
