(* ===== verification/CsqttClient.thy ===== *)
theory CsqttClient
  imports Control Dispatch Liveness
begin

unbundle bit_operations_syntax

text \<open>
  The csqtt client, \<^verbatim>\<open>src/pkg/csqtt/client.go\<close>: the workers and their sessions, the uplink and the
  downlink, the liveness monitor, path changes and wake, the run loop. One operation is one step on
  the client's state; goroutines are the interleavings of these steps. What the network does is an
  argument: \<open>net i plain\<close> says whether wrapping and writing \<open>plain\<close> on worker \<open>i\<close>'s relay succeeds. Every
  plaintext that went out is logged in \<open>cl_sent\<close>. Clocks are unix nanoseconds, 0 for none.
\<close>

section \<open>State\<close>

record worker =
  wk_relay :: bool
  wk_ready :: bool
  wk_tx :: int
  wk_rx :: int
  wk_tx_bytes :: int
  wk_rx_bytes :: int
  wk_restarts :: int
  wk_last_rx :: int
  wk_last_tx :: int
  wk_ready_at :: int
  wk_blackhole :: bool
  wk_probe_at :: int
  wk_probing :: bool
  wk_kick :: "bytes option"

definition new_worker :: worker where
  "new_worker = \<lparr>wk_relay = False, wk_ready = False, wk_tx = 0, wk_rx = 0, wk_tx_bytes = 0,
     wk_rx_bytes = 0, wk_restarts = 0, wk_last_rx = 0, wk_last_tx = 0, wk_ready_at = 0,
     wk_blackhole = False, wk_probe_at = 0, wk_probing = False, wk_kick = None\<rparr>"

record config =
  cf_device :: bytes
  cf_password :: bytes
  cf_workers :: int
  cf_chunks :: "packet_class \<Rightarrow> int"
  cf_revision :: bytes
  cf_local_port :: bytes
  cf_transport :: bytes
  cf_start_pacing :: duration
  cf_duplicate :: bool

text \<open>The fields of \<^verbatim>\<open>Config.defaults\<close> that the model keeps.\<close>

definition config_defaults :: "config \<Rightarrow> config" where
  "config_defaults c = c
     \<lparr>cf_revision := (if cf_revision c = [] then wire_revision else cf_revision c),
      cf_local_port := (if cf_local_port c = [] then ascii ''9000'' else cf_local_port c),
      cf_transport := (if cf_transport c = [] then ascii ''udp'' else cf_transport c),
      cf_start_pacing := (if cf_start_pacing c = 0 then 100 * millisecond else cf_start_pacing c),
      cf_workers := (let n = (if cf_workers c < 1 then 1 else cf_workers c)
                     in if int max_workers < n then int max_workers else n)\<rparr>"

record client =
  cl_cfg :: config
  cl_workers :: "worker list"
  cl_striper :: striper
  cl_seq :: sequencer
  cl_reasm :: "bytes reassembler"
  cl_out :: "bytes list"
  cl_conf :: config_response
  cl_conf_set :: bool
  cl_fatal :: "config_error option"
  cl_stopped :: bool
  cl_closing :: bool
  cl_dropped :: int
  cl_no_worker :: int
  cl_framed_tx :: int
  cl_dup_tx :: int
  cl_reassembled :: int
  cl_repairs :: int
  cl_dup_cursor :: nat
  cl_any_rx :: int
  cl_probes :: int
  cl_resets :: int
  cl_lost :: int
  cl_last_tick :: int
  cl_gen :: u64
  cl_salt :: bytes
  cl_path_changes :: int
  cl_sent :: "(nat \<times> bytes) list"

definition no_config :: config_response where
  "no_config = \<lparr>cr_tunnel_ip = [], cr_dns = [], cr_local_port = [], cr_stream_revision = [], cr_raw = []\<rparr>"

text \<open>\<^verbatim>\<open>Dial\<close>: the client as built, before its workers run.\<close>

definition dial_client :: "config \<Rightarrow> u64 \<Rightarrow> bytes \<Rightarrow> u64 \<Rightarrow> client" where
  "dial_client cfg0 gen salt rnd =
     (let cfg = config_defaults cfg0 in
      \<lparr>cl_cfg = cfg, cl_workers = replicate (nat (cf_workers cfg)) new_worker,
       cl_striper = set_chunks (new_striper (cf_workers cfg)) (cf_chunks cfg),
       cl_seq = new_sequencer 0 rnd, cl_reasm = new_reassembler, cl_out = [], cl_conf = no_config,
       cl_conf_set = False, cl_fatal = None, cl_stopped = False, cl_closing = False, cl_dropped = 0,
       cl_no_worker = 0, cl_framed_tx = 0, cl_dup_tx = 0, cl_reassembled = 0, cl_repairs = 0,
       cl_dup_cursor = 0, cl_any_rx = 0, cl_probes = 0, cl_resets = 0, cl_lost = 0,
       cl_last_tick = 0, cl_gen = gen, cl_salt = salt, cl_path_changes = 0, cl_sent = []\<rparr>)"

definition upd_worker :: "client \<Rightarrow> nat \<Rightarrow> (worker \<Rightarrow> worker) \<Rightarrow> client" where
  "upd_worker c i f = c\<lparr>cl_workers := (cl_workers c)[i := f (cl_workers c ! i)]\<rparr>"

definition alive :: "client \<Rightarrow> int \<Rightarrow> bool" where
  "alive c i = wk_ready (cl_workers c ! nat i)"

section \<open>Uplink\<close>

datatype send_result = Send_ok | Send_no_worker | Send_failed

definition send :: "(nat \<Rightarrow> bytes \<Rightarrow> bool) \<Rightarrow> int \<Rightarrow> client \<Rightarrow> nat \<Rightarrow> bytes \<Rightarrow> send_result \<times> client" where
  "send net now c i plain =
     (if \<not> wk_relay (cl_workers c ! i) then (Send_no_worker, c)
      else if \<not> net i plain then (Send_failed, c)
      else (Send_ok,
        (upd_worker c i (\<lambda>w. w\<lparr>wk_tx := wk_tx w + 1, wk_tx_bytes := wk_tx_bytes w + int (length plain),
           wk_last_tx := now\<rparr>))\<lparr>cl_sent := cl_sent c @ [(i, plain)]\<rparr>))"

text \<open>\<^verbatim>\<open>secondWorker\<close>: \<open>k\<close> counts the turns of its loop that are left.\<close>

fun second_worker_loop :: "nat \<Rightarrow> client \<Rightarrow> nat \<Rightarrow> nat option \<times> client" where
  "second_worker_loop 0 c first = (None, c)"
| "second_worker_loop (Suc k) c first =
     (let c = c\<lparr>cl_dup_cursor := (cl_dup_cursor c + 1) mod length (cl_workers c)\<rparr>;
          w = cl_dup_cursor c
      in if w \<noteq> first \<and> alive c (int w) then (Some w, c) else second_worker_loop k c first)"

definition second_worker :: "client \<Rightarrow> nat \<Rightarrow> nat option \<times> client" where
  "second_worker c first = second_worker_loop (length (cl_workers c)) c first"

definition write_packet ::
  "(nat \<Rightarrow> bytes \<Rightarrow> bool) \<Rightarrow> int \<Rightarrow> client \<Rightarrow> bytes \<Rightarrow> send_result \<times> client" where
  "write_packet net now c pkt =
     (if pkt = [] then (Send_ok, c)
      else
        let (w, sp) = pick (cl_striper c) (classify pkt) (alive c);
            c = c\<lparr>cl_striper := sp\<rparr>
        in if w < 0 then (Send_no_worker, c\<lparr>cl_no_worker := cl_no_worker c + 1\<rparr>)
           else if \<not> frames_data (cl_conf c) then send net now c (nat w) pkt
           else
             let ((framed, ok), sq) = sequencer_frame (cl_seq c) [] pkt;
                 c = c\<lparr>cl_seq := sq\<rparr>
             in if \<not> ok then send net now c (nat w) pkt
                else
                  let c = c\<lparr>cl_framed_tx := cl_framed_tx c + 1\<rparr>;
                      (err, c) = send net now c (nat w) framed
                  in if \<not> cf_duplicate (cl_cfg c) then (err, c)
                     else (case second_worker c (nat w) of
                         (None, c) \<Rightarrow> (err, c)
                       | (Some w2, c) \<Rightarrow>
                           let (err2, c) = send net now c w2 framed
                           in (err, if err2 = Send_ok then c\<lparr>cl_dup_tx := cl_dup_tx c + 1\<rparr> else c)))"

section \<open>Downlink\<close>

definition out_capacity :: nat where
  "out_capacity = 1024"

definition enqueue :: "client \<Rightarrow> bytes \<Rightarrow> client" where
  "enqueue c p =
     (if length (cl_out c) < out_capacity then c\<lparr>cl_out := cl_out c @ [p]\<rparr>
      else c\<lparr>cl_dropped := cl_dropped c + 1\<rparr>)"

text \<open>\<open>elapsed\<close> is the time in nanoseconds since the reassembler was created.\<close>

definition deliver :: "nat \<Rightarrow> client \<Rightarrow> bytes \<Rightarrow> client" where
  "deliver elapsed c plain =
     (case decode_frame plain of
        None \<Rightarrow> enqueue c plain
      | Some (h, payload) \<Rightarrow>
          let (r, released) = push (cl_reasm c) h payload elapsed;
              c = c\<lparr>cl_reasm := r, cl_reassembled := cl_reassembled c + int (length released)\<rparr>
          in foldl enqueue c released)"

definition read_packet :: "client \<Rightarrow> (bytes \<times> client) option" where
  "read_packet c = (case cl_out c of [] \<Rightarrow> None | p # ps \<Rightarrow> Some (p, c\<lparr>cl_out := ps\<rparr>))"


section \<open>Configuration, failure, restarts\<close>

definition fail :: "client \<Rightarrow> config_error \<Rightarrow> client" where
  "fail c err = (if cl_fatal c = None then c\<lparr>cl_fatal := Some err, cl_stopped := True\<rparr> else c)"

text \<open>\<^verbatim>\<open>confOnce\<close> is closed by the first call; \<open>cl_conf_set\<close> is both facts.\<close>

definition set_config :: "client \<Rightarrow> config_response \<Rightarrow> client" where
  "set_config c conf = c\<lparr>cl_conf := conf, cl_conf_set := True\<rparr>"

text \<open>The kick channel holds one request; a further one is dropped.\<close>

definition restart :: "client \<Rightarrow> nat \<Rightarrow> bytes \<Rightarrow> client" where
  "restart c i reason =
     upd_worker c i (\<lambda>w. if wk_kick w = None then w\<lparr>wk_kick := Some reason\<rparr> else w)"

definition restart_all :: "client \<Rightarrow> bytes \<Rightarrow> client" where
  "restart_all c reason = foldl (\<lambda>c i. restart c i reason) c [0..<length (cl_workers c)]"

definition repair :: "client \<Rightarrow> stream_command \<Rightarrow> client" where
  "repair c cmd =
     foldl (\<lambda>c i. if 1 \<le> unat i \<and> unat i \<le> length (cl_workers c)
                 then restart c (unat i - 1) (ascii ''server REPAIR seq='' @ itoa (uint (sc_sequence cmd)))
                 else c)
       (c\<lparr>cl_repairs := cl_repairs c + 1\<rparr>) (sc_workers cmd)"

text \<open>
  \<^verbatim>\<open>probe\<close> marks the probe and starts the write unless one is still in flight; \<open>probe_write\<close> is that
  write completing, in a goroutine of its own.
\<close>

definition probe :: "client \<Rightarrow> nat \<Rightarrow> int \<Rightarrow> client" where
  "probe c i now =
     (upd_worker c i (\<lambda>w. w\<lparr>wk_probe_at := now, wk_probing := True\<rparr>))\<lparr>cl_probes := cl_probes c + 1\<rparr>"

definition probe_write :: "(nat \<Rightarrow> bytes \<Rightarrow> bool) \<Rightarrow> int \<Rightarrow> client \<Rightarrow> nat \<Rightarrow> client" where
  "probe_write net now c i =
     (if \<not> wk_probing (cl_workers c ! i) then c
      else upd_worker (snd (send net now c i ready_request)) i (\<lambda>w. w\<lparr>wk_probing := False\<rparr>))"

definition on_path_change :: "client \<Rightarrow> u64 \<Rightarrow> u64 \<Rightarrow> bytes option \<Rightarrow> client" where
  "on_path_change c unix nanos rnd =
     (let (gen, salt) = new_identity (cl_gen c) unix nanos rnd
      in restart_all (c\<lparr>cl_gen := gen, cl_salt := salt, cl_path_changes := cl_path_changes c + 1\<rparr>)
           (ascii ''path change''))"

definition reset_clocks :: "int \<Rightarrow> worker \<Rightarrow> worker" where
  "reset_clocks ns w = w\<lparr>wk_last_rx := ns, wk_probe_at := 0\<rparr>"

definition wake_step :: "int \<Rightarrow> client \<Rightarrow> nat \<Rightarrow> client" where
  "wake_step ns c i =
     (let c = upd_worker c i (reset_clocks ns)
      in if wk_ready (cl_workers c ! i) then probe c i ns else c)"

definition wake_health_check :: "client \<Rightarrow> int \<Rightarrow> client" where
  "wake_health_check c ns =
     (foldl (wake_step ns) (c\<lparr>cl_any_rx := ns\<rparr>) [0..<length (cl_workers c)])\<lparr>cl_last_tick := ns\<rparr>"

section \<open>The liveness monitor\<close>

text \<open>Nanoseconds from Go's zero time to the unix epoch.\<close>

definition unix_epoch :: time where
  "unix_epoch = 62135596800 * second"

definition nanos_time :: "int \<Rightarrow> time" where
  "nanos_time ns = (if ns = 0 then 0 else unix_epoch + ns)"

definition worker_input :: "int \<Rightarrow> time \<Rightarrow> time \<Rightarrow> worker \<Rightarrow> liveness_input" where
  "worker_input now prev anyRx w =
     \<lparr>li_now = unix_epoch + now, li_prev_tick = prev, li_ready_at = nanos_time (wk_ready_at w),
      li_last_rx = nanos_time (wk_last_rx w), li_probe_sent_at = nanos_time (wk_probe_at w),
      li_any_rx = anyRx\<rparr>"

definition monitor_worker :: "int \<Rightarrow> time \<Rightarrow> time \<Rightarrow> client \<times> bool \<Rightarrow> nat \<Rightarrow> client \<times> bool" where
  "monitor_worker now prev anyRx cr i =
     (case cr of (c, reset) \<Rightarrow>
        (case liveness_verdict (worker_input now prev anyRx (cl_workers c ! i)) of
           Liveness_reset_all \<Rightarrow> (c, True)
         | Liveness_probe \<Rightarrow> (probe c i now, reset)
         | Liveness_restart \<Rightarrow>
             (restart (c\<lparr>cl_lost := cl_lost c + 1\<rparr>) i
                (ascii ''liveness: no inbound after a probe while other workers are live''), reset)
         | Liveness_none \<Rightarrow> (c, reset)))"

definition monitor_tick :: "client \<Rightarrow> int \<Rightarrow> client" where
  "monitor_tick c now =
     (let prev = nanos_time (cl_last_tick c);
          anyRx = unix_epoch + cl_any_rx c;
          (c, reset) = foldl (monitor_worker now prev anyRx) (c, False) [0..<length (cl_workers c)];
          c = (if reset
               then c\<lparr>cl_resets := cl_resets c + 1, cl_any_rx := now,
                      cl_workers := map (reset_clocks now) (cl_workers c)\<rparr>
               else c)
      in c\<lparr>cl_last_tick := now\<rparr>)"

section \<open>Inbound datagrams\<close>

definition handle_control :: "client \<Rightarrow> bytes \<Rightarrow> client" where
  "handle_control c p =
     (if is_panel_restart p then restart_all c (ascii ''panel restart'')
      else if is_config_response p then
        (case parse_config_response p of
           Inr conf \<Rightarrow> set_config c conf
         | Inl err \<Rightarrow> fail c err)
      else if 0 < length p \<and> p ! 0 = 0xff then
        (case parse_stream_repair p of Some cmd \<Rightarrow> repair c cmd | None \<Rightarrow> c)
      else c)"

text \<open>
  One turn of \<^verbatim>\<open>readLoop\<close> on a datagram. \<open>plain\<close> is the result of \<^verbatim>\<open>IsRTP\<close> and \<^verbatim>\<open>Unwrap\<close>, \<open>None\<close> when
  the datagram is not RTP or does not decrypt; the second result is the control message handed to
  the session, if any (the channel drops it when full).
\<close>

definition receive :: "nat \<Rightarrow> int \<Rightarrow> client \<Rightarrow> nat \<Rightarrow> bytes option \<Rightarrow> client \<times> bytes option" where
  "receive elapsed now c i unwrapped =
     (if wk_blackhole (cl_workers c ! i) then (c, None)
      else case unwrapped of None \<Rightarrow> (c, None)
      | Some plain \<Rightarrow>
          let c = (upd_worker c i (\<lambda>w. w\<lparr>wk_rx := wk_rx w + 1,
                     wk_rx_bytes := wk_rx_bytes w + int (length plain),
                     wk_last_rx := now, wk_probe_at := 0\<rparr>))\<lparr>cl_any_rx := now\<rparr>
          in if is_idle_keepalive plain then (c, None)
             else if is_control plain then (c, Some plain)
             else (deliver elapsed c plain, None))"

definition blackhole :: "client \<Rightarrow> int \<Rightarrow> bool \<Rightarrow> client" where
  "blackhole c workerID on =
     (if 1 \<le> workerID \<and> workerID \<le> int (length (cl_workers c))
      then upd_worker c (nat (workerID - 1)) (\<lambda>w. w\<lparr>wk_blackhole := on\<rparr>) else c)"

section \<open>Close and statistics\<close>

text \<open>
  \<^verbatim>\<open>Close\<close>: one DISCONNECT through the first ready worker, then every relay is closed (the sessions'
  teardowns follow, see below). A second call does nothing.
\<close>

definition client_close :: "(nat \<Rightarrow> bytes \<Rightarrow> bool) \<Rightarrow> int \<Rightarrow> client \<Rightarrow> client" where
  "client_close net now c =
     (if cl_closing c then c
      else
        let c = c\<lparr>cl_closing := True\<rparr>;
            c = (case find_index wk_ready (cl_workers c) of
                   None \<Rightarrow> c
                 | Some i \<Rightarrow> snd (send net now c i
                     (disconnect_request (cf_device (cl_cfg c)) (cl_salt c))))
        in c\<lparr>cl_stopped := True\<rparr>)"

record client_stats =
  cs_tx_bytes :: int
  cs_rx_bytes :: int
  cs_ready :: nat
  cs_total :: nat
  cs_restarts :: int
  cs_generation :: u64

definition stats :: "client \<Rightarrow> client_stats" where
  "stats c =
     \<lparr>cs_tx_bytes = sum_list (map wk_tx_bytes (cl_workers c)),
      cs_rx_bytes = sum_list (map wk_rx_bytes (cl_workers c)),
      cs_ready = length (filter wk_ready (cl_workers c)),
      cs_total = length (cl_workers c),
      cs_restarts = sum_list (map wk_restarts (cl_workers c)),
      cs_generation = cl_gen c\<rparr>"

section \<open>Sessions\<close>

text \<open>
  One session is one allocation. \<open>ss_calls\<close> is the trace of what the credential pool hears about the
  lease, \<open>ss_relay\<close> whether the session's relay is open. The phases are the blocking points of
  \<^verbatim>\<open>session()\<close>; \<open>Ph_attempt k\<close> is the head of the GETCONF loop, \<open>Ph_wait k\<close> its inner wait.
\<close>

datatype lease_call = Lease_failed | Lease_released

datatype session_end =
  End_credentials | End_cancelled | End_dial | End_wrapper | End_io | End_silence
  | End_config config_error | End_asked bytes

datatype phase =
  Ph_creds | Ph_gate | Ph_dial | Ph_wrapper | Ph_attempt nat | Ph_wait nat | Ph_serve
  | Ph_ended session_end

record session =
  ss_phase :: phase
  ss_calls :: "lease_call list"
  ss_relay :: bool

definition new_session :: session where
  "new_session = \<lparr>ss_phase = Ph_creds, ss_calls = [], ss_relay = False\<rparr>"

datatype session_event =
  Ev_creds bool | Ev_gate bool | Ev_dial bool | Ev_wrapper bool | Ev_attempt
  | Ev_control bytes | Ev_kick | Ev_read_error | Ev_deadline | Ev_cancel | Ev_tick

definition getconf_attempts :: nat where
  "getconf_attempts = 3"

definition keepalive_every :: duration where
  "keepalive_every = 10 * second"

text \<open>The deferred calls: the fields of the worker, the relay, then the lease.\<close>

definition teardown :: "client \<Rightarrow> nat \<Rightarrow> session \<Rightarrow> session_end \<Rightarrow> client \<times> session" where
  "teardown c i ss e =
     (upd_worker c i (\<lambda>w. w\<lparr>wk_ready := False, wk_ready_at := 0, wk_probe_at := 0, wk_relay := False\<rparr>),
      ss\<lparr>ss_phase := Ph_ended e, ss_calls := ss_calls ss @ [Lease_released], ss_relay := False\<rparr>)"

definition take_kick :: "client \<Rightarrow> nat \<Rightarrow> bytes option \<times> client" where
  "take_kick c i = (wk_kick (cl_workers c ! i), upd_worker c i (\<lambda>w. w\<lparr>wk_kick := None\<rparr>))"

definition getconf_line :: "client \<Rightarrow> nat \<Rightarrow> bytes" where
  "getconf_line c i =
     config_request (cf_local_port (cl_cfg c)) (cf_device (cl_cfg c)) (cf_password (cl_cfg c))
       (cl_gen c) (cl_salt c) (int (i + 1)) (cf_workers (cl_cfg c)) (cf_revision (cl_cfg c))"

definition attempt_step ::
  "(nat \<Rightarrow> bytes \<Rightarrow> bool) \<Rightarrow> int \<Rightarrow> client \<Rightarrow> nat \<Rightarrow> session \<Rightarrow> nat \<Rightarrow> client \<times> session" where
  "attempt_step net now c i ss k =
     (if getconf_attempts \<le> k then teardown c i ss End_silence
      else case take_kick c i of
        (Some reason, c) \<Rightarrow> teardown c i ss (End_asked reason)
      | (None, c) \<Rightarrow>
          (case send net now c i (getconf_line c i) of
             (Send_ok, c) \<Rightarrow> (c, ss\<lparr>ss_phase := Ph_wait k\<rparr>)
           | (_, c) \<Rightarrow> teardown c i ss End_io))"

definition config_arrived ::
  "(nat \<Rightarrow> bytes \<Rightarrow> bool) \<Rightarrow> int \<Rightarrow> client \<Rightarrow> nat \<Rightarrow> session \<Rightarrow> config_response \<Rightarrow> client \<times> session" where
  "config_arrived net now c i ss conf =
     (case send net now (set_config c conf) i ready_request of
        (Send_ok, c) \<Rightarrow>
          (upd_worker c i (\<lambda>w. w\<lparr>wk_ready := True, wk_ready_at := now\<rparr>), ss\<lparr>ss_phase := Ph_serve\<rparr>)
      | (_, c) \<Rightarrow> teardown c i ss End_io)"

text \<open>An event that the phase does not wait for changes nothing.\<close>

definition session_step ::
  "(nat \<Rightarrow> bytes \<Rightarrow> bool) \<Rightarrow> int \<Rightarrow> client \<Rightarrow> nat \<Rightarrow> session \<Rightarrow> session_event \<Rightarrow> client \<times> session" where
  "session_step net now c i ss ev =
     (case (ss_phase ss, ev) of
        (Ph_creds, Ev_creds ok) \<Rightarrow>
          (if ok then (c, ss\<lparr>ss_phase := Ph_gate\<rparr>) else (c, ss\<lparr>ss_phase := Ph_ended End_credentials\<rparr>))
      | (Ph_gate, Ev_gate cancelled) \<Rightarrow>
          (if cancelled
           then (c, ss\<lparr>ss_phase := Ph_ended End_cancelled, ss_calls := ss_calls ss @ [Lease_released]\<rparr>)
           else (snd (take_kick c i), ss\<lparr>ss_phase := Ph_dial\<rparr>))
      | (Ph_dial, Ev_dial ok) \<Rightarrow>
          (if ok then (c, ss\<lparr>ss_phase := Ph_wrapper, ss_relay := True\<rparr>)
           else (c, ss\<lparr>ss_phase := Ph_ended End_dial,
                       ss_calls := ss_calls ss @ [Lease_failed, Lease_released]\<rparr>))
      | (Ph_wrapper, Ev_wrapper ok) \<Rightarrow>
          (if ok then (upd_worker c i (\<lambda>w. w\<lparr>wk_blackhole := False, wk_relay := True\<rparr>),
                       ss\<lparr>ss_phase := Ph_attempt 0\<rparr>)
           else (c, ss\<lparr>ss_phase := Ph_ended End_wrapper, ss_calls := ss_calls ss @ [Lease_released],
                       ss_relay := False\<rparr>))
      | (Ph_attempt k, Ev_attempt) \<Rightarrow> attempt_step net now c i ss k
      | (Ph_wait k, Ev_control p) \<Rightarrow>
          (if \<not> is_config_response p then (c, ss)
           else (case parse_config_response p of
                   Inl err \<Rightarrow> teardown c i ss (End_config err)
                 | Inr conf \<Rightarrow> config_arrived net now c i ss conf))
      | (Ph_wait k, Ev_deadline) \<Rightarrow> (c, ss\<lparr>ss_phase := Ph_attempt (k + 1)\<rparr>)
      | (Ph_wait k, Ev_read_error) \<Rightarrow> teardown c i ss End_io
      | (Ph_wait k, Ev_cancel) \<Rightarrow> teardown c i ss End_cancelled
      | (Ph_wait k, Ev_kick) \<Rightarrow>
          (case take_kick c i of
             (Some reason, c) \<Rightarrow> teardown c i ss (End_asked reason) | (None, _) \<Rightarrow> (c, ss))
      | (Ph_serve, Ev_cancel) \<Rightarrow> teardown c i ss End_cancelled
      | (Ph_serve, Ev_kick) \<Rightarrow>
          (case take_kick c i of
             (Some reason, c) \<Rightarrow> teardown c i ss (End_asked reason) | (None, _) \<Rightarrow> (c, ss))
      | (Ph_serve, Ev_read_error) \<Rightarrow> teardown c i ss End_io
      | (Ph_serve, Ev_control p) \<Rightarrow> (handle_control c p, ss)
      | (Ph_serve, Ev_tick) \<Rightarrow>
          (if keepalive_every \<le> now - wk_last_tx (cl_workers c ! i) then
             (case send net now c i idle_keepalive of
                (Send_ok, c) \<Rightarrow> (c, ss) | (_, c) \<Rightarrow> teardown c i ss End_io)
           else (c, ss))
      | _ \<Rightarrow> (c, ss))"

text \<open>
  What \<^verbatim>\<open>run\<close> does when a session has ended: stop, redial at once, or sleep for the new backoff. A
  fatal reply stops the client.
\<close>

datatype run_next = Run_stop | Run_redial | Run_sleep duration

definition after_session :: "client \<Rightarrow> nat \<Rightarrow> duration \<Rightarrow> session_end \<Rightarrow> duration \<Rightarrow> client \<times> duration \<times> run_next" where
  "after_session c i backoff e lived =
     (if cl_stopped c then (c, backoff, Run_stop)
      else case e of
        End_config (Denied_error r) \<Rightarrow> (fail c (Denied_error r), backoff, Run_stop)
      | End_config Err_no_config \<Rightarrow> (fail c Err_no_config, backoff, Run_stop)
      | End_asked reason \<Rightarrow>
          (upd_worker c i (\<lambda>w. w\<lparr>wk_restarts := wk_restarts w + 1\<rparr>), backoff, Run_redial)
      | _ \<Rightarrow>
          (upd_worker c i (\<lambda>w. w\<lparr>wk_restarts := wk_restarts w + 1\<rparr>),
           next_backoff backoff lived, Run_sleep (next_backoff backoff lived)))"


section \<open>Lemmas on the workers\<close>

lemma workers_upd [simp]: "cl_workers (upd_worker c i f) = (cl_workers c)[i := f (cl_workers c ! i)]"
  by (simp add: upd_worker_def)

lemma upd_worker_rest [simp]:
  "cl_sent (upd_worker c i f) = cl_sent c" "cl_gen (upd_worker c i f) = cl_gen c"
  "cl_salt (upd_worker c i f) = cl_salt c" "cl_any_rx (upd_worker c i f) = cl_any_rx c"
  "cl_lost (upd_worker c i f) = cl_lost c" "cl_probes (upd_worker c i f) = cl_probes c"
  "cl_out (upd_worker c i f) = cl_out c" "cl_striper (upd_worker c i f) = cl_striper c"
  "cl_cfg (upd_worker c i f) = cl_cfg c" "cl_last_tick (upd_worker c i f) = cl_last_tick c"
  "cl_reasm (upd_worker c i f) = cl_reasm c"
  by (simp_all add: upd_worker_def)

definition kicked :: "bytes \<Rightarrow> worker \<Rightarrow> worker" where
  "kicked reason w = (if wk_kick w = None then w\<lparr>wk_kick := Some reason\<rparr> else w)"

lemma restart_workers: "cl_workers (restart c i reason) = (cl_workers c)[i := kicked reason (cl_workers c ! i)]"
  by (simp add: restart_def kicked_def)

lemma restart_all_workers: "cl_workers (restart_all c reason) = map (kicked reason) (cl_workers c)"
  unfolding restart_all_def by (rule foldl_update_all) (rule restart_workers)

lemma restart_all_rest: "cl_sent (restart_all c reason) = cl_sent c" "cl_gen (restart_all c reason) = cl_gen c"
  "cl_salt (restart_all c reason) = cl_salt c"
  unfolding restart_all_def by (rule foldl_preserves; simp add: restart_def)+

lemma kicked_kick: "wk_kick (kicked reason w) \<noteq> None"
  by (simp add: kicked_def)

text \<open>What a monitor tick does to one worker, before a reset.\<close>

definition monitored :: "int \<Rightarrow> time \<Rightarrow> time \<Rightarrow> worker \<Rightarrow> worker" where
  "monitored now prev anyRx w =
     (case liveness_verdict (worker_input now prev anyRx w) of
        Liveness_probe \<Rightarrow> w\<lparr>wk_probe_at := now, wk_probing := True\<rparr>
      | Liveness_restart \<Rightarrow>
          kicked (ascii ''liveness: no inbound after a probe while other workers are live'') w
      | _ \<Rightarrow> w)"

lemma monitor_worker_workers:
  "cl_workers (fst (monitor_worker now prev anyRx cr i)) =
     (cl_workers (fst cr))[i := monitored now prev anyRx (cl_workers (fst cr) ! i)]"
  by (cases cr) (auto simp: monitor_worker_def monitored_def probe_def restart_workers
      split: liveness_action.split)

lemma monitor_fold_workers:
  "cl_workers (fst (foldl (monitor_worker now prev anyRx) (c, False) [0..<length (cl_workers c)])) =
     map (monitored now prev anyRx) (cl_workers c)"
  using foldl_update_all [of "\<lambda>cr. cl_workers (fst cr)" "monitor_worker now prev anyRx"
      "monitored now prev anyRx" "(c, False)"] monitor_worker_workers by simp

text \<open>A late tick is late for every worker.\<close>

definition late :: "client \<Rightarrow> int \<Rightarrow> bool" where
  "late c now \<longleftrightarrow> nanos_time (cl_last_tick c) \<noteq> 0
     \<and> liveness_tick + descheduled_slack < time_sub (unix_epoch + now) (nanos_time (cl_last_tick c))"

lemma verdict_late:
  "liveness_verdict (worker_input now (nanos_time (cl_last_tick c)) anyRx w) = Liveness_reset_all \<longleftrightarrow> late c now"
  by (auto simp: liveness_verdict_def worker_input_def late_def)

lemma monitor_fold_late:
  assumes "late c0 now"
  shows "foldl (monitor_worker now (nanos_time (cl_last_tick c0)) anyRx) (c, b) is = (c, b \<or> is \<noteq> [])"
proof (induction "is" arbitrary: b)
  case (Cons i "is")
  have "liveness_verdict (worker_input now (nanos_time (cl_last_tick c0)) anyRx (cl_workers c ! i)) = Liveness_reset_all"
    using assms by (simp only: verdict_late)
  then have "monitor_worker now (nanos_time (cl_last_tick c0)) anyRx (c, b) i = (c, True)"
    by (simp add: monitor_worker_def)
  with Cons show ?case by simp
qed simp

lemma monitor_fold_on_time:
  assumes "\<not> late c0 now"
  shows "snd (foldl (monitor_worker now (nanos_time (cl_last_tick c0)) anyRx) (c, b) is) = b"
proof (induction "is" arbitrary: c b)
  case (Cons i "is")
  have "liveness_verdict (worker_input now (nanos_time (cl_last_tick c0)) anyRx (cl_workers c ! i)) \<noteq> Liveness_reset_all"
    using assms by (simp only: verdict_late not_False_eq_True)
  then have "snd (monitor_worker now (nanos_time (cl_last_tick c0)) anyRx (c, b) i) = b"
    by (auto simp: monitor_worker_def split: liveness_action.split)
  with Cons show ?case
    by (cases "monitor_worker now (nanos_time (cl_last_tick c0)) anyRx (c, b) i") simp
qed simp

lemma monitor_tick_late:
  assumes "late c now" and "cl_workers c \<noteq> []"
  shows "monitor_tick c now = c\<lparr>cl_resets := cl_resets c + 1, cl_any_rx := now,
     cl_workers := map (reset_clocks now) (cl_workers c), cl_last_tick := now\<rparr>"
  using assms by (simp add: monitor_tick_def monitor_fold_late Let_def)

lemma monitor_tick_on_time:
  assumes "\<not> late c now"
  shows "cl_workers (monitor_tick c now) =
     map (monitored now (nanos_time (cl_last_tick c)) (unix_epoch + cl_any_rx c)) (cl_workers c)"
proof -
  let ?f = "foldl (monitor_worker now (nanos_time (cl_last_tick c)) (unix_epoch + cl_any_rx c))
    (c, False) [0..<length (cl_workers c)]"
  have "\<not> snd ?f" using monitor_fold_on_time [OF assms] by simp
  then have "cl_workers (monitor_tick c now) = cl_workers (fst ?f)"
    by (simp add: monitor_tick_def split_beta)
  then show ?thesis by (simp only: monitor_fold_workers)
qed


definition woken :: "int \<Rightarrow> worker \<Rightarrow> worker" where
  "woken ns w = (if wk_ready w then w\<lparr>wk_last_rx := ns, wk_probe_at := ns, wk_probing := True\<rparr>
                 else reset_clocks ns w)"

lemma wake_step_workers: "cl_workers (wake_step ns c i) = (cl_workers c)[i := woken ns (cl_workers c ! i)]"
proof (cases "i < length (cl_workers c)")
  case True
  then show ?thesis
    by (simp add: wake_step_def woken_def probe_def reset_clocks_def Let_def)
next
  case False
  then show ?thesis by (simp add: wake_step_def probe_def Let_def list_update_beyond)
qed

lemma wake_workers: "cl_workers (wake_health_check c ns) = map (woken ns) (cl_workers c)"
  using foldl_update_all [of cl_workers "wake_step ns" "woken ns" "c\<lparr>cl_any_rx := ns\<rparr>"] wake_step_workers
  by (simp add: wake_health_check_def)

section \<open>Lemmas on sending\<close>

lemma send_result:
  assumes "send net now c i p = (r, c')"
  shows "cl_striper c' = cl_striper c \<and> cl_cfg c' = cl_cfg c \<and> length (cl_workers c') = length (cl_workers c)
     \<and> map wk_ready (cl_workers c') = map wk_ready (cl_workers c)
     \<and> cl_sent c' = cl_sent c @ (if r = Send_ok then [(i, p)] else [])"
proof (cases "i < length (cl_workers c)")
  case True
  then show ?thesis
    using assms by (auto simp: send_def map_update list_update_same_conv split: if_splits)
next
  case False
  then show ?thesis
    using assms by (auto simp: send_def list_update_beyond split: if_splits)
qed

lemma second_worker_result:
  "second_worker_loop k c first = (r, c') \<Longrightarrow> cl_workers c \<noteq> [] \<Longrightarrow>
     cl_workers c' = cl_workers c \<and> cl_sent c' = cl_sent c \<and> cl_striper c' = cl_striper c
     \<and> (\<forall>w. r = Some w \<longrightarrow> w \<noteq> first \<and> w < length (cl_workers c) \<and> wk_ready (cl_workers c ! w))"
proof (induction k c first rule: second_worker_loop.induct)
  case (2 k c first)
  let ?c = "c\<lparr>cl_dup_cursor := (cl_dup_cursor c + 1) mod length (cl_workers c)\<rparr>"
  show ?case
  proof (cases "cl_dup_cursor ?c \<noteq> first \<and> alive ?c (int (cl_dup_cursor ?c))")
    case True
    with 2(2,3) show ?thesis by (auto simp: alive_def Let_def)
  next
    case False
    then show ?thesis using 2(1) [OF refl refl False] 2(2,3) by (auto simp: Let_def split: if_splits)
  qed
qed simp

text \<open>
  The uplink keeps these facts: the striper is sound and covers exactly the workers.
\<close>

definition uplink_inv :: "client \<Rightarrow> bool" where
  "uplink_inv c \<longleftrightarrow> striper_inv (cl_striper c) \<and> sp_n (cl_striper c) = int (length (cl_workers c))"

text \<open>\<open>carried c pkt n c'\<close>: at most \<open>n\<close> copies went out, on distinct ready workers, each carrying \<open>pkt\<close>.\<close>

definition carried :: "client \<Rightarrow> bytes \<Rightarrow> nat \<Rightarrow> client \<Rightarrow> bool" where
  "carried c pkt n c' \<longleftrightarrow> (\<exists>xs. cl_sent c' = cl_sent c @ xs \<and> length xs \<le> n \<and> distinct (map fst xs)
     \<and> (\<forall>(i, p)\<in>set xs. i < length (cl_workers c) \<and> wk_ready (cl_workers c ! i) \<and> frame_payload p = pkt))"

lemma carried_none: "cl_sent c' = cl_sent c \<Longrightarrow> carried c pkt n c'"
  by (auto simp: carried_def)

lemma carried_send:
  assumes "send net now c i p = (r, c')" and "i < length (cl_workers c)" and "wk_ready (cl_workers c ! i)"
    and "frame_payload p = pkt"
  shows "carried c pkt 1 c'"
  using send_result [OF assms(1)] assms(2-4)
  by (auto simp: carried_def intro!: exI [of _ "if r = Send_ok then [(i, p)] else []"])

lemma pick_worker:
  assumes "uplink_inv c" and "pick (cl_striper c) k (alive c) = (w, sp)" and "\<not> w < 0"
  shows "nat w < length (cl_workers c)" and "wk_ready (cl_workers c ! nat w)"
    and "striper_inv sp" and "sp_n sp = sp_n (cl_striper c)"
  using pick_spec [OF conjunct1 [OF assms(1) [unfolded uplink_inv_def]] assms(2)] assms(1,3)
  by (auto simp: uplink_inv_def alive_def)

text \<open>The framed send with its optional duplicate.\<close>

lemma carried_duplicate:
  assumes "send net now c i p = (r, c1)" and "second_worker c1 i = (Some i2, c2)"
    and "send net now c2 i2 p = (r2, c3)" and "i < length (cl_workers c)" and "wk_ready (cl_workers c ! i)"
    and "frame_payload p = pkt"
  shows "carried c pkt 2 c3"
proof -
  note s1 = send_result [OF assms(1)] and s2 = send_result [OF assms(3)]
  have "cl_workers c1 \<noteq> []" using s1 assms(4) by auto
  note sw = second_worker_result [OF assms(2) [unfolded second_worker_def] this]
  have ready: "wk_ready (cl_workers c ! j) = wk_ready (cl_workers c1 ! j)" if "j < length (cl_workers c)" for j
    using s1 that by (metis nth_map)
  have i2: "i2 \<noteq> i" "i2 < length (cl_workers c)" "wk_ready (cl_workers c ! i2)"
    using sw s1 ready [of i2] by auto
  let ?xs = "(if r = Send_ok then [(i, p)] else []) @ (if r2 = Send_ok then [(i2, p)] else [])"
  have "cl_sent c3 = cl_sent c @ ?xs" using s1 s2 sw by simp
  then show ?thesis
    using i2 assms(4-6) unfolding carried_def by (intro exI [of _ ?xs]) auto
qed

lemma write_packet_cases:
  assumes "uplink_inv c" and "pkt \<noteq> []" and "take 1 pkt \<noteq> [0x43]"
    and "write_packet net now c pkt = (r, c')"
  shows "carried c pkt 2 c' \<and> uplink_inv c'
     \<and> (r = Send_ok \<longrightarrow> cl_sent c' \<noteq> cl_sent c)
     \<and> (\<not> (\<exists>w\<in>set (cl_workers c). wk_ready w) \<longrightarrow>
          r = Send_no_worker \<and> cl_no_worker c' = cl_no_worker c + 1)"
proof -
  obtain w sp where pk: "pick (cl_striper c) (classify pkt) (alive c) = (w, sp)" by (rule prod.exhaust)
  define c1 where "c1 = c\<lparr>cl_striper := sp\<rparr>"
  show ?thesis
  proof (cases "w < 0")
    case True
    have "sp = cl_striper c"
      using pick_spec [OF conjunct1 [OF assms(1) [unfolded uplink_inv_def]] pk] True by auto
    then show ?thesis
      using assms(1,2,4) True pk by (auto simp: write_packet_def carried_none uplink_inv_def)
  next
    case False
    note pw = pick_worker [OF assms(1) pk False]
    have c1: "uplink_inv c1" "cl_workers c1 = cl_workers c" "cl_sent c1 = cl_sent c"
      using assms(1) pw(3,4) by (simp_all add: c1_def uplink_inv_def)
    have some: "\<exists>w\<in>set (cl_workers c). wk_ready w" using pw(1,2) nth_mem by blast
    have one: "carried c pkt 2 d' \<and> uplink_inv d' \<and> (r = Send_ok \<longrightarrow> cl_sent d' \<noteq> cl_sent c)"
      if "send net now d (nat w) p = (r, d')" and "frame_payload p = pkt"
        and "cl_workers d = cl_workers c" "cl_sent d = cl_sent c" "cl_striper d = sp" for d d' p r
    proof -
      have "carried d pkt 1 d'"
        by (rule carried_send [OF that(1)]) (use that pw in simp_all)
      then show ?thesis
        using send_result [OF that(1)] that(3-5) c1(1) by (auto simp: carried_def uplink_inv_def c1_def)
    qed
    have plain: "frame_payload pkt = pkt"
      using assms(3) by (cases pkt) (auto simp: frame_payload_def decode_frame_def frame_magic_def)
    show ?thesis
    proof (cases "frames_data (cl_conf c)")
      case no: False
      then have "send net now c1 (nat w) pkt = (r, c')"
        using assms(2,4) False pk by (simp add: write_packet_def c1_def)
      from one [OF this plain] some show ?thesis by (simp add: c1_def)
    next
      case True
      obtain framed ok sq where fr: "sequencer_frame (cl_seq c) [] pkt = ((framed, ok), sq)"
        by (metis prod.exhaust)
      have pay: "frame_payload framed = pkt"
        using sequencer_frame_payload [OF assms(3), of "cl_seq c" "[]"] by (simp add: fr)
      define c2 where "c2 = c1\<lparr>cl_seq := sq\<rparr>"
      define c3 where "c3 = c2\<lparr>cl_framed_tx := cl_framed_tx c2 + 1\<rparr>"
      show ?thesis
      proof (cases ok)
        case no: False
        then have "send net now c2 (nat w) pkt = (r, c')"
          using assms(2,4) False True pk fr by (simp add: write_packet_def c1_def c2_def)
        from one [OF this plain] some show ?thesis by (simp add: c1_def c2_def)
      next
        case ok: True
        obtain err c4 where s1: "send net now c3 (nat w) framed = (err, c4)" by (rule prod.exhaust)
        note one4 = one [OF s1 pay]
        have cfg: "cl_cfg c4 = cl_cfg c"
          using send_result [OF s1] by (simp add: c3_def c2_def c1_def)
        obtain w2 c5 where s2: "second_worker c4 (nat w) = (w2, c5)" by (rule prod.exhaust)
        show ?thesis
        proof (cases "cf_duplicate (cl_cfg c) \<and> w2 \<noteq> None")
          case dup: True
          then obtain i2 where i2: "w2 = Some i2" by auto
          obtain e2 c6 where s3: "send net now c5 i2 framed = (e2, c6)" by (rule prod.exhaust)
          have res: "r = err" "c' = (if e2 = Send_ok then c6\<lparr>cl_dup_tx := cl_dup_tx c6 + 1\<rparr> else c6)"
            using assms(2,4) False True ok pk fr s1 s2 s3 i2 dup cfg
            by (simp_all add: write_packet_def c1_def c2_def c3_def Let_def)
          have "carried c3 pkt 2 c6"
            by (rule carried_duplicate [OF s1 s2 [unfolded i2] s3])
              (use pw pay in \<open>simp_all add: c3_def c2_def c1_def\<close>)
          moreover have "cl_workers c4 \<noteq> []"
            using send_result [OF s1] pw(1) by (auto simp: c3_def c2_def c1_def)
          note second_worker_result [OF s2 [unfolded second_worker_def] this]
          ultimately show ?thesis
            using send_result [OF s1] send_result [OF s3] one4 some res
            by (auto simp: carried_def uplink_inv_def c3_def c2_def c1_def)
        next
          case nodup: False
          have res: "r = err" "c' = c4 \<or> c' = c5"
            using assms(2,4) False True ok pk fr s1 s2 nodup cfg
            by (auto simp: write_packet_def c1_def c2_def c3_def Let_def split: if_splits option.splits)
          have "cl_workers c4 \<noteq> []"
            using send_result [OF s1] pw(1) by (auto simp: c3_def c2_def c1_def)
          note second_worker_result [OF s2 [unfolded second_worker_def] this]
          then show ?thesis
            using one4 some res by (auto simp: carried_def uplink_inv_def c3_def c2_def c1_def)
        qed
      qed
    qed
  qed
qed


section \<open>Lemmas on the downlink\<close>

lemma enqueue_out:
  "cl_out (enqueue c p) = (if length (cl_out c) < out_capacity then cl_out c @ [p] else cl_out c)"
  by (simp add: enqueue_def)

lemma enqueue_bounded: "length (cl_out c) \<le> out_capacity \<Longrightarrow> length (cl_out (foldl enqueue c ps)) \<le> out_capacity"
  by (induction ps arbitrary: c) (simp_all add: enqueue_out)

lemma deliver_bounded:
  "length (cl_out c) \<le> out_capacity \<Longrightarrow> length (cl_out (deliver elapsed c plain)) \<le> out_capacity"
  by (auto simp: deliver_def enqueue_out enqueue_bounded Let_def split: option.split prod.split)

lemma ip_packet_unframed: "ip_packet p \<Longrightarrow> decode_frame p = None"
  by (cases p) (auto simp: decode_frame_def frame_magic_def ip_packet_def)

section \<open>Lemmas on sessions\<close>

fun lease_calls_of :: "session_end \<Rightarrow> lease_call list" where
  "lease_calls_of End_credentials = []"
| "lease_calls_of End_dial = [Lease_failed, Lease_released]"
| "lease_calls_of e = [Lease_released]"

definition session_inv :: "session \<Rightarrow> bool" where
  "session_inv ss \<longleftrightarrow>
     (case ss_phase ss of
        Ph_ended e \<Rightarrow> \<not> ss_relay ss \<and> ss_calls ss = lease_calls_of e
      | Ph_creds \<Rightarrow> \<not> ss_relay ss \<and> ss_calls ss = []
      | Ph_gate \<Rightarrow> \<not> ss_relay ss \<and> ss_calls ss = []
      | Ph_dial \<Rightarrow> \<not> ss_relay ss \<and> ss_calls ss = []
      | _ \<Rightarrow> ss_relay ss \<and> ss_calls ss = [])"

lemma teardown_session:
  "snd (teardown c i ss e) = ss\<lparr>ss_phase := Ph_ended e, ss_calls := ss_calls ss @ [Lease_released], ss_relay := False\<rparr>"
  by (simp add: teardown_def)

lemma teardown_inv:
  "ss_calls ss = [] \<Longrightarrow> e \<notin> {End_credentials, End_dial} \<Longrightarrow> session_inv (snd (teardown c i ss e))"
  by (cases e) (simp_all add: teardown_session session_inv_def)

lemma attempt_step_inv:
  "ss_calls ss = [] \<Longrightarrow> ss_relay ss \<Longrightarrow> session_inv (snd (attempt_step net now c i ss k))"
  by (auto simp: attempt_step_def take_kick_def teardown_session session_inv_def
      split: option.split prod.split send_result.split)

lemma config_arrived_inv:
  "ss_calls ss = [] \<Longrightarrow> ss_relay ss \<Longrightarrow> session_inv (snd (config_arrived net now c i ss conf))"
  by (auto simp: config_arrived_def teardown_session session_inv_def split: prod.split send_result.split)

lemma session_step_inv:
  assumes "session_inv ss"
  shows "session_inv (snd (session_step net now c i ss ev))"
proof (cases "ss_phase ss")
  case (Ph_attempt k)
  then have "ss_calls ss = []" "ss_relay ss" using assms by (simp_all add: session_inv_def)
  then show ?thesis
    using assms Ph_attempt attempt_step_inv by (cases ev) (simp_all add: session_step_def)
next
  case (Ph_wait k)
  then have st: "ss_calls ss = []" "ss_relay ss" using assms by (simp_all add: session_inv_def)
  have "session_inv (ss\<lparr>ss_phase := Ph_attempt (k + 1)\<rparr>)" using st by (simp add: session_inv_def)
  then show ?thesis
    using assms Ph_wait st config_arrived_inv [OF st] teardown_inv [OF st(1)]
    by (cases ev) (auto simp: session_step_def take_kick_def split: sum.split option.split)
next
  case Ph_serve
  then have st: "ss_calls ss = []" using assms by (simp add: session_inv_def)
  then show ?thesis
    using assms Ph_serve teardown_inv [OF st]
    by (cases ev) (auto simp: session_step_def take_kick_def split: option.split prod.split send_result.split)
qed (use assms in \<open>cases ev; auto simp: session_step_def session_inv_def\<close>)+

fun session_run :: "nat \<Rightarrow> session \<Rightarrow> ((nat \<Rightarrow> bytes \<Rightarrow> bool) \<times> int \<times> client \<times> session_event) list \<Rightarrow> session" where
  "session_run i ss [] = ss"
| "session_run i ss ((net, now, c, ev) # es) = session_run i (snd (session_step net now c i ss ev)) es"

lemma session_run_inv: "session_inv ss \<Longrightarrow> session_inv (session_run i ss es)"
  by (induction i ss es rule: session_run.induct) (simp_all add: session_step_inv)

text \<open>A client of two workers for the concrete instances.\<close>

definition two_workers :: client where
  "two_workers = dial_client
     \<lparr>cf_device = [], cf_password = [], cf_workers = 2, cf_chunks = (\<lambda>_. 0), cf_revision = [],
      cf_local_port = [], cf_transport = [], cf_start_pacing = 0, cf_duplicate = False\<rparr> 7 [] 9"

lemma two_workers_simps: "cl_workers two_workers = [new_worker, new_worker]" "cl_no_worker two_workers = 0"
  "cl_gen two_workers = 7" "cl_sent two_workers = []"
  by (simp_all add: two_workers_def dial_client_def config_defaults_def Let_def max_workers_def numeral_2_eq_2)

lemma two_workers_uplink: "uplink_inv two_workers"
  by (simp add: two_workers_def uplink_inv_def dial_client_def config_defaults_def Let_def max_workers_def
      set_chunks_inv [OF new_striper_inv]) (simp add: set_chunks_def new_striper_def resize_def)

section \<open>Properties\<close>

text \<open>
  C9: a lease is released exactly once. Whatever happens to a session, at whatever state of the rest
  of the client, once it has ended the pool has heard Released once (never, if no credential was
  obtained), Failed exactly when the relay did not come up and then before Released, the relay is
  closed, and until it has ended the lease is held.
\<close>

theorem lease_released_once:
  "let ss = session_run i new_session es
   in (case ss_phase ss of
         Ph_ended e \<Rightarrow> \<not> ss_relay ss \<and> ss_calls ss = (if e = End_credentials then []
             else if e = End_dial then [Lease_failed, Lease_released] else [Lease_released])
       | _ \<Rightarrow> ss_calls ss = [])"
proof -
  have "session_inv new_session" by (simp add: session_inv_def new_session_def)
  from session_run_inv [OF this, of i es] have inv: "session_inv (session_run i new_session es)" .
  have "lease_calls_of e = (if e = End_credentials then []
      else if e = End_dial then [Lease_failed, Lease_released] else [Lease_released])" for e
    by (cases e) simp_all
  with inv show ?thesis
    by (auto simp: Let_def session_inv_def split: phase.splits)
qed

lemma lease_released_once_witness:
  "ss_calls (session_run 0 new_session
     [(\<lambda>_ _. True, 0, two_workers, Ev_creds True), (\<lambda>_ _. True, 0, two_workers, Ev_gate False),
      (\<lambda>_ _. True, 0, two_workers, Ev_dial False)]) = [Lease_failed, Lease_released]"
  using lease_released_once [of 0 "[(\<lambda>_ _. True, 0, two_workers, Ev_creds True),
      (\<lambda>_ _. True, 0, two_workers, Ev_gate False), (\<lambda>_ _. True, 0, two_workers, Ev_dial False)]"]
  by (simp add: Let_def session_step_def new_session_def)



text \<open>
   a late monitor tick judges nobody. When the monitor runs more than 10 s after its last tick the
  process was suspended: no worker is probed or restarted, and every clock starts over.
\<close>

theorem late_tick_judges_nobody:
  assumes "cl_last_tick c \<noteq> 0" and "0 < unix_epoch + cl_last_tick c"
    and "10 * second < now - cl_last_tick c" and "now - cl_last_tick c < 2 ^ 63" and "cl_workers c \<noteq> []"
  shows "let c' = monitor_tick c now
   in map wk_kick (cl_workers c') = map wk_kick (cl_workers c) \<and> cl_lost c' = cl_lost c
      \<and> cl_probes c' = cl_probes c \<and> cl_any_rx c' = now
      \<and> (\<forall>w\<in>set (cl_workers c'). wk_last_rx w = now \<and> wk_probe_at w = 0)"
proof -
  have "late c now"
    using assms(1-4) by (auto simp: late_def nanos_time_def liveness_consts time_sub_def)
  then show ?thesis
    using monitor_tick_late [OF _ assms(5)] by (auto simp: Let_def reset_clocks_def)
qed

lemma late_tick_judges_nobody_witness:
  "cl_any_rx (monitor_tick (two_workers\<lparr>cl_last_tick := second\<rparr>) (60 * second)) = 60 * second"
  using late_tick_judges_nobody [of "two_workers\<lparr>cl_last_tick := second\<rparr>" "60 * second"]
  by (simp add: two_workers_simps unix_epoch_def Let_def)

text \<open>
   a path change supersedes every session. The generation grows, every worker is told to restart,
  and a worker still waiting for its GETCONF reply, at whatever attempt, ends there with the restart
  request and sends nothing more, in particular no GETCONF under the old identity.
\<close>

theorem path_change_supersedes:
  assumes "cl_gen c \<noteq> - 1" and "i < length (cl_workers c)"
    and "(ss_phase ss, ev) \<in> {(Ph_wait k, Ev_kick), (Ph_attempt k, Ev_attempt), (Ph_serve, Ev_kick)}"
  shows "let c' = on_path_change c unix nanos rnd;
             (c'', ss') = session_step net now c' i ss ev
   in cl_gen c < cl_gen c' \<and> (\<forall>w\<in>set (cl_workers c'). wk_kick w \<noteq> None)
      \<and> cl_sent c'' = cl_sent c
      \<and> (ss_phase ss' = Ph_ended End_silence \<or> (\<exists>reason. ss_phase ss' = Ph_ended (End_asked reason)))"
proof -
  define c' where "c' = on_path_change c unix nanos rnd"
  have gen: "cl_gen c < cl_gen c'"
    using new_identity_newer [OF assms(1), of unix nanos rnd]
    by (simp add: c'_def on_path_change_def split_beta restart_all_rest)
  have kicks: "\<forall>w\<in>set (cl_workers c'). wk_kick w \<noteq> None"
    using kicked_kick by (auto simp: c'_def on_path_change_def split_beta restart_all_workers)
  have len: "length (cl_workers c') = length (cl_workers c)" and sent: "cl_sent c' = cl_sent c"
    by (simp_all add: c'_def on_path_change_def split_beta restart_all_workers restart_all_rest)
  have "wk_kick (cl_workers c' ! i) \<noteq> None"
    using kicks len assms(2) by simp
  then obtain reason where r: "wk_kick (cl_workers c' ! i) = Some reason" by blast
  obtain c'' ss' where step: "session_step net now c' i ss ev = (c'', ss')" by (rule prod.exhaust)
  have "cl_sent c'' = cl_sent c'
      \<and> (ss_phase ss' = Ph_ended End_silence \<or> ss_phase ss' = Ph_ended (End_asked reason))"
    using assms(3) step r
    by (auto simp: session_step_def attempt_step_def take_kick_def teardown_def split: if_splits)
  then show ?thesis
    using gen kicks sent step by (auto simp: Let_def simp flip: c'_def)
qed

lemma path_change_supersedes_witness:
  "7 < cl_gen (on_path_change two_workers 5 0 None)"
  using path_change_supersedes [of two_workers 0 "\<lparr>ss_phase = Ph_wait 1, ss_calls = [], ss_relay = True\<rparr>"
      Ev_kick 1 5 0 None "\<lambda>_ _. True" 9]
  by (simp add: two_workers_simps Let_def split_beta)

text \<open>
   after a wake a dead worker is found in half the time. A worker that has been ready for 20 s at
  the wake and hears nothing afterwards is left alone by every on-time monitor tick of the first 30 s,
  and told to restart by the first one after that, provided another worker has heard something in the
  last 30 s.
\<close>

theorem wake_finds_dead_worker:
  assumes "i < length (cl_workers c)" and "wk_ready (cl_workers c ! i)"
    and "0 < wk_ready_at (cl_workers c ! i)" and "20 * second \<le> ns - wk_ready_at (cl_workers c ! i)"
    and "i < length (cl_workers d)" and "cl_workers d ! i = cl_workers (wake_health_check c ns) ! i"
    and "0 < cl_last_tick d" and "now - cl_last_tick d \<le> 10 * second"
    and "now - cl_any_rx d < 30 * second" and "ns \<le> now"
  shows "wk_kick (cl_workers (monitor_tick d now) ! i) =
    (if now - ns < 30 * second \<or> wk_kick (cl_workers c ! i) \<noteq> None then wk_kick (cl_workers c ! i)
     else Some (ascii ''liveness: no inbound after a probe while other workers are live''))"
proof -
  have ns: "0 < ns" using assms(3,4) by simp
  have woken: "cl_workers d ! i = woken ns (cl_workers c ! i)"
    using assms(1,6) by (simp add: wake_workers)
  have on_time: "\<not> late d now"
    using assms(7,8) by (auto simp: late_def nanos_time_def liveness_consts not_less time_sub_le)
  let ?w = "woken ns (cl_workers c ! i)"
  have fields: "nanos_time (wk_ready_at ?w) = unix_epoch + wk_ready_at (cl_workers c ! i)"
    "nanos_time (wk_last_rx ?w) = unix_epoch + ns" "nanos_time (wk_probe_at ?w) = unix_epoch + ns"
    "wk_kick ?w = wk_kick (cl_workers c ! i)"
    using assms(2,3) ns by (simp_all add: woken_def nanos_time_def)
  have "liveness_verdict (worker_input now (nanos_time (cl_last_tick d)) (unix_epoch + cl_any_rx d) ?w) =
      (if now - ns < 30 * second then Liveness_none else Liveness_restart)"
  proof -
    have "\<not> (nanos_time (cl_last_tick d) \<noteq> 0 \<and>
        liveness_tick + descheduled_slack < time_sub (unix_epoch + now) (nanos_time (cl_last_tick d)))"
      using on_time by (simp add: late_def)
    moreover have "unix_epoch + ns \<noteq> 0" "unix_epoch + wk_ready_at (cl_workers c ! i) \<noteq> 0"
      using ns assms(3) by (simp_all add: unix_epoch_def)
    moreover have "\<not> time_sub (unix_epoch + now) (unix_epoch + wk_ready_at (cl_workers c ! i)) < ready_grace"
      using assms(4,10) by (simp add: liveness_consts not_less time_sub_ge)
    moreover have "\<not> probe_after \<le> time_sub (unix_epoch + now) (unix_epoch + cl_any_rx d)"
      using assms(9) by (simp add: liveness_consts time_sub_ge)
    moreover have "time_sub (unix_epoch + now) (unix_epoch + ns) < probe_after \<longleftrightarrow> now - ns < 30 * second"
      "dead_after_probe \<le> time_sub (unix_epoch + now) (unix_epoch + ns) \<longleftrightarrow> \<not> now - ns < 30 * second"
      by (simp_all add: liveness_consts time_sub_ge not_less flip: not_le)
    ultimately show ?thesis
      by (simp only: liveness_verdict_def worker_input_def liveness_input.simps fields) simp
  qed
  then show ?thesis
    using assms(5) by (auto simp: monitor_tick_on_time [OF on_time] woken monitored_def fields kicked_def)
qed

lemma wake_finds_dead_worker_witness:
  "wk_kick (cl_workers (monitor_tick (wake_health_check
      (two_workers\<lparr>cl_workers := [new_worker\<lparr>wk_ready := True, wk_ready_at := second\<rparr>, new_worker]\<rparr>) (100 * second)
      \<lparr>cl_last_tick := 125 * second, cl_any_rx := 129 * second\<rparr>) (131 * second)) ! 0)
   = Some (ascii ''liveness: no inbound after a probe while other workers are live'')"
  by (subst wake_finds_dead_worker
      [where c = "two_workers\<lparr>cl_workers := [new_worker\<lparr>wk_ready := True, wk_ready_at := second\<rparr>, new_worker]\<rparr>"
        and ns = "100 * second"]) (simp_all add: wake_workers new_worker_def)

text \<open>
   the downlink. Of what a worker receives, control messages go to the session and keepalives
  nowhere, never to the TUN queue; an unframed IP packet is queued as it is while there is room; the
  queue never exceeds 1024 packets.
\<close>

theorem receive_sorts:
  assumes "length (cl_out c) \<le> out_capacity" and "receive elapsed now c i (Some plain) = (c', ctl)"
  shows "length (cl_out c') \<le> out_capacity
    \<and> (is_control plain \<or> is_idle_keepalive plain \<longrightarrow> cl_out c' = cl_out c)
    \<and> (ctl \<noteq> None \<longrightarrow> ctl = Some plain \<and> is_control plain)
    \<and> (ip_packet plain \<and> \<not> wk_blackhole (cl_workers c ! i) \<and> length (cl_out c) < out_capacity
         \<longrightarrow> cl_out c' = cl_out c @ [plain] \<and> ctl = None)"
proof -
  have "cl_out (deliver elapsed d plain) = cl_out d @ [plain]"
    if "ip_packet plain" "length (cl_out d) < out_capacity" for d
    using that by (simp add: deliver_def ip_packet_unframed enqueue_out)
  then show ?thesis
    using assms ip_packet_not_control [of plain]
    by (auto simp: receive_def Let_def deliver_bounded split: if_splits)
qed

lemma receive_sorts_witness:
  "cl_out (fst (receive 0 5 two_workers 1 (Some syn_packet))) = [syn_packet]"
proof -
  have out: "cl_out two_workers = []" by (simp add: two_workers_def dial_client_def Let_def)
  have ip: "ip_packet syn_packet" by (simp add: ip_packet_def syn_packet_def)
  show ?thesis
    using receive_sorts [of two_workers 0 5 1 syn_packet] ip
    by (cases "receive 0 5 two_workers 1 (Some syn_packet)")
      (simp add: out out_capacity_def two_workers_simps new_worker_def)
qed

end
