(* ===== verification/Cwrap.thy ===== *)
theory Cwrap
  imports Liveness
begin

unbundle bit_operations_syntax

text \<open>
  The csqtt obfuscation, \<^verbatim>\<open>src/pkg/csqtt/wrap.go\<close>: the RTP-shaped datagram in its two modes. The
  primitives are a record of functions: sealing and opening of ChaCha20-Poly1305, the AES block
  function and HMAC-SHA1, each under the session key; counter mode is built from the block function
  as \<^verbatim>\<open>crypto/cipher\<close> does. Random draws and clock readings are arguments.
\<close>

section \<open>Primitives\<close>

record crypto =
  cy_seal :: "bytes \<Rightarrow> bytes \<Rightarrow> bytes \<Rightarrow> bytes"
  cy_open :: "bytes \<Rightarrow> bytes \<Rightarrow> bytes \<Rightarrow> bytes option"
  cy_block :: "bytes \<Rightarrow> bytes"
  cy_hmac :: "bytes \<Rightarrow> bytes"

text \<open>What the code relies on: arguments are nonce, text, additional data.\<close>

definition crypto_ok :: "crypto \<Rightarrow> bool" where
  "crypto_ok c \<longleftrightarrow>
     (\<forall>n p a. cy_open c n (cy_seal c n p a) a = Some p \<and> length (cy_seal c n p a) = length p + 16)
     \<and> (\<forall>b. length (cy_block c b) = 16) \<and> (\<forall>m. length (cy_hmac c m) = 20)"

definition keystream :: "(bytes \<Rightarrow> bytes) \<Rightarrow> bytes \<Rightarrow> nat \<Rightarrow> bytes" where
  "keystream blk iv n =
     take n (concat (map (\<lambda>i. blk (be_bytes 16 ((be_val iv :: 128 word) + of_nat i))) [0..<Suc (n div 16)]))"

definition xor_key_stream :: "(bytes \<Rightarrow> bytes) \<Rightarrow> bytes \<Rightarrow> bytes \<Rightarrow> bytes" where
  "xor_key_stream blk iv p = map2 (XOR) p (keystream blk iv (length p))"

section \<open>Modes\<close>

datatype mode = Mode_audio | Mode_video

definition parse_mode :: "bytes \<Rightarrow> mode option" where
  "parse_mode s =
     (if s = ascii ''audio'' then Some Mode_audio
      else if s = ascii ''video'' then Some Mode_video else None)"

definition hdr_len :: nat where
  "hdr_len = 24"

definition pt_audio :: byte where
  "pt_audio = 111"

definition pt_video :: byte where
  "pt_video = 96"

definition pt_legacy :: byte where
  "pt_legacy = 6"

definition aead_tag_len :: nat where
  "aead_tag_len = 16"

definition srtp_tag_len :: nat where
  "srtp_tag_len = 10"

definition abs_send_time_rate :: nat where
  "abs_send_time_rate = 262144"

lemmas wrap_consts = hdr_len_def pt_audio_def pt_video_def pt_legacy_def aead_tag_len_def srtp_tag_len_def

definition payload_type :: "mode \<Rightarrow> byte" where
  "payload_type m = (if m = Mode_video then pt_video else pt_audio)"

definition clock_rate :: "mode \<Rightarrow> nat" where
  "clock_rate m = (if m = Mode_video then 90000 else 48000)"

definition padding_max :: "mode \<Rightarrow> nat" where
  "padding_max m = (if m = Mode_video then 60 else 24)"

section \<open>Header fields\<close>

text \<open>\<open>elapsed\<close> is a non-negative duration in nanoseconds; the 64-bit product cannot overflow.\<close>

definition ticks :: "nat \<Rightarrow> nat \<Rightarrow> u32" where
  "ticks elapsed rate = of_nat (elapsed div 1000000000 * rate + elapsed mod 1000000000 * rate div 1000000000)"

definition aead_nonce :: "u32 \<Rightarrow> u16 \<Rightarrow> u32 \<Rightarrow> bytes" where
  "aead_nonce ssrc sq ts = be32 ssrc @ be16 sq @ [0, 0] @ be32 ts"

definition srtp_iv :: "u32 \<Rightarrow> u16 \<Rightarrow> u32 \<Rightarrow> bytes" where
  "srtp_iv ssrc sq ts = be32 ssrc @ be16 sq @ [0, 0] @ be32 ts @ [0, 0, 0, 0]"

section \<open>Sender\<close>

record wrapper =
  wr_mode :: mode
  wr_ssrc :: u32
  wr_count :: u64
  wr_init_ts :: u32
  wr_init_abs :: u32
  wr_init_seq :: u16
  wr_transport_seq :: u16
  wr_started :: time

definition new_wrapper :: "mode \<Rightarrow> u32 \<Rightarrow> u32 \<Rightarrow> u32 \<Rightarrow> u16 \<Rightarrow> u16 \<Rightarrow> time \<Rightarrow> wrapper" where
  "new_wrapper m ssrc initTS initAbs initSeq tseq started =
     \<lparr>wr_mode = m, wr_ssrc = ssrc, wr_count = 0, wr_init_ts = initTS, wr_init_abs = initAbs,
      wr_init_seq = initSeq, wr_transport_seq = tseq, wr_started = started\<rparr>"

definition overhead :: "wrapper \<Rightarrow> nat" where
  "overhead w =
     (if wr_mode w = Mode_video then hdr_len + padding_max (wr_mode w) + srtp_tag_len
      else hdr_len + aead_tag_len + padding_max (wr_mode w))"

definition wrap_seq :: "wrapper \<Rightarrow> u16" where
  "wrap_seq w = wr_init_seq w + ucast (wr_count w)"

definition wrap_ts :: "wrapper \<Rightarrow> time \<Rightarrow> u32" where
  "wrap_ts w now = wr_init_ts w + ticks (nat (time_sub now (wr_started w))) (clock_rate (wr_mode w))"

definition wrap_header :: "wrapper \<Rightarrow> time \<Rightarrow> nat \<Rightarrow> bytes" where
  "wrap_header w now mark =
     (let abs = (wr_init_abs w + ticks (nat (time_sub now (wr_started w))) abs_send_time_rate) AND 0x00ffffff;
          pt = payload_type (wr_mode w);
          b1 = (pt AND 0x7f) OR (if pt = pt_video \<and> mark = 0 then 0x80 else 0)
      in [0xb0, b1] @ be16 (wrap_seq w) @ be32 (wrap_ts w now) @ be32 (wr_ssrc w)
           @ be16 0xbede @ be16 2
           @ [0x32, ucast (drop_bit 16 abs), ucast (drop_bit 8 abs), ucast abs]
           @ [0x51] @ be16 (wr_transport_seq w) @ [0])"

text \<open>
  \<open>mark\<close> is the draw \<^verbatim>\<open>Intn(5)\<close>, \<open>pad\<close> the random padding, whose length is the draw
  \<^verbatim>\<open>Intn(paddingMax)\<close>. An empty payload is refused before the counters move.
\<close>

definition wrap :: "crypto \<Rightarrow> wrapper \<Rightarrow> time \<Rightarrow> nat \<Rightarrow> bytes \<Rightarrow> bytes \<Rightarrow> (bytes \<times> wrapper) option" where
  "wrap c w now mark pad plain =
     (if plain = [] then None
      else
        let hdr = wrap_header w now mark;
            tail = pad @ [of_nat (length pad + 1)];
            out = (if wr_mode w = Mode_video then
                     (let body = hdr @ xor_key_stream (cy_block c) (srtp_iv (wr_ssrc w) (wrap_seq w) (wrap_ts w now)) plain
                                   @ tail
                      in body @ take srtp_tag_len (cy_hmac c body))
                   else hdr @ cy_seal c (aead_nonce (wr_ssrc w) (wrap_seq w) (wrap_ts w now)) plain hdr @ tail)
        in Some (out, w\<lparr>wr_count := wr_count w + 1, wr_transport_seq := wr_transport_seq w + 1\<rparr>))"

section \<open>Receiver\<close>

datatype unwrap_error =
  Not_rtp | Unsupported_type byte | Short_extension | Short_header | Missing_tag | Auth_failed
  | Bad_padding byte | Wrong_type byte | Empty_ciphertext

definition is_rtp :: "bytes \<Rightarrow> bool" where
  "is_rtp wire \<longleftrightarrow>
     (if length wire < 13 \<or> drop_bit 6 (wire ! 0) \<noteq> 2 then False
      else let pt = wire ! 1 AND 0x7f in pt = pt_audio \<or> pt = pt_video \<or> pt = pt_legacy)"

text \<open>The end of the payload once the RTP padding is taken off.\<close>

definition strip_padding :: "bytes \<Rightarrow> nat \<Rightarrow> nat \<Rightarrow> unwrap_error + nat" where
  "strip_padding wire hl end_pos =
     (if wire ! 0 AND 0x20 = 0 then Inr end_pos
      else let pad = wire ! (end_pos - 1) in
        if pad = 0 \<or> end_pos - hl < unat pad then Inl (Bad_padding pad)
        else Inr (end_pos - unat pad))"

definition unwrap_video :: "crypto \<Rightarrow> bytes \<Rightarrow> nat \<Rightarrow> u32 \<Rightarrow> u16 \<Rightarrow> u32 \<Rightarrow> unwrap_error + (bytes \<times> u16)" where
  "unwrap_video c wire hl ssrc sq ts =
     (if length wire < hl + srtp_tag_len then Inl Missing_tag
      else
        let tagStart = length wire - srtp_tag_len in
        if take srtp_tag_len (cy_hmac c (take tagStart wire)) \<noteq> drop tagStart wire then Inl Auth_failed
        else case strip_padding wire hl tagStart of
          Inl e \<Rightarrow> Inl e
        | Inr e \<Rightarrow> Inr (xor_key_stream (cy_block c) (srtp_iv ssrc sq ts) (gslice wire hl e), sq))"

definition unwrap_audio :: "crypto \<Rightarrow> bytes \<Rightarrow> nat \<Rightarrow> u32 \<Rightarrow> u16 \<Rightarrow> u32 \<Rightarrow> unwrap_error + (bytes \<times> u16)" where
  "unwrap_audio c wire hl ssrc sq ts =
     (let pt = wire ! 1 AND 0x7f in
      if pt \<noteq> pt_audio then Inl (Wrong_type pt)
      else case strip_padding wire hl (length wire) of
        Inl e \<Rightarrow> Inl e
      | Inr e \<Rightarrow>
          if e \<le> hl + aead_tag_len then Inl Empty_ciphertext
          else (case cy_open c (aead_nonce ssrc sq ts) (gslice wire hl e) (take hl wire) of
                  None \<Rightarrow> Inl Auth_failed
                | Some plain \<Rightarrow> Inr (plain, sq)))"

definition unwrap :: "crypto \<Rightarrow> mode \<Rightarrow> bytes \<Rightarrow> unwrap_error + (bytes \<times> u16)" where
  "unwrap c m wire =
     (if length wire < 13 \<or> drop_bit 6 (wire ! 0) \<noteq> 2 then Inl Not_rtp
      else
        let pt = wire ! 1 AND 0x7f in
        if pt \<noteq> pt_audio \<and> pt \<noteq> pt_video \<and> pt \<noteq> pt_legacy then Inl (Unsupported_type pt)
        else
          let sq = be_val (gslice wire 2 4);
              ts = be_val (gslice wire 4 8);
              ssrc = be_val (gslice wire 8 12)
          in if wire ! 0 AND 0x10 \<noteq> 0 \<and> length wire < 16 then Inl Short_extension
             else
               let hl = 12 + (if wire ! 0 AND 0x10 \<noteq> 0
                              then 4 + unat (be_val (gslice wire 14 16) :: u16) * 4 else 0)
               in if length wire < hl then Inl Short_header
                  else if m = Mode_video then unwrap_video c wire hl ssrc sq ts
                  else unwrap_audio c wire hl ssrc sq ts)"

section \<open>Lemmas\<close>

lemma length_concat_const: "(\<And>x. x \<in> set xs \<Longrightarrow> length (f x) = k) \<Longrightarrow> length (concat (map f xs)) = k * length xs"
  by (induction xs) simp_all

lemma length_keystream:
  assumes "\<And>b. length (blk b) = 16"
  shows "length (keystream blk iv n) = n"
proof -
  have "length (concat (map (\<lambda>i. blk (be_bytes 16 ((be_val iv :: 128 word) + of_nat i))) [0..<Suc (n div 16)]))
      = 16 * Suc (n div 16)"
    by (subst length_concat_const [where k = 16]) (simp_all add: assms del: upt_Suc)
  moreover have "n \<le> 16 * Suc (n div 16)" by simp
  ultimately show ?thesis by (simp add: keystream_def)
qed

lemma map2_xor_twice:
  "length ks = length p \<Longrightarrow> map2 (XOR) (map2 (XOR) p ks) ks = (p :: 'a::len word list)"
proof (induction p ks rule: list_induct2')
  case (4 x xs y ys)
  have "(x XOR y) XOR y = x" by (rule bit_word_eqI) (auto simp: bit_simps)
  with 4 show ?case by simp
qed simp_all

lemma xor_key_stream_inverse:
  assumes "\<And>b. length (blk b) = 16"
  shows "xor_key_stream blk iv (xor_key_stream blk iv p) = p"
  using length_keystream [of blk iv "length p"] assms
  by (simp add: xor_key_stream_def map2_xor_twice)

lemma length_xor_key_stream:
  "(\<And>b. length (blk b) = 16) \<Longrightarrow> length (xor_key_stream blk iv p) = length p"
  by (simp add: xor_key_stream_def length_keystream)

lemma length_wrap_header: "length (wrap_header w now mark) = hdr_len"
  by (simp add: wrap_header_def Let_def hdr_len_def)

lemma header_fields:
  assumes "hdr = wrap_header w now mark"
  shows "(hdr @ rest) ! 0 = 0xb0" "(hdr @ rest) ! 1 AND 0x7f = payload_type (wr_mode w)"
    "gslice (hdr @ rest) 2 4 = be16 (wrap_seq w)" "gslice (hdr @ rest) 4 8 = be32 (wrap_ts w now)"
    "gslice (hdr @ rest) 8 12 = be32 (wr_ssrc w)" "gslice (hdr @ rest) 14 16 = be16 2"
proof -
  show "(hdr @ rest) ! 0 = 0xb0" by (simp add: assms wrap_header_def Let_def)
  show "(hdr @ rest) ! 1 AND 0x7f = payload_type (wr_mode w)"
    by (simp add: assms wrap_header_def Let_def payload_type_def pt_video_def pt_audio_def)
  show "gslice (hdr @ rest) 2 4 = be16 (wrap_seq w)" "gslice (hdr @ rest) 4 8 = be32 (wrap_ts w now)"
    "gslice (hdr @ rest) 8 12 = be32 (wr_ssrc w)" "gslice (hdr @ rest) 14 16 = be16 2"
    by (simp_all add: assms wrap_header_def Let_def gslice_def)
qed


lemma payload_type_simps: "payload_type m = pt_audio \<or> payload_type m = pt_video"
  by (cases m) (simp_all add: payload_type_def)

lemma unwrap_header:
  assumes "wire = wrap_header w now mark @ rest"
  shows "unwrap c m wire =
      (if m = Mode_video then unwrap_video c wire hdr_len (wr_ssrc w) (wrap_seq w) (wrap_ts w now)
       else unwrap_audio c wire hdr_len (wr_ssrc w) (wrap_seq w) (wrap_ts w now))"
    and "is_rtp wire"
proof -
  note f = header_fields [OF refl, of w now mark rest, folded assms]
  have len: "24 \<le> length wire" by (simp add: assms length_wrap_header hdr_len_def)
  have b0: "drop_bit 6 (wire ! 0) = 2" "wire ! 0 AND 0x10 \<noteq> 0"
    by (simp_all add: f(1))
  have hl: "12 + (if wire ! 0 AND 0x10 \<noteq> 0 then 4 + unat (be_val (gslice wire 14 16) :: u16) * 4 else 0) = hdr_len"
    using b0(2) by (simp add: f(6) hdr_len_def)
  have pt: "\<not> (wire ! 1 AND 0x7f \<noteq> pt_audio \<and> wire ! 1 AND 0x7f \<noteq> pt_video \<and> wire ! 1 AND 0x7f \<noteq> pt_legacy)"
    unfolding f(2) using payload_type_simps [of "wr_mode w"] by auto
  have nums: "be_val (gslice wire 2 4) = wrap_seq w" "be_val (gslice wire 4 8) = wrap_ts w now"
    "be_val (gslice wire 8 12) = wr_ssrc w"
    by (simp_all add: f)
  show "unwrap c m wire =
      (if m = Mode_video then unwrap_video c wire hdr_len (wr_ssrc w) (wrap_seq w) (wrap_ts w now)
       else unwrap_audio c wire hdr_len (wr_ssrc w) (wrap_seq w) (wrap_ts w now))"
    using len b0(1) unfolding unwrap_def Let_def hl nums if_not_P [OF pt] by (simp add: hdr_len_def)
  show "is_rtp wire"
    using len b0(1) pt by (auto simp: is_rtp_def Let_def)
qed

lemma strip_padding_wrapped:
  assumes "wire ! 0 = 0xb0" and "take (length front + length pad + 1) wire = front @ pad @ [of_nat (length pad + 1)]"
    and "hl \<le> length front" and "length pad < 60"
    and "end_pos = length front + length pad + 1" and "end_pos \<le> length wire"
  shows "strip_padding wire hl end_pos = Inr (length front)"
proof -
  have "wire ! (end_pos - 1) = take end_pos wire ! (end_pos - 1)"
    using assms(5) by simp
  also have "\<dots> = of_nat (length pad + 1)"
    unfolding assms(5) assms(2) by (simp add: nth_append)
  finally have last: "wire ! (end_pos - 1) = of_nat (length pad + 1)" .
  have "unat (of_nat (length pad + 1) :: byte) = length pad + 1"
    using assms(4) by (simp add: unsigned_of_nat take_bit_nat_eq_self del: of_nat_add of_nat_Suc)
  moreover from this have "(of_nat (length pad + 1) :: byte) \<noteq> 0" by (metis add_is_0 one_neq_zero unsigned_0)
  ultimately show ?thesis
    using assms(1,3,5) unfolding strip_padding_def Let_def last by simp
qed

lemma wrap_video_roundtrip:
  assumes ok: "crypto_ok c" and m: "wr_mode w = Mode_video" and pad: "length pad < padding_max Mode_video"
    and res: "wrap c w now mark pad plain = Some (wire, w')"
  shows "unwrap c Mode_video wire = Inr (plain, wrap_seq w)"
proof -
  let ?hdr = "wrap_header w now mark" and ?iv = "srtp_iv (wr_ssrc w) (wrap_seq w) (wrap_ts w now)"
  let ?ct = "xor_key_stream (cy_block c) ?iv plain"
  let ?body = "?hdr @ ?ct @ pad @ [of_nat (length pad + 1)]"
  let ?tag = "take srtp_tag_len (cy_hmac c ?body)"
  have wire: "wire = ?body @ ?tag"
    using res m by (simp add: wrap_def Let_def split: if_splits)
  have tag: "length ?tag = srtp_tag_len"
    using ok by (simp add: crypto_ok_def srtp_tag_len_def)
  have start: "length wire - srtp_tag_len = length ?body" "take (length ?body) wire = ?body"
    "drop (length ?body) wire = ?tag"
    unfolding wire using tag by simp_all
  have strip: "strip_padding wire hdr_len (length ?body) = Inr (length (?hdr @ ?ct))"
  proof (rule strip_padding_wrapped)
    show "wire ! 0 = 0xb0" unfolding wire append_assoc by (rule header_fields [OF refl])
    show "take (length (?hdr @ ?ct) + length pad + 1) wire = (?hdr @ ?ct) @ pad @ [of_nat (length pad + 1)]"
      using start(2) by (simp add: add.assoc)
  qed (use pad in \<open>simp_all add: length_wrap_header padding_max_def wire\<close>)
  have ct: "gslice wire hdr_len (length (?hdr @ ?ct)) = ?ct"
    by (simp add: wire gslice_def length_wrap_header)
  have "unwrap_video c wire hdr_len (wr_ssrc w) (wrap_seq w) (wrap_ts w now) =
      Inr (xor_key_stream (cy_block c) ?iv ?ct, wrap_seq w)"
    unfolding unwrap_video_def start Let_def strip sum.case ct
    using tag by (simp add: wire length_wrap_header)
  also have "xor_key_stream (cy_block c) ?iv ?ct = plain"
    using ok by (intro xor_key_stream_inverse) (simp add: crypto_ok_def)
  finally show ?thesis
    using unwrap_header(1) [of wire w now mark _ c Mode_video] wire by simp
qed

lemma wrap_audio_roundtrip:
  assumes ok: "crypto_ok c" and m: "wr_mode w = Mode_audio" and pad: "length pad < padding_max Mode_audio"
    and res: "wrap c w now mark pad plain = Some (wire, w')"
  shows "unwrap c Mode_audio wire = Inr (plain, wrap_seq w)"
proof -
  let ?hdr = "wrap_header w now mark" and ?n = "aead_nonce (wr_ssrc w) (wrap_seq w) (wrap_ts w now)"
  let ?ct = "cy_seal c ?n plain ?hdr"
  have wire: "wire = (?hdr @ ?ct) @ pad @ [of_nat (length pad + 1)]" and ne: "plain \<noteq> []"
    using res m by (simp_all add: wrap_def Let_def split: if_splits)
  have seal: "cy_open c ?n ?ct ?hdr = Some plain" "length ?ct = length plain + 16"
    using ok by (simp_all add: crypto_ok_def)
  have strip: "strip_padding wire hdr_len (length wire) = Inr (length (?hdr @ ?ct))"
  proof (rule strip_padding_wrapped)
    show "wire ! 0 = 0xb0" unfolding wire append_assoc by (rule header_fields [OF refl])
  qed (use pad in \<open>simp_all add: length_wrap_header padding_max_def wire\<close>)
  have parts: "gslice wire hdr_len (length (?hdr @ ?ct)) = ?ct" "take hdr_len wire = ?hdr"
    by (simp_all add: wire gslice_def length_wrap_header)
  have pt: "wire ! 1 AND 0x7f = pt_audio"
    using header_fields(2) [OF refl, of w now mark] m by (simp add: wire payload_type_def)
  have "unwrap_audio c wire hdr_len (wr_ssrc w) (wrap_seq w) (wrap_ts w now) = Inr (plain, wrap_seq w)"
    unfolding unwrap_audio_def pt Let_def strip sum.case parts
    using seal ne by (simp add: length_wrap_header aead_tag_len_def)
  then show ?thesis
    using unwrap_header(1) [of wire w now mark _ c Mode_audio] wire by simp
qed


lemma length_wrap:
  assumes "crypto_ok c" and "length pad < padding_max (wr_mode w)"
    and "wrap c w now mark pad plain = Some (wire, w')"
  shows "length wire \<le> length plain + overhead w"
  using assms
  by (auto simp: wrap_def Let_def overhead_def crypto_ok_def length_wrap_header wrap_consts
      length_xor_key_stream padding_max_def split: if_splits)

lemma be_bytes_inj: "8 * n = LENGTH('a) \<Longrightarrow> be_bytes n v = be_bytes n w \<longleftrightarrow> v = (w :: 'a::len word)"
  by (metis be_val_be_bytes)

lemma aead_nonce_seq: "aead_nonce ssrc sq ts = aead_nonce ssrc' sq' ts' \<longleftrightarrow> ssrc = ssrc' \<and> sq = sq' \<and> ts = ts'"
  by (simp add: aead_nonce_def be_bytes_inj)

text \<open>A run of one sender: the datagrams' sequence numbers count up from the initial one.\<close>

lemma wrap_counts: "wrap c w now mark pad plain = Some (wire, w') \<Longrightarrow>
    wr_count w' = wr_count w + 1 \<and> wr_init_seq w' = wr_init_seq w \<and> wr_ssrc w' = wr_ssrc w \<and> wr_mode w' = wr_mode w"
  by (auto simp: wrap_def Let_def split: if_splits)

fun wrap_seqs :: "crypto \<Rightarrow> wrapper \<Rightarrow> (time \<times> nat \<times> bytes \<times> bytes) list \<Rightarrow> (u16 \<times> bytes) list" where
  "wrap_seqs c w [] = []"
| "wrap_seqs c w ((now, mark, pad, plain) # es) =
     (case wrap c w now mark pad plain of
        None \<Rightarrow> wrap_seqs c w es
      | Some (wire, w') \<Rightarrow> (wrap_seq w, aead_nonce (wr_ssrc w) (wrap_seq w) (wrap_ts w now)) # wrap_seqs c w' es)"

lemma wrap_seqs_nth:
  "i < length (wrap_seqs c w es) \<Longrightarrow>
     \<exists>ts. wrap_seqs c w es ! i = (wr_init_seq w + ucast (wr_count w + of_nat i),
            aead_nonce (wr_ssrc w) (wr_init_seq w + ucast (wr_count w + of_nat i)) ts)"
proof (induction c w es arbitrary: i rule: wrap_seqs.induct)
  case (2 c w now mark pad plain es)
  show ?case
  proof (cases "wrap c w now mark pad plain")
    case None
    then show ?thesis using 2(1) [OF None, of i] 2(3) by simp
  next
    case (Some r)
    obtain wire w' where r: "r = (wire, w')" by (cases r)
    note cnt = wrap_counts [OF Some [unfolded r]]
    show ?thesis
    proof (cases i)
      case 0
      then show ?thesis using Some r by (auto simp: wrap_seq_def)
    next
      case (Suc j)
      then have "\<exists>ts. wrap_seqs c w' es ! j = (wr_init_seq w' + ucast (wr_count w' + of_nat j),
            aead_nonce (wr_ssrc w') (wr_init_seq w' + ucast (wr_count w' + of_nat j)) ts)"
        using 2(2) [OF Some r [symmetric]] 2(3) Some r by simp
      then show ?thesis using Some r Suc cnt by (simp add: add.assoc)
    qed
  qed
qed simp

lemma ucast_of_nat_u16: "(ucast (of_nat m :: u64) :: u16) = of_nat m"
  by (simp add: unsigned_of_nat word_of_nat_eq_iff)

lemma ucast_count_inj:
  assumes "i < j" and "j - i < 65536"
  shows "(ucast (k + of_nat i :: u64) :: u16) \<noteq> ucast (k + of_nat j :: u64)"
proof
  have k: "k + of_nat n = (of_nat (unat k + n) :: u64)" for n by simp
  assume "(ucast (k + of_nat i :: u64) :: u16) = ucast (k + of_nat j :: u64)"
  then have "(of_nat (unat k + i) :: u16) = of_nat (unat k + j)"
    unfolding k ucast_of_nat_u16 .
  then have "(of_nat i :: u16) = of_nat j" by simp
  then have "j mod 65536 = i mod 65536"
    by (simp add: word_of_nat_eq_iff take_bit_eq_mod)
  then have "65536 dvd j - i"
    using assms(1) by (simp add: mod_eq_dvd_iff_nat)
  then show False using assms nat_dvd_not_less [of "j - i" 65536] by simp
qed

section \<open>Properties\<close>

text \<open>
  C11: the obfuscation is lossless in both modes. Whatever the session's counters, clock and random
  draws, a datagram made by \<^verbatim>\<open>Wrap\<close> passes the RTP filter, is at most the declared overhead longer than
  the payload, and \<^verbatim>\<open>Unwrap\<close> in the same mode returns the payload and the sequence number it was sent
  with.
\<close>

theorem wrap_unwrap:
  assumes "crypto_ok c" and "length pad < padding_max (wr_mode w)"
    and "wrap c w now mark pad plain = Some (wire, w')"
  shows "unwrap c (wr_mode w) wire = Inr (plain, wr_init_seq w + ucast (wr_count w))
     \<and> is_rtp wire \<and> length wire \<le> length plain + overhead w \<and> wr_count w' = wr_count w + 1"
proof -
  have "unwrap c (wr_mode w) wire = Inr (plain, wrap_seq w)"
    using assms wrap_video_roundtrip wrap_audio_roundtrip by (cases "wr_mode w") auto
  moreover obtain rest where "wire = wrap_header w now mark @ rest"
    using assms(3) by (auto simp: wrap_def Let_def split: if_splits)
  then have "is_rtp wire" by (rule unwrap_header(2))
  ultimately show ?thesis
    using length_wrap [OF assms] wrap_counts [OF assms(3)] by (simp add: wrap_seq_def)
qed

text \<open>An instance: primitives that append a constant tag and a constant key stream.\<close>

definition plain_crypto :: crypto where
  "plain_crypto = \<lparr>cy_seal = (\<lambda>_ p _. p @ replicate 16 7), cy_open = (\<lambda>_ b _. Some (take (length b - 16) b)),
     cy_block = (\<lambda>_. replicate 16 0x5a), cy_hmac = (\<lambda>_. replicate 20 9)\<rparr>"

lemma plain_crypto_ok: "crypto_ok plain_crypto"
  by (simp add: crypto_ok_def plain_crypto_def)

lemma wrap_unwrap_witness:
  "unwrap plain_crypto Mode_video
     (fst (the (wrap plain_crypto (new_wrapper Mode_video 1 2 3 65535 4 0) second 0 [5, 6] [1, 2, 3]))) = Inr ([1, 2, 3], 65535)"
proof -
  let ?w = "new_wrapper Mode_video 1 2 3 65535 4 0"
  obtain wire w' where res: "wrap plain_crypto ?w second 0 [5, 6] [1, 2, 3] = Some (wire, w')"
    by (cases "wrap plain_crypto ?w second 0 [5, 6] [1, 2, 3]") (auto simp: wrap_def Let_def)
  have "length [5 :: byte, 6] < padding_max (wr_mode ?w)"
    by (simp add: new_wrapper_def padding_max_def)
  from wrap_unwrap [OF plain_crypto_ok this res] show ?thesis
    by (simp add: res) (simp add: new_wrapper_def)
qed

text \<open>
   a nonce is not used twice within 65,536 datagrams of a session: two datagrams of one sender less
  than 65,536 apart differ in sequence number, hence in nonce, whatever the clock did in between.
\<close>

theorem nonces_fresh:
  assumes "i < j" and "j - i < 65536" and "j < length (wrap_seqs c w es)"
  shows "snd (wrap_seqs c w es ! i) \<noteq> snd (wrap_seqs c w es ! j)"
  using wrap_seqs_nth [of i c w es] wrap_seqs_nth [of j c w es] assms ucast_count_inj [OF assms(1,2), of "wr_count w"]
  by (auto simp: aead_nonce_seq)

lemma nonces_fresh_witness:
  "snd (wrap_seqs plain_crypto (new_wrapper Mode_audio 1 2 3 65535 4 0) [(0, 0, [], [1]), (0, 0, [], [1])] ! 0)
   \<noteq> snd (wrap_seqs plain_crypto (new_wrapper Mode_audio 1 2 3 65535 4 0) [(0, 0, [], [1]), (0, 0, [], [1])] ! 1)"
  by (rule nonces_fresh) (simp_all add: wrap_def Let_def)

text \<open>
   the modes do not mix: an audio receiver refuses every datagram of a video sender by its payload
  type, before any decryption.
\<close>

theorem audio_refuses_video:
  assumes "wr_mode w = Mode_video" and "wrap c w now mark pad plain = Some (wire, w')"
  shows "unwrap c Mode_audio wire = Inl (Wrong_type pt_video)"
proof -
  obtain rest where wire: "wire = wrap_header w now mark @ rest"
    using assms(2) by (auto simp: wrap_def Let_def split: if_splits)
  have "wire ! 1 AND 0x7f = pt_video"
    using header_fields(2) [OF refl, of w now mark rest] assms(1) by (simp add: wire payload_type_def)
  then show ?thesis
    using unwrap_header(1) [OF wire, of c Mode_audio] by (simp add: unwrap_audio_def pt_audio_def pt_video_def)
qed

lemma audio_refuses_video_witness:
  "unwrap plain_crypto Mode_audio
     (fst (the (wrap plain_crypto (new_wrapper Mode_video 1 2 3 65535 4 0) second 0 [5, 6] [1, 2, 3])))
   = Inl (Wrong_type pt_video)"
proof -
  let ?w = "new_wrapper Mode_video 1 2 3 65535 4 0"
  obtain wire w' where res: "wrap plain_crypto ?w second 0 [5, 6] [1, 2, 3] = Some (wire, w')"
    by (cases "wrap plain_crypto ?w second 0 [5, 6] [1, 2, 3]") (auto simp: wrap_def Let_def)
  have "wr_mode ?w = Mode_video" by (simp add: new_wrapper_def)
  from audio_refuses_video [OF this res] show ?thesis by (simp add: res)
qed

end
