(* ===== verification/CredPool.thy ===== *)
theory CredPool
  imports Liveness
begin

text \<open>
  The pool of TURN credentials, \<^verbatim>\<open>src/pkg/proxy/creds.go\<close>: slots with a seat count each, the acquire
  policy, the fetch claims, saturation, path changes, the disk cache. One definition is one critical
  section of \<^verbatim>\<open>cp.mu\<close>; \<^verbatim>\<open>get\<close> and \<^verbatim>\<open>tryFill\<close>, which let go of the lock for the VK fetch, are two
  (\<open>get_begin\<close> and \<open>get_finish\<close>, \<open>fill_begin\<close> and \<open>fill_finish\<close>). What a critical section reads from outside
  is an \<open>env\<close>: one clock reading, whether cookie mode is on, whether a write of the cache succeeds. A
  time is the number of nanoseconds since Go's zero time, so \<^verbatim>\<open>IsZero\<close> is being 0; clock readings
  and the dates computed from them stay inside Go's range.
\<close>

section \<open>Constants\<close>

abbreviation minute :: duration where
  "minute \<equiv> 60 * second"

definition cred_expiry_buffer :: duration where
  "cred_expiry_buffer = 30 * minute"

definition cred_cache_version :: int where
  "cred_cache_version = 2"

definition cred_saturation_cooldown :: duration where
  "cred_saturation_cooldown = 10 * minute"

definition vk_saturation_cooldown :: duration where
  "vk_saturation_cooldown = 3 * minute"

definition vk_active_allocations_cooldown :: duration where
  "vk_active_allocations_cooldown = 11 * minute"

definition active_allocations_window :: duration where
  "active_allocations_window = 12 * minute"

definition pause_acquire_after_path_event :: duration where
  "pause_acquire_after_path_event = 500 * millisecond"

definition cascade_detection_window :: duration where
  "cascade_detection_window = 90 * second"

definition cascade_pause_duration :: duration where
  "cascade_pause_duration = 30 * second"

definition conns_per_slot :: nat where
  "conns_per_slot = 10"

lemmas pool_consts = cred_expiry_buffer_def cred_saturation_cooldown_def vk_saturation_cooldown_def
  vk_active_allocations_cooldown_def active_allocations_window_def
  pause_acquire_after_path_event_def cascade_detection_window_def cascade_pause_duration_def

section \<open>Credentials and their expiry\<close>

record turn_creds =
  tc_username :: bytes
  tc_password :: bytes
  tc_address :: bytes
  tc_addresses :: "bytes list"

text \<open>
  \<^verbatim>\<open>time.Unix(sec, 0)\<close>: 62135596800 seconds lie between Go's zero time and 1970, and the sum is taken
  in 64 bits. \<open>unix_sec\<close> is \<^verbatim>\<open>Time.Unix\<close>.
\<close>

definition unix_time :: "int \<Rightarrow> time" where
  "unix_time sec = sint (word_of_int (sec + 62135596800) :: u64) * second"

definition unix_sec :: "time \<Rightarrow> int" where
  "unix_sec t = t div second - 62135596800"

definition is_digit :: "byte \<Rightarrow> bool" where
  "is_digit c \<longleftrightarrow> 0x30 \<le> c \<and> c \<le> 0x39"

definition digits_val :: "bytes \<Rightarrow> int" where
  "digits_val ds = foldl (\<lambda>n c. 10 * n + uint (c - 0x30)) 0 ds"

text \<open>
  \<^verbatim>\<open>strconv.ParseInt(s, 10, 64)\<close>: an optional sign, then decimal digits only; \<open>None\<close> is its error, out
  of range included.
\<close>

definition parse_int64 :: "bytes \<Rightarrow> int option" where
  "parse_int64 s =
     (let neg = (s \<noteq> [] \<and> hd s = 0x2d);
          ds = (if s \<noteq> [] \<and> (hd s = 0x2d \<or> hd s = 0x2b) then tl s else s)
      in if ds = [] \<or> \<not> list_all is_digit ds then None
         else let v = (if neg then - digits_val ds else digits_val ds)
              in if v < - (2 ^ 63) \<or> 2 ^ 63 \<le> v then None else Some v)"

definition parse_cred_expiry :: "bytes \<Rightarrow> time option" where
  "parse_cred_expiry username =
     (let pre = takeWhile (\<lambda>c. c \<noteq> 0x3a) username
      in if length pre = length username \<or> pre = [] then None
         else map_option unix_time (parse_int64 pre))"

section \<open>Slots and the pool\<close>

text \<open>\<open>pe_timer\<close> is when the slot's saturation timer fires, \<open>None\<close> for no timer.\<close>

record pool_entry =
  pe_addr :: bytes
  pe_creds :: "turn_creds option"
  pe_ts :: time
  pe_cooldown_until :: time
  pe_fetching :: bool
  pe_gen :: u64
  pe_active :: nat
  pe_available_at :: time
  pe_last_used_at :: time
  pe_saturated_until :: time
  pe_timer :: "time option"

definition empty_entry :: pool_entry where
  "empty_entry = \<lparr>pe_addr = [], pe_creds = None, pe_ts = 0, pe_cooldown_until = 0,
     pe_fetching = False, pe_gen = 0, pe_active = 0, pe_available_at = 0, pe_last_used_at = 0,
     pe_saturated_until = 0, pe_timer = None\<rparr>"

definition filled_entry :: "bytes \<Rightarrow> turn_creds \<Rightarrow> time \<Rightarrow> nat \<Rightarrow> u64 \<Rightarrow> pool_entry" where
  "filled_entry addr c ts active gen = empty_entry
     \<lparr>pe_addr := addr, pe_creds := Some c, pe_ts := ts, pe_active := active, pe_gen := gen\<rparr>"

record cache_entry =
  ce_slot :: int
  ce_address :: bytes
  ce_username :: bytes
  ce_password :: bytes
  ce_last_used :: int

record cache_file =
  cc_version :: int
  cc_saved_at :: int
  cc_creds :: "cache_entry list"

text \<open>
  \<open>cp_cached\<close> says that the pool has a cache path; \<open>cp_disk\<close> is the file there, as the JSON value it
  holds. \<open>cp_wakes\<close> counts the broadcasts: a connection that took the channel at count \<open>n\<close> wakes when
  the count passes \<open>n\<close>. \<open>cp_pause_timer\<close> is when the pause timer fires.
\<close>

record cred_pool =
  cp_pool :: "pool_entry list"
  cp_next_gen :: u64
  cp_size :: nat
  cp_cooldown :: duration
  cp_auth_errors :: "int list"
  cp_fresh_last_tick :: "bool list"
  cp_pause_until :: time
  cp_pause_timer :: "time option"
  cp_last_path_event :: time
  cp_cold_start_target :: int
  cp_cached :: bool
  cp_disk :: "cache_file option"
  cp_wakes :: nat

record env =
  ev_now :: time
  ev_cookie :: bool
  ev_disk_ok :: bool

definition upd_slot :: "nat \<Rightarrow> (pool_entry \<Rightarrow> pool_entry) \<Rightarrow> cred_pool \<Rightarrow> cred_pool" where
  "upd_slot i f cp = cp\<lparr>cp_pool := (cp_pool cp)[i := f (cp_pool cp ! i)]\<rparr>"

text \<open>The loops that append zero entries until the pool has \<open>n\<close> of them.\<close>

definition grow_to :: "nat \<Rightarrow> cred_pool \<Rightarrow> cred_pool" where
  "grow_to n cp = cp\<lparr>cp_pool := cp_pool cp @ replicate (n - length (cp_pool cp)) empty_entry\<rparr>"

definition broadcast :: "cred_pool \<Rightarrow> cred_pool" where
  "broadcast cp = cp\<lparr>cp_wakes := Suc (cp_wakes cp)\<rparr>"

section \<open>Predicates on a slot\<close>

definition unexpired :: "time \<Rightarrow> turn_creds \<Rightarrow> bool" where
  "unexpired now c \<longleftrightarrow> (case parse_cred_expiry (tc_username c) of
     None \<Rightarrow> False | Some e \<Rightarrow> now + cred_expiry_buffer < e)"

definition entry_is_fresh :: "time \<Rightarrow> pool_entry \<Rightarrow> bool" where
  "entry_is_fresh now e \<longleftrightarrow> (case pe_creds e of
     None \<Rightarrow> False
   | Some c \<Rightarrow> unexpired now c \<and> \<not> (pe_available_at e \<noteq> 0 \<and> now < pe_available_at e))"

definition entry_is_available :: "time \<Rightarrow> pool_entry \<Rightarrow> bool" where
  "entry_is_available now e \<longleftrightarrow>
     entry_is_fresh now e \<and> \<not> (pe_saturated_until e \<noteq> 0 \<and> now < pe_saturated_until e)"

definition entry_is_pending :: "time \<Rightarrow> pool_entry \<Rightarrow> bool" where
  "entry_is_pending now e \<longleftrightarrow> (case pe_creds e of
     None \<Rightarrow> False
   | Some c \<Rightarrow> \<not> (pe_available_at e = 0 \<or> \<not> now < pe_available_at e) \<and> unexpired now c)"

definition is_fresh :: "time \<Rightarrow> cred_pool \<Rightarrow> nat \<Rightarrow> bool" where
  "is_fresh now cp slot \<longleftrightarrow> slot < length (cp_pool cp) \<and> entry_is_fresh now (cp_pool cp ! slot)"

definition count_fresh :: "time \<Rightarrow> cred_pool \<Rightarrow> nat" where
  "count_fresh now cp = length (filter (entry_is_fresh now) (cp_pool cp))"

definition count_available :: "time \<Rightarrow> cred_pool \<Rightarrow> nat" where
  "count_available now cp = length (filter (entry_is_available now) (cp_pool cp))"

definition count_unexpired :: "time \<Rightarrow> cred_pool \<Rightarrow> nat" where
  "count_unexpired now cp =
     length (filter (\<lambda>e. case pe_creds e of None \<Rightarrow> False | Some c \<Rightarrow> unexpired now c) (cp_pool cp))"

definition count_with_creds :: "cred_pool \<Rightarrow> nat" where
  "count_with_creds cp = length (filter (\<lambda>e. pe_creds e \<noteq> None) (cp_pool cp))"

definition snapshot_size :: "env \<Rightarrow> cred_pool \<Rightarrow> nat \<times> nat \<times> nat" where
  "snapshot_size ev cp =
     (count_available (ev_now ev) cp, count_unexpired (ev_now ev) cp, cp_size cp)"

definition distinct_relays :: "cred_pool \<Rightarrow> nat" where
  "distinct_relays cp =
     length (remdups (map pe_addr (filter (\<lambda>e. pe_creds e \<noteq> None \<and> pe_addr e \<noteq> []) (cp_pool cp))))"

definition saturation_snapshot :: "env \<Rightarrow> cred_pool \<Rightarrow> nat \<times> nat \<times> duration" where
  "saturation_snapshot ev cp =
     (let us = filter (\<lambda>u. ev_now ev < u)
                 (map pe_saturated_until (take (cp_size cp) (cp_pool cp)))
      in (length us, cp_size cp, foldl (\<lambda>m u. max m (u - ev_now ev)) 0 us))"

section \<open>Sizing and construction\<close>

definition pool_size_for_num_conns :: "int \<Rightarrow> int" where
  "pool_size_for_num_conns n =
     (let m = (if n \<le> 0 then 1 else n); sz = (m * 2 + 4) div 5
      in if sz < 2 then 2 else sz)"

definition cold_start_target_for :: "int \<Rightarrow> int \<Rightarrow> int" where
  "cold_start_target_for num_conns sz =
     (let t = (num_conns + int conns_per_slot - 1) div int conns_per_slot;
          t = (if t < 1 then 1 else t)
      in if 1 \<le> sz \<and> sz < t then sz else t)"

definition set_cold_start_target :: "int \<Rightarrow> cred_pool \<Rightarrow> cred_pool" where
  "set_cold_start_target n cp =
     cp\<lparr>cp_cold_start_target := cold_start_target_for n (int (cp_size cp))\<rparr>"

section \<open>The disk cache\<close>

text \<open>
  The loop of \<^verbatim>\<open>saveToDisk\<close> over the slots. An in-use slot is stamped with the moment of the save;
  the zero \<open>ce_last_used\<close> says never used.
\<close>

definition cache_entry_of :: "time \<Rightarrow> nat \<Rightarrow> pool_entry \<Rightarrow> cache_entry list" where
  "cache_entry_of now slot e = (case pe_creds e of
     None \<Rightarrow> []
   | Some c \<Rightarrow>
       [\<lparr>ce_slot = int slot, ce_address = pe_addr e, ce_username = tc_username c,
         ce_password = tc_password c,
         ce_last_used = (if pe_active e > 0 then unix_sec now
                         else if pe_last_used_at e \<noteq> 0 then unix_sec (pe_last_used_at e) else 0)\<rparr>])"

definition cache_snapshot :: "time \<Rightarrow> cred_pool \<Rightarrow> cache_file" where
  "cache_snapshot now cp =
     \<lparr>cc_version = cred_cache_version, cc_saved_at = unix_sec now,
      cc_creds = concat (map (\<lambda>i. cache_entry_of now i (cp_pool cp ! i)) [0..<length (cp_pool cp)])\<rparr>"

definition save_to_disk :: "env \<Rightarrow> cred_pool \<Rightarrow> cred_pool" where
  "save_to_disk ev cp =
     (if cp_cached cp \<and> ev_disk_ok ev
      then cp\<lparr>cp_disk := Some (cache_snapshot (ev_now ev) cp)\<rparr> else cp)"

text \<open>One turn of the loop of \<^verbatim>\<open>loadFromDisk\<close>; then the whole. \<^verbatim>\<open>exp.Sub(now)\<close> saturates.\<close>

definition loaded_entry :: "time \<Rightarrow> cache_entry \<Rightarrow> pool_entry" where
  "loaded_entry now e =
     (let lu = (if 0 < ce_last_used e then unix_time (ce_last_used e) else 0);
          ready = lu + cred_saturation_cooldown
      in empty_entry
        \<lparr>pe_addr := ce_address e,
         pe_creds := Some \<lparr>tc_username = ce_username e, tc_password = ce_password e,
                           tc_address = ce_address e, tc_addresses = []\<rparr>,
         pe_ts := now, pe_last_used_at := lu,
         pe_available_at := (if 0 < ce_last_used e \<and> now < ready then ready else 0)\<rparr>)"

definition load_entry :: "time \<Rightarrow> cred_pool \<Rightarrow> cache_entry \<Rightarrow> cred_pool" where
  "load_entry now cp e =
     (if ce_slot e < 0 \<or> int (cp_size cp) \<le> ce_slot e then cp
      else case parse_cred_expiry (ce_username e) of
        None \<Rightarrow> cp
      | Some exp \<Rightarrow>
          if time_sub exp now < cred_expiry_buffer then cp
          else upd_slot (nat (ce_slot e)) (\<lambda>_. loaded_entry now e)
                 (grow_to (Suc (nat (ce_slot e))) cp))"

text \<open>\<open>None\<close> as the file is a file that is not there, unreadable or not JSON.\<close>

definition load_from_disk :: "time \<Rightarrow> cred_pool \<Rightarrow> cred_pool" where
  "load_from_disk now cp = (case cp_disk cp of
     None \<Rightarrow> cp
   | Some f \<Rightarrow> if cc_version f \<noteq> cred_cache_version then cp
               else foldl (load_entry now) cp (cc_creds f))"

definition new_cred_pool :: "env \<Rightarrow> int \<Rightarrow> duration \<Rightarrow> bool \<Rightarrow> cache_file option \<Rightarrow> cred_pool" where
  "new_cred_pool ev size0 cooldown0 cached disk =
     (let sz = nat (if size0 < 1 then 1 else size0);
          cp = \<lparr>cp_pool = replicate sz empty_entry, cp_next_gen = 0, cp_size = sz,
                cp_cooldown = (if cooldown0 \<le> 0 then 2 * minute else cooldown0),
                cp_auth_errors = replicate sz 0, cp_fresh_last_tick = [], cp_pause_until = 0,
                cp_pause_timer = None, cp_last_path_event = 0,
                cp_cold_start_target = (int sz + 3) div 4, cp_cached = cached, cp_disk = disk,
                cp_wakes = 0\<rparr>
      in if cached then load_from_disk (ev_now ev) cp else cp)"

section \<open>Auth errors and seeding\<close>

definition record_auth_error :: "int \<Rightarrow> cred_pool \<Rightarrow> cred_pool" where
  "record_auth_error slot cp =
     (if slot < 0 \<or> int (length (cp_auth_errors cp)) \<le> slot then cp
      else cp\<lparr>cp_auth_errors := (cp_auth_errors cp)[nat slot := cp_auth_errors cp ! nat slot + 1]\<rparr>)"

definition auth_error_count :: "cred_pool \<Rightarrow> int \<Rightarrow> int" where
  "auth_error_count cp slot =
     (if slot < 0 \<or> int (length (cp_auth_errors cp)) \<le> slot then -1
      else cp_auth_errors cp ! nat slot)"

definition reset_auth_errors :: "nat \<Rightarrow> cred_pool \<Rightarrow> cred_pool" where
  "reset_auth_errors slot cp = cp\<lparr>cp_auth_errors := (cp_auth_errors cp)[slot := 0]\<rparr>"

definition same_username :: "turn_creds \<Rightarrow> pool_entry \<Rightarrow> bool" where
  "same_username c e \<longleftrightarrow> (case pe_creds e of None \<Rightarrow> False | Some d \<Rightarrow> tc_username d = tc_username c)"

text \<open>
  The first index of the pool whose entry satisfies a test, the loops with a \<^verbatim>\<open>break\<close>.
\<close>

definition first_slot :: "(pool_entry \<Rightarrow> bool) \<Rightarrow> cred_pool \<Rightarrow> nat option" where
  "first_slot P cp = List.find (\<lambda>i. P (cp_pool cp ! i)) [0..<length (cp_pool cp)]"

text \<open>
  \<^verbatim>\<open>seedSlot\<close> with a non-nil credential (a nil one in its place is the caller's fault and panics on a
  filled slot): the displaced entry, the write, the clearing of duplicates, the relocation.
\<close>

definition clear_duplicates :: "nat \<Rightarrow> turn_creds \<Rightarrow> cred_pool \<Rightarrow> cred_pool" where
  "clear_duplicates slot c cp =
     cp\<lparr>cp_pool := map (\<lambda>(i, e). if i \<noteq> slot \<and> same_username c e then empty_entry else e)
                      (enumerate 0 (cp_pool cp))\<rparr>"

definition seed_write :: "env \<Rightarrow> nat \<Rightarrow> bytes \<Rightarrow> turn_creds \<Rightarrow> cred_pool \<Rightarrow> cred_pool" where
  "seed_write ev slot addr c cp =
     (let cp = grow_to (Suc slot) cp;
          old = cp_pool cp ! slot;
          displaced = (if pe_creds old \<noteq> None \<and> \<not> same_username c old then Some old else None);
          cp = clear_duplicates slot c (upd_slot slot (\<lambda>_. filled_entry addr c (ev_now ev) 0 0) cp)
      in case displaced of
           None \<Rightarrow> cp
         | Some d \<Rightarrow> (case first_slot (\<lambda>e. pe_creds e = None) cp of
               None \<Rightarrow> cp
             | Some i \<Rightarrow> upd_slot i (\<lambda>_. d) cp))"

definition seed_slot :: "env \<Rightarrow> nat \<Rightarrow> bytes \<Rightarrow> turn_creds \<Rightarrow> cred_pool \<Rightarrow> cred_pool" where
  "seed_slot ev slot addr c cp =
     (if is_fresh (ev_now ev) cp slot then cp
      else broadcast (save_to_disk ev (reset_auth_errors slot (seed_write ev slot addr c cp))))"

section \<open>Claims\<close>

definition claim_for_fetch :: "nat \<Rightarrow> cred_pool \<Rightarrow> u64 \<times> cred_pool" where
  "claim_for_fetch slot cp =
     (let g = cp_next_gen cp + 1
      in (g, upd_slot slot (\<lambda>e. e\<lparr>pe_fetching := True, pe_gen := g\<rparr>) (cp\<lparr>cp_next_gen := g\<rparr>)))"

definition owns :: "cred_pool \<Rightarrow> nat \<Rightarrow> u64 \<Rightarrow> bool" where
  "owns cp slot g \<longleftrightarrow> slot < length (cp_pool cp) \<and> pe_gen (cp_pool cp ! slot) = g"

definition place_into_empty_slot ::
  "env \<Rightarrow> bytes \<Rightarrow> turn_creds \<Rightarrow> nat \<Rightarrow> cred_pool \<Rightarrow> nat option \<times> cred_pool" where
  "place_into_empty_slot ev addr c active cp =
     (if ev_cookie ev then (None, cp)
      else let cp = grow_to (cp_size cp) cp
           in if first_slot (same_username c) cp \<noteq> None then (None, cp)
              else case first_slot (\<lambda>e. pe_creds e = None \<and> \<not> pe_fetching e) cp of
                None \<Rightarrow> (None, cp)
              | Some i \<Rightarrow>
                  (let g = cp_next_gen cp + 1
                   in (Some i, upd_slot i (\<lambda>_. filled_entry addr c (ev_now ev) active g)
                                 (cp\<lparr>cp_next_gen := g\<rparr>))))"

section \<open>Acquiring\<close>

datatype slot_kind = Own_slot | Compact_slot | Fresh_slot

datatype pool_error = Paused duration | Cold_cap int int | No_slot | Changed_hands | Fetch_failed bytes

datatype get_result = Got bytes "turn_creds option" nat | Refused pool_error | Fetching nat u64

type_synonym fetch_result = "bytes + bytes \<times> turn_creds"

definition own_slot :: "int \<Rightarrow> nat \<Rightarrow> nat" where
  "own_slot conn sz =
     (let i = conn div int conns_per_slot; i = (if i < 0 then 0 else i)
      in nat (if int sz \<le> i then int sz - 1 else i))"

definition seat_free :: "time \<Rightarrow> cred_pool \<Rightarrow> nat \<Rightarrow> bool" where
  "seat_free now cp i \<longleftrightarrow> is_fresh now cp i \<and> pe_active (cp_pool cp ! i) < conns_per_slot
     \<and> \<not> now < pe_saturated_until (cp_pool cp ! i)"

text \<open>One turn of the scan of \<^verbatim>\<open>pickAcquireSlotLocked\<close>: the accumulator is the best slot so far.\<close>

definition pick_step :: "time \<Rightarrow> cred_pool \<Rightarrow> nat \<Rightarrow> nat option \<Rightarrow> nat \<Rightarrow> nat option" where
  "pick_step now cp own best i =
     (if i = own \<or> \<not> seat_free now cp i then best
      else case best of
        None \<Rightarrow> Some i
      | Some b \<Rightarrow> if pe_active (cp_pool cp ! b) < pe_active (cp_pool cp ! i) then Some i else best)"

definition pick_acquire_slot :: "time \<Rightarrow> cred_pool \<Rightarrow> nat \<Rightarrow> (nat \<times> slot_kind) option" where
  "pick_acquire_slot now cp own =
     (if seat_free now cp own then Some (own, Own_slot)
      else case foldl (pick_step now cp own) None [0..<cp_size cp] of
        None \<Rightarrow> None
      | Some b \<Rightarrow> Some (b, if 0 < pe_active (cp_pool cp ! b) then Compact_slot else Fresh_slot))"

definition take_seat :: "nat \<Rightarrow> cred_pool \<Rightarrow> get_result \<times> cred_pool" where
  "take_seat i cp =
     (let cp = upd_slot i (\<lambda>e. e\<lparr>pe_active := Suc (pe_active e)\<rparr>) cp; e = cp_pool cp ! i
      in (Got (pe_addr e) (pe_creds e) i, cp))"

definition candidates_ordered :: "nat \<Rightarrow> nat \<Rightarrow> nat list" where
  "candidates_ordered own sz = own # filter (\<lambda>i. i \<noteq> own) [0..<sz]"

definition in_flight :: "cred_pool \<Rightarrow> nat" where
  "in_flight cp = length (filter pe_fetching (cp_pool cp))"

definition cold_target :: "cred_pool \<Rightarrow> int" where
  "cold_target cp = (if cp_cold_start_target cp < 1 then 1 else cp_cold_start_target cp)"

definition fetchable :: "time \<Rightarrow> pool_entry \<Rightarrow> bool" where
  "fetchable now e \<longleftrightarrow> \<not> entry_is_fresh now e \<and> \<not> entry_is_pending now e
     \<and> \<not> now < pe_cooldown_until e \<and> \<not> pe_fetching e"

definition remintable :: "time \<Rightarrow> pool_entry \<Rightarrow> bool" where
  "remintable now e \<longleftrightarrow> pe_creds e \<noteq> None \<and> now < pe_saturated_until e \<and> pe_active e = 0
     \<and> \<not> pe_fetching e \<and> \<not> now < pe_cooldown_until e"

definition fetch_target :: "time \<Rightarrow> cred_pool \<Rightarrow> nat \<Rightarrow> nat option" where
  "fetch_target now cp own =
     (let cands = candidates_ordered own (cp_size cp)
      in case List.find (\<lambda>i. fetchable now (cp_pool cp ! i)) cands of
           Some t \<Rightarrow> Some t
         | None \<Rightarrow> List.find (\<lambda>i. remintable now (cp_pool cp ! i)) cands)"

text \<open>\<^verbatim>\<open>get\<close> up to the claim: a seat, a refusal, or a claim whose fetch now runs without the lock.\<close>

definition get_begin :: "env \<Rightarrow> int \<Rightarrow> cred_pool \<Rightarrow> get_result \<times> cred_pool" where
  "get_begin ev conn cp0 =
     (let now = ev_now ev in
      if cp_pause_until cp0 \<noteq> 0 \<and> now < cp_pause_until cp0
      then (Refused (Paused (cp_pause_until cp0 - now)), cp0)
      else
        let own = own_slot conn (cp_size cp0); cp = grow_to (Suc own) cp0 in
        case pick_acquire_slot now cp own of
          Some (i, k) \<Rightarrow> take_seat i cp
        | None \<Rightarrow>
            let have_now = int (count_available now cp + in_flight cp) in
            if cold_target cp \<le> have_now then (Refused (Cold_cap have_now (cold_target cp)), cp)
            else case fetch_target now cp own of
                None \<Rightarrow> (Refused No_slot, cp)
              | Some t \<Rightarrow> (case claim_for_fetch t cp of (g, cp) \<Rightarrow> (Fetching t g, cp)))"

definition get_failed :: "env \<Rightarrow> int \<Rightarrow> nat \<Rightarrow> bool \<Rightarrow> pool_error \<Rightarrow> cred_pool \<Rightarrow> get_result \<times> cred_pool" where
  "get_failed ev conn target mine err cp =
     (let now = ev_now ev;
          cp = (if mine then upd_slot target (\<lambda>e. e\<lparr>pe_cooldown_until := now + cp_cooldown cp\<rparr>) cp
                else cp)
      in case pick_acquire_slot now cp (own_slot conn (cp_size cp)) of
           Some (i, k) \<Rightarrow> take_seat i cp
         | None \<Rightarrow> (Refused err, cp))"

text \<open>\<^verbatim>\<open>get\<close> from the return of the fetch, which claimed \<open>target\<close> with stamp \<open>g\<close>.\<close>

definition get_finish ::
  "env \<Rightarrow> int \<Rightarrow> nat \<Rightarrow> u64 \<Rightarrow> fetch_result \<Rightarrow> cred_pool \<Rightarrow> get_result \<times> cred_pool" where
  "get_finish ev conn target g res cp0 =
     (let mine = owns cp0 target g;
          cp = (if mine then upd_slot target (\<lambda>e. e\<lparr>pe_fetching := False\<rparr>) cp0 else cp0)
      in case res of
           Inl err \<Rightarrow> get_failed ev conn target mine (Fetch_failed err) cp
         | Inr (addr, c) \<Rightarrow>
             (case (if mine
                    then (Some target, upd_slot target (\<lambda>_. filled_entry addr c (ev_now ev) 1 g) cp)
                    else place_into_empty_slot ev addr c 1 cp) of
                (None, cp) \<Rightarrow> get_failed ev conn target mine Changed_hands cp
              | (Some got, cp) \<Rightarrow>
                  (Got addr (Some c) got, broadcast (save_to_disk ev (reset_auth_errors got cp)))))"

section \<open>Releasing and saturation\<close>

definition release :: "env \<Rightarrow> int \<Rightarrow> cred_pool \<Rightarrow> cred_pool" where
  "release ev slot cp =
     (if slot < 0 \<or> int (cp_size cp) \<le> slot \<or> int (length (cp_pool cp)) \<le> slot then cp
      else
        let now = ev_now ev; i = nat slot; e = cp_pool cp ! i;
            usable = (pe_active e = conns_per_slot \<and> entry_is_fresh now e
                      \<and> \<not> now < pe_saturated_until e);
            cp' = (if 0 < pe_active e
                   then upd_slot i (\<lambda>e. e\<lparr>pe_active := pe_active e - 1,
                          pe_last_used_at := (if pe_active e = 1 then now else pe_last_used_at e)\<rparr>) cp
                   else cp)
        in if usable then broadcast cp' else cp')"

definition apply_saturation :: "time \<Rightarrow> nat \<Rightarrow> duration \<Rightarrow> cred_pool \<Rightarrow> cred_pool" where
  "apply_saturation now slot cooldown cp =
     upd_slot slot (\<lambda>e. e\<lparr>pe_saturated_until := now + cooldown, pe_timer := Some (now + cooldown)\<rparr>) cp"

definition mark_saturated :: "env \<Rightarrow> int \<Rightarrow> cred_pool \<Rightarrow> duration \<times> cred_pool" where
  "mark_saturated ev slot cp =
     (if slot < 0 \<or> int (cp_size cp) \<le> slot \<or> int (length (cp_pool cp)) \<le> slot then (0, cp)
      else
        let now = ev_now ev; e = cp_pool cp ! nat slot;
            recent = (pe_last_used_at e \<noteq> 0
                      \<and> time_sub now (pe_last_used_at e) < active_allocations_window);
            cooldown = (if 0 < pe_active e \<or> recent then vk_active_allocations_cooldown
                        else vk_saturation_cooldown)
        in (cooldown, apply_saturation now (nat slot) cooldown cp))"

section \<open>Path changes and the acquire pause\<close>

definition vk_alloc_lifetime :: duration where
  "vk_alloc_lifetime = 600 * second"

definition safety_buffer :: duration where
  "safety_buffer = 30 * second"

definition min_real_use_age :: duration where
  "min_real_use_age = 2 * second"

text \<open>
  One turn of the loop of \<^verbatim>\<open>MarkInUseSlotsForPathChange\<close>: the cooldown the slot is given, or \<open>None\<close> at a
  \<^verbatim>\<open>continue\<close>.
\<close>

definition path_cooldown :: "time \<Rightarrow> pool_entry \<Rightarrow> duration option" where
  "path_cooldown now e =
     (if pe_saturated_until e \<noteq> 0 \<and> now < pe_saturated_until e then None
      else if pe_creds e = None then None
      else if pe_available_at e \<noteq> 0 \<and> now < pe_available_at e then None
      else
        let age = time_sub now (pe_last_used_at e);
            anchor = (if 0 < pe_active e then Some now
                      else if pe_last_used_at e \<noteq> 0 \<and> min_real_use_age < age
                              \<and> age < active_allocations_window
                      then Some (pe_last_used_at e) else None)
        in case anchor of
             None \<Rightarrow> None
           | Some a \<Rightarrow>
               let remaining = vk_alloc_lifetime - time_sub now a + safety_buffer
               in if remaining \<le> 0 then None else Some remaining)"

definition mark_slot :: "time \<Rightarrow> cred_pool \<Rightarrow> nat \<Rightarrow> cred_pool" where
  "mark_slot now cp i = (case path_cooldown now (cp_pool cp ! i) of
     None \<Rightarrow> cp | Some d \<Rightarrow> apply_saturation now i d cp)"

definition live_slots :: "cred_pool \<Rightarrow> bool" where
  "live_slots cp \<longleftrightarrow> list_ex (\<lambda>e. 0 < pe_active e) (take (cp_size cp) (cp_pool cp))"

definition arm_pause :: "time \<Rightarrow> cred_pool \<Rightarrow> cred_pool" where
  "arm_pause now cp =
     cp\<lparr>cp_pause_timer := (if cp_pause_until cp - now \<le> 0 then None else Some (cp_pause_until cp))\<rparr>"

definition pause_for :: "time \<Rightarrow> duration \<Rightarrow> cred_pool \<Rightarrow> cred_pool" where
  "pause_for now d cp =
     (if cp_pause_until cp < now + d then arm_pause now (cp\<lparr>cp_pause_until := now + d\<rparr>) else cp)"

datatype burst = Isolated | Dual | Cascade

definition burst_kind :: "time \<Rightarrow> cred_pool \<Rightarrow> burst" where
  "burst_kind now cp =
     (let gap = time_sub now (cp_last_path_event cp) in
      if cp_last_path_event cp = 0 then Isolated
      else if gap < pause_acquire_after_path_event then Dual
      else if gap < cascade_detection_window then Cascade
      else Isolated)"

definition mark_in_use_for_path_change :: "env \<Rightarrow> cred_pool \<Rightarrow> cred_pool" where
  "mark_in_use_for_path_change ev cp0 =
     (let now = ev_now ev; live = live_slots cp0;
          cp = foldl (mark_slot now) cp0 [0..<min (cp_size cp0) (length (cp_pool cp0))];
          kind = burst_kind now cp;
          cp = pause_for now (if kind = Cascade then cascade_pause_duration
                              else pause_acquire_after_path_event) cp
      in if live \<or> kind \<noteq> Isolated then cp\<lparr>cp_last_path_event := now\<rparr> else cp)"

definition extend_pause :: "env \<Rightarrow> duration \<Rightarrow> cred_pool \<Rightarrow> cred_pool" where
  "extend_pause ev d cp = pause_for (ev_now ev) d cp"

section \<open>Background fills\<close>

datatype fill_result = Fill_done bool | Fill_claimed u64

definition fill_begin :: "env \<Rightarrow> int \<Rightarrow> int \<Rightarrow> cred_pool \<Rightarrow> fill_result \<times> cred_pool" where
  "fill_begin ev slot abort_gte cp0 =
     (if slot < 0 \<or> int (cp_size cp0) \<le> slot then (Fill_done False, cp0)
      else
        let now = ev_now ev; i = nat slot; cp = grow_to (Suc i) cp0; e = cp_pool cp ! i in
        if is_fresh now cp i then (Fill_done True, cp)
        else if entry_is_pending now e then (Fill_done True, cp)
        else if now < pe_cooldown_until e \<or> pe_fetching e then (Fill_done False, cp)
        else if 0 < abort_gte \<and> abort_gte \<le> int (count_available now cp) then (Fill_done False, cp)
        else case claim_for_fetch i cp of (g, cp) \<Rightarrow> (Fill_claimed g, cp))"

definition fill_finish ::
  "env \<Rightarrow> nat \<Rightarrow> u64 \<Rightarrow> fetch_result \<Rightarrow> cred_pool \<Rightarrow> bool \<times> cred_pool" where
  "fill_finish ev slot g res cp =
     (if \<not> owns cp slot g then
        (case res of
           Inl err \<Rightarrow> (False, cp)
         | Inr (addr, c) \<Rightarrow>
             (case place_into_empty_slot ev addr c 0 cp of
                (None, cp) \<Rightarrow> (False, cp)
              | (Some i, cp) \<Rightarrow> (True, broadcast (save_to_disk ev (reset_auth_errors i cp)))))
      else
        let cp = upd_slot slot (\<lambda>e. e\<lparr>pe_fetching := False\<rparr>) cp in
        case res of
          Inl err \<Rightarrow>
            (False, upd_slot slot (\<lambda>e. e\<lparr>pe_cooldown_until := ev_now ev + cp_cooldown cp\<rparr>) cp)
        | Inr (addr, c) \<Rightarrow>
            (True, broadcast (save_to_disk ev (reset_auth_errors slot
                     (upd_slot slot (\<lambda>_. filled_entry addr c (ev_now ev) 0 g) cp)))))"

definition pick_slot_to_fill :: "env \<Rightarrow> cred_pool \<Rightarrow> nat option \<times> cred_pool" where
  "pick_slot_to_fill ev cp0 =
     (let cp = grow_to (cp_size cp0) cp0
      in (List.find (\<lambda>i. fetchable (ev_now ev) (cp_pool cp ! i)) [0..<cp_size cp], cp))"

section \<open>Dropping credentials, periodic work, timers\<close>

definition invalidate :: "cred_pool \<Rightarrow> cred_pool" where
  "invalidate cp = cp\<lparr>cp_pool := replicate (cp_size cp) empty_entry\<rparr>"

definition invalidate_entry :: "env \<Rightarrow> int \<Rightarrow> cred_pool \<Rightarrow> cred_pool" where
  "invalidate_entry ev slot cp =
     (if slot < 0 then cp
      else
        let i = nat slot;
            dropped = (i < length (cp_pool cp) \<and> pe_creds (cp_pool cp ! i) \<noteq> None);
            cp = (if i < length (cp_pool cp) then upd_slot i (\<lambda>_. empty_entry) cp else cp)
        in if dropped then save_to_disk ev cp else cp)"

text \<open>\<^verbatim>\<open>logFreshTransitionsLocked\<close>: the slots it reports, with their new freshness, and the snapshot.\<close>

definition fresh_transitions :: "time \<Rightarrow> cred_pool \<Rightarrow> (nat \<times> bool) list \<times> cred_pool" where
  "fresh_transitions now cp =
     (let fresh = map (entry_is_fresh now) (cp_pool cp); cp' = cp\<lparr>cp_fresh_last_tick := fresh\<rparr>
      in if length (cp_fresh_last_tick cp) \<noteq> length (cp_pool cp) then ([], cp')
         else (filter (\<lambda>(i, f). f \<noteq> cp_fresh_last_tick cp ! i) (enumerate 0 fresh), cp'))"

definition periodic_save :: "env \<Rightarrow> cred_pool \<Rightarrow> cred_pool" where
  "periodic_save ev cp = save_to_disk ev (snd (fresh_transitions (ev_now ev) cp))"

text \<open>
  The timers whose time has come fire: each broadcasts once. The timer of an entry that was replaced
  before it fired is dropped here; in the code it still broadcasts, which only wakes waiters early.
\<close>

definition due :: "time \<Rightarrow> time option \<Rightarrow> bool" where
  "due now d \<longleftrightarrow> (case d of None \<Rightarrow> False | Some t \<Rightarrow> t \<le> now)"

definition fire_timers :: "env \<Rightarrow> cred_pool \<Rightarrow> cred_pool" where
  "fire_timers ev cp =
     (let now = ev_now ev; ds = cp_pause_timer cp # map pe_timer (cp_pool cp)
      in cp\<lparr>cp_wakes := cp_wakes cp + length (filter (due now) ds),
            cp_pause_timer := (if due now (cp_pause_timer cp) then None else cp_pause_timer cp),
            cp_pool := map (\<lambda>e. if due now (pe_timer e) then e\<lparr>pe_timer := None\<rparr> else e) (cp_pool cp)\<rparr>)"

section \<open>The pool as a machine\<close>

text \<open>
  The events of the pool: its operations with what they read. The second half of a fetch carries
  the claim of the first; a run may interleave them with everything else, and may even present
  claims that were never made.
\<close>

datatype pool_event =
    Ev_get env int
  | Ev_get_done env int nat u64 fetch_result
  | Ev_fill env int int
  | Ev_fill_done env nat u64 fetch_result
  | Ev_release env int
  | Ev_saturated env int
  | Ev_path env
  | Ev_extend env duration
  | Ev_invalidate
  | Ev_drop env int
  | Ev_seed env nat bytes turn_creds
  | Ev_save env
  | Ev_timers env
  | Ev_auth_error int

fun pool_step :: "cred_pool \<Rightarrow> pool_event \<Rightarrow> cred_pool" where
  "pool_step cp (Ev_get ev conn) = snd (get_begin ev conn cp)"
| "pool_step cp (Ev_get_done ev conn t g res) = snd (get_finish ev conn t g res cp)"
| "pool_step cp (Ev_fill ev slot a) = snd (fill_begin ev slot a cp)"
| "pool_step cp (Ev_fill_done ev slot g res) = snd (fill_finish ev slot g res cp)"
| "pool_step cp (Ev_release ev slot) = release ev slot cp"
| "pool_step cp (Ev_saturated ev slot) = snd (mark_saturated ev slot cp)"
| "pool_step cp (Ev_path ev) = mark_in_use_for_path_change ev cp"
| "pool_step cp (Ev_extend ev d) = extend_pause ev d cp"
| "pool_step cp Ev_invalidate = invalidate cp"
| "pool_step cp (Ev_drop ev slot) = invalidate_entry ev slot cp"
| "pool_step cp (Ev_seed ev slot addr c) = seed_slot ev slot addr c cp"
| "pool_step cp (Ev_save ev) = periodic_save ev cp"
| "pool_step cp (Ev_timers ev) = fire_timers ev cp"
| "pool_step cp (Ev_auth_error slot) = record_auth_error slot cp"

section \<open>What the primitive steps keep\<close>

lemma upd_slot_simps [simp]:
  "length (cp_pool (upd_slot i f cp)) = length (cp_pool cp)"
  "cp_size (upd_slot i f cp) = cp_size cp"
  "cp_next_gen (upd_slot i f cp) = cp_next_gen cp"
  "cp_cold_start_target (upd_slot i f cp) = cp_cold_start_target cp"
  "cp_cooldown (upd_slot i f cp) = cp_cooldown cp"
  "cp_pause_until (upd_slot i f cp) = cp_pause_until cp"
  by (simp_all add: upd_slot_def)

lemma nth_upd_slot: "j < length (cp_pool cp) \<Longrightarrow>
    cp_pool (upd_slot i f cp) ! j = (if j = i then f (cp_pool cp ! i) else cp_pool cp ! j)"
  by (simp add: upd_slot_def nth_list_update)

lemma quiet_simps [simp]:
  "cp_pool (broadcast cp) = cp_pool cp" "cp_size (broadcast cp) = cp_size cp"
  "cp_next_gen (broadcast cp) = cp_next_gen cp"
  "cp_cold_start_target (broadcast cp) = cp_cold_start_target cp"
  "cp_pool (save_to_disk ev cp) = cp_pool cp" "cp_size (save_to_disk ev cp) = cp_size cp"
  "cp_next_gen (save_to_disk ev cp) = cp_next_gen cp"
  "cp_cold_start_target (save_to_disk ev cp) = cp_cold_start_target cp"
  "cp_pool (reset_auth_errors i cp) = cp_pool cp" "cp_size (reset_auth_errors i cp) = cp_size cp"
  "cp_next_gen (reset_auth_errors i cp) = cp_next_gen cp"
  "cp_cold_start_target (reset_auth_errors i cp) = cp_cold_start_target cp"
  "cp_pool (record_auth_error s cp) = cp_pool cp" "cp_size (record_auth_error s cp) = cp_size cp"
  "cp_next_gen (record_auth_error s cp) = cp_next_gen cp"
  "cp_cold_start_target (record_auth_error s cp) = cp_cold_start_target cp"
  "cp_pool (pause_for now d cp) = cp_pool cp" "cp_size (pause_for now d cp) = cp_size cp"
  "cp_next_gen (pause_for now d cp) = cp_next_gen cp"
  "cp_cold_start_target (pause_for now d cp) = cp_cold_start_target cp"
  "cp_last_path_event (pause_for now d cp) = cp_last_path_event cp"
  by (simp_all add: broadcast_def save_to_disk_def reset_auth_errors_def record_auth_error_def
      pause_for_def arm_pause_def)

lemma entry_simps [simp]:
  "pe_active empty_entry = 0" "pe_gen empty_entry = 0" "pe_fetching empty_entry = False"
  "pe_creds empty_entry = None"
  "pe_active (filled_entry a c t n g) = n" "pe_gen (filled_entry a c t n g) = g"
  "pe_fetching (filled_entry a c t n g) = False" "pe_creds (filled_entry a c t n g) = Some c"
  by (simp_all add: empty_entry_def filled_entry_def)

lemma grow_to_id [simp]: "n \<le> length (cp_pool cp) \<Longrightarrow> grow_to n cp = cp"
  by (simp add: grow_to_def)

lemma own_slot_less: "Suc 0 \<le> sz \<Longrightarrow> own_slot conn sz < sz"
  by (auto simp: own_slot_def Let_def nat_less_iff)

lemma first_slot_Some:
  "first_slot P cp = Some i \<Longrightarrow> i < length (cp_pool cp) \<and> P (cp_pool cp ! i)"
  by (auto simp: first_slot_def find_Some_iff)

section \<open>Seats never exceed the quota\<close>

definition pool_ok :: "cred_pool \<Rightarrow> bool" where
  "pool_ok cp \<longleftrightarrow> 1 \<le> cp_size cp \<and> cp_size cp \<le> length (cp_pool cp)
     \<and> (\<forall>e \<in> set (cp_pool cp). pe_active e \<le> conns_per_slot)"

lemma pool_ok_cong:
  "cp_size cp' = cp_size cp \<Longrightarrow> cp_pool cp' = cp_pool cp \<Longrightarrow> pool_ok cp' = pool_ok cp"
  by (simp add: pool_ok_def)

lemma pool_ok_grow [simp]: "pool_ok cp \<Longrightarrow> n \<le> cp_size cp \<Longrightarrow> grow_to n cp = cp"
  by (simp add: pool_ok_def)

lemma pool_ok_grow_to: "pool_ok cp \<Longrightarrow> pool_ok (grow_to n cp)"
  by (auto simp: pool_ok_def grow_to_def)

lemma pool_ok_upd:
  assumes "pool_ok cp"
    and "i < length (cp_pool cp) \<Longrightarrow> pe_active (f (cp_pool cp ! i)) \<le> conns_per_slot"
  shows "pool_ok (upd_slot i f cp)"
proof (cases "i < length (cp_pool cp)")
  case True
  with assms set_update_subset_insert [of "cp_pool cp" i "f (cp_pool cp ! i)"] show ?thesis
    by (fastforce simp: pool_ok_def upd_slot_def)
next
  case False
  with assms(1) show ?thesis by (simp add: pool_ok_def upd_slot_def list_update_beyond)
qed

lemma pool_ok_upd_keep:
  assumes "pool_ok cp" and "\<And>e. pe_active (f e) \<le> pe_active e"
  shows "pool_ok (upd_slot i f cp)"
proof (rule pool_ok_upd [OF assms(1)])
  assume "i < length (cp_pool cp)"
  then have "pe_active (cp_pool cp ! i) \<le> conns_per_slot"
    using assms(1) by (simp add: pool_ok_def)
  with assms(2) show "pe_active (f (cp_pool cp ! i)) \<le> conns_per_slot"
    by (rule order_trans)
qed

lemma pool_ok_next_gen [simp]: "pool_ok (cp\<lparr>cp_next_gen := g\<rparr>) = pool_ok cp"
  by (simp add: pool_ok_def)

lemma pool_ok_quiet [simp]:
  "pool_ok (broadcast cp) = pool_ok cp" "pool_ok (save_to_disk ev cp) = pool_ok cp"
  "pool_ok (reset_auth_errors i cp) = pool_ok cp" "pool_ok (record_auth_error s cp) = pool_ok cp"
  "pool_ok (pause_for now d cp) = pool_ok cp" "pool_ok (cp\<lparr>cp_last_path_event := t\<rparr>) = pool_ok cp"
  by (simp_all add: pool_ok_def)

lemma scan_spec:
  "case foldl (pick_step now cp own) None [0..<n] of
     None \<Rightarrow> \<forall>j<n. j \<noteq> own \<longrightarrow> \<not> seat_free now cp j
   | Some b \<Rightarrow> b < n \<and> b \<noteq> own \<and> seat_free now cp b
       \<and> (\<forall>j<n. j \<noteq> own \<and> seat_free now cp j \<longrightarrow> pe_active (cp_pool cp ! j) \<le> pe_active (cp_pool cp ! b))"
  by (induction n) (auto simp: pick_step_def less_Suc_eq split: option.splits)

lemma pick_acquire_Some:
  assumes "pick_acquire_slot now cp own = Some (i, k)"
  shows "seat_free now cp i" and "i = own \<or> i < cp_size cp"
    and "i \<noteq> own \<Longrightarrow> \<not> seat_free now cp own"
    and "i \<noteq> own \<Longrightarrow> j < cp_size cp \<Longrightarrow> seat_free now cp j \<Longrightarrow>
           pe_active (cp_pool cp ! j) \<le> pe_active (cp_pool cp ! i)"
  using assms scan_spec [where now = now and cp = cp and own = own and n = "cp_size cp"]
  by (auto simp: pick_acquire_slot_def split: if_splits option.splits)

lemma pick_acquire_None:
  assumes "pick_acquire_slot now cp own = None" and "j < cp_size cp"
  shows "\<not> seat_free now cp j"
  using assms scan_spec [where now = now and cp = cp and own = own and n = "cp_size cp"]
  by (cases "j = own") (auto simp: pick_acquire_slot_def split: if_splits option.splits)

lemma pool_ok_take_seat:
  assumes "pool_ok cp" and "seat_free now cp i"
  shows "pool_ok (snd (take_seat i cp))"
  using assms by (auto simp: take_seat_def Let_def seat_free_def intro!: pool_ok_upd)

lemma pool_ok_claim: "pool_ok cp \<Longrightarrow> pool_ok (snd (claim_for_fetch t cp))"
  by (auto simp: claim_for_fetch_def Let_def intro!: pool_ok_upd_keep)

lemma pool_ok_place:
  "pool_ok cp \<Longrightarrow> n \<le> conns_per_slot \<Longrightarrow> pool_ok (snd (place_into_empty_slot ev addr c n cp))"
  by (auto simp: place_into_empty_slot_def Let_def intro!: pool_ok_upd split: option.splits)

lemma pool_ok_get_begin: "pool_ok cp \<Longrightarrow> pool_ok (snd (get_begin ev conn cp))"
  using own_slot_less [of "cp_size cp" conn]
  by (auto simp: get_begin_def Let_def split_beta Suc_leI pool_ok_def [of cp]
      intro!: pool_ok_take_seat pool_ok_claim pool_ok_grow_to
      split: option.splits dest: pick_acquire_Some(1))

lemma pool_ok_get_failed:
  "pool_ok cp \<Longrightarrow> pool_ok (snd (get_failed ev conn t mine err cp))"
  by (auto simp: get_failed_def Let_def intro!: pool_ok_take_seat pool_ok_upd_keep
      split: option.splits dest: pick_acquire_Some(1))

lemma pool_ok_filled:
  "pool_ok cp \<Longrightarrow> n \<le> conns_per_slot \<Longrightarrow> pool_ok (upd_slot i (\<lambda>_. filled_entry a c t n g) cp)"
  by (rule pool_ok_upd) simp_all

lemma pool_ok_get_finish: "pool_ok cp \<Longrightarrow> pool_ok (snd (get_finish ev conn t g res cp))"
proof -
  assume ok: "pool_ok cp"
  have "pool_ok (upd_slot t (\<lambda>e. e\<lparr>pe_fetching := False\<rparr>) cp)"
    using ok by (rule pool_ok_upd_keep) simp
  with ok pool_ok_place [of cp 1 ev "fst (projr res)" "snd (projr res)"] show ?thesis
    by (auto simp: get_finish_def Let_def conns_per_slot_def
        intro!: pool_ok_get_failed pool_ok_filled split: sum.splits prod.splits option.splits)
qed

lemma pool_ok_fill_begin: "pool_ok cp \<Longrightarrow> pool_ok (snd (fill_begin ev slot a cp))"
  by (auto simp: fill_begin_def Let_def split_beta intro!: pool_ok_claim pool_ok_grow_to)

lemma pool_ok_fill_finish: "pool_ok cp \<Longrightarrow> pool_ok (snd (fill_finish ev slot g res cp))"
  using pool_ok_place [of cp 0 ev "fst (projr res)" "snd (projr res)"]
  by (auto simp: fill_finish_def Let_def
      intro!: pool_ok_filled pool_ok_upd_keep split: sum.splits prod.splits option.splits)

lemma pool_ok_release: "pool_ok cp \<Longrightarrow> pool_ok (release ev slot cp)"
  by (auto simp: release_def Let_def intro!: pool_ok_upd_keep)

lemma pool_ok_apply: "pool_ok cp \<Longrightarrow> pool_ok (apply_saturation now i d cp)"
  by (auto simp: apply_saturation_def intro!: pool_ok_upd_keep)

lemma pool_ok_path: "pool_ok cp \<Longrightarrow> pool_ok (mark_in_use_for_path_change ev cp)"
proof -
  assume "pool_ok cp"
  then have "pool_ok (foldl (mark_slot now) cp is)" for now "is"
    by (induction "is" arbitrary: cp) (simp_all add: mark_slot_def pool_ok_apply split: option.splits)
  then show ?thesis by (simp add: mark_in_use_for_path_change_def Let_def)
qed

lemma pool_ok_clear: "pool_ok cp \<Longrightarrow> pool_ok (clear_duplicates slot c cp)"
  unfolding pool_ok_def clear_duplicates_def by (auto simp: all_set_conv_all_nth nth_enumerate_eq)

lemma pool_ok_seed: "pool_ok cp \<Longrightarrow> pool_ok (seed_slot ev slot addr c cp)"
proof -
  assume ok: "pool_ok cp"
  let ?g = "grow_to (Suc slot) cp"
  let ?d = "clear_duplicates slot c (upd_slot slot (\<lambda>_. filled_entry addr c (ev_now ev) 0 0) ?g)"
  have g: "pool_ok ?g" using ok by (rule pool_ok_grow_to)
  then have d: "pool_ok ?d" by (intro pool_ok_clear pool_ok_filled) simp_all
  have "slot < length (cp_pool ?g)" by (simp add: grow_to_def)
  then have "pe_active (cp_pool ?g ! slot) \<le> conns_per_slot"
    using g by (simp add: pool_ok_def)
  then have "pool_ok (upd_slot i (\<lambda>_. cp_pool ?g ! slot) ?d)" for i
    by (rule pool_ok_upd [OF d])
  with d ok show ?thesis
    by (simp add: seed_slot_def seed_write_def Let_def split: option.splits)
qed

lemma pool_ok_drop: "pool_ok cp \<Longrightarrow> pool_ok (invalidate_entry ev slot cp)"
  by (auto simp: invalidate_entry_def Let_def intro: pool_ok_upd_keep)

lemma pool_ok_timers: "pool_ok cp \<Longrightarrow> pool_ok (fire_timers ev cp)"
  by (auto simp: pool_ok_def fire_timers_def Let_def)

lemma pool_ok_periodic: "pool_ok cp \<Longrightarrow> pool_ok (periodic_save ev cp)"
  by (simp add: periodic_save_def fresh_transitions_def Let_def pool_ok_def)

lemma pool_ok_invalidate: "pool_ok cp \<Longrightarrow> pool_ok (invalidate cp)"
  by (auto simp: pool_ok_def invalidate_def)

lemma pool_ok_mark: "pool_ok cp \<Longrightarrow> pool_ok (snd (mark_saturated ev slot cp))"
  by (simp add: mark_saturated_def Let_def pool_ok_apply)

lemma pool_ok_step: "pool_ok cp \<Longrightarrow> pool_ok (pool_step cp e)"
  by (cases e) (simp_all add: pool_ok_get_begin pool_ok_get_finish pool_ok_fill_begin
      pool_ok_fill_finish pool_ok_release pool_ok_path pool_ok_seed pool_ok_mark pool_ok_drop
      pool_ok_timers pool_ok_periodic pool_ok_invalidate extend_pause_def)

interpretation plm: invariant_machine pool_step pool_ok
  by unfold_locales (rule pool_ok_step)

lemma loaded_entry_simps [simp]:
  "pe_active (loaded_entry now e) = 0" "pe_gen (loaded_entry now e) = 0"
  "pe_fetching (loaded_entry now e) = False"
  by (simp_all add: loaded_entry_def Let_def)

lemma pool_ok_load_entry: "pool_ok cp \<Longrightarrow> pool_ok (load_entry now cp e)"
  using pool_ok_upd [OF pool_ok_grow_to, where f = "\<lambda>_. loaded_entry now e"]
  by (simp add: load_entry_def split: option.splits)

lemma pool_ok_load: "pool_ok cp \<Longrightarrow> pool_ok (load_from_disk now cp)"
proof -
  assume "pool_ok cp"
  then have "pool_ok (foldl (load_entry now) cp es)" for es
    by (induction es arbitrary: cp) (simp_all add: pool_ok_load_entry)
  then show ?thesis
    using \<open>pool_ok cp\<close> by (simp add: load_from_disk_def split: option.splits)
qed

lemma pool_ok_new: "pool_ok (new_cred_pool ev sz cd cached disk)"
  by (auto simp: new_cred_pool_def Let_def intro!: pool_ok_load) (auto simp: pool_ok_def)

text \<open>
  C4: Whatever the pool is asked to do, in whatever order, with fetches finishing late or under
  claims that no longer hold, no credential is ever handed to more than ten connections at a time
  by the pool's count, and no slot is ever missing.
\<close>

theorem seats_never_exceed_quota:
  "list_all (\<lambda>e. pe_active e \<le> conns_per_slot)
     (cp_pool (run pool_step (new_cred_pool ev sz cd cached disk) es))
   \<and> cp_size (run pool_step (new_cred_pool ev sz cd cached disk) es)
     \<le> length (cp_pool (run pool_step (new_cred_pool ev sz cd cached disk) es))"
  using plm.run_inv [OF pool_ok_new, of ev sz cd cached disk es]
  by (simp add: pool_ok_def list_all_iff)

section \<open>What an acquire hands out\<close>

definition best_slot :: "time \<Rightarrow> cred_pool \<Rightarrow> nat \<Rightarrow> nat \<Rightarrow> bool" where
  "best_slot now cp own i \<longleftrightarrow> i = own \<or>
     (\<not> seat_free now cp own \<and>
      list_all (\<lambda>j. seat_free now cp j \<longrightarrow> pe_active (cp_pool cp ! j) \<le> pe_active (cp_pool cp ! i))
        [0..<cp_size cp])"

definition not_paused :: "time \<Rightarrow> cred_pool \<Rightarrow> bool" where
  "not_paused now cp \<longleftrightarrow> cp_pause_until cp = 0 \<or> cp_pause_until cp \<le> now"

lemma get_begin_Got:
  assumes "pool_ok cp" and "get_begin ev conn cp = (Got addr c i, cp')"
  shows "not_paused (ev_now ev) cp \<and> i < cp_size cp \<and> seat_free (ev_now ev) cp i
    \<and> best_slot (ev_now ev) cp (own_slot conn (cp_size cp)) i
    \<and> c = pe_creds (cp_pool cp ! i) \<and> c \<noteq> None \<and> addr = pe_addr (cp_pool cp ! i)
    \<and> cp' = upd_slot i (\<lambda>e. e\<lparr>pe_active := Suc (pe_active e)\<rparr>) cp"
proof -
  let ?own = "own_slot conn (cp_size cp)" and ?now = "ev_now ev"
  have own: "?own < cp_size cp" and len: "cp_size cp \<le> length (cp_pool cp)"
    using assms(1) own_slot_less by (auto simp: pool_ok_def)
  then have g: "grow_to (Suc ?own) cp = cp" by simp
  obtain k where np: "not_paused ?now cp" and pick: "pick_acquire_slot ?now cp ?own = Some (i, k)"
    and seat: "take_seat i cp = (Got addr c i, cp')"
    using assms(2) g
    by (auto simp: get_begin_def Let_def split_beta not_paused_def take_seat_def
        split: if_splits option.splits)
  have free: "seat_free ?now cp i" and i: "i < cp_size cp" and best: "best_slot ?now cp ?own i"
    using pick_acquire_Some [OF pick] own by (auto simp: best_slot_def list_all_iff)
  have "pe_creds (cp_pool cp ! i) \<noteq> None"
    using free by (auto simp: seat_free_def is_fresh_def entry_is_fresh_def split: option.splits)
  with seat np free i best len show ?thesis
    by (auto simp: take_seat_def Let_def nth_upd_slot)
qed

text \<open>
   A connection that gets a seat without a fetch was not under the path-change pause, and its
  credential is unexpired with the safety margin, past its load cooldown, not saturated and below
  the quota; the connection sits on its own slot if that one has a seat, else on the fullest slot
  that has one; and the only change to the pool is one more seat on that slot.
\<close>

theorem acquire_hands_out_usable:
  assumes "pool_ok cp" and "get_begin ev conn cp = (Got addr c i, cp')"
  shows "not_paused (ev_now ev) cp \<and> i < cp_size cp \<and> seat_free (ev_now ev) cp i
    \<and> best_slot (ev_now ev) cp (own_slot conn (cp_size cp)) i
    \<and> c = pe_creds (cp_pool cp ! i) \<and> c \<noteq> None \<and> addr = pe_addr (cp_pool cp ! i)
    \<and> cp' = upd_slot i (\<lambda>e. e\<lparr>pe_active := Suc (pe_active e)\<rparr>) cp"
  using assms by (rule get_begin_Got)

text \<open>
  A concrete pool: \<open>day t\<close> is \<open>t\<close> seconds into a day of 2026, the credential \<open>cred_a\<close> expires eight
  hours into it, \<open>cred_b\<close> sixteen.
\<close>

definition day :: "int \<Rightarrow> time" where
  "day t = (62135596800 + 1788825600 + t) * second"

definition cred_a :: turn_creds where
  "cred_a = \<lparr>tc_username = ascii ''1788854400:a'', tc_password = ascii ''p'',
     tc_address = ascii ''r:1'', tc_addresses = []\<rparr>"

definition cred_b :: turn_creds where
  "cred_b = \<lparr>tc_username = ascii ''1788883200:b'', tc_password = ascii ''q'',
     tc_address = ascii ''r:1'', tc_addresses = []\<rparr>"

definition at :: "int \<Rightarrow> env" where
  "at t = \<lparr>ev_now = day t, ev_cookie = False, ev_disk_ok = True\<rparr>"

definition example_pool :: cred_pool where
  "example_pool = set_cold_start_target 10
     (seed_slot (at 0) 0 (ascii ''r:1'') cred_a (new_cred_pool (at 0) 2 0 False None))"

lemma pool_ok_example: "pool_ok example_pool"
  using pool_ok_seed [OF pool_ok_new] by (simp add: example_pool_def set_cold_start_target_def pool_ok_def)

theorem acquire_hands_out_usable_witness:
  "seat_free (day 5) example_pool 0
   \<and> snd (get_begin (at 5) 3 example_pool) = upd_slot 0 (\<lambda>e. e\<lparr>pe_active := Suc (pe_active e)\<rparr>) example_pool"
proof -
  have "fst (get_begin (at 5) 3 example_pool) = Got (ascii ''r:1'') (Some cred_a) 0"
    by code_simp
  then have "get_begin (at 5) 3 example_pool =
      (Got (ascii ''r:1'') (Some cred_a) 0, snd (get_begin (at 5) 3 example_pool))"
    by (metis prod.collapse)
  from acquire_hands_out_usable [OF pool_ok_example this] show ?thesis
    by (simp add: at_def)
qed

section \<open>Late fetches\<close>

text \<open>
  Claim stamps: a stamp that has been issued and that no slot carries never comes back, until the
  64-bit counter wraps. Seeding, which relocates an entry with its stamp, only happens while the
  pool is set up.
\<close>

definition issued :: "u64 \<Rightarrow> cred_pool \<Rightarrow> bool" where
  "issued g cp \<longleftrightarrow> g \<noteq> 0 \<and> unat g \<le> unat (cp_next_gen cp)"

definition slot_lost :: "nat \<Rightarrow> u64 \<Rightarrow> cred_pool \<Rightarrow> bool" where
  "slot_lost t g cp \<longleftrightarrow> \<not> owns cp t g"

fun is_seed :: "pool_event \<Rightarrow> bool" where
  "is_seed (Ev_seed ev slot addr c) = True"
| "is_seed e = False"

text \<open>
  How an operation may move the stamps: the counter by at most one, and the stamp of a slot to 0 or
  to the new value of the counter.
\<close>

definition stamps_step :: "cred_pool \<Rightarrow> cred_pool \<Rightarrow> bool" where
  "stamps_step cp cp' \<longleftrightarrow>
     cp_next_gen cp' \<in> {cp_next_gen cp, cp_next_gen cp + 1}
     \<and> (\<forall>i < length (cp_pool cp').
          (i < length (cp_pool cp) \<and> pe_gen (cp_pool cp' ! i) = pe_gen (cp_pool cp ! i))
          \<or> pe_gen (cp_pool cp' ! i) = 0
          \<or> cp_next_gen cp' = cp_next_gen cp + 1 \<and> pe_gen (cp_pool cp' ! i) = cp_next_gen cp')"

lemma stamps_refl [simp]: "stamps_step cp cp"
  by (simp add: stamps_step_def)

lemma stamps_cong:
  "cp_pool cp' = cp_pool cp \<Longrightarrow> cp_next_gen cp' = cp_next_gen cp \<Longrightarrow> stamps_step c0 cp' = stamps_step c0 cp"
  by (simp add: stamps_step_def)

lemma stamps_quiet [simp]:
  "stamps_step c0 (broadcast cp) = stamps_step c0 cp" "stamps_step c0 (save_to_disk ev cp) = stamps_step c0 cp"
  "stamps_step c0 (reset_auth_errors i cp) = stamps_step c0 cp"
  "stamps_step c0 (record_auth_error s cp) = stamps_step c0 cp"
  "stamps_step c0 (pause_for now d cp) = stamps_step c0 cp"
  "stamps_step c0 (cp\<lparr>cp_last_path_event := t\<rparr>) = stamps_step c0 cp"
  by (simp_all add: stamps_step_def)

text \<open>An update that keeps the slot's stamp, or clears it, extends any such move.\<close>

lemma stamps_upd:
  assumes "stamps_step c0 cp" and "\<And>e. pe_gen (f e) \<in> {pe_gen e, 0}"
  shows "stamps_step c0 (upd_slot i f cp)"
proof -
  have "pe_gen (cp_pool (upd_slot i f cp) ! j) \<in> {pe_gen (cp_pool cp ! j), 0}"
    if "j < length (cp_pool cp)" for j
    using that assms(2) by (simp add: nth_upd_slot)
  with assms(1) show ?thesis unfolding stamps_step_def by fastforce
qed

lemma stamps_grow: "stamps_step cp (grow_to n cp)"
  by (auto simp: stamps_step_def grow_to_def nth_append)

lemma stamps_claim: "stamps_step cp (snd (claim_for_fetch t cp))"
  by (auto simp: stamps_step_def claim_for_fetch_def Let_def nth_upd_slot)

lemma stamps_take_seat: "stamps_step c0 cp \<Longrightarrow> stamps_step c0 (snd (take_seat i cp))"
  by (auto simp: take_seat_def Let_def intro!: stamps_upd)

lemma grow_own: "pool_ok cp \<Longrightarrow> grow_to (Suc (own_slot conn (cp_size cp))) cp = cp"
  using own_slot_less [of "cp_size cp" conn] by (auto simp: pool_ok_def intro!: grow_to_id)

lemma stamps_get_begin: "pool_ok cp \<Longrightarrow> stamps_step cp (snd (get_begin ev conn cp))"
  by (simp add: get_begin_def Let_def split_beta grow_own stamps_take_seat stamps_claim
      split: option.splits)

lemma stamps_get_failed:
  "stamps_step c0 cp \<Longrightarrow> stamps_step c0 (snd (get_failed ev conn t mine err cp))"
  by (auto simp: get_failed_def Let_def intro!: stamps_take_seat stamps_upd split: option.splits)

lemma stamps_place:
  assumes "pool_ok cp" shows "stamps_step cp (snd (place_into_empty_slot ev addr c n cp))"
  using assms by (auto simp: place_into_empty_slot_def Let_def stamps_step_def nth_upd_slot
      split: option.splits)

text \<open>Publishing under a claim that holds leaves the stamp of the claim.\<close>

lemma stamps_publish:
  assumes "owns cp t g"
  shows "stamps_step cp (upd_slot t (\<lambda>_. filled_entry addr c now n g) (upd_slot t (\<lambda>e. e\<lparr>pe_fetching := False\<rparr>) cp))"
  using assms by (auto simp: stamps_step_def owns_def nth_upd_slot)

lemma stamps_unfetch: "stamps_step cp (upd_slot t (\<lambda>e. e\<lparr>pe_fetching := False\<rparr>) cp)"
  by (rule stamps_upd) simp_all

lemma stamps_get_finish: "pool_ok cp \<Longrightarrow> stamps_step cp (snd (get_finish ev conn t g res cp))"
  using stamps_place [of cp ev "fst (projr res)" "snd (projr res)" 1] stamps_unfetch [of cp t]
  by (auto simp: get_finish_def Let_def intro!: stamps_get_failed stamps_publish
      split: sum.splits prod.splits option.splits)

lemma stamps_fill_begin: "pool_ok cp \<Longrightarrow> stamps_step cp (snd (fill_begin ev slot a cp))"
  by (auto simp: fill_begin_def Let_def split_beta stamps_claim nat_less_iff
      pool_ok_grow [OF _ Suc_leI])

lemma stamps_fill_finish: "pool_ok cp \<Longrightarrow> stamps_step cp (snd (fill_finish ev slot g res cp))"
  using stamps_place [of cp ev "fst (projr res)" "snd (projr res)" 0] stamps_unfetch [of cp slot]
  by (auto simp: fill_finish_def Let_def intro!: stamps_publish stamps_upd
      split: sum.splits prod.splits option.splits)

lemma stamps_mark: "stamps_step c0 cp \<Longrightarrow> stamps_step c0 (mark_slot now cp i)"
  by (auto simp: mark_slot_def apply_saturation_def intro!: stamps_upd split: option.splits)

lemma stamps_path: "stamps_step cp (mark_in_use_for_path_change ev cp)"
proof -
  have "stamps_step cp (foldl (mark_slot now) c is)" if "stamps_step cp c" for c now "is"
    using that by (induction "is" arbitrary: c) (simp_all add: stamps_mark)
  then show ?thesis by (simp add: mark_in_use_for_path_change_def Let_def)
qed

lemma stamps_timers: "stamps_step cp (fire_timers ev cp)"
  by (auto simp: stamps_step_def fire_timers_def Let_def)

lemma stamps_invalidate: "stamps_step cp (invalidate cp)"
  by (simp add: stamps_step_def invalidate_def)

lemma stamps_pool_step:
  assumes "pool_ok cp" and "\<not> is_seed e" shows "stamps_step cp (pool_step cp e)"
  using assms
  by (cases e) (auto simp: stamps_get_begin stamps_get_finish stamps_fill_begin stamps_fill_finish
      stamps_path stamps_timers stamps_invalidate release_def mark_saturated_def apply_saturation_def
      extend_pause_def Let_def invalidate_entry_def periodic_save_def fresh_transitions_def
      stamps_cong [where cp = cp] intro!: stamps_upd)

lemma next_gen_step:
  assumes "stamps_step cp cp'" and "unat (cp_next_gen cp) + 1 < 2 ^ 64"
  shows "unat (cp_next_gen cp) \<le> unat (cp_next_gen cp')"
    and "unat (cp_next_gen cp') \<le> unat (cp_next_gen cp) + 1"
    and "cp_next_gen cp' = cp_next_gen cp + 1 \<Longrightarrow> unat (cp_next_gen cp') = unat (cp_next_gen cp) + 1"
  using assms by (auto simp: stamps_step_def unat_word_ariths)

lemma issued_step:
  assumes "stamps_step cp cp'" and "unat (cp_next_gen cp) + 1 < 2 ^ 64" and "issued g cp"
  shows "issued g cp'"
  using assms(3) next_gen_step(1) [OF assms(1,2)] by (simp add: issued_def)

lemma lost_step:
  assumes "stamps_step cp cp'" and "unat (cp_next_gen cp) + 1 < 2 ^ 64" and "issued g cp"
    and "\<not> owns cp t g"
  shows "\<not> owns cp' t g"
proof
  assume "owns cp' t g"
  then have "cp_next_gen cp' = cp_next_gen cp + 1" and "g = cp_next_gen cp'"
    using assms(1,3,4) by (auto simp: stamps_step_def owns_def issued_def)
  with next_gen_step(3) [OF assms(1,2)] assms(3) show False
    by (simp add: issued_def)
qed

lemma run_claims:
  assumes "pool_ok cp" and "issued g cp" and "unat (cp_next_gen cp) + length es < 2 ^ 64"
    and "\<not> list_ex is_seed es"
  shows "pool_ok (run pool_step cp es) \<and> issued g (run pool_step cp es)
    \<and> unat (cp_next_gen (run pool_step cp es)) \<le> unat (cp_next_gen cp) + length es
    \<and> (\<not> owns cp t g \<longrightarrow> \<not> owns (run pool_step cp es) t g)"
  using assms
proof (induction es arbitrary: cp)
  case (Cons e es)
  let ?cp = "pool_step cp e"
  have st: "stamps_step cp ?cp" using Cons.prems by (intro stamps_pool_step) simp_all
  show ?case
  proof (cases "unat (cp_next_gen cp) + 1 < 2 ^ 64")
    case True
    note ng = next_gen_step [OF st True]
    have "\<not> owns cp t g \<longrightarrow> \<not> owns ?cp t g" and iss: "issued g ?cp"
      using lost_step [OF st True] issued_step [OF st True] Cons.prems(2) by blast+
    moreover have "unat (cp_next_gen ?cp) + length es < 2 ^ 64"
      using ng(2) Cons.prems(3) by simp
    ultimately show ?thesis
      using Cons.IH [of ?cp] pool_ok_step [OF Cons.prems(1)] Cons.prems(4) ng(2) by auto
  next
    case False
    with Cons.prems(3) show ?thesis by simp
  qed
qed simp

text \<open>The events that take a slot away from the fetch that claimed it.\<close>

definition resets_slot :: "nat \<Rightarrow> pool_event \<Rightarrow> bool" where
  "resets_slot t d \<longleftrightarrow> (case d of
     Ev_invalidate \<Rightarrow> True | Ev_drop ev slot \<Rightarrow> slot = int t | _ \<Rightarrow> False)"

lemma reset_loses: "resets_slot t d \<Longrightarrow> g \<noteq> 0 \<Longrightarrow> \<not> owns (pool_step cp d) t g"
  by (cases d) (auto simp: resets_slot_def owns_def invalidate_def invalidate_entry_def Let_def
      nth_upd_slot split: if_splits)

lemma claim_issued:
  "unat (cp_next_gen cp) + 1 < 2 ^ 64 \<Longrightarrow> claim_for_fetch t cp = (g, cp') \<Longrightarrow>
     issued g cp' \<and> unat (cp_next_gen cp') = unat (cp_next_gen cp) + 1"
  by (auto simp: claim_for_fetch_def Let_def issued_def unat_word_ariths
      dest: arg_cong [where f = unat])

lemma get_begin_Fetching:
  assumes "get_begin ev conn cp = (Fetching t g, cp1)" and "pool_ok cp"
  shows "claim_for_fetch t cp = (g, cp1)"
    and "fetch_target (ev_now ev) cp (own_slot conn (cp_size cp)) = Some t"
    and "int (count_available (ev_now ev) cp + in_flight cp) < cold_target cp"
  using assms
  by (auto simp: get_begin_def Let_def split_beta grow_own take_seat_def not_le
      split: if_splits option.splits intro: prod_eqI)

lemma fill_begin_claimed:
  assumes "fill_begin ev slot a cp = (Fill_claimed g, cp1)" and "pool_ok cp"
  shows "0 \<le> slot" and "claim_for_fetch (nat slot) cp = (g, cp1)"
  using assms
  by (auto simp: fill_begin_def Let_def split_beta nat_less_iff pool_ok_grow [OF _ Suc_leI]
      split: if_splits intro: prod_eqI)

definition one_more_seat :: "pool_entry \<Rightarrow> pool_entry" where
  "one_more_seat e = e\<lparr>pe_active := Suc (pe_active e)\<rparr>"

lemma place_keeps:
  assumes "i < length (cp_pool cp)" and "pe_creds (cp_pool cp ! i) \<noteq> None" and "pool_ok cp"
  shows "cp_pool (snd (place_into_empty_slot ev addr c n cp)) ! i = cp_pool cp ! i"
  using assms
  by (auto simp: place_into_empty_slot_def Let_def nth_upd_slot split: option.splits dest: first_slot_Some)

lemma place_keeps_None:
  "place_into_empty_slot ev addr c n cp = (None, cp') \<Longrightarrow> pool_ok cp \<Longrightarrow> cp' = cp"
  by (auto simp: place_into_empty_slot_def Let_def split: if_splits option.splits)

lemma get_failed_keeps:
  "i < length (cp_pool cp) \<Longrightarrow>
     cp_pool (snd (get_failed ev conn t False err cp)) ! i
       \<in> {cp_pool cp ! i, one_more_seat (cp_pool cp ! i)}"
  by (auto simp: get_failed_def take_seat_def Let_def nth_upd_slot one_more_seat_def split: option.splits)

lemma late_finish_keeps:
  assumes "\<not> owns cp t g" and "i < length (cp_pool cp)" and "pe_creds (cp_pool cp ! i) \<noteq> None"
    and "pool_ok cp"
  shows "cp_pool (snd (fill_finish ev t g res cp)) ! i = cp_pool cp ! i
    \<and> cp_pool (snd (get_finish ev' conn t g res cp)) ! i
        \<in> {cp_pool cp ! i, one_more_seat (cp_pool cp ! i)}"
proof
  show "cp_pool (snd (fill_finish ev t g res cp)) ! i = cp_pool cp ! i"
    using assms place_keeps [of i cp ev "fst (projr res)" "snd (projr res)" 0]
    by (auto simp: fill_finish_def split: sum.splits prod.splits option.splits)
next
  show "cp_pool (snd (get_finish ev' conn t g res cp)) ! i
      \<in> {cp_pool cp ! i, one_more_seat (cp_pool cp ! i)}"
  proof (cases res)
    case (Inl err)
    with assms(1,2) get_failed_keeps show ?thesis by (simp add: get_finish_def Let_def)
  next
    case (Inr ac)
    obtain addr c where ac: "ac = (addr, c)" by (rule prod.exhaust)
    obtain r cp' where pl: "place_into_empty_slot ev' addr c 1 cp = (r, cp')" by (rule prod.exhaust)
    show ?thesis
    proof (cases r)
      case None
      with pl assms(4) have "cp' = cp" using place_keeps_None by blast
      with None Inr ac pl assms(1,2) get_failed_keeps show ?thesis
        by (simp add: get_finish_def Let_def)
    next
      case (Some j)
      then show ?thesis
        using Inr ac pl assms place_keeps [of i cp ev' addr c 1] by (simp add: get_finish_def Let_def)
    qed
  qed
qed

text \<open>
  C3: A fetch that outlives its claim writes over nothing. A fetch claims slot \<open>t\<close>; at some point
  before it returns the pool is reset, or the slot dropped, and anything else happens before and
  after; when it returns, with a credential or an error, every slot that holds a credential keeps its
  credential, its seats and its timers; a connection whose fetch it was may take one seat.
\<close>

theorem late_fetch_overwrites_nothing:
  assumes "pool_ok cp"
    and "get_begin ev conn cp = (Fetching t g, cp1) \<or> fill_begin ev (int t) a cp = (Fill_claimed g, cp1)"
    and "resets_slot t d" and "\<not> list_ex is_seed (es1 @ es2)"
    and "unat (cp_next_gen cp) + length es1 + length es2 + 2 < 2 ^ 64"
    and "cp2 = run pool_step cp1 (es1 @ d # es2)"
    and "i < length (cp_pool cp2)" and "pe_creds (cp_pool cp2 ! i) \<noteq> None"
  shows "cp_pool (snd (fill_finish ev1 t g res cp2)) ! i = cp_pool cp2 ! i
    \<and> cp_pool (snd (get_finish ev2 conn t g res cp2)) ! i
        \<in> {cp_pool cp2 ! i, one_more_seat (cp_pool cp2 ! i)}"
proof -
  have cl: "claim_for_fetch t cp = (g, cp1)"
    using assms(1,2) get_begin_Fetching(1) fill_begin_claimed(2) by fastforce
  then have ok1: "pool_ok cp1" using pool_ok_claim [OF assms(1), of t] by simp
  have i1: "issued g cp1" "unat (cp_next_gen cp1) = unat (cp_next_gen cp) + 1"
    using claim_issued [OF _ cl] assms(5) by auto
  let ?a = "run pool_step cp1 es1" and ?b = "pool_step (run pool_step cp1 es1) d"
  have a: "pool_ok ?a" "issued g ?a" "unat (cp_next_gen ?a) \<le> unat (cp_next_gen cp1) + length es1"
    using run_claims [OF ok1 i1(1), of es1] assms(4,5) i1(2) by simp_all
  have "\<not> is_seed d" using assms(3) by (cases d) (simp_all add: resets_slot_def)
  then have st: "stamps_step ?a ?b" by (rule stamps_pool_step [OF a(1)])
  have lt: "unat (cp_next_gen ?a) + 1 < 2 ^ 64" using a(3) i1(2) assms(5) by simp
  have b: "pool_ok ?b" "issued g ?b" "unat (cp_next_gen ?b) \<le> unat (cp_next_gen ?a) + 1"
    using pool_ok_step [OF a(1)] issued_step [OF st lt a(2)] next_gen_step(2) [OF st lt] by blast+
  have "\<not> owns ?b t g" using reset_loses [OF assms(3)] a(2) by (simp add: issued_def)
  then have "pool_ok cp2 \<and> \<not> owns cp2 t g"
    using run_claims [OF b(1,2), of es2 t] assms(4,5,6) a(3) b(3) i1(2) by (simp add: run_append)
  then show ?thesis using late_finish_keeps assms(7,8) by blast
qed

text \<open>
  The witness is the reset of a tunnel: the background fill of slot 1 is under way, the pool is
  reset, connection 10 mints \<open>cred_b\<close> into slot 1 and takes a seat, then the old fill returns.
\<close>

definition resume_events :: "pool_event list" where
  "resume_events =
     [Ev_get (at 8) 10, Ev_get_done (at 9) 10 1 2 (Inr (ascii ''r:1'', cred_b))]"

theorem late_fetch_overwrites_nothing_witness:
  "\<exists>cp2. pe_active (cp_pool cp2 ! 1) = 1
     \<and> cp_pool (snd (fill_finish (at 12) 1 1 (Inr (ascii ''r:1'', cred_a)) cp2)) ! 1 = cp_pool cp2 ! 1"
proof -
  let ?cp1 = "snd (fill_begin (at 6) 1 0 example_pool)"
  let ?cp2 = "run pool_step ?cp1 ([] @ Ev_invalidate # resume_events)"
  have "fst (fill_begin (at 6) (int 1) 0 example_pool) = Fill_claimed 1" by code_simp
  then have cl: "fill_begin (at 6) (int 1) 0 example_pool = (Fill_claimed 1, ?cp1)"
    by (simp add: prod_eq_iff)
  have gen: "unat (cp_next_gen example_pool) = 0" by code_simp
  have at2: "1 < length (cp_pool ?cp2) \<and> pe_creds (cp_pool ?cp2 ! 1) = Some cred_b
      \<and> pe_active (cp_pool ?cp2 ! 1) = 1"
    by code_simp
  have "cp_pool (snd (fill_finish (at 12) 1 1 (Inr (ascii ''r:1'', cred_a)) ?cp2)) ! 1 = cp_pool ?cp2 ! 1"
    using late_fetch_overwrites_nothing [OF pool_ok_example disjI2 [OF cl], of Ev_invalidate "[]"
        resume_events ?cp2 1 "at 12" "Inr (ascii ''r:1'', cred_a)"] at2 gen
    by (simp add: resets_slot_def resume_events_def)
  with at2 show ?thesis by blast
qed

section \<open>The cold start\<close>

text \<open>
  How many slots have a fetch in flight: a claim adds one, everything else but a background fill or
  a seed keeps it or lowers it.
\<close>

lemma filter_update_le:
  "length (filter P (xs[i := x])) \<le> length (filter P xs) + (if P x then 1 else 0)"
  by (induction xs arbitrary: i) (auto split: nat.split)

lemma filter_update_keep:
  "i < length xs \<Longrightarrow> (P x \<longrightarrow> P (xs ! i)) \<Longrightarrow> length (filter P (xs[i := x])) \<le> length (filter P xs)"
proof (induction xs arbitrary: i)
  case (Cons y ys)
  then show ?case by (cases i) (auto intro: le_SucI)
qed simp

lemma in_flight_upd:
  assumes "\<And>e. pe_fetching (f e) \<longrightarrow> pe_fetching e"
  shows "in_flight (upd_slot i f cp) \<le> in_flight cp"
  using assms filter_update_keep [of i "cp_pool cp" pe_fetching "f (cp_pool cp ! i)"]
  by (cases "i < length (cp_pool cp)") (simp_all add: in_flight_def upd_slot_def list_update_beyond)

lemma in_flight_cong: "cp_pool cp' = cp_pool cp \<Longrightarrow> in_flight cp' = in_flight cp"
  by (simp add: in_flight_def)

lemma in_flight_claim: "in_flight (snd (claim_for_fetch t cp)) \<le> Suc (in_flight cp)"
proof -
  have "in_flight (upd_slot t f (cp\<lparr>cp_next_gen := h\<rparr>)) \<le> Suc (in_flight cp)" for f h
    using filter_update_le [of pe_fetching "cp_pool cp" t "f (cp_pool cp ! t)"]
    by (simp add: in_flight_def upd_slot_def split: if_splits)
  then show ?thesis by (simp add: claim_for_fetch_def Let_def)
qed

definition capped :: "cred_pool \<Rightarrow> cred_pool \<Rightarrow> bool" where
  "capped cp cp' \<longleftrightarrow> cp_cold_start_target cp' = cp_cold_start_target cp
     \<and> (in_flight cp' \<le> in_flight cp \<or> int (in_flight cp') \<le> cold_target cp)"

lemma capped_refl [simp]: "capped cp cp"
  by (simp add: capped_def)

lemma capped_cong:
  "cp_pool cp' = cp_pool cp \<Longrightarrow> cp_cold_start_target cp' = cp_cold_start_target cp
     \<Longrightarrow> capped c0 cp' = capped c0 cp"
  by (simp add: capped_def in_flight_def)

lemma capped_quiet [simp]:
  "capped c0 (broadcast cp) = capped c0 cp" "capped c0 (save_to_disk ev cp) = capped c0 cp"
  "capped c0 (reset_auth_errors i cp) = capped c0 cp"
  "capped c0 (record_auth_error s cp) = capped c0 cp" "capped c0 (pause_for now d cp) = capped c0 cp"
  "capped c0 (cp\<lparr>cp_last_path_event := t\<rparr>) = capped c0 cp"
  by (simp_all add: capped_def in_flight_def)

lemma capped_upd:
  assumes "capped c0 cp" and "\<And>e. pe_fetching (f e) \<longrightarrow> pe_fetching e"
  shows "capped c0 (upd_slot i f cp)"
  using assms(1) in_flight_upd [of f i cp, OF assms(2)] by (auto simp: capped_def)

lemma capped_take_seat: "capped c0 cp \<Longrightarrow> capped c0 (snd (take_seat i cp))"
  by (auto simp: take_seat_def Let_def intro!: capped_upd)

lemma capped_get_begin:
  assumes "pool_ok cp" shows "capped cp (snd (get_begin ev conn cp))"
proof (cases "fst (get_begin ev conn cp)")
  case (Fetching t g)
  then have gb: "get_begin ev conn cp = (Fetching t g, snd (get_begin ev conn cp))"
    by (metis prod.collapse)
  have "int (in_flight (snd (get_begin ev conn cp))) \<le> cold_target cp"
    using in_flight_claim [of t cp] get_begin_Fetching [OF gb assms] by simp
  moreover have "cp_cold_start_target (snd (get_begin ev conn cp)) = cp_cold_start_target cp"
    using get_begin_Fetching(1) [OF gb assms]
    by (auto simp: claim_for_fetch_def Let_def dest: arg_cong [where f = cp_cold_start_target])
  ultimately show ?thesis by (simp add: capped_def)
next
  case Got
  with assms show ?thesis
    by (auto simp: get_begin_def Let_def split_beta grow_own capped_take_seat split: if_splits option.splits)
next
  case Refused
  with assms show ?thesis
    by (auto simp: get_begin_def Let_def split_beta grow_own take_seat_def split: if_splits option.splits)
qed

lemma capped_get_failed: "capped c0 cp \<Longrightarrow> capped c0 (snd (get_failed ev conn t mine err cp))"
  by (auto simp: get_failed_def Let_def intro!: capped_take_seat capped_upd split: option.splits)

lemma capped_filled: "capped c0 cp \<Longrightarrow> capped c0 (upd_slot t (\<lambda>_. filled_entry addr c now n g) cp)"
  by (rule capped_upd) simp_all

lemma capped_next_gen [simp]: "capped c0 (cp\<lparr>cp_next_gen := g\<rparr>) = capped c0 cp"
  by (simp add: capped_def in_flight_def)

lemma capped_place:
  "pool_ok cp \<Longrightarrow> capped c0 cp \<Longrightarrow> capped c0 (snd (place_into_empty_slot ev addr c n cp))"
  by (auto simp: place_into_empty_slot_def Let_def intro!: capped_filled split: option.splits)

lemma capped_get_finish: "pool_ok cp \<Longrightarrow> capped cp (snd (get_finish ev conn t g res cp))"
proof -
  assume ok: "pool_ok cp"
  have "capped cp (upd_slot t (\<lambda>e. e\<lparr>pe_fetching := False\<rparr>) cp)" by (rule capped_upd) simp_all
  with capped_place [OF ok, of cp ev "fst (projr res)" "snd (projr res)" 1] show ?thesis
    by (auto simp: get_finish_def Let_def intro!: capped_get_failed capped_filled
        split: sum.splits prod.splits option.splits)
qed

lemma capped_fill_finish: "pool_ok cp \<Longrightarrow> capped cp (snd (fill_finish ev t g res cp))"
proof -
  assume ok: "pool_ok cp"
  have "capped cp (upd_slot t (\<lambda>e. e\<lparr>pe_fetching := False\<rparr>) cp)" by (rule capped_upd) simp_all
  with capped_place [OF ok, of cp ev "fst (projr res)" "snd (projr res)" 0] show ?thesis
    by (auto simp: fill_finish_def Let_def intro!: capped_filled capped_upd
        split: sum.splits prod.splits option.splits)
qed

lemma capped_mark: "capped c0 cp \<Longrightarrow> capped c0 (mark_slot now cp i)"
  by (auto simp: mark_slot_def apply_saturation_def intro!: capped_upd split: option.splits)

lemma capped_path: "capped cp (mark_in_use_for_path_change ev cp)"
proof -
  have "capped cp (foldl (mark_slot now) c is)" if "capped cp c" for c now "is"
    using that by (induction "is" arbitrary: c) (simp_all add: capped_mark)
  then show ?thesis by (simp add: mark_in_use_for_path_change_def Let_def)
qed

lemma capped_timers: "capped cp (fire_timers ev cp)"
  unfolding capped_def in_flight_def fire_timers_def Let_def
  by (auto simp: filter_map comp_def intro!: disjI1 eq_imp_le arg_cong [where f = length]
      intro: filter_cong)

lemma capped_invalidate: "capped cp (invalidate cp)"
  by (simp add: capped_def invalidate_def in_flight_def)

fun is_fill :: "pool_event \<Rightarrow> bool" where
  "is_fill (Ev_fill ev slot a) = True"
| "is_fill e = False"

lemma capped_step:
  assumes "pool_ok cp" and "\<not> is_seed e" and "\<not> is_fill e" shows "capped cp (pool_step cp e)"
  using assms
  by (cases e) (auto simp: capped_get_begin capped_get_finish capped_fill_finish
      capped_path capped_timers capped_invalidate release_def mark_saturated_def apply_saturation_def
      extend_pause_def Let_def invalidate_entry_def periodic_save_def fresh_transitions_def
      capped_cong [where cp = cp] intro!: capped_upd)

lemma capped_run:
  assumes "pool_ok cp" and "int (in_flight cp) \<le> cold_target cp"
    and "\<not> list_ex is_seed es" and "\<not> list_ex is_fill es"
  shows "int (in_flight (run pool_step cp es)) \<le> cold_target cp"
  using assms
proof (induction es arbitrary: cp)
  case (Cons e es)
  then have "capped cp (pool_step cp e)" by (intro capped_step) simp_all
  with Cons.prems have "cold_target (pool_step cp e) = cold_target cp"
    and "int (in_flight (pool_step cp e)) \<le> cold_target cp"
    by (auto simp: capped_def cold_target_def)
  with Cons.IH [of "pool_step cp e"] Cons.prems pool_ok_step show ?case by simp
qed simp

lemma idle_load_entry: "in_flight cp = 0 \<Longrightarrow> in_flight (load_entry now cp e) = 0"
proof -
  assume idle: "in_flight cp = 0"
  have "in_flight (grow_to n cp) = 0" for n
    using idle by (auto simp: in_flight_def grow_to_def filter_empty_conv)
  then have "in_flight (upd_slot i (\<lambda>_. loaded_entry now e) (grow_to n cp)) = 0" for i n
    using in_flight_upd [of "\<lambda>_. loaded_entry now e" i "grow_to n cp"] by simp
  with idle show ?thesis by (simp add: load_entry_def split: option.splits)
qed

lemma idle_load: "in_flight cp = 0 \<Longrightarrow> in_flight (load_from_disk now cp) = 0"
proof -
  assume idle: "in_flight cp = 0"
  then have "in_flight (foldl (load_entry now) cp es) = 0" for es
    by (induction es arbitrary: cp) (simp_all add: idle_load_entry)
  with idle show ?thesis by (simp add: load_from_disk_def split: option.splits)
qed

lemma new_pool_idle: "in_flight (new_cred_pool ev sz cd cached disk) = 0"
proof -
  have "in_flight cp = 0" if "cp_pool cp = replicate n empty_entry" for cp n
    using that by (simp add: in_flight_def filter_empty_conv)
  then show ?thesis
    by (simp add: new_cred_pool_def Let_def idle_load)
qed

lemma cold_start_target_hosts:
  assumes "1 \<le> n" and "sz = pool_size_for_num_conns n"
  shows "n \<le> 10 * cold_start_target_for n sz" and "10 * (cold_start_target_for n sz - 1) < n"
    and "cold_start_target_for n sz \<le> sz" and "1 \<le> cold_start_target_for n sz"
  using assms
  by (auto simp: cold_start_target_for_def pool_size_for_num_conns_def conns_per_slot_def Let_def)

lemma cp_size_new [simp]:
  "cp_size (new_cred_pool ev sz cd cached disk) = nat (if sz < 1 then 1 else sz)"
proof -
  have "cp_size (foldl (load_entry now) cp es) = cp_size cp" for now cp es
    by (induction es arbitrary: cp) (auto simp: load_entry_def grow_to_def split: option.splits)
  then show ?thesis by (simp add: new_cred_pool_def Let_def load_from_disk_def split: option.splits)
qed



section \<open>Replacing a credential that is still in use\<close>

text \<open>
  The fetch target of \<open>get\<close> is a slot that is not fresh; its seats are not looked at. A credential that
  merely came within the expiry margin still carries its connections.
\<close>

definition releases :: "env \<Rightarrow> nat \<Rightarrow> nat \<Rightarrow> pool_event list" where
  "releases ev slot k = replicate k (Ev_release ev (int slot))"

lemma release_active:
  assumes "t < cp_size cp" and "t < length (cp_pool cp)"
  shows "pe_active (cp_pool (release ev (int t) cp) ! t) = pe_active (cp_pool cp ! t) - 1"
  using assms by (simp add: release_def Let_def nth_upd_slot)

lemma release_size [simp]: "cp_size (release ev slot cp) = cp_size cp"
  by (simp add: release_def Let_def)

lemma release_own:
  assumes "pool_ok cp" and "t < cp_size cp" and "pe_active (cp_pool cp ! t) \<le> 1"
  shows "pool_ok (release ev (int t) cp) \<and> cp_size (release ev (int t) cp) = cp_size cp
    \<and> pe_active (cp_pool (release ev (int t) cp) ! t) = 0"
proof -
  have "t < length (cp_pool cp)" using assms(1,2) by (simp add: pool_ok_def)
  then show ?thesis
    using release_active [OF assms(2), of ev] pool_ok_release [OF assms(1), of ev "int t"] assms(3)
    by simp
qed

lemma releases_own:
  assumes "pool_ok cp" and "t < cp_size cp" and "pe_active (cp_pool cp ! t) \<le> 1"
  shows "pe_active (cp_pool (run pool_step cp (releases ev t (Suc k))) ! t) = 0"
  using assms
proof (induction k arbitrary: cp)
  case 0
  note r = release_own [OF 0(1) 0(2) 0(3), of ev]
  have "run pool_step cp (releases ev t (Suc 0)) = release ev (int t) cp"
    by (simp add: releases_def)
  with r show ?case by simp
next
  case (Suc k)
  let ?cp = "release ev (int t) cp"
  have r: "pool_ok ?cp" "t < cp_size ?cp" "pe_active (cp_pool ?cp ! t) \<le> 1"
    using release_own [OF Suc.prems, of ev] Suc.prems(2) by simp_all
  have "run pool_step cp (releases ev t (Suc (Suc k))) = run pool_step ?cp (releases ev t (Suc k))"
    by (simp add: releases_def)
  with Suc.IH [OF r] show ?case by (simp only:)
qed

lemma fetch_target_less:
  assumes "fetch_target now cp own = Some t" and "own < cp_size cp" shows "t < cp_size cp"
  using assms
  by (auto simp: fetch_target_def Let_def candidates_ordered_def find_Some_iff in_set_conv_nth [symmetric]
      split: option.splits if_splits dest!: nth_mem [where 'a = nat])

lemma replace_forgets:
  assumes "pool_ok cp" and "get_begin ev conn cp = (Fetching t g, cp1)"
  shows "t < cp_size cp1 \<and> pool_ok cp1 \<and> owns cp1 t g
    \<and> fst (get_finish ev' conn t g (Inr (addr, c)) cp1) = Got addr (Some c) t
    \<and> pe_active (cp_pool (snd (get_finish ev' conn t g (Inr (addr, c)) cp1)) ! t) = 1
    \<and> cp_size (snd (get_finish ev' conn t g (Inr (addr, c)) cp1)) = cp_size cp1"
proof -
  have cl: "claim_for_fetch t cp = (g, cp1)" and ft: "fetch_target (ev_now ev) cp (own_slot conn (cp_size cp)) = Some t"
    using get_begin_Fetching [OF assms(2,1)] by simp_all
  have t: "t < cp_size cp" and len: "t < length (cp_pool cp)"
    using fetch_target_less [OF ft own_slot_less] assms(1) by (auto simp: pool_ok_def)
  have ok: "pool_ok cp1" using pool_ok_claim [OF assms(1), of t] cl by simp
  have c1: "cp_size cp1 = cp_size cp" "length (cp_pool cp1) = length (cp_pool cp)" "owns cp1 t g"
    using cl len by (auto simp: claim_for_fetch_def Let_def owns_def nth_upd_slot)
  with t len ok show ?thesis
    by (simp add: get_finish_def Let_def nth_upd_slot)
qed

text \<open>
   Where \<^verbatim>\<open>get\<close> replaces a credential that connections still use, the pool forgets their seats. The
  slot chosen for the fetch carries \<open>Suc k\<close> seats; after the fetch it counts one, the caller's; and when
  the \<open>Suc k\<close> old connections release theirs it counts none, although the caller has not released:
  the pool goes on to hand out ten more seats on a credential that has one taken.
\<close>

theorem stale_replacement_forgets_seats:
  assumes "pool_ok cp" and "get_begin ev conn cp = (Fetching t g, cp1)"
    and "pe_active (cp_pool cp ! t) = Suc k"
    and "get_finish ev1 conn t g (Inr (addr, c)) cp1 = (r, cp2)"
  shows "r = Got addr (Some c) t \<and> pe_active (cp_pool cp2 ! t) = 1
    \<and> pe_active (cp_pool (run pool_step cp2 (releases ev2 t (pe_active (cp_pool cp ! t)))) ! t) = 0"
proof -
  note rf = replace_forgets [OF assms(1,2), of ev1 addr c]
  have "pool_ok cp2"
    using pool_ok_get_finish [of cp1 ev1 conn t g "Inr (addr, c)"] rf assms(4) by simp
  then have "pe_active (cp_pool (run pool_step cp2 (releases ev2 t (Suc k))) ! t) = 0"
    using rf assms(4) by (intro releases_own) simp_all
  with rf assms(3,4) show ?thesis by simp
qed

text \<open>
  The witness: two connections on slot 0, whose credential expires in 25 minutes; the second slot is
  empty. A third connection comes.
\<close>

definition stale_pool :: cred_pool where
  "stale_pool = run pool_step example_pool [Ev_get (at 10) 0, Ev_get (at 10) 1]"

lemma pool_ok_stale: "pool_ok stale_pool"
  unfolding stale_pool_def by (rule plm.run_inv [OF pool_ok_example])

theorem stale_replacement_forgets_seats_witness:
  "\<exists>g cp1 cp2. get_begin (at 27300) 2 stale_pool = (Fetching 0 g, cp1)
     \<and> get_finish (at 27301) 2 0 g (Inr (ascii ''r:1'', cred_b)) cp1
         = (Got (ascii ''r:1'') (Some cred_b) 0, cp2)
     \<and> pe_active (cp_pool (run pool_step cp2 (releases (at 27302) 0 2)) ! 0) = 0"
proof -
  let ?b = "get_begin (at 27300) 2 stale_pool"
  let ?f = "get_finish (at 27301) 2 0 1 (Inr (ascii ''r:1'', cred_b)) (snd ?b)"
  have "fst ?b = Fetching 0 1" and k: "pe_active (cp_pool stale_pool ! 0) = Suc 1" by code_simp+
  then have b: "?b = (Fetching 0 1, snd ?b)" by (metis prod.collapse)
  from stale_replacement_forgets_seats [OF pool_ok_stale b k, of "at 27301" "ascii ''r:1''" cred_b
      "fst ?f" "snd ?f" "at 27302"] k b
  show ?thesis by (metis One_nat_def Suc_1 prod.collapse)
qed

section \<open>A path change\<close>

definition marked :: "time \<Rightarrow> pool_entry \<Rightarrow> pool_entry" where
  "marked now e = (case path_cooldown now e of
     None \<Rightarrow> e
   | Some d \<Rightarrow> e\<lparr>pe_saturated_until := now + d, pe_timer := Some (now + d)\<rparr>)"

lemma mark_slot_pool: "cp_pool (mark_slot now cp i) = (cp_pool cp)[i := marked now (cp_pool cp ! i)]"
  by (simp add: mark_slot_def marked_def apply_saturation_def upd_slot_def split: option.splits)

lemma mark_slot_frame:
  "cp_size (mark_slot now cp i) = cp_size cp" "cp_pause_until (mark_slot now cp i) = cp_pause_until cp"
  "cp_last_path_event (mark_slot now cp i) = cp_last_path_event cp"
  by (simp_all add: mark_slot_def apply_saturation_def upd_slot_def split: option.splits)

lemma path_change_pool:
  "cp_pool (mark_in_use_for_path_change ev cp) =
     map (marked (ev_now ev)) (take (cp_size cp) (cp_pool cp)) @ drop (cp_size cp) (cp_pool cp)"
proof -
  have "cp_pool (foldl (mark_slot now) cp [0..<min (cp_size cp) (length (cp_pool cp))])
      = map (marked now) (take (cp_size cp) (cp_pool cp)) @ drop (cp_size cp) (cp_pool cp)" for now
    using foldl_update [of cp_pool "mark_slot now" "marked now" "min (cp_size cp) (length (cp_pool cp))" cp]
    by (cases "cp_size cp \<le> length (cp_pool cp)") (simp_all add: mark_slot_pool min_def)
  then show ?thesis by (simp add: mark_in_use_for_path_change_def Let_def)
qed

definition pause_length :: "burst \<Rightarrow> duration" where
  "pause_length b = (if b = Cascade then cascade_pause_duration else pause_acquire_after_path_event)"

lemma path_change_pause:
  "ev_now ev + pause_length (burst_kind (ev_now ev) cp)
     \<le> cp_pause_until (mark_in_use_for_path_change ev cp)"
proof -
  let ?m = "foldl (mark_slot (ev_now ev)) cp [0..<min (cp_size cp) (length (cp_pool cp))]"
  have "cp_last_path_event ?m = cp_last_path_event cp"
    by (rule foldl_preserves) (simp add: mark_slot_frame)
  then have "burst_kind (ev_now ev) ?m = burst_kind (ev_now ev) cp"
    by (simp add: burst_kind_def)
  then show ?thesis
    by (simp add: mark_in_use_for_path_change_def Let_def pause_for_def arm_pause_def pause_length_def)
qed

text \<open>A slot whose credential is in use and is neither waiting out a load cooldown nor saturated.\<close>

definition in_use :: "time \<Rightarrow> pool_entry \<Rightarrow> bool" where
  "in_use now e \<longleftrightarrow> 0 < pe_active e \<and> pe_creds e \<noteq> None \<and> pe_available_at e \<le> now
     \<and> pe_saturated_until e \<le> now"

lemma marked_in_use: "in_use now e \<Longrightarrow> pe_saturated_until (marked now e) = now + 630 * second"
  by (auto simp: in_use_def marked_def path_cooldown_def Let_def vk_alloc_lifetime_def
      safety_buffer_def time_sub_def)

lemma marked_never_used: "pe_active e = 0 \<Longrightarrow> pe_last_used_at e = 0 \<Longrightarrow> marked now e = e"
  by (auto simp: marked_def path_cooldown_def Let_def)

text \<open>
   After a path change at time \<open>t\<close>, no connection gets a seat or starts a fetch for half a second,
  for thirty seconds when the change continues a cascade; a slot in use then gives no seat for 630
  seconds, by when the relay has let go of every allocation made on it; and a slot never used is
  left as it is.
\<close>

theorem path_change_protects:
  assumes "pool_ok cp" and "0 < ev_now ev" and "cp' = mark_in_use_for_path_change ev cp"
    and "i < cp_size cp"
  shows "(ev_now ev1 < ev_now ev + pause_length (burst_kind (ev_now ev) cp) \<longrightarrow>
            get_begin ev1 conn cp' = (Refused (Paused (cp_pause_until cp' - ev_now ev1)), cp'))
    \<and> (in_use (ev_now ev) (cp_pool cp ! i) \<and> ev_now ev1 < ev_now ev + 630 * second \<longrightarrow>
            \<not> seat_free (ev_now ev1) cp' i)
    \<and> (pe_active (cp_pool cp ! i) = 0 \<and> pe_last_used_at (cp_pool cp ! i) = 0 \<longrightarrow>
            cp_pool cp' ! i = cp_pool cp ! i)"
proof -
  have i: "cp_pool cp' ! i = marked (ev_now ev) (cp_pool cp ! i)"
    using assms by (simp add: path_change_pool nth_append pool_ok_def)
  have "0 \<le> pause_length b" for b
    by (simp add: pause_length_def cascade_pause_duration_def pause_acquire_after_path_event_def)
  with path_change_pause [of ev cp] assms(2,3) have "cp_pause_until cp' \<noteq> 0"
    and "ev_now ev + pause_length (burst_kind (ev_now ev) cp) \<le> cp_pause_until cp'"
    by (smt (verit, best))+
  then show ?thesis
    using i by (auto simp: get_begin_def Let_def seat_free_def marked_in_use marked_never_used)
qed

theorem path_change_protects_witness:
  "get_begin (at 11) 5 (mark_in_use_for_path_change (at 11) stale_pool)
     = (Refused (Paused (500 * millisecond)), mark_in_use_for_path_change (at 11) stale_pool)
   \<and> \<not> seat_free (day 600) (mark_in_use_for_path_change (at 11) stale_pool) 0"
proof -
  let ?cp = "mark_in_use_for_path_change (at 11) stale_pool"
  have "0 < ev_now (at 11)" and "0 < cp_size stale_pool" by code_simp+
  note pc = path_change_protects [OF pool_ok_stale this(1) refl this(2), of _ 5]
  have "in_use (day 11) (cp_pool stale_pool ! 0)" and "day 600 < day 11 + 630 * second"
    and "burst_kind (day 11) stale_pool = Isolated"
    and "cp_pause_until ?cp - day 11 = 500 * millisecond" by code_simp+
  with pc [of "at 11"] pc [of "at 600"] show ?thesis
    by (simp add: at_def pause_length_def pause_acquire_after_path_event_def)
qed

section \<open>The cache across a restart\<close>

definition load_ok :: "time \<Rightarrow> cache_entry \<Rightarrow> bool" where
  "load_ok now ce \<longleftrightarrow> (case parse_cred_expiry (ce_username ce) of
     None \<Rightarrow> False | Some ex \<Rightarrow> \<not> time_sub ex now < cred_expiry_buffer)"

text \<open>What a slot that held \<open>e\<close> when it was saved at \<open>t\<close> holds when it is loaded at \<open>t'\<close>.\<close>

definition restored :: "time \<Rightarrow> time \<Rightarrow> nat \<Rightarrow> pool_entry \<Rightarrow> pool_entry" where
  "restored t t' i e = (case cache_entry_of t i e of
     [] \<Rightarrow> empty_entry
   | ce # _ \<Rightarrow> if load_ok t' ce then loaded_entry t' ce else empty_entry)"

lemma load_entry_at:
  assumes "ce_slot ce = int i" and "i < cp_size cp" and "cp_size cp = length (cp_pool cp)"
  shows "cp_pool (load_entry t' cp ce) =
      (if load_ok t' ce then (cp_pool cp)[i := loaded_entry t' ce] else cp_pool cp)
    \<and> cp_size (load_entry t' cp ce) = cp_size cp"
  using assms by (auto simp: load_entry_def load_ok_def upd_slot_def split: option.splits)

lemma load_slots:
  assumes "cp_size cp = length (cp_pool cp)" and "n \<le> cp_size cp"
    and "cp_pool cp = replicate (cp_size cp) empty_entry"
  shows "cp_pool (foldl (load_entry t') cp (concat (map (\<lambda>i. cache_entry_of t i (es ! i)) [0..<n])))
        = map (\<lambda>i. restored t t' i (es ! i)) [0..<n] @ replicate (cp_size cp - n) empty_entry
    \<and> cp_size (foldl (load_entry t') cp (concat (map (\<lambda>i. cache_entry_of t i (es ! i)) [0..<n]))) = cp_size cp"
  using assms(2)
proof (induction n)
  case 0
  with assms(3) show ?case by simp
next
  case (Suc n)
  let ?c = "foldl (load_entry t') cp (concat (map (\<lambda>i. cache_entry_of t i (es ! i)) [0..<n]))"
  from Suc have pool: "cp_pool ?c = map (\<lambda>i. restored t t' i (es ! i)) [0..<n] @ replicate (cp_size cp - n) empty_entry"
    and sz: "cp_size ?c = cp_size cp" by simp_all
  then have len: "cp_size ?c = length (cp_pool ?c)" and n: "n < cp_size ?c"
    using Suc.prems by simp_all
  have rest: "replicate (cp_size cp - n) empty_entry = empty_entry # replicate (cp_size cp - Suc n) empty_entry"
    using Suc.prems by (simp add: Suc_diff_Suc [symmetric])
  show ?case
  proof (cases "pe_creds (es ! n)")
    case None
    then show ?thesis using pool sz rest by (simp add: cache_entry_of_def restored_def)
  next
    case (Some c)
    then obtain ce where ce: "cache_entry_of t n (es ! n) = [ce]" and slot: "ce_slot ce = int n"
      by (simp add: cache_entry_of_def)
    note at = load_entry_at [OF slot n len, of t']
    from at ce pool sz rest show ?thesis
      by (auto simp: restored_def list_update_append)
  qed
qed

definition last_use :: "time \<Rightarrow> pool_entry \<Rightarrow> time option" where
  "last_use t e = (if pe_active e > 0 then Some t
     else if pe_last_used_at e \<noteq> 0 then Some (pe_last_used_at e) else None)"

text \<open>A clock reading after 1970 that Go can represent.\<close>

definition clock_ok :: "time \<Rightarrow> bool" where
  "clock_ok u \<longleftrightarrow> 62135596801 * second \<le> u \<and> u < 2 ^ 63 * second"

definition whole_second :: "time \<Rightarrow> time" where
  "whole_second u = u - u mod second"

lemma unix_roundtrip:
  assumes "clock_ok u"
  shows "unix_time (unix_sec u) = whole_second u" and "0 < unix_sec u"
proof -
  define q r where "q = u div second" and "r = u mod second"
  have "u = q * second + r" and "0 \<le> r" and "r < second" by (simp_all add: q_def r_def)
  with assms have "0 \<le> q" and "q < 2 ^ 63" and "62135596801 \<le> q"
    unfolding clock_ok_def by linarith+
  then have "0 \<le> u div second" and "u div second < 2 ^ 63" and "62135596801 \<le> u div second"
    by (simp_all only: q_def)
  then show "unix_time (unix_sec u) = whole_second u" and "0 < unix_sec u"
    by (simp_all add: unix_time_def unix_sec_def whole_second_def minus_mod_eq_div_mult
        signed_of_int signed_take_bit_int_eq_self)
qed

lemma restored_fresh:
  assumes "pe_creds e = Some c" and "unexpired t' c" and "t' \<le> now"
    and "\<And>u. last_use t e = Some u \<Longrightarrow> clock_ok u"
  shows "pe_addr (restored t t' i e) = pe_addr e
    \<and> map_option (\<lambda>d. (tc_username d, tc_password d)) (pe_creds (restored t t' i e))
        = Some (tc_username c, tc_password c)
    \<and> pe_active (restored t t' i e) = 0
    \<and> entry_is_fresh now (restored t t' i e) = (unexpired now c \<and>
        (case last_use t e of None \<Rightarrow> True | Some u \<Rightarrow> whole_second u + cred_saturation_cooldown \<le> now))"
proof -
  obtain ce where ce: "cache_entry_of t i e = [ce]" and un: "ce_username ce = tc_username c"
    and pw: "ce_password ce = tc_password c" and ad: "ce_address ce = pe_addr e"
    and lu: "ce_last_used ce = (case last_use t e of None \<Rightarrow> 0 | Some u \<Rightarrow> unix_sec u)"
    using assms(1) by (simp add: cache_entry_of_def last_use_def)
  have "load_ok t' ce"
    using assms(2) un by (auto simp: load_ok_def unexpired_def time_sub_def cred_expiry_buffer_def split: option.splits)
  then have r: "restored t t' i e = loaded_entry t' ce" by (simp add: restored_def ce)
  have unex: "unexpired now \<lparr>tc_username = tc_username c, tc_password = p, tc_address = a, tc_addresses = as\<rparr>
      = unexpired now c" for p a as by (simp add: unexpired_def)
  have pos: "0 < whole_second u + cred_saturation_cooldown" if "clock_ok u" for u
  proof -
    have "u mod second < second" by (rule pos_mod_bound) simp
    with that show ?thesis unfolding clock_ok_def whole_second_def cred_saturation_cooldown_def by linarith
  qed
  show ?thesis
  proof (cases "last_use t e")
    case None
    with r un pw ad lu unex show ?thesis
      by (simp add: loaded_entry_def Let_def entry_is_fresh_def empty_entry_def)
  next
    case (Some u)
    with assms(4) have "clock_ok u" by blast
    note u = unix_roundtrip [OF this] pos [OF this]
    from Some r un pw ad lu unex u assms(3) show ?thesis
      by (auto simp: loaded_entry_def Let_def entry_is_fresh_def empty_entry_def)
  qed
qed

lemma new_pool_loaded:
  assumes "cp_size cp = length (cp_pool cp)" and "1 \<le> cp_size cp"
  shows "cp_pool (new_cred_pool ev (int (cp_size cp)) cd True (Some (cache_snapshot t cp)))
     = map (\<lambda>i. restored t (ev_now ev) i (cp_pool cp ! i)) [0..<cp_size cp]"
proof -
  let ?new = "new_cred_pool ev (int (cp_size cp)) cd False (Some (cache_snapshot t cp))"
  have new: "cp_pool ?new = replicate (cp_size cp) empty_entry" "cp_size ?new = cp_size cp"
    using assms(2) by (simp_all add: new_cred_pool_def Let_def)
  have "cp_pool (new_cred_pool ev (int (cp_size cp)) cd True (Some (cache_snapshot t cp))) =
      cp_pool (foldl (load_entry (ev_now ev)) (?new\<lparr>cp_cached := True\<rparr>) (cc_creds (cache_snapshot t cp)))"
    by (simp add: new_cred_pool_def Let_def load_from_disk_def cache_snapshot_def)
  also have "\<dots> = map (\<lambda>i. restored t (ev_now ev) i (cp_pool cp ! i)) [0..<cp_size cp]"
    using load_slots [of "?new\<lparr>cp_cached := True\<rparr>" "cp_size cp" "ev_now ev" t "cp_pool cp"] new assms(1)
    by (simp add: cache_snapshot_def)
  finally show ?thesis .
qed


definition cached_pool :: cred_pool where
  "cached_pool = stale_pool\<lparr>cp_cached := True\<rparr>"


end
