(* ===== verification/MediaWrap.thy ===== *)
theory MediaWrap
  imports Cwrap
begin

unbundle bit_operations_syntax

text \<open>
  The media wrappers of the DTLS path, \<^verbatim>\<open>src/pkg/proxy/wrap.go\<close>, \<^verbatim>\<open>wrap2.go\<close>, \<^verbatim>\<open>wrap3.go\<close> and
  \<^verbatim>\<open>wraps.go\<close>: the profiles rtpopus, rtpopus2 and rtpopus3 behind the interface \<^verbatim>\<open>WrapCodec\<close>, and
  \<^verbatim>\<open>wrapa.go\<close>: the WRAP-A format. The AEAD under the session key is the \<open>crypto\<close> of theory \<open>Cwrap\<close>.
  A destination buffer is given by its length \<open>cap\<close>; random bytes and the clock are arguments.
\<close>

section \<open>Shared parts\<close>

datatype wrap_error =
  Dst_too_small | Packet_too_short | Aead_open | Bad_key nat | No_random | Unknown_profile bytes
  | Empty_payload | Too_large nat | Bad_packet | Invalid_padding nat | No_payload

definition wrap_key_len :: nat where
  "wrap_key_len = 32"

definition wrap_header_len :: nat where
  "wrap_header_len = 24"

definition wrap_overhead :: nat where
  "wrap_overhead = 40"

definition wrap2_header_len :: nat where
  "wrap2_header_len = 36"

definition wrap2_overhead :: nat where
  "wrap2_overhead = 52"

definition wrap3_header_len :: nat where
  "wrap3_header_len = 40"

definition wrap3_overhead :: nat where
  "wrap3_overhead = 56"

definition wrap_rtp_pt :: byte where
  "wrap_rtp_pt = 0x6f"

definition wrap_ts_step :: u32 where
  "wrap_ts_step = 960"

lemmas codec_consts = wrap_header_len_def wrap_overhead_def wrap2_header_len_def wrap2_overhead_def
  wrap3_header_len_def wrap3_overhead_def

text \<open>The direction bit: the top bit of the first byte, set by the server.\<close>

definition set_direction :: "bool \<Rightarrow> bytes \<Rightarrow> bytes" where
  "set_direction is_server bs = bs[0 := (if is_server then bs ! 0 OR 0x80 else bs ! 0 AND NOT 0x80)]"

definition seal_after :: "crypto \<Rightarrow> bytes \<Rightarrow> bytes \<Rightarrow> bytes \<Rightarrow> bytes" where
  "seal_after c hdr nonce payload = hdr @ cy_seal c nonce payload hdr"

text \<open>The body of \<^verbatim>\<open>unwrapPacket\<close>, whose three copies differ in the header length and the overhead.\<close>

definition open_packet :: "crypto \<Rightarrow> nat \<Rightarrow> nat \<Rightarrow> bytes \<Rightarrow> nat \<Rightarrow> wrap_error + bytes" where
  "open_packet c hl ov wire cap =
     (if length wire < ov then Inl Packet_too_short
      else case cy_open c (gslice wire (hl - 12) hl) (drop hl wire) (take hl wire) of
        None \<Rightarrow> Inl Aead_open
      | Some plain \<Rightarrow> if cap < length plain then Inl Dst_too_small else Inr plain)"

text \<open>Draws of one packet: single random bytes, and the milliseconds since the codec was made.\<close>

record draws =
  dr_switch :: byte
  dr_level :: byte
  dr_gap_at :: byte
  dr_gap_size :: byte
  dr_step :: byte
  dr_ms :: int

section \<open>rtpopus\<close>

record wrap_conn =
  wc_sid :: bytes
  wc_ssrc :: bytes
  wc_counter :: u64
  wc_seq :: u32
  wc_ts :: u32

definition new_wrap_conn ::
  "bytes \<Rightarrow> bool \<Rightarrow> bytes option \<Rightarrow> bytes option \<Rightarrow> wrap_error + wrap_conn" where
  "new_wrap_conn key is_server rnd16 rnd8 =
     (if length key \<noteq> wrap_key_len then Inl (Bad_key (length key))
      else case (rnd16, rnd8) of
        (Some rnd, Some cb) \<Rightarrow>
          Inr \<lparr>wc_sid = set_direction is_server (gslice rnd 0 4),
               wc_ssrc = set_direction is_server (gslice rnd 4 8), wc_counter = be_val cb,
               wc_seq = ucast (be_val (gslice rnd 8 10) :: u16), wc_ts = be_val (gslice rnd 10 14)\<rparr>
      | _ \<Rightarrow> Inl No_random)"

definition wrap_header1 :: "wrap_conn \<Rightarrow> bytes" where
  "wrap_header1 w = [0x80, wrap_rtp_pt] @ be16 (ucast (wc_seq w)) @ be32 (wc_ts w) @ wc_ssrc w
     @ wc_sid w @ be64 (wc_counter w)"

definition wrap_into :: "crypto \<Rightarrow> wrap_conn \<Rightarrow> draws \<Rightarrow> nat \<Rightarrow> bytes \<Rightarrow> wrap_error + bytes \<times> wrap_conn" where
  "wrap_into c w d cap payload =
     (if cap < wrap_overhead + length payload then Inl Dst_too_small
      else Inr (seal_after c (wrap_header1 w) (wc_sid w @ be64 (wc_counter w)) payload,
                w\<lparr>wc_seq := wc_seq w + 1, wc_ts := wc_ts w + wrap_ts_step,
                  wc_counter := wc_counter w + 1\<rparr>))"

definition unwrap_packet :: "crypto \<Rightarrow> wrap_conn \<Rightarrow> bytes \<Rightarrow> nat \<Rightarrow> wrap_error + bytes" where
  "unwrap_packet c w wire cap = open_packet c wrap_header_len wrap_overhead wire cap"

section \<open>rtpopus2\<close>

record wrap2_conn =
  w2_sid :: bytes
  w2_ssrc :: bytes
  w2_counter :: u64
  w2_seq :: u32
  w2_ts :: u32
  w2_tcc :: u32
  w2_sent_first :: bool

definition new_wrap2_conn ::
  "bytes \<Rightarrow> bool \<Rightarrow> bytes option \<Rightarrow> bytes option \<Rightarrow> wrap_error + wrap2_conn" where
  "new_wrap2_conn key is_server rnd16 rnd8 =
     (if length key \<noteq> wrap_key_len then Inl (Bad_key (length key))
      else case (rnd16, rnd8) of
        (Some rnd, Some cb) \<Rightarrow>
          Inr \<lparr>w2_sid = set_direction is_server (gslice rnd 0 4), w2_ssrc = gslice rnd 4 8,
               w2_counter = be_val cb, w2_seq = ucast (be_val (gslice rnd 8 10) :: u16),
               w2_ts = be_val (gslice rnd 10 14), w2_tcc = ucast (be_val (gslice rnd 14 16) :: u16),
               w2_sent_first = False\<rparr>
      | _ \<Rightarrow> Inl No_random)"

definition wrap_header2 :: "wrap2_conn \<Rightarrow> bytes" where
  "wrap_header2 w =
     (let sq = ucast (w2_seq w) :: u16 in
      [0x90, if w2_sent_first w then wrap_rtp_pt else wrap_rtp_pt OR 0x80] @ be16 sq @ be32 (w2_ts w)
      @ w2_ssrc w @ [0xbe, 0xde] @ be16 2 @ [0x10, 0x80 OR ucast (sq AND 0x3f), 0x21]
      @ be16 (ucast (w2_tcc w)) @ [0, 0, 0] @ w2_sid w @ be64 (w2_counter w))"

definition wrap_into2 ::
  "crypto \<Rightarrow> wrap2_conn \<Rightarrow> draws \<Rightarrow> nat \<Rightarrow> bytes \<Rightarrow> wrap_error + bytes \<times> wrap2_conn" where
  "wrap_into2 c w d cap payload =
     (if cap < wrap2_overhead + length payload then Inl Dst_too_small
      else Inr (seal_after c (wrap_header2 w) (w2_sid w @ be64 (w2_counter w)) payload,
                w\<lparr>w2_sent_first := True, w2_seq := w2_seq w + 1, w2_ts := w2_ts w + wrap_ts_step,
                  w2_tcc := w2_tcc w + 1, w2_counter := w2_counter w + 1\<rparr>))"

definition unwrap_packet2 :: "crypto \<Rightarrow> wrap2_conn \<Rightarrow> bytes \<Rightarrow> nat \<Rightarrow> wrap_error + bytes" where
  "unwrap_packet2 c w wire cap = open_packet c wrap2_header_len wrap2_overhead wire cap"

section \<open>rtpopus3\<close>

datatype audio_state = Silence | Speech

definition speech_min_pkts :: int where
  "speech_min_pkts = 30"

definition speech_max_pkts :: int where
  "speech_max_pkts = 200"

definition silence_min_pkts :: int where
  "silence_min_pkts = 5"

definition silence_max_pkts :: int where
  "silence_max_pkts = 30"

definition gap_interval_min :: int where
  "gap_interval_min = 50"

definition gap_interval_max :: int where
  "gap_interval_max = 150"

definition gap_size_min :: int where
  "gap_size_min = 1"

definition gap_size_max :: int where
  "gap_size_max = 3"

record wrap3_conn =
  w3_sid :: bytes
  w3_ssrc :: bytes
  w3_counter :: u64
  w3_seq :: u16
  w3_ts :: u32
  w3_tcc :: u16
  w3_state :: audio_state
  w3_pkts_in_state :: int
  w3_next_switch :: int
  w3_next_gap_at :: int
  w3_gap_size :: int

definition wrap3_rand :: "byte \<Rightarrow> int \<Rightarrow> int" where
  "wrap3_rand b n = (if n \<le> 0 then 0 else uint b mod n)"

definition speech_switch :: "byte \<Rightarrow> int" where
  "speech_switch b = speech_min_pkts + wrap3_rand b (speech_max_pkts - speech_min_pkts + 1)"

definition silence_switch :: "byte \<Rightarrow> int" where
  "silence_switch b = silence_min_pkts + wrap3_rand b (silence_max_pkts - silence_min_pkts + 1)"

definition next_gap :: "byte \<Rightarrow> int" where
  "next_gap b = gap_interval_min + wrap3_rand b (gap_interval_max - gap_interval_min + 1)"

definition new_gap_size :: "byte \<Rightarrow> int" where
  "new_gap_size b = gap_size_min + wrap3_rand b (gap_size_max - gap_size_min + 1)"

definition new_wrap3_conn ::
  "bytes \<Rightarrow> bool \<Rightarrow> draws \<Rightarrow> bytes option \<Rightarrow> bytes option \<Rightarrow> wrap_error + wrap3_conn" where
  "new_wrap3_conn key is_server d rnd16 rnd8 =
     (if length key \<noteq> wrap_key_len then Inl (Bad_key (length key))
      else case (rnd16, rnd8) of
        (Some rnd, Some cb) \<Rightarrow>
          Inr \<lparr>w3_sid = set_direction is_server (gslice rnd 0 4), w3_ssrc = gslice rnd 4 8,
               w3_counter = be_val cb, w3_seq = be_val (gslice rnd 8 10),
               w3_ts = be_val (gslice rnd 10 14), w3_tcc = be_val (gslice rnd 14 16),
               w3_state = Speech, w3_pkts_in_state = 0, w3_next_switch = speech_switch (dr_switch d),
               w3_next_gap_at = next_gap (dr_gap_at d), w3_gap_size = new_gap_size (dr_gap_size d)\<rparr>
      | _ \<Rightarrow> Inl No_random)"

definition pick_ts_step :: "byte \<Rightarrow> u32" where
  "pick_ts_step b = (let r = wrap3_rand b 256 in if r < 10 then 480 else if r < 230 then 960 else 1920)"

text \<open>\<open>True\<close> is the marker: silence turned to speech.\<close>

definition update_state :: "byte \<Rightarrow> wrap3_conn \<Rightarrow> bool \<times> wrap3_conn" where
  "update_state b w0 =
     (let w = w0\<lparr>w3_pkts_in_state := w3_pkts_in_state w0 + 1\<rparr> in
      if w3_pkts_in_state w < w3_next_switch w then (False, w)
      else
        let w = w\<lparr>w3_pkts_in_state := 0\<rparr> in
        if w3_state w = Silence
        then (True, w\<lparr>w3_state := Speech, w3_next_switch := speech_switch b\<rparr>)
        else (False, w\<lparr>w3_state := Silence, w3_next_switch := silence_switch b\<rparr>))"

definition audio_level :: "byte \<Rightarrow> wrap3_conn \<Rightarrow> byte" where
  "audio_level b w =
     (if w3_state w = Speech then 0x80 OR word_of_int (20 + wrap3_rand b 31)
      else word_of_int (100 + wrap3_rand b 28))"

definition compute_seq :: "byte \<Rightarrow> byte \<Rightarrow> wrap3_conn \<Rightarrow> u16 \<times> wrap3_conn" where
  "compute_seq b1 b2 w0 =
     (let sq = w3_seq w0;
          w = w0\<lparr>w3_seq := sq + 1, w3_next_gap_at := w3_next_gap_at w0 - 1\<rparr>
      in if 0 < w3_next_gap_at w then (sq, w)
         else (sq, w\<lparr>w3_seq := w3_seq w + word_of_int (w3_gap_size w),
                     w3_next_gap_at := next_gap b1, w3_gap_size := new_gap_size b2\<rparr>))"

definition abs_send_time :: "int \<Rightarrow> u32" where
  "abs_send_time ms0 =
     (let ms = (if ms0 < 0 then 0 else ms0);
          sec = ms div 1000 mod 64; frac = (ms mod 1000) * 2 ^ 18 div 1000
      in push_bit 18 (word_of_int sec) OR word_of_int frac)"

definition wrap_header3 :: "wrap3_conn \<Rightarrow> bool \<Rightarrow> byte \<Rightarrow> u16 \<Rightarrow> int \<Rightarrow> bytes" where
  "wrap_header3 w marker lvl sq ms =
     [0x90, if marker then wrap_rtp_pt OR 0x80 else wrap_rtp_pt] @ be16 sq @ be32 (w3_ts w)
     @ w3_ssrc w @ [0xbe, 0xde] @ be16 3 @ [0x10, lvl, 0x21] @ be16 (w3_tcc w) @ [0x32]
     @ be_bytes 3 (abs_send_time ms) @ [0, 0, 0] @ w3_sid w @ be64 (w3_counter w)"

definition wrap_into3 ::
  "crypto \<Rightarrow> wrap3_conn \<Rightarrow> draws \<Rightarrow> nat \<Rightarrow> bytes \<Rightarrow> wrap_error + bytes \<times> wrap3_conn" where
  "wrap_into3 c w0 d cap payload =
     (if cap < wrap3_overhead + length payload then Inl Dst_too_small
      else
        let (marker, w1) = update_state (dr_switch d) w0;
            lvl = audio_level (dr_level d) w1;
            (sq, w2) = compute_seq (dr_gap_at d) (dr_gap_size d) w1
        in Inr (seal_after c (wrap_header3 w2 marker lvl sq (dr_ms d)) (w3_sid w2 @ be64 (w3_counter w2)) payload,
                w2\<lparr>w3_ts := w3_ts w2 + pick_ts_step (dr_step d), w3_tcc := w3_tcc w2 + 1,
                   w3_counter := w3_counter w2 + 1\<rparr>))"

definition unwrap_packet3 :: "crypto \<Rightarrow> wrap3_conn \<Rightarrow> bytes \<Rightarrow> nat \<Rightarrow> wrap_error + bytes" where
  "unwrap_packet3 c w wire cap = open_packet c wrap3_header_len wrap3_overhead wire cap"

section \<open>The interface\<close>

datatype codec = Codec1 wrap_conn | Codec2 wrap2_conn | Codec3 wrap3_conn

definition new_wrap_codec ::
  "bytes \<Rightarrow> bytes \<Rightarrow> bool \<Rightarrow> draws \<Rightarrow> bytes option \<Rightarrow> bytes option \<Rightarrow> wrap_error + codec" where
  "new_wrap_codec profile key is_server d rnd16 rnd8 =
     (if profile = ascii ''rtpopus'' then map_sum id Codec1 (new_wrap_conn key is_server rnd16 rnd8)
      else if profile = ascii ''rtpopus2'' then map_sum id Codec2 (new_wrap2_conn key is_server rnd16 rnd8)
      else if profile = ascii ''rtpopus3'' then map_sum id Codec3 (new_wrap3_conn key is_server d rnd16 rnd8)
      else Inl (Unknown_profile profile))"

fun codec_wrap :: "crypto \<Rightarrow> codec \<Rightarrow> draws \<Rightarrow> nat \<Rightarrow> bytes \<Rightarrow> wrap_error + bytes \<times> codec" where
  "codec_wrap c (Codec1 w) d cap p = map_sum id (map_prod id Codec1) (wrap_into c w d cap p)"
| "codec_wrap c (Codec2 w) d cap p = map_sum id (map_prod id Codec2) (wrap_into2 c w d cap p)"
| "codec_wrap c (Codec3 w) d cap p = map_sum id (map_prod id Codec3) (wrap_into3 c w d cap p)"

fun codec_unwrap :: "crypto \<Rightarrow> codec \<Rightarrow> bytes \<Rightarrow> nat \<Rightarrow> wrap_error + bytes" where
  "codec_unwrap c (Codec1 w) wire cap = unwrap_packet c w wire cap"
| "codec_unwrap c (Codec2 w) wire cap = unwrap_packet2 c w wire cap"
| "codec_unwrap c (Codec3 w) wire cap = unwrap_packet3 c w wire cap"

fun codec_overhead :: "codec \<Rightarrow> nat" where
  "codec_overhead (Codec1 w) = wrap_overhead"
| "codec_overhead (Codec2 w) = wrap2_overhead"
| "codec_overhead (Codec3 w) = wrap3_overhead"

fun codec_header_len :: "codec \<Rightarrow> nat" where
  "codec_header_len (Codec1 w) = wrap_header_len"
| "codec_header_len (Codec2 w) = wrap2_header_len"
| "codec_header_len (Codec3 w) = wrap3_header_len"

text \<open>\<^verbatim>\<open>WriteClientID\<close>: the record that goes out first.\<close>

definition client_id_record :: "bytes \<Rightarrow> bytes" where
  "client_id_record cid = (let b = take 255 cid in of_nat (length b) # b)"

section \<open>What a codec promises\<close>

text \<open>
  The contract of \<^verbatim>\<open>WrapCodec\<close> as its callers use it. A state has a nonce prefix \<open>sid\<close> and a counter
  \<open>ctr\<close>; \<open>good\<close> says that its fixed fields have their widths.
\<close>

fun wrap_all :: "('s \<Rightarrow> draws \<Rightarrow> bytes \<Rightarrow> wrap_error + bytes \<times> 's) \<Rightarrow> 's \<Rightarrow> (draws \<times> bytes) list \<Rightarrow> bytes list" where
  "wrap_all f s [] = []"
| "wrap_all f s ((d, p) # es) = (case f s d p of Inl e \<Rightarrow> [] | Inr (wire, s') \<Rightarrow> wire # wrap_all f s' es)"

locale wrap_codec =
  fixes wrap :: "crypto \<Rightarrow> 's \<Rightarrow> draws \<Rightarrow> nat \<Rightarrow> bytes \<Rightarrow> wrap_error + bytes \<times> 's"
    and unwrap :: "crypto \<Rightarrow> 's \<Rightarrow> bytes \<Rightarrow> nat \<Rightarrow> wrap_error + bytes"
    and overhead :: "'s \<Rightarrow> nat"
    and hl :: "'s \<Rightarrow> nat"
    and sid :: "'s \<Rightarrow> bytes"
    and ctr :: "'s \<Rightarrow> u64"
    and good :: "'s \<Rightarrow> bool"
  assumes too_small: "cap < overhead s + length p \<Longrightarrow> wrap c s d cap p = Inl Dst_too_small"
    and wraps: "good s \<Longrightarrow> overhead s + length p \<le> cap \<Longrightarrow>
      \<exists>hdr s'. wrap c s d cap p = Inr (seal_after c (hdr @ sid s @ be64 (ctr s)) (sid s @ be64 (ctr s)) p, s')
        \<and> length hdr = hl s - 12 \<and> good s' \<and> sid s' = sid s \<and> ctr s' = ctr s + 1
        \<and> hl s' = hl s \<and> overhead s' = overhead s"
    and unwraps: "unwrap c s wire cap = open_packet c (hl s) (overhead s) wire cap"
    and layout: "overhead s = hl s + 16" "12 \<le> hl s"
    and sid_width: "good s \<Longrightarrow> length (sid s) = 4"
begin

lemma wrapped:
  assumes "good s" and "overhead s + length p \<le> cap"
  obtains wire s' where "wrap c s d cap p = Inr (wire, s')" and "good s'" and "sid s' = sid s"
    and "ctr s' = ctr s + 1" and "hl s' = hl s" and "overhead s' = overhead s"
    and "gslice wire (hl s - 12) (hl s) = sid s @ be64 (ctr s)"
    and "crypto_ok c \<longrightarrow> length wire = overhead s + length p"
    and "\<forall>r cap'. crypto_ok c \<and> hl r = hl s \<and> length p \<le> cap' \<longrightarrow> unwrap c r wire cap' = Inr p"
proof -
  obtain hdr s' where w: "wrap c s d cap p = Inr (seal_after c (hdr @ sid s @ be64 (ctr s)) (sid s @ be64 (ctr s)) p, s')"
    and hdr: "length hdr = hl s - 12" and s': "good s'" "sid s' = sid s" "ctr s' = ctr s + 1"
      "hl s' = hl s" "overhead s' = overhead s"
    using wraps [OF assms] by blast
  let ?n = "sid s @ be64 (ctr s)" and ?wire = "seal_after c (hdr @ sid s @ be64 (ctr s)) (sid s @ be64 (ctr s)) p"
  have len: "length (hdr @ ?n) = hl s" using hdr sid_width [OF assms(1)] layout(2) [of s] by simp
  have sl: "gslice ?wire (hl s - 12) (hl s) = ?n"
    using hdr len by (simp add: seal_after_def gslice_def)
  have tk: "take (hl s) ?wire = hdr @ ?n" "drop (hl s) ?wire = cy_seal c ?n p (hdr @ ?n)"
    using len by (simp_all add: seal_after_def)
  show ?thesis
  proof (rule that [OF w s' sl])
    show "crypto_ok c \<longrightarrow> length ?wire = overhead s + length p"
      using len layout(1) [of s] by (simp add: seal_after_def crypto_ok_def)
  next
    have "unwrap c r ?wire cap' = Inr p" if "crypto_ok c" and "hl r = hl s" and "length p \<le> cap'" for r cap'
    proof -
      have "length ?wire = overhead r + length p"
        using len layout(1) [of r] that by (simp add: seal_after_def crypto_ok_def)
      with sl tk that show ?thesis by (simp add: unwraps open_packet_def crypto_ok_def)
    qed
    then show "\<forall>r cap'. crypto_ok c \<and> hl r = hl s \<and> length p \<le> cap' \<longrightarrow> unwrap c r ?wire cap' = Inr p"
      by blast
  qed
qed

lemma session:
  fixes c es
  assumes "good s"
  defines "ws \<equiv> wrap_all (\<lambda>s d p. wrap c s d (overhead s + length p) p) s es"
  shows "length ws = length es
    \<and> (\<forall>i < length es. gslice (ws ! i) (hl s - 12) (hl s) = sid s @ be64 (ctr s + of_nat i)
         \<and> (crypto_ok c \<longrightarrow> length (ws ! i) = overhead s + length (snd (es ! i))
            \<and> (\<forall>r cap. hl r = hl s \<and> length (snd (es ! i)) \<le> cap \<longrightarrow> unwrap c r (ws ! i) cap = Inr (snd (es ! i)))))"
  using assms(1) unfolding ws_def
proof (induction es arbitrary: s)
  case (Cons e es)
  obtain d p where e: "e = (d, p)" by (rule prod.exhaust)
  obtain wire s' where w: "wrap c s d (overhead s + length p) p = Inr (wire, s')" and good': "good s'"
    and keep: "sid s' = sid s" "ctr s' = ctr s + 1" "hl s' = hl s" "overhead s' = overhead s"
    and n: "gslice wire (hl s - 12) (hl s) = sid s @ be64 (ctr s)"
    and l: "crypto_ok c \<longrightarrow> length wire = overhead s + length p"
    and u: "\<forall>r cap'. crypto_ok c \<and> hl r = hl s \<and> length p \<le> cap' \<longrightarrow> unwrap c r wire cap' = Inr p"
    by (rule wrapped [OF Cons.prems order_refl, where p = p and c = c and d = d])
  note IH = Cons.IH [OF good']
  show ?case
    using IH w e keep n l u by (auto simp: nth_Cons add.assoc split: nat.split)
qed simp

lemma nonces_distinct:
  assumes "good s" and "length es \<le> 2 ^ 64"
  shows "distinct (map (\<lambda>w. gslice w (hl s - 12) (hl s))
           (wrap_all (\<lambda>s d p. wrap c s d (overhead s + length p) p) s es))"
proof -
  note ss = session [OF assms(1), where c = c and es = es]
  have "i = j" if "i < length es" and "j < length es" and "ctr s + of_nat i = ctr s + (of_nat j :: u64)" for i j
    using that assms(2) by (auto simp: word_of_nat_eq_iff take_bit_nat_eq_self)
  with ss show ?thesis
    unfolding distinct_conv_nth by (auto simp: be_bytes_inj)
qed

lemma nonces_prefix:
  assumes "good s" and "w \<in> set (wrap_all (\<lambda>s d p. wrap c s d (overhead s + length p) p) s es)"
  shows "take 4 (gslice w (hl s - 12) (hl s)) = sid s"
  using session [OF assms(1), where c = c and es = es] assms(2) sid_width [OF assms(1)]
  by (auto simp: in_set_conv_nth)

end

section \<open>The profiles keep the promise\<close>

definition good1 :: "wrap_conn \<Rightarrow> bool" where
  "good1 w \<longleftrightarrow> length (wc_sid w) = 4 \<and> length (wc_ssrc w) = 4"

definition good2 :: "wrap2_conn \<Rightarrow> bool" where
  "good2 w \<longleftrightarrow> length (w2_sid w) = 4 \<and> length (w2_ssrc w) = 4"

definition good3 :: "wrap3_conn \<Rightarrow> bool" where
  "good3 w \<longleftrightarrow> length (w3_sid w) = 4 \<and> length (w3_ssrc w) = 4"

lemma seal_after_shift: "seal_after c ((a @ b) @ n) m p = seal_after c (a @ b @ n) m p"
  by simp

interpretation p1: wrap_codec wrap_into unwrap_packet "\<lambda>_. wrap_overhead" "\<lambda>_. wrap_header_len"
  wc_sid wc_counter good1
proof (unfold_locales, goal_cases)
  case (2 w p cap c d)
  let ?h = "[0x80, wrap_rtp_pt] @ be16 (ucast (wc_seq w)) @ be32 (wc_ts w) @ wc_ssrc w"
  have "wrap_header1 w = ?h @ wc_sid w @ be64 (wc_counter w)" by (simp add: wrap_header1_def)
  with 2 show ?case
    by (intro exI [of _ ?h]) (simp add: wrap_into_def good1_def codec_consts)
qed (simp_all add: wrap_into_def unwrap_packet_def codec_consts good1_def)

interpretation p2: wrap_codec wrap_into2 unwrap_packet2 "\<lambda>_. wrap2_overhead" "\<lambda>_. wrap2_header_len"
  w2_sid w2_counter good2
proof (unfold_locales, goal_cases)
  case (2 w p cap c d)
  let ?h = "take 24 (wrap_header2 w)"
  have "wrap_header2 w = ?h @ w2_sid w @ be64 (w2_counter w)" and "length ?h = 24"
    using 2 by (simp_all add: wrap_header2_def Let_def good2_def)
  with 2 show ?case
    by (intro exI [of _ ?h]) (simp add: wrap_into2_def good2_def codec_consts)
qed (simp_all add: wrap_into2_def unwrap_packet2_def codec_consts good2_def)

lemma voice_model_keeps:
  "w3_sid (snd (update_state b w)) = w3_sid w" "w3_ssrc (snd (update_state b w)) = w3_ssrc w"
  "w3_counter (snd (update_state b w)) = w3_counter w"
  "w3_sid (snd (compute_seq b1 b2 w)) = w3_sid w" "w3_ssrc (snd (compute_seq b1 b2 w)) = w3_ssrc w"
  "w3_counter (snd (compute_seq b1 b2 w)) = w3_counter w"
  by (simp_all add: update_state_def compute_seq_def Let_def)

lemma wrap_header3_layout:
  assumes "good3 w"
  shows "wrap_header3 w m l sq ms = take 28 (wrap_header3 w m l sq ms) @ w3_sid w @ be64 (w3_counter w)"
    and "length (take 28 (wrap_header3 w m l sq ms)) = 28"
  using assms by (simp_all add: wrap_header3_def good3_def)

interpretation p3: wrap_codec wrap_into3 unwrap_packet3 "\<lambda>_. wrap3_overhead" "\<lambda>_. wrap3_header_len"
  w3_sid w3_counter good3
proof (unfold_locales, goal_cases)
  case (2 w p cap c d)
  obtain m w1 where u: "update_state (dr_switch d) w = (m, w1)" by (rule prod.exhaust)
  obtain sq w2 where q: "compute_seq (dr_gap_at d) (dr_gap_size d) w1 = (sq, w2)" by (rule prod.exhaust)
  have k: "w3_sid w2 = w3_sid w" "w3_ssrc w2 = w3_ssrc w" "w3_counter w2 = w3_counter w"
    using voice_model_keeps(1-3) [of "dr_switch d" w] voice_model_keeps(4-6) [of "dr_gap_at d" "dr_gap_size d" w1]
    by (simp_all add: u q)
  then have g: "good3 w2" using 2(1) by (simp add: good3_def)
  let ?hh = "wrap_header3 w2 m (audio_level (dr_level d) w1) sq (dr_ms d)"
  from wrap_header3_layout [OF g, of m "audio_level (dr_level d) w1" sq "dr_ms d"] 2 k show ?case
    by (intro exI [of _ "take 28 ?hh"]) (simp add: wrap_into3_def u q good3_def codec_consts)
qed (simp_all add: wrap_into3_def unwrap_packet3_def codec_consts good3_def Let_def)

fun codec_sid :: "codec \<Rightarrow> bytes" where
  "codec_sid (Codec1 w) = wc_sid w"
| "codec_sid (Codec2 w) = w2_sid w"
| "codec_sid (Codec3 w) = w3_sid w"

fun codec_ctr :: "codec \<Rightarrow> u64" where
  "codec_ctr (Codec1 w) = wc_counter w"
| "codec_ctr (Codec2 w) = w2_counter w"
| "codec_ctr (Codec3 w) = w3_counter w"

fun good_codec :: "codec \<Rightarrow> bool" where
  "good_codec (Codec1 w) = good1 w"
| "good_codec (Codec2 w) = good2 w"
| "good_codec (Codec3 w) = good3 w"

interpretation codec: wrap_codec codec_wrap codec_unwrap codec_overhead codec_header_len
  codec_sid codec_ctr good_codec
proof (unfold_locales, goal_cases)
  case (1 cap s p c d)
  then show ?case by (cases s) (simp_all add: p1.too_small p2.too_small p3.too_small)
next
  case (2 s p cap c d)
  show ?case
  proof (cases s)
    case (Codec1 w)
    with 2 p1.wraps [of w p cap c d] show ?thesis by fastforce
  next
    case (Codec2 w)
    with 2 p2.wraps [of w p cap c d] show ?thesis by fastforce
  next
    case (Codec3 w)
    with 2 p3.wraps [of w p cap c d] show ?thesis by fastforce
  qed
next
  case (3 c s wire cap)
  then show ?case by (cases s) (simp_all add: p1.unwraps p2.unwraps p3.unwraps)
next
  case (4 s)
  then show ?case by (cases s) (simp_all add: codec_consts)
next
  case (5 s)
  then show ?case by (cases s) (simp_all add: codec_consts)
next
  case (6 s)
  then show ?case by (cases s) (simp_all add: good1_def good2_def good3_def)
qed

section \<open>A session under a profile\<close>

abbreviation codec_session :: "crypto \<Rightarrow> codec \<Rightarrow> (draws \<times> bytes) list \<Rightarrow> bytes list" where
  "codec_session c s es \<equiv> wrap_all (\<lambda>s d p. codec_wrap c s d (codec_overhead s + length p) p) s es"

definition wire_nonce :: "codec \<Rightarrow> bytes \<Rightarrow> bytes" where
  "wire_nonce s wire = gslice wire (codec_header_len s - 12) (codec_header_len s)"

lemma set_direction_bit:
  assumes "bs \<noteq> []"
  shows "bit (hd (set_direction srv bs)) 7 = srv" and "length (set_direction srv bs) = length bs"
  using assms by (cases bs; simp add: set_direction_def bit_simps; fail)+

lemma new_codec_good:
  assumes "new_wrap_codec profile key srv d (Some rnd) cb = Inr s" and "length rnd = 16"
  shows "good_codec s" and "bit (hd (codec_sid s)) 7 = srv"
proof -
  have g: "gslice rnd 0 4 \<noteq> []" "length (gslice rnd 0 4) = 4" "gslice rnd 4 8 \<noteq> []" "length (gslice rnd 4 8) = 4"
    using assms(2) by (auto simp: gslice_def)
  note sd = set_direction_bit [OF g(1), of srv] set_direction_bit(2) [OF g(3), of srv]
  show "good_codec s"
    using assms(1) sd g
    by (auto simp: new_wrap_codec_def new_wrap_conn_def new_wrap2_conn_def new_wrap3_conn_def
        good1_def good2_def good3_def split: if_splits option.splits)
  show "bit (hd (codec_sid s)) 7 = srv"
    using assms(1) sd
    by (auto simp: new_wrap_codec_def new_wrap_conn_def new_wrap2_conn_def new_wrap3_conn_def
        split: if_splits option.splits)
qed

lemma new_codec_header:
  assumes "new_wrap_codec profile key srv d rnd cb = Inr s"
    and "new_wrap_codec profile key srv' d' rnd' cb' = Inr r"
  shows "codec_header_len r = codec_header_len s"
  using assms by (auto simp: new_wrap_codec_def split: if_splits sum.splits)
    (auto simp: map_sum_def split: sum.splits)

text \<open>
  C12: Whatever profile the two ends agree on, a receiver made for it recovers every payload of the
  sender's session in order, from datagrams each exactly the declared overhead longer; the marker,
  the voice model, the sequence gaps and the timestamps do not matter.
\<close>

theorem media_wrap_roundtrip:
  assumes "crypto_ok c"
    and "new_wrap_codec profile key srv d (Some rnd) cb = Inr s" and "length rnd = 16"
    and "new_wrap_codec profile key srv' d' rnd' cb' = Inr r"
    and "list_all (\<lambda>(d, p). length p \<le> cap) es"
  shows "map (\<lambda>w. codec_unwrap c r w cap) (codec_session c s es) = map (Inr \<circ> snd) es
    \<and> map length (codec_session c s es) = map (\<lambda>(d, p). codec_overhead s + length p) es"
proof -
  note ss = codec.session [OF new_codec_good(1) [OF assms(2,3)], where c = c and es = es]
  have "codec_header_len r = codec_header_len s" using new_codec_header [OF assms(2,4)] .
  with ss assms(1,5) show ?thesis
    by (auto simp: list_all_length case_prod_beta intro!: nth_equalityI)
qed

text \<open>
   No nonce is used twice: not by one end within 2 to the 64 datagrams, whatever its profile does to
  the visible sequence numbers, and not by the two ends of a connection, which share the key.
\<close>

theorem media_nonces_distinct:
  assumes "new_wrap_codec profile key True d (Some rnd) cb = Inr s" and "length rnd = 16"
    and "new_wrap_codec profile key False d' (Some rnd') cb' = Inr s'" and "length rnd' = 16"
    and "length es \<le> 2 ^ 64" and "length es' \<le> 2 ^ 64"
  shows "distinct (map (wire_nonce s) (codec_session c s es) @ map (wire_nonce s') (codec_session c s' es'))"
proof -
  note g = new_codec_good [OF assms(1,2)] and g' = new_codec_good [OF assms(3,4)]
  have "wire_nonce s w \<noteq> wire_nonce s' w'"
    if "w \<in> set (codec_session c s es)" and "w' \<in> set (codec_session c s' es')" for w w'
    using codec.nonces_prefix [OF g(1) that(1)] codec.nonces_prefix [OF g'(1) that(2)] g(2) g'(2)
    by (auto simp: wire_nonce_def)
  moreover have "distinct (map (wire_nonce s) (codec_session c s es))"
    "distinct (map (wire_nonce s') (codec_session c s' es'))"
    using codec.nonces_distinct [OF g(1) assms(5), of c] codec.nonces_distinct [OF g'(1) assms(6), of c]
    by (simp_all add: wire_nonce_def [abs_def])
  ultimately show ?thesis by auto
qed

text \<open>A server and a client of profile rtpopus3, and a session of two packets.\<close>

definition draws0 :: draws where
  "draws0 = \<lparr>dr_switch = 0, dr_level = 7, dr_gap_at = 0, dr_gap_size = 1, dr_step = 9, dr_ms = 20\<rparr>"

definition made :: "bool \<Rightarrow> codec" where
  "made srv = projr (new_wrap_codec (ascii ''rtpopus3'') (replicate 32 1) srv draws0
     (Some (replicate 16 0xa5)) (Some (replicate 8 255)))"

lemma made_new: "new_wrap_codec (ascii ''rtpopus3'') (replicate 32 1) srv draws0
    (Some (replicate 16 0xa5)) (Some (replicate 8 255)) = Inr (made srv)"
  by (simp add: made_def new_wrap_codec_def new_wrap3_conn_def wrap_key_len_def ascii_def)

theorem media_wrap_roundtrip_witness:
  "map (\<lambda>w. codec_unwrap plain_crypto (made False) w 1500)
     (codec_session plain_crypto (made True) [(draws0, [1, 2]), (draws0, [])]) = [Inr [1, 2], Inr []]"
  using media_wrap_roundtrip [OF plain_crypto_ok made_new _ made_new, of 1500 "[(draws0, [1, 2]), (draws0, [])]"]
  by simp

theorem media_nonces_distinct_witness:
  "distinct (map (wire_nonce (made True)) (codec_session plain_crypto (made True) [(draws0, [1, 2]), (draws0, [])])
     @ map (wire_nonce (made False)) (codec_session plain_crypto (made False) [(draws0, [1, 2]), (draws0, [])]))"
  by (rule media_nonces_distinct [OF made_new _ made_new]) simp_all

section \<open>WRAP-A\<close>

definition wrap_a_rtp_hdr_len :: nat where
  "wrap_a_rtp_hdr_len = 12"

definition wrap_a_payload_type :: byte where
  "wrap_a_payload_type = 111"

definition wrap_a_padding_max :: nat where
  "wrap_a_padding_max = 24"

definition wrap_a_ts_step :: u32 where
  "wrap_a_ts_step = 960"

definition wrap_a_max_packet :: nat where
  "wrap_a_max_packet = 2048"

definition aead_overhead :: nat where
  "aead_overhead = 16"

lemmas wrap_a_consts = wrap_a_rtp_hdr_len_def wrap_a_payload_type_def wrap_a_padding_max_def
  wrap_a_max_packet_def aead_overhead_def

definition wrap_a_build_nonce :: "u32 \<Rightarrow> u16 \<Rightarrow> u32 \<Rightarrow> bytes" where
  "wrap_a_build_nonce ssrc sq ts = be32 ssrc @ be16 sq @ [0, 0] @ be32 ts"

definition wrap_a_is_rtp :: "bytes \<Rightarrow> bool" where
  "wrap_a_is_rtp wire \<longleftrightarrow>
     13 \<le> length wire \<and> drop_bit 6 (wire ! 0) = 2 \<and> wire ! 1 AND 0x7f = wrap_a_payload_type"

record wrap_a_conn =
  wa_ssrc :: u32
  wa_init_seq :: u16
  wa_init_ts :: u32
  wa_count :: u64

definition new_wrap_a_conn :: "bytes \<Rightarrow> bytes option \<Rightarrow> wrap_error + wrap_a_conn" where
  "new_wrap_a_conn key rnd10 =
     (if length key \<noteq> 32 then Inl (Bad_key (length key))
      else case rnd10 of
        None \<Rightarrow> Inl No_random
      | Some seed \<Rightarrow> Inr \<lparr>wa_ssrc = be_val (gslice seed 0 4), wa_init_seq = be_val (gslice seed 4 6),
                        wa_init_ts = be_val (gslice seed 6 10), wa_count = 0\<rparr>)"

definition wrap_a_seq :: "wrap_a_conn \<Rightarrow> u16" where
  "wrap_a_seq w = wa_init_seq w + ucast (wa_count w)"

definition wrap_a_ts :: "wrap_a_conn \<Rightarrow> u32" where
  "wrap_a_ts w = wa_init_ts w + ucast (wa_count w) * wrap_a_ts_step + ucast (drop_bit 16 (wa_count w))"

definition wrap_a_header :: "wrap_a_conn \<Rightarrow> bytes" where
  "wrap_a_header w =
     [0x80 OR 0x20, wrap_a_payload_type AND 0x7f] @ be16 (wrap_a_seq w) @ be32 (wrap_a_ts w) @ be32 (wa_ssrc w)"

text \<open>
  \<^verbatim>\<open>WriteTo\<close> up to the write of the datagram. \<open>len_byte\<close> and \<open>fill n\<close> are the two reads of random bytes, the
  second of \<open>n\<close> bytes; the counter has moved by the time either can fail.
\<close>

definition wrap_a_write ::
  "crypto \<Rightarrow> wrap_a_conn \<Rightarrow> byte option \<Rightarrow> (nat \<Rightarrow> bytes option) \<Rightarrow> bytes
     \<Rightarrow> (wrap_error + bytes) \<times> wrap_a_conn" where
  "wrap_a_write c w len_byte fill payload =
     (if payload = [] then (Inl Empty_payload, w)
      else
        let w' = w\<lparr>wa_count := wa_count w + 1\<rparr> in
        case len_byte of
          None \<Rightarrow> (Inl No_random, w')
        | Some b \<Rightarrow>
            let padRand = unat b mod wrap_a_padding_max;
                padTotal = padRand + 1;
                outLen = wrap_a_rtp_hdr_len + length payload + aead_overhead + padTotal;
                hdr = wrap_a_header w;
                ct = cy_seal c (wrap_a_build_nonce (wa_ssrc w) (wrap_a_seq w) (wrap_a_ts w)) payload hdr
            in if wrap_a_max_packet < outLen then (Inl (Too_large outLen), w')
               else if padRand = 0 then (Inr (hdr @ ct @ [of_nat padTotal]), w')
               else case fill padRand of
                 None \<Rightarrow> (Inl No_random, w')
               | Some pad \<Rightarrow> (Inr (hdr @ ct @ pad @ [of_nat padTotal]), w'))"

definition wrap_a_unwrap :: "crypto \<Rightarrow> bytes \<Rightarrow> wrap_error + bytes" where
  "wrap_a_unwrap c wire =
     (if length wire < 13 \<or> drop_bit 6 (wire ! 0) \<noteq> 2 then Inl Bad_packet
      else
        let sq = be_val (gslice wire 2 4); ts = be_val (gslice wire 4 8); ssrc = be_val (gslice wire 8 12);
            padLen = (if wire ! 0 AND 0x20 \<noteq> 0 then unat (wire ! (length wire - 1)) else 0);
            payloadEnd = length wire - padLen
        in if wire ! 0 AND 0x20 \<noteq> 0 \<and> (padLen = 0 \<or> length wire - wrap_a_rtp_hdr_len < padLen)
           then Inl (Invalid_padding padLen)
           else if payloadEnd - wrap_a_rtp_hdr_len \<le> aead_overhead then Inl No_payload
           else case cy_open c (wrap_a_build_nonce ssrc sq ts) (gslice wire wrap_a_rtp_hdr_len payloadEnd)
                       (take wrap_a_rtp_hdr_len wire) of
             None \<Rightarrow> Inl Aead_open
           | Some plain \<Rightarrow> Inr plain)"

text \<open>\<^verbatim>\<open>ReadFrom\<close> over the datagrams that arrive: the first one that unwraps, and what is left.\<close>

fun wrap_a_read :: "crypto \<Rightarrow> bytes list \<Rightarrow> bytes option \<times> bytes list" where
  "wrap_a_read c [] = (None, [])"
| "wrap_a_read c (wire # ws) =
     (if \<not> wrap_a_is_rtp wire then wrap_a_read c ws
      else case wrap_a_unwrap c wire of
        Inl e \<Rightarrow> wrap_a_read c ws
      | Inr plain \<Rightarrow> (Some plain, ws))"

lemma wrap_a_header_fields:
  assumes "wire = wrap_a_header w @ rest"
  shows "wire ! 0 = 0xa0" "wire ! 1 = 111" "gslice wire 2 4 = be16 (wrap_a_seq w)"
    "gslice wire 4 8 = be32 (wrap_a_ts w)" "gslice wire 8 12 = be32 (wa_ssrc w)"
    "take 12 wire = wrap_a_header w"
  using assms by (simp_all add: wrap_a_header_def wrap_a_payload_type_def gslice_def numeral_eq_Suc)

lemma wrap_a_written:
  assumes "wrap_a_write c w len_byte fill payload = (Inr wire, w')"
    and "\<And>n xs. fill n = Some xs \<Longrightarrow> length xs = n"
  shows "\<exists>pad. payload \<noteq> [] \<and> length pad < 24
    \<and> wire = wrap_a_header w @ cy_seal c (wrap_a_build_nonce (wa_ssrc w) (wrap_a_seq w) (wrap_a_ts w)) payload
              (wrap_a_header w) @ pad @ [of_nat (length pad + 1)]
    \<and> length payload + length pad \<le> 2019 \<and> w' = w\<lparr>wa_count := wa_count w + 1\<rparr>"
proof -
  obtain b where ne: "payload \<noteq> []" and b: "len_byte = Some b"
    and sz: "length payload + unat b mod 24 \<le> 2019"
    using assms(1) by (auto simp: wrap_a_write_def Let_def wrap_a_consts split: if_splits option.splits)
  show ?thesis
  proof (cases "unat b mod 24 = 0")
    case True
    with assms(1) ne b sz show ?thesis
      by (intro exI [of _ "[]"]) (auto simp: wrap_a_write_def Let_def wrap_a_consts split: if_splits)
  next
    case False
    then obtain pad where p: "fill (unat b mod 24) = Some pad"
      using assms(1) ne b by (auto simp: wrap_a_write_def Let_def wrap_a_consts split: if_splits option.splits)
    have "length pad = unat b mod 24" using assms(2) [OF p] .
    moreover have "unat b mod 24 < 24" by simp
    ultimately show ?thesis
      using assms(1) ne b sz p False
      by (intro exI [of _ pad]) (auto simp: wrap_a_write_def Let_def wrap_a_consts split: if_splits)
  qed
qed

lemma wrap_a_unwrap_written:
  assumes "crypto_ok c" and "wrap_a_write c w len_byte fill payload = (Inr wire, w')"
    and "\<And>n xs. fill n = Some xs \<Longrightarrow> length xs = n"
  shows "wrap_a_unwrap c wire = Inr payload \<and> wrap_a_is_rtp wire \<and> length wire \<le> 2048"
proof -
  let ?ct = "cy_seal c (wrap_a_build_nonce (wa_ssrc w) (wrap_a_seq w) (wrap_a_ts w)) payload (wrap_a_header w)"
  obtain pad where ne: "payload \<noteq> []" and pad: "length pad < 24"
    and wire: "wire = wrap_a_header w @ ?ct @ pad @ [of_nat (length pad + 1)]"
    and size: "length payload + length pad \<le> 2019"
    using wrap_a_written [OF assms(2,3)] by blast
  note f = wrap_a_header_fields [OF wire]
  have ct: "length ?ct = length payload + 16" and hdr: "length (wrap_a_header w) = 12"
    using assms(1) by (simp_all add: crypto_ok_def wrap_a_header_def)
  have len: "length wire = 12 + (length payload + 16) + length pad + 1" using wire ct hdr by simp
  have last: "wire ! (length wire - 1) = of_nat (length pad + 1)"
  proof -
    have "wire = (wrap_a_header w @ ?ct @ pad) @ [of_nat (length pad + 1)]" using wire by simp
    then show ?thesis by (metis length_append_singleton diff_Suc_1 nth_append_length)
  qed
  have pl: "unat (of_nat (length pad + 1) :: byte) = length pad + 1"
    using pad by (simp add: unsigned_of_nat take_bit_nat_eq_self del: of_nat_add of_nat_Suc)
  have body: "gslice wire 12 (12 + (length payload + 16)) = ?ct"
    using wire ct hdr by (simp add: gslice_def)
  have tp: "wire ! 0 AND 0x20 = 0x20" "drop_bit 6 (wire ! 0) = 2" "wire ! 1 AND 0x7f = 111"
    using f(1,2) by simp_all
  have nonce: "wrap_a_build_nonce (be_val (gslice wire 8 12)) (be_val (gslice wire 2 4)) (be_val (gslice wire 4 8))
      = wrap_a_build_nonce (wa_ssrc w) (wrap_a_seq w) (wrap_a_ts w)"
    using f(3-5) by simp
  have pe: "length wire - (length pad + 1) = 12 + (length payload + 16)" using len by simp
  have "wrap_a_unwrap c wire = Inr payload"
    using tp last pl pe nonce body f(6) ne len assms(1)
    by (simp add: wrap_a_unwrap_def Let_def wrap_a_consts crypto_ok_def)
  then show ?thesis using tp len size by (simp add: wrap_a_is_rtp_def wrap_a_payload_type_def)
qed

text \<open>
   A WRAP-A datagram unwraps to the payload it was made from, whatever padding was drawn; it passes
  the receiver's RTP test and fits its buffer.
\<close>

theorem wrap_a_roundtrip:
  assumes "crypto_ok c" and "wrap_a_write c w len_byte fill payload = (Inr wire, w')"
    and "\<And>n xs. fill n = Some xs \<Longrightarrow> length xs = n"
  shows "wrap_a_unwrap c wire = Inr payload \<and> wrap_a_is_rtp wire \<and> length wire \<le> 2048"
  using assms by (rule wrap_a_unwrap_written)

definition wrap_a0 :: wrap_a_conn where
  "wrap_a0 = \<lparr>wa_ssrc = 1, wa_init_seq = 65535, wa_init_ts = 7, wa_count = 0\<rparr>"

theorem wrap_a_roundtrip_witness:
  "\<exists>wire. fst (wrap_a_write plain_crypto wrap_a0 (Some 5) (\<lambda>n. Some (replicate n 9)) [1, 2, 3]) = Inr wire
     \<and> wrap_a_unwrap plain_crypto wire = Inr [1, 2, 3]"
proof -
  obtain wire w' where w: "wrap_a_write plain_crypto wrap_a0 (Some 5) (\<lambda>n. Some (replicate n 9)) [1, 2, 3] = (Inr wire, w')"
    by (simp add: wrap_a_write_def Let_def wrap_a_consts)
  from wrap_a_roundtrip [OF plain_crypto_ok w] w show ?thesis by auto
qed

section \<open>The implicit nonces of WRAP-A\<close>

definition wrap_a_nonce_at :: "wrap_a_conn \<Rightarrow> u64 \<Rightarrow> bytes" where
  "wrap_a_nonce_at w k =
     (let w = w\<lparr>wa_count := k\<rparr> in wrap_a_build_nonce (wa_ssrc w) (wrap_a_seq w) (wrap_a_ts w))"

text \<open>The nonce a receiver reads off a datagram.\<close>

definition wrap_a_wire_nonce :: "bytes \<Rightarrow> bytes" where
  "wrap_a_wire_nonce wire = wrap_a_build_nonce (be_val (gslice wire 8 12)) (be_val (gslice wire 2 4)) (be_val (gslice wire 4 8))"

text \<open>
  The timestamp of packet \<open>k\<close> in terms of the low 16 bits of \<open>k\<close> and the 32 above them: their factor,
  960 * 65536 + 1, is odd, so the sum tells them apart.
\<close>

lemma count_split:
  "ucast (k :: u64) = (ucast (drop_bit 16 k) * 65536 + ucast (ucast k :: u16) :: u32)"
proof -
  have "ucast k = (push_bit 16 (ucast (drop_bit 16 k)) OR ucast (ucast k :: u16) :: u32)"
    by (rule bit_word_eqI) (auto simp: bit_simps)
  also have "\<dots> = push_bit 16 (ucast (drop_bit 16 k)) + ucast (ucast k :: u16)"
    by (rule disjunctive_add [symmetric]) (auto simp: bit_simps)
  also have "push_bit 16 (ucast (drop_bit 16 k)) = (ucast (drop_bit 16 k) * 65536 :: u32)"
    by (simp add: push_bit_eq_mult mult.commute)
  finally show ?thesis .
qed

lemma ts_split:
  "wrap_a_ts (w\<lparr>wa_count := k\<rparr>) =
     wa_init_ts w + (62914561 * ucast (drop_bit 16 k) + 960 * ucast (ucast k :: u16))"
  by (simp add: wrap_a_ts_def wrap_a_ts_step_def count_split [of k] algebra_simps)

lemma odd_factor: "62914561 * a = 62914561 * b \<longleftrightarrow> a = (b :: u32)"
proof
  have inv: "4232052737 * 62914561 = (1 :: u32)" by simp
  have undo: "4232052737 * (62914561 * c) = (c :: u32)" for c
    by (simp only: mult.assoc [symmetric] inv mult_1_left)
  assume "62914561 * a = 62914561 * b"
  then show "a = b" using undo by metis
qed simp

lemma take_bit_split:
  "take_bit 48 k = take_bit 48 (l :: u64) \<longleftrightarrow>
     (ucast k :: u16) = ucast l \<and> (ucast (drop_bit 16 k) :: u32) = ucast (drop_bit 16 l)"
proof -
  have low: "(ucast k :: u16) = ucast l \<longleftrightarrow> (\<forall>i<16. bit k i = bit l i)"
    by (auto simp: bit_eq_iff bit_simps)
  have high: "(ucast (drop_bit 16 k) :: u32) = ucast (drop_bit 16 l) \<longleftrightarrow> (\<forall>i<32. bit k (16 + i) = bit l (16 + i))"
    by (auto simp: bit_eq_iff bit_simps)
  have "bit k i = bit l i"
    if "\<forall>i<16. bit k i = bit l i" and "\<forall>i<32. bit k (16 + i) = bit l (16 + i)" and "i < 48" for i
    using that by (cases "i < 16") (auto dest: spec [of _ "i - 16"])
  then have "(\<forall>i<16. bit k i = bit l i) \<and> (\<forall>i<32. bit k (16 + i) = bit l (16 + i)) \<longleftrightarrow> (\<forall>i<48. bit k i = bit l i)"
    by auto
  moreover have "take_bit 48 k = take_bit 48 l \<longleftrightarrow> (\<forall>i<48. bit k i = bit l i)"
  proof
    assume "take_bit 48 k = take_bit 48 l"
    then have "bit (take_bit 48 k) i = bit (take_bit 48 l) i" for i by simp
    then show "\<forall>i<48. bit k i = bit l i" by (auto simp: bit_take_bit_iff)
  next
    assume h: "\<forall>i<48. bit k i = bit l i"
    show "take_bit 48 k = take_bit 48 l"
      by (rule bit_word_eqI) (use h in \<open>auto simp: bit_take_bit_iff\<close>)
  qed
  ultimately show ?thesis using low high by simp
qed

lemma wrap_a_nonce_eq: "wrap_a_nonce_at w k = wrap_a_nonce_at w l \<longleftrightarrow> take_bit 48 k = take_bit 48 l"
proof -
  have "wrap_a_nonce_at w k = wrap_a_nonce_at w l \<longleftrightarrow>
      wrap_a_seq (w\<lparr>wa_count := k\<rparr>) = wrap_a_seq (w\<lparr>wa_count := l\<rparr>)
      \<and> wrap_a_ts (w\<lparr>wa_count := k\<rparr>) = wrap_a_ts (w\<lparr>wa_count := l\<rparr>)"
    by (simp add: wrap_a_nonce_at_def Let_def wrap_a_build_nonce_def be_bytes_inj)
  also have "\<dots> \<longleftrightarrow> (ucast k :: u16) = ucast l \<and> (ucast (drop_bit 16 k) :: u32) = ucast (drop_bit 16 l)"
    using odd_factor by (auto simp: wrap_a_seq_def ts_split)
  finally show ?thesis by (simp add: take_bit_split)
qed

text \<open>A run of writes; a failed one sends nothing.\<close>

fun wrap_a_session ::
  "crypto \<Rightarrow> wrap_a_conn \<Rightarrow> (byte option \<times> (nat \<Rightarrow> bytes option) \<times> bytes) list \<Rightarrow> bytes list" where
  "wrap_a_session c w [] = []"
| "wrap_a_session c w ((b, f, p) # es) =
     (case wrap_a_write c w b f p of
        (Inl e, w') \<Rightarrow> wrap_a_session c w' es
      | (Inr wire, w') \<Rightarrow> wire # wrap_a_session c w' es)"

lemma wrap_a_failed: "wrap_a_write c w b f p = (Inl e, w') \<Longrightarrow> w' = w \<or> w' = w\<lparr>wa_count := wa_count w + 1\<rparr>"
  by (auto simp: wrap_a_write_def Let_def split: if_splits option.splits)

lemma wrap_a_sent:
  assumes "wrap_a_write c w b f p = (Inr wire, w')"
  shows "w' = w\<lparr>wa_count := wa_count w + 1\<rparr> \<and> wrap_a_wire_nonce wire = wrap_a_nonce_at w (wa_count w)"
proof -
  have w': "w' = w\<lparr>wa_count := wa_count w + 1\<rparr>" and "\<exists>rest. wire = wrap_a_header w @ rest"
    using assms by (auto simp: wrap_a_write_def Let_def split: if_splits option.splits)
  then obtain rest where "wire = wrap_a_header w @ rest" by blast
  note f = wrap_a_header_fields [OF this]
  have "w\<lparr>wa_count := wa_count w\<rparr> = w" by simp
  with w' f(3-5) show ?thesis
    by (simp add: wrap_a_wire_nonce_def wrap_a_nonce_at_def Let_def)
qed

lemma wrap_a_counts:
  "\<exists>ks. sorted_wrt (<) ks \<and> (\<forall>k \<in> set ks. k < length es) \<and>
     map wrap_a_wire_nonce (wrap_a_session c w es) = map (\<lambda>k. wrap_a_nonce_at w (wa_count w + of_nat k)) ks"
proof (induction es arbitrary: w)
  case (Cons e es)
  obtain b f p where e: "e = (b, f, p)" by (rule prod_cases3)
  obtain r w' where r: "wrap_a_write c w b f p = (r, w')" by (rule prod.exhaust)
  have frame: "wrap_a_nonce_at (w\<lparr>wa_count := n\<rparr>) k = wrap_a_nonce_at w k" for n k
    by (simp add: wrap_a_nonce_at_def wrap_a_seq_def wrap_a_ts_def)
  obtain ks where ks: "sorted_wrt (<) ks" "\<forall>k \<in> set ks. k < length es"
    "map wrap_a_wire_nonce (wrap_a_session c w' es) = map (\<lambda>k. wrap_a_nonce_at w' (wa_count w' + of_nat k)) ks"
    using Cons.IH by blast
  have up: "map wrap_a_wire_nonce (wrap_a_session c w' es)
      = map (\<lambda>k. wrap_a_nonce_at w (wa_count w + of_nat k)) (map Suc ks)"
    if "w' = w\<lparr>wa_count := wa_count w + 1\<rparr>"
    using ks(3) by (simp add: that frame add.assoc)
  have sk: "sorted_wrt (<) (map Suc ks)" "\<forall>k \<in> set (map Suc ks). k < length (e # es)"
    using ks by (auto simp: sorted_wrt_map)
  show ?case
  proof (cases r)
    case (Inl err)
    with wrap_a_failed r have "w' = w \<or> w' = w\<lparr>wa_count := wa_count w + 1\<rparr>" by blast
    moreover have "wrap_a_session c w (e # es) = wrap_a_session c w' es" using e r Inl by simp
    ultimately show ?thesis using ks up sk less_SucI by (metis length_Cons)
  next
    case (Inr wire)
    note s = wrap_a_sent [OF r [unfolded Inr]]
    have "map wrap_a_wire_nonce (wrap_a_session c w (e # es))
        = map (\<lambda>k. wrap_a_nonce_at w (wa_count w + of_nat k)) (0 # map Suc ks)"
      using e r Inr s up by simp
    moreover have "sorted_wrt (<) (0 # map Suc ks)" using sk by simp
    ultimately show ?thesis using sk by (intro exI [of _ "0 # map Suc ks"]) auto
  qed
qed simp

lemma take_bit_cancel_int: "take_bit m (a + b) = take_bit m (a + c) \<Longrightarrow> take_bit m b = take_bit m (c :: int)"
  by (metis minus_add_cancel take_bit_add)

lemma take_bit_cancel:
  assumes "take_bit n (a + b) = take_bit n (a + c :: 'a::len word)"
  shows "take_bit n b = take_bit n c"
proof -
  let ?m = "min n LENGTH('a)"
  have sum: "uint (take_bit n (a + x)) = take_bit ?m (uint a + uint x)" for x
    by (simp add: unsigned_take_bit_eq uint_word_arith_bintrs)
  have one: "uint (take_bit n x) = take_bit ?m (uint x)" for x :: "'a word"
    by (cases "n \<le> LENGTH('a)")
      (simp_all add: unsigned_take_bit_eq min_def take_bit_word_beyond_length_eq bintr_uint)
  have "take_bit ?m (uint a + uint b) = take_bit ?m (uint a + uint c)"
    using arg_cong [OF assms, of uint] by (simp only: sum)
  then have "uint (take_bit n b) = uint (take_bit n c)"
    by (simp only: one) (rule take_bit_cancel_int)
  then show ?thesis by (rule unsigned_word_eqI)
qed

lemma unat_take_48:
  assumes "n < 2 ^ 48" shows "unat (take_bit 48 (of_nat n :: u64)) = n"
proof -
  have "n < 2 ^ 64" using assms by (rule less_le_trans) simp
  then have "unat (of_nat n :: u64) = n" by (simp add: unsigned_of_nat take_bit_nat_eq_self)
  with assms show ?thesis by (simp only: unsigned_take_bit_eq take_bit_nat_eq_self)
qed

lemma wrap_a_distinct:
  assumes "length es \<le> 2 ^ 48"
  shows "distinct (map wrap_a_wire_nonce (wrap_a_session c w es))"
proof -
  obtain ks where ks: "sorted_wrt (<) ks" "\<forall>k \<in> set ks. k < length es"
    "map wrap_a_wire_nonce (wrap_a_session c w es) = map (\<lambda>k. wrap_a_nonce_at w (wa_count w + of_nat k)) ks"
    using wrap_a_counts by blast
  have "inj_on (\<lambda>k. wrap_a_nonce_at w (wa_count w + of_nat k)) (set ks)"
  proof (rule inj_onI)
    fix i j assume ij: "i \<in> set ks" "j \<in> set ks"
      and eq: "wrap_a_nonce_at w (wa_count w + of_nat i) = wrap_a_nonce_at w (wa_count w + of_nat j)"
    have lt: "i < 2 ^ 48" "j < 2 ^ 48" using ij ks(2) assms by auto
    have "take_bit 48 (wa_count w + of_nat i) = take_bit 48 (wa_count w + (of_nat j :: u64))"
      using eq by (simp only: wrap_a_nonce_eq)
    then have "take_bit 48 (of_nat i :: u64) = take_bit 48 (of_nat j)"
      by (rule take_bit_cancel)
    then have "unat (take_bit 48 (of_nat i :: u64)) = unat (take_bit 48 (of_nat j :: u64))" by (rule arg_cong)
    then show "i = j" using lt by (simp only: unat_take_48)
  qed
  moreover have "distinct ks" using ks(1) by (simp add: strict_sorted_iff)
  ultimately show ?thesis using ks(3) by (simp add: distinct_map)
qed

text \<open>
   The nonces of WRAP-A, which a receiver computes from the visible RTP fields, do not repeat within
  2 to the 48 writes of a connection: the carry of the packet counter into the timestamp is what makes
  them differ when the 16-bit sequence number comes round.
\<close>

theorem wrap_a_nonces_distinct:
  assumes "length es \<le> 2 ^ 48"
  shows "distinct (map wrap_a_wire_nonce (wrap_a_session c w es))"
  using assms by (rule wrap_a_distinct)

theorem wrap_a_nonces_distinct_witness:
  "distinct (map wrap_a_wire_nonce (wrap_a_session plain_crypto wrap_a0
     [(Some 0, \<lambda>n. None, [1]), (None, \<lambda>n. None, [2]), (Some 1, \<lambda>n. Some (replicate n 0), [3])]))"
  by (rule wrap_a_nonces_distinct) simp

end
