(* ===== verification/RxReorder.thy ===== *)
theory RxReorder
  imports Liveness
begin

unbundle bit_operations_syntax

text \<open>
  The downlink reorder instrument, \<^verbatim>\<open>src/pkg/proxy/rxreorder.go\<close>: it reads the WireGuard counter of every
  transport message on its way into WireGuard and counts displacement, duplication and staleness per
  keypair, with a bitmap ring of 8128 counters. The loop that clears the bits the window slides over
  is a \<^verbatim>\<open>partial_function\<close>: \<open>None\<close> means that the call does not return.
\<close>

section \<open>Constants and state\<close>

definition rx_msg_type_transport :: byte where
  "rx_msg_type_transport = 4"

definition rx_transport_hdr_len :: nat where
  "rx_transport_hdr_len = 16"

definition rx_depth_buckets :: nat where
  "rx_depth_buckets = 1024"

definition rx_late_buckets :: nat where
  "rx_late_buckets = 512"

definition rx_dup_window :: u64 where
  "rx_dup_window = 8128"

definition rx_peer_idle :: duration where
  "rx_peer_idle = 60 * second"

definition rx_max_peers :: nat where
  "rx_max_peers = 64"

lemmas rx_consts = rx_depth_buckets_def rx_late_buckets_def rx_dup_window_def rx_max_peers_def

record rx_peer =
  rp_max :: u64
  rp_max_at :: time
  rp_seen :: "u64 list"
  rp_last :: time

definition new_rx_peer :: "time \<Rightarrow> rx_peer" where
  "new_rx_peer now = \<lparr>rp_max = 0, rp_max_at = 0, rp_seen = replicate 127 0, rp_last = now\<rparr>"

section \<open>The bitmap ring\<close>

definition ring_index :: "u64 \<Rightarrow> nat" where
  "ring_index x = unat (x mod rx_dup_window)"

definition ring_bit :: "u64 list \<Rightarrow> u64 \<Rightarrow> bool" where
  "ring_bit seen x = bit (seen ! (ring_index x div 64)) (ring_index x mod 64)"

definition ring_set :: "u64 \<Rightarrow> u64 list \<Rightarrow> u64 list" where
  "ring_set x seen = seen[ring_index x div 64 :=
     seen ! (ring_index x div 64) OR push_bit (ring_index x mod 64) 1]"

definition ring_clear :: "u64 \<Rightarrow> u64 list \<Rightarrow> u64 list" where
  "ring_clear x seen = seen[ring_index x div 64 :=
     seen ! (ring_index x div 64) AND NOT (push_bit (ring_index x mod 64) 1)]"

text \<open>\<^verbatim>\<open>for x := p.max + 1; x <= c; x++\<close>, on 64-bit words.\<close>

partial_function (option) clear_from :: "u64 \<Rightarrow> u64 \<Rightarrow> u64 list \<Rightarrow> u64 list option" where
  "clear_from x c seen = (if x \<le> c then clear_from (x + 1) c (ring_clear x seen) else Some seen)"

declare clear_from.simps [code]

text \<open>\<^verbatim>\<open>mark\<close>: whether the counter is a duplicate, whether it is stale, the new state.\<close>

definition mark :: "rx_peer \<Rightarrow> u64 \<Rightarrow> (bool \<times> bool \<times> rx_peer) option" where
  "mark p c =
     (if rp_max p < c then
        (let gap = c - rp_max p in
         case (if rx_dup_window \<le> gap then Some (map (\<lambda>_. 0) (rp_seen p))
               else clear_from (rp_max p + 1) c (rp_seen p)) of
           None \<Rightarrow> None
         | Some seen \<Rightarrow> Some (False, False, p\<lparr>rp_seen := ring_set c seen\<rparr>))
      else if rx_dup_window \<le> rp_max p - c then Some (False, True, p)
      else if ring_bit (rp_seen p) c then Some (True, False, p)
      else Some (False, False, p\<lparr>rp_seen := ring_set c (rp_seen p)\<rparr>))"

section \<open>The instrument\<close>

record rx_stats =
  rs_peers :: "(u32, rx_peer) mapping"
  rs_total :: int
  rs_displaced :: int
  rs_dup :: int
  rs_stale :: int
  rs_rekeys :: int
  rs_refused :: int
  rs_depth :: "int list"
  rs_late :: "int list"
  rs_max_depth :: u64
  rs_max_late :: duration

definition new_rx_stats :: rx_stats where
  "new_rx_stats = \<lparr>rs_peers = Mapping.empty, rs_total = 0, rs_displaced = 0, rs_dup = 0, rs_stale = 0,
     rs_rekeys = 0, rs_refused = 0, rs_depth = replicate (rx_depth_buckets + 1) 0,
     rs_late = replicate (rx_late_buckets + 1) 0, rs_max_depth = 0, rs_max_late = 0\<rparr>"

definition bump :: "nat \<Rightarrow> int list \<Rightarrow> int list" where
  "bump i xs = xs[i := xs ! i + 1]"

definition depth_bucket :: "u64 \<Rightarrow> nat" where
  "depth_bucket d = (if of_nat rx_depth_buckets < d then rx_depth_buckets else unat d)"

definition late_bucket :: "duration \<Rightarrow> nat" where
  "late_bucket late =
     (let ms = (if late < 0 then 0 else late div millisecond)
      in if int rx_late_buckets < ms then rx_late_buckets else nat ms)"

text \<open>What a packet of a keypair already tracked is, and the keypair afterwards.\<close>

datatype rx_kind = Rx_newest | Rx_displaced u64 | Rx_dup | Rx_stale

definition classify_counter :: "time \<Rightarrow> u64 \<Rightarrow> rx_peer \<Rightarrow> (rx_kind \<times> rx_peer) option" where
  "classify_counter now c p0 =
     (let p = p0\<lparr>rp_last := now\<rparr> in
      case mark p c of
        None \<Rightarrow> None
      | Some (dup, stale, p') \<Rightarrow>
          Some (if dup then (Rx_dup, p')
                else if stale then (Rx_stale, p')
                else if rp_max p' < c then (Rx_newest, p'\<lparr>rp_max := c, rp_max_at := now\<rparr>)
                else (Rx_displaced (rp_max p' - c), p')))"

definition count_kind :: "time \<Rightarrow> rx_peer \<Rightarrow> rx_kind \<Rightarrow> rx_stats \<Rightarrow> rx_stats" where
  "count_kind now p k s = (case k of
     Rx_dup \<Rightarrow> s\<lparr>rs_dup := rs_dup s + 1\<rparr>
   | Rx_stale \<Rightarrow> s\<lparr>rs_stale := rs_stale s + 1\<rparr>
   | Rx_newest \<Rightarrow> s
   | Rx_displaced d \<Rightarrow>
       (let late = time_sub now (rp_max_at p) in
        s\<lparr>rs_displaced := rs_displaced s + 1, rs_max_depth := max (rs_max_depth s) d,
          rs_depth := bump (depth_bucket d) (rs_depth s),
          rs_max_late := max (rs_max_late s) late, rs_late := bump (late_bucket late) (rs_late s)\<rparr>))"

definition observe :: "bool \<Rightarrow> bytes \<Rightarrow> time \<Rightarrow> rx_stats \<Rightarrow> rx_stats option" where
  "observe enabled pkt now s =
     (if \<not> enabled \<or> length pkt < rx_transport_hdr_len \<or> pkt ! 0 \<noteq> rx_msg_type_transport then Some s
      else
        let idx = le_val (gslice pkt 4 8); ctr = le_val (gslice pkt 8 16) in
        case Mapping.lookup (rs_peers s) idx of
          None \<Rightarrow>
            if rx_max_peers \<le> Mapping.size (rs_peers s) then Some (s\<lparr>rs_refused := rs_refused s + 1\<rparr>)
            else (case mark ((new_rx_peer now)\<lparr>rp_max := ctr, rp_max_at := now\<rparr>) ctr of
                    None \<Rightarrow> None
                  | Some (_, _, p) \<Rightarrow>
                      Some (s\<lparr>rs_peers := Mapping.update idx p (rs_peers s),
                              rs_rekeys := rs_rekeys s + 1, rs_total := rs_total s + 1\<rparr>))
        | Some p \<Rightarrow>
            (case classify_counter now ctr p of
               None \<Rightarrow> None
             | Some (k, p') \<Rightarrow>
                 Some (count_kind now p' k
                   (s\<lparr>rs_peers := Mapping.update idx p' (rs_peers s), rs_total := rs_total s + 1\<rparr>))))"

text \<open>
  \<^verbatim>\<open>rxHistPct\<close>; \<open>want\<close> is the rank \<^verbatim>\<open>math.Ceil(frac * float64(total))\<close>, which the caller computes in
  floating point.
\<close>

fun hist_rank :: "int \<Rightarrow> int list \<Rightarrow> nat \<Rightarrow> nat option" where
  "hist_rank want [] i = None"
| "hist_rank want (c # h) i = (if want \<le> c then Some i else hist_rank (want - c) h (Suc i))"

definition hist_pct :: "int list \<Rightarrow> int \<Rightarrow> int \<Rightarrow> int" where
  "hist_pct h tot want0 =
     (if tot = 0 then -1
      else let want = (if want0 < 1 then 1 else want0) in
        case hist_rank want h 0 of Some i \<Rightarrow> int i | None \<Rightarrow> int (length h) - 1)"

definition dump_and_reset :: "bool \<Rightarrow> time \<Rightarrow> rx_stats \<Rightarrow> rx_stats" where
  "dump_and_reset enabled now s =
     (if \<not> enabled then s
      else s\<lparr>rs_total := 0, rs_displaced := 0, rs_dup := 0, rs_stale := 0, rs_rekeys := 0, rs_refused := 0,
             rs_max_depth := 0, rs_max_late := 0, rs_depth := map (\<lambda>_. 0) (rs_depth s),
             rs_late := map (\<lambda>_. 0) (rs_late s),
             rs_peers := Mapping.filter (\<lambda>_ p. time_sub now (rp_last p) \<le> rx_peer_idle) (rs_peers s)\<rparr>)"

section \<open>The ring\<close>

lemma ring_index_less: "ring_index x < 8128"
  using unat_mod [of x rx_dup_window] by (simp add: ring_index_def rx_dup_window_def)

lemma ring_index_unat: "ring_index x = unat x mod 8128"
  by (simp add: ring_index_def unat_mod rx_dup_window_def)

lemma ring_index_eq:
  "ring_index x = ring_index y \<longleftrightarrow> ring_index x div 64 = ring_index y div 64 \<and> ring_index x mod 64 = ring_index y mod 64"
  by (metis div_mult_mod_eq)

lemma length_ring [simp]: "length (ring_set x seen) = length seen" "length (ring_clear x seen) = length seen"
  by (simp_all add: ring_set_def ring_clear_def)

lemma ring_word: "ring_index x div 64 < 127"
  using ring_index_less [of x] by (simp add: less_mult_imp_div_less)

lemma ring_bit_set:
  assumes "length seen = 127"
  shows "ring_bit (ring_set x seen) y \<longleftrightarrow> ring_index x = ring_index y \<or> ring_bit seen y"
  using assms ring_word [of x] ring_index_eq [of x y]
  by (auto simp: ring_bit_def ring_set_def nth_list_update bit_simps)

lemma ring_bit_clear:
  assumes "length seen = 127"
  shows "ring_bit (ring_clear x seen) y \<longleftrightarrow> ring_index x \<noteq> ring_index y \<and> ring_bit seen y"
  using assms ring_word [of x] ring_index_eq [of x y]
  by (auto simp: ring_bit_def ring_clear_def nth_list_update bit_simps)

text \<open>Two counters less than a window apart have different places.\<close>

lemma ring_index_apart:
  assumes "x < y" and "y - x < rx_dup_window" shows "ring_index x \<noteq> ring_index y"
proof
  assume "ring_index x = ring_index y"
  then have "unat x mod 8128 = unat y mod 8128" by (simp add: ring_index_unat)
  moreover have lt: "unat x < unat y" and d: "unat y - unat x < 8128"
    using assms unat_sub [of x y] by (simp_all add: word_less_nat_alt word_le_nat_alt rx_dup_window_def)
  ultimately have "8128 dvd unat y - unat x" by (metis mod_eq_dvd_iff_nat less_imp_le)
  with lt d show False by (auto dest: dvd_imp_le)
qed

section \<open>When the clearing loop returns\<close>

lemma clear_from_not_top:
  assumes "clear_from x c seen = Some r" shows "c \<noteq> - 1"
proof -
  have "(\<lambda>x c seen r. c \<noteq> - 1) x c seen r"
    by (rule clear_from.raw_induct [where xa = "((x, c), seen)" and P = "\<lambda>x c seen r. c \<noteq> - 1", simplified])
      (auto simp: assms split: if_splits)
  then show ?thesis by simp
qed

lemma clear_from_top: "clear_from x (- 1) seen = None"
  using clear_from_not_top by (cases "clear_from x (- 1) seen") auto

lemma unat_succ:
  assumes "x \<noteq> - 1" shows "unat (x + 1 :: u64) = unat x + 1"
proof -
  have nz: "x + 1 \<noteq> 0" using assms by (metis add_diff_cancel_right' diff_0)
  have "unat x = unat (x + 1) - 1" using unat_minus_one [OF nz] by simp
  moreover have "0 < unat (x + 1)" using nz by (simp add: unat_gt_0)
  ultimately show ?thesis by linarith
qed

lemma clear_from_spec:
  assumes "c \<noteq> - 1" and "length seen = 127"
  shows "\<exists>seen'. clear_from x c seen = Some seen' \<and> length seen' = 127
    \<and> (\<forall>y. ring_bit seen' y \<longleftrightarrow> ring_bit seen y \<and> (\<forall>z. x \<le> z \<and> z \<le> c \<longrightarrow> ring_index z \<noteq> ring_index y))"
  using assms(2)
proof (induction "unat c + 1 - unat x" arbitrary: x seen)
  case 0
  then have "c < x" by (simp add: word_less_nat_alt)
  then have "\<not> x \<le> c" by (simp add: not_le)
  then have "clear_from x c seen = Some seen" by (subst clear_from.simps) simp
  with \<open>c < x\<close> 0 show ?case by (auto dest: order_trans)
next
  case (Suc n)
  then have le: "x \<le> c" by (simp add: word_le_nat_alt)
  then have "x \<noteq> - 1" using assms(1) word_order.extremum_uniqueI by blast
  then have up: "unat (x + 1) = unat x + 1" by (rule unat_succ)
  then have n: "n = unat c + 1 - unat (x + 1)" using Suc(2) by simp
  have step: "clear_from x c seen = clear_from (x + 1) c (ring_clear x seen)"
    using le by (subst clear_from.simps) simp
  have split: "x \<le> z \<longleftrightarrow> z = x \<or> x + 1 \<le> z" for z
    using up by (simp add: word_le_nat_alt word_unat_eq_iff) linarith
  from Suc(1) [OF n, of "ring_clear x seen"] Suc(3) le step split show ?case
    by (auto simp: ring_bit_clear)
qed

section \<open>The ring refines the set of counters seen\<close>

text \<open>
  What the instrument promises, on the whole history of a keypair: a counter above all earlier ones is
  the newest, one that lies a window or more behind cannot be classified, one that occurred before is
  a duplicate, and any other is displaced by its distance to the largest.
\<close>

definition spec_kind :: "u64 list \<Rightarrow> u64 \<Rightarrow> rx_kind" where
  "spec_kind h c =
     (let m = fold max h 0 in
      if m < c then Rx_newest
      else if rx_dup_window \<le> m - c then Rx_stale
      else if c \<in> set h then Rx_dup
      else Rx_displaced (m - c))"

definition rx_rel :: "rx_peer \<Rightarrow> u64 list \<Rightarrow> bool" where
  "rx_rel p h \<longleftrightarrow> length (rp_seen p) = 127 \<and> h \<noteq> [] \<and> rp_max p = fold max h 0
     \<and> (\<forall>y\<in>set h. y \<le> rp_max p)
     \<and> (\<forall>y. y \<le> rp_max p \<longrightarrow> rp_max p - y < rx_dup_window \<longrightarrow> (ring_bit (rp_seen p) y \<longleftrightarrow> y \<in> set h))"

lemma rx_relD:
  assumes "rx_rel p h"
  shows "length (rp_seen p) = 127" and "h \<noteq> []" and "fold max h 0 = rp_max p"
    and "y \<in> set h \<Longrightarrow> y \<le> rp_max p"
    and "y \<le> rp_max p \<Longrightarrow> rp_max p - y < rx_dup_window \<Longrightarrow> ring_bit (rp_seen p) y \<longleftrightarrow> y \<in> set h"
  using assms by (auto simp: rx_rel_def)

lemma ring_bit_zero: "ring_bit (map (\<lambda>_. 0) seen) y \<longleftrightarrow> False" if "length seen = 127"
  using that ring_word [of y] by (simp add: ring_bit_def)

lemma ring_index_inj:
  assumes "y \<le> m" and "m - y < rx_dup_window" and "z \<le> m" and "m - z < rx_dup_window"
  shows "ring_index y = ring_index z \<longleftrightarrow> y = z"
proof -
  have *: "ring_index u \<noteq> ring_index v" if "u < v" "v \<le> m" "m - u < rx_dup_window" for u v
  proof (rule ring_index_apart [OF that(1)])
    have "v - u \<le> m - u" using that unat_sub [of u v] unat_sub [of u m]
      by (simp add: word_le_nat_alt word_less_nat_alt)
    then show "v - u < rx_dup_window" using that(3) by (rule le_less_trans)
  qed
  show ?thesis using * [of y z] * [of z y] assms by (cases y z rule: linorder_cases) auto
qed

text \<open>A counter above the maximum.\<close>

lemma clear_window:
  assumes rel: "rx_rel p h" and up: "rp_max p < c" and top: "c \<noteq> - 1"
  shows "\<exists>seen. mark p c = Some (False, False, p\<lparr>rp_seen := seen\<rparr>) \<and> length seen = 127
    \<and> (\<forall>y. y \<le> c \<longrightarrow> c - y < rx_dup_window \<longrightarrow> (ring_bit seen y \<longleftrightarrow> y = c \<or> y \<in> set h))"
proof (cases "rx_dup_window \<le> c - rp_max p")
  case True
  have far: "y \<notin> set h" if "y \<le> c" "c - y < rx_dup_window" for y
  proof
    assume "y \<in> set h"
    then have "c - rp_max p \<le> c - y"
      using rx_relD(4) [OF rel, of y] up that(1) unat_sub [of y c] unat_sub [of "rp_max p" c]
      by (simp add: word_le_nat_alt word_less_nat_alt)
    with True that(2) show False by simp
  qed
  let ?seen = "ring_set c (map (\<lambda>_. 0) (rp_seen p))"
  have "ring_bit ?seen y \<longleftrightarrow> y = c \<or> y \<in> set h" if "y \<le> c" "c - y < rx_dup_window" for y
    using that far [OF that] ring_index_inj [of y c c] rx_relD(1) [OF rel]
    by (auto simp: ring_bit_set ring_bit_zero rx_dup_window_def)
  moreover have "mark p c = Some (False, False, p\<lparr>rp_seen := ?seen\<rparr>)"
    using up True by (simp add: mark_def)
  ultimately show ?thesis using rx_relD(1) [OF rel] by auto
next
  case False
  obtain seen where clear: "clear_from (rp_max p + 1) c (rp_seen p) = Some seen" and len: "length seen = 127"
    and bits: "\<forall>y. ring_bit seen y \<longleftrightarrow> ring_bit (rp_seen p) y
      \<and> (\<forall>z. rp_max p + 1 \<le> z \<and> z \<le> c \<longrightarrow> ring_index z \<noteq> ring_index y)"
    using clear_from_spec [OF top rx_relD(1) [OF rel]] by blast
  have "rp_max p \<noteq> - 1" using up by auto
  then have step: "rp_max p + 1 \<le> z \<longleftrightarrow> rp_max p < z" for z
    using unat_succ [of "rp_max p"] by (auto simp: word_le_nat_alt word_less_nat_alt)
  have "ring_bit (ring_set c seen) y \<longleftrightarrow> y = c \<or> y \<in> set h" if y: "y \<le> c" "c - y < rx_dup_window" for y
  proof (cases "rp_max p < y")
    case True
    with y bits step have "\<not> ring_bit seen y" by blast
    moreover have "y \<notin> set h" using rx_relD(4) [OF rel, of y] True by auto
    ultimately show ?thesis using len y ring_index_inj [of y c c]
      by (auto simp: ring_bit_set rx_dup_window_def)
  next
    case le: False
    then have near: "rp_max p - y < rx_dup_window"
      using up y unat_sub [of y c] unat_sub [of y "rp_max p"]
      by (simp add: word_le_nat_alt word_less_nat_alt)
    have "ring_index z \<noteq> ring_index y" if "rp_max p < z" "z \<le> c" for z
    proof -
      have "c - z < rx_dup_window" using False that up unat_sub [of z c] unat_sub [of "rp_max p" c]
        by (simp add: word_le_nat_alt word_less_nat_alt)
      with that y le show ?thesis using ring_index_inj [of z c y] by auto
    qed
    with bits step have "ring_bit seen y \<longleftrightarrow> ring_bit (rp_seen p) y" by blast
    with le near rx_relD(5) [OF rel, of y] have "ring_bit seen y \<longleftrightarrow> y \<in> set h" by simp
    moreover have "ring_index c = ring_index y \<longleftrightarrow> y = c"
      using y ring_index_inj [of c c y] by (auto simp: rx_dup_window_def)
    ultimately show ?thesis using len by (auto simp: ring_bit_set)
  qed
  then show ?thesis using up False clear len by (auto simp: mark_def)
qed

lemma fold_max_snoc: "fold max (h @ [c]) 0 = max c (fold max h (0 :: u64))"
  by simp

lemma rx_rel_last [simp]: "rx_rel (p\<lparr>rp_last := t\<rparr>) h \<longleftrightarrow> rx_rel p h"
  by (simp add: rx_rel_def)

text \<open>A counter at most the maximum: the loop does not run.\<close>

lemma mark_behind:
  assumes rel: "rx_rel p h" and le: "\<not> rp_max p < c"
  shows "\<exists>p'. mark p c = Some (spec_kind h c = Rx_dup, spec_kind h c = Rx_stale, p') \<and> rp_max p' = rp_max p
    \<and> rp_max_at p' = rp_max_at p \<and> rp_last p' = rp_last p \<and> rx_rel p' (h @ [c])"
proof (cases "rx_dup_window \<le> rp_max p - c")
  case True
  moreover have "rx_rel p (h @ [c])" using rel le True by (fastforce simp: rx_rel_def max_def)
  ultimately show ?thesis using le rx_relD(3) [OF rel] by (simp add: mark_def spec_kind_def)
next
  case False
  then have near: "rp_max p - c < rx_dup_window" and le': "c \<le> rp_max p" using le by simp_all
  have bit: "ring_bit (rp_seen p) c \<longleftrightarrow> c \<in> set h" using rx_relD(5) [OF rel le' near] .
  have "rx_rel (p\<lparr>rp_seen := ring_set c (rp_seen p)\<rparr>) (h @ [c])"
    using rel le' near ring_index_inj [of c "rp_max p"]
    by (auto simp: rx_rel_def ring_bit_set max_def)
  moreover have "rx_rel p (h @ [c])" if "c \<in> set h"
    using rel le' that by (auto simp: rx_rel_def max_def insert_absorb)
  ultimately show ?thesis using le False bit rx_relD(3) [OF rel] by (auto simp: mark_def spec_kind_def Let_def)
qed

lemma classify_refines:
  assumes rel: "rx_rel p h" and top: "c \<noteq> - 1"
  shows "\<exists>p'. classify_counter now c p = Some (spec_kind h c, p') \<and> rx_rel p' (h @ [c])"
proof (cases "rp_max p < c")
  case True
  have rel': "rx_rel (p\<lparr>rp_last := now\<rparr>) h" using rel by simp
  obtain seen where "mark (p\<lparr>rp_last := now\<rparr>) c = Some (False, False, p\<lparr>rp_last := now, rp_seen := seen\<rparr>)"
    and "length seen = 127"
    and "\<forall>y. y \<le> c \<longrightarrow> c - y < rx_dup_window \<longrightarrow> (ring_bit seen y \<longleftrightarrow> y = c \<or> y \<in> set h)"
    using clear_window [OF rel' _ top] True by auto
  then show ?thesis using True rel
    by (auto simp: classify_counter_def spec_kind_def rx_rel_def max_def intro: order_trans less_imp_le)
next
  case False
  have rel': "rx_rel (p\<lparr>rp_last := now\<rparr>) h" using rel by simp
  obtain p' where "mark (p\<lparr>rp_last := now\<rparr>) c = Some (spec_kind h c = Rx_dup, spec_kind h c = Rx_stale, p')"
    and "rp_max p' = rp_max p" and "rx_rel p' (h @ [c])"
    using mark_behind [OF rel'] False by auto
  then show ?thesis using False rx_relD(3) [OF rel]
    by (auto simp: classify_counter_def spec_kind_def Let_def split: if_splits)
qed

lemma first_refines:
  "\<exists>p. mark ((new_rx_peer now)\<lparr>rp_max := c, rp_max_at := now\<rparr>) c = Some (False, False, p) \<and> rx_rel p [c]"
proof -
  have zero: "ring_bit (replicate 127 0) y \<longleftrightarrow> False" for y
    using ring_word [of y] by (simp add: ring_bit_def)
  have "y \<le> c \<Longrightarrow> c - y < rx_dup_window \<Longrightarrow> ring_bit (ring_set c (replicate 127 0)) y \<longleftrightarrow> y = c" for y
    using ring_index_inj [of c c y] by (auto simp: ring_bit_set zero rx_dup_window_def)
  moreover have "max c 0 = c" by (simp add: max_def)
  ultimately show ?thesis
    by (simp add: mark_def zero new_rx_peer_def rx_rel_def) (simp add: rx_dup_window_def)
qed

section \<open>The instrument refines the histories of the keypairs\<close>

definition pkt_counted :: "bytes \<Rightarrow> bool" where
  "pkt_counted pkt \<longleftrightarrow> rx_transport_hdr_len \<le> length pkt \<and> pkt ! 0 = rx_msg_type_transport"

definition pkt_index :: "bytes \<Rightarrow> u32" where
  "pkt_index pkt = le_val (gslice pkt 4 8)"

definition pkt_counter :: "bytes \<Rightarrow> u64" where
  "pkt_counter pkt = le_val (gslice pkt 8 16)"

text \<open>What the report counts, and how a history-keeping observer would count it.\<close>

record rx_tally =
  rt_total :: int
  rt_displaced :: int
  rt_dup :: int
  rt_stale :: int
  rt_rekeys :: int
  rt_refused :: int
  rt_depth :: "int list"
  rt_max_depth :: u64

definition tally_of :: "rx_stats \<Rightarrow> rx_tally" where
  "tally_of s = \<lparr>rt_total = rs_total s, rt_displaced = rs_displaced s, rt_dup = rs_dup s, rt_stale = rs_stale s,
     rt_rekeys = rs_rekeys s, rt_refused = rs_refused s, rt_depth = rs_depth s, rt_max_depth = rs_max_depth s\<rparr>"

definition spec_count :: "rx_kind \<Rightarrow> rx_tally \<Rightarrow> rx_tally" where
  "spec_count k t = (case k of
     Rx_newest \<Rightarrow> t
   | Rx_dup \<Rightarrow> t\<lparr>rt_dup := rt_dup t + 1\<rparr>
   | Rx_stale \<Rightarrow> t\<lparr>rt_stale := rt_stale t + 1\<rparr>
   | Rx_displaced d \<Rightarrow> t\<lparr>rt_displaced := rt_displaced t + 1, rt_max_depth := max (rt_max_depth t) d,
       rt_depth := bump (depth_bucket d) (rt_depth t)\<rparr>)"

fun spec_observe :: "(u32, u64 list) mapping \<times> rx_tally \<Rightarrow> bytes \<Rightarrow> (u32, u64 list) mapping \<times> rx_tally" where
  "spec_observe (H, t) pkt =
     (if \<not> pkt_counted pkt then (H, t)
      else case Mapping.lookup H (pkt_index pkt) of
        None \<Rightarrow>
          if rx_max_peers \<le> Mapping.size H then (H, t\<lparr>rt_refused := rt_refused t + 1\<rparr>)
          else (Mapping.update (pkt_index pkt) [pkt_counter pkt] H,
                t\<lparr>rt_rekeys := rt_rekeys t + 1, rt_total := rt_total t + 1\<rparr>)
      | Some h \<Rightarrow>
          (Mapping.update (pkt_index pkt) (h @ [pkt_counter pkt]) H,
           spec_count (spec_kind h (pkt_counter pkt)) (t\<lparr>rt_total := rt_total t + 1\<rparr>)))"

definition stats_rel :: "rx_stats \<Rightarrow> (u32, u64 list) mapping \<times> rx_tally \<Rightarrow> bool" where
  "stats_rel s A \<longleftrightarrow> (\<forall>i. rel_option rx_rel (Mapping.lookup (rs_peers s) i) (Mapping.lookup (fst A) i))
     \<and> tally_of s = snd A"

fun observe_all :: "(bytes \<times> time) list \<Rightarrow> rx_stats \<Rightarrow> rx_stats option" where
  "observe_all [] s = Some s"
| "observe_all ((pkt, now) # es) s =
     (case observe True pkt now s of None \<Rightarrow> None | Some s' \<Rightarrow> observe_all es s')"

lemma tally_of_upd [simp]:
  "tally_of (s\<lparr>rs_peers := m\<rparr>) = tally_of s"
  "tally_of (s\<lparr>rs_peers := m, rs_total := x\<rparr>) = (tally_of s)\<lparr>rt_total := x\<rparr>"
  "tally_of (s\<lparr>rs_peers := m, rs_rekeys := y, rs_total := x\<rparr>) = (tally_of s)\<lparr>rt_rekeys := y, rt_total := x\<rparr>"
  "tally_of (s\<lparr>rs_refused := z\<rparr>) = (tally_of s)\<lparr>rt_refused := z\<rparr>"
  "rt_total (tally_of s) = rs_total s" "rt_rekeys (tally_of s) = rs_rekeys s" "rt_refused (tally_of s) = rs_refused s"
  by (simp_all add: tally_of_def)

lemma tally_count_kind: "tally_of (count_kind now p k s) = spec_count k (tally_of s)"
  by (simp add: count_kind_def spec_count_def tally_of_def Let_def split: rx_kind.split)

lemma peers_count_kind [simp]: "rs_peers (count_kind now p k s) = rs_peers s"
  by (simp add: count_kind_def Let_def split: rx_kind.split)

lemma stats_rel_size:
  assumes "stats_rel s A" shows "Mapping.size (rs_peers s) = Mapping.size (fst A)"
proof -
  have "Mapping.lookup (rs_peers s) i = None \<longleftrightarrow> Mapping.lookup (fst A) i = None" for i
    using assms by (cases "Mapping.lookup (rs_peers s) i"; cases "Mapping.lookup (fst A) i")
      (auto simp: stats_rel_def dest: spec [of _ i])
  then have "Mapping.keys (rs_peers s) = Mapping.keys (fst A)" by (auto simp: in_keys_iff)
  then show ?thesis by (simp add: Mapping.size_def)
qed

lemma observe_step_refines:
  assumes rel: "stats_rel s A" and top: "pkt_counter pkt \<noteq> - 1"
  shows "\<exists>s'. observe True pkt now s = Some s' \<and> stats_rel s' (spec_observe A pkt)"
proof -
  obtain H t where A: "A = (H, t)" by fastforce
  let ?i = "pkt_index pkt" and ?c = "pkt_counter pkt"
  have lk: "rel_option rx_rel (Mapping.lookup (rs_peers s) i) (Mapping.lookup H i)" for i
    using rel by (simp add: stats_rel_def A)
  have tl: "tally_of s = t" using rel by (simp add: stats_rel_def A)
  show ?thesis
  proof (cases "pkt_counted pkt")
    case False
    then show ?thesis using rel by (auto simp: A observe_def pkt_counted_def)
  next
    case counted: True
    then have not_skip: "\<not> length pkt < rx_transport_hdr_len" "pkt ! 0 = rx_msg_type_transport"
      by (auto simp: pkt_counted_def)
    show ?thesis
    proof (cases "Mapping.lookup (rs_peers s) ?i")
      case None
      with lk [of ?i] have H: "Mapping.lookup H ?i = None" by simp
      obtain p where "mark ((new_rx_peer now)\<lparr>rp_max := ?c, rp_max_at := now\<rparr>) ?c = Some (False, False, p)"
        and "rx_rel p [?c]" using first_refines by blast
      then show ?thesis using None H lk tl counted not_skip stats_rel_size [OF rel]
        by (auto simp: observe_def A stats_rel_def lookup_update' simp flip: pkt_index_def pkt_counter_def)
    next
      case (Some p)
      with lk [of ?i] obtain h where H: "Mapping.lookup H ?i = Some h" and "rx_rel p h"
        by (auto simp: option_rel_Some1)
      then obtain p' where "classify_counter now ?c p = Some (spec_kind h ?c, p')" and "rx_rel p' (h @ [?c])"
        using classify_refines top by blast
      then show ?thesis using Some H lk tl counted not_skip
        by (auto simp: observe_def A stats_rel_def tally_count_kind lookup_update' simp flip: pkt_index_def pkt_counter_def)
    qed
  qed
qed

lemma observe_all_refines:
  assumes "stats_rel s A" and "\<forall>(pkt, now)\<in>set es. pkt_counter pkt \<noteq> - 1"
  shows "\<exists>s'. observe_all es s = Some s' \<and> stats_rel s' (foldl spec_observe A (map fst es))"
  using assms
proof (induction es arbitrary: s A)
  case Nil then show ?case by simp
next
  case (Cons e es)
  obtain pkt now where e: "e = (pkt, now)" by fastforce
  with Cons.prems have "pkt_counter pkt \<noteq> - 1" by simp
  then obtain s' where "observe True pkt now s = Some s'" and "stats_rel s' (spec_observe A pkt)"
    using observe_step_refines [OF Cons.prems(1)] by blast
  moreover have "\<forall>(pkt, now)\<in>set es. pkt_counter pkt \<noteq> - 1" using Cons.prems by simp
  ultimately show ?case using Cons.IH [of s' "spec_observe A pkt"] e by (simp del: spec_observe.simps)
qed

lemma stats_rel_new: "stats_rel new_rx_stats (Mapping.empty, tally_of new_rx_stats)"
  by (simp add: stats_rel_def new_rx_stats_def)

text \<open>
  C5: fed any packets of which none carries the counter \<open>2^64 - 1\<close>, the instrument returns and reports
  what an observer with the whole history of every keypair would report: newest, duplicate, displaced
  by how much, or too far behind, although it keeps only a ring of 8128 bits per keypair.
\<close>

theorem reorder_refines_history:
  assumes "\<forall>(pkt, now)\<in>set es. pkt_counter pkt \<noteq> - 1"
  shows "\<exists>s. observe_all es new_rx_stats = Some s
    \<and> tally_of s = snd (foldl spec_observe (Mapping.empty, tally_of new_rx_stats) (map fst es))"
  using observe_all_refines [OF stats_rel_new assms] by (auto simp: stats_rel_def)

definition sample_pkt :: "byte list \<Rightarrow> bytes" where
  "sample_pkt c = [4, 0, 0, 0, 1, 0, 0, 0] @ c"

abbreviation sample_run :: "(bytes \<times> time) list" where
  "sample_run \<equiv> [(sample_pkt [5, 0, 0, 0, 0, 0, 0, 0], 0), (sample_pkt [7, 0, 0, 0, 0, 0, 0, 0], 1),
     (sample_pkt [6, 0, 0, 0, 0, 0, 0, 0], 2), (sample_pkt [5, 0, 0, 0, 0, 0, 0, 0], 3)]"

lemma sample_spec:
  "(\<forall>(pkt, now)\<in>set sample_run. pkt_counter pkt \<noteq> - 1)
   \<and> rt_dup (snd (foldl spec_observe (Mapping.empty, tally_of new_rx_stats) (map fst sample_run))) = 1
   \<and> rt_displaced (snd (foldl spec_observe (Mapping.empty, tally_of new_rx_stats) (map fst sample_run))) = 1"
  by code_simp

lemma reorder_refines_history_witness:
  "\<exists>s. observe_all sample_run new_rx_stats = Some s \<and> rs_dup s = 1 \<and> rs_displaced s = 1"
proof -
  obtain s where "observe_all sample_run new_rx_stats = Some s"
    and "tally_of s = snd (foldl spec_observe (Mapping.empty, tally_of new_rx_stats) (map fst sample_run))"
    using reorder_refines_history [of sample_run] sample_spec by blast
  moreover have "rs_dup s = rt_dup (tally_of s)" "rs_displaced s = rt_displaced (tally_of s)"
    by (simp_all add: tally_of_def)
  ultimately show ?thesis using sample_spec by metis
qed

section \<open>Termination of the sliding loop\<close>

lemma clear_from_returns:
  assumes "c \<noteq> - 1" shows "clear_from x c seen \<noteq> None"
proof (induction "unat c + 1 - unat x" arbitrary: x seen)
  case 0
  then show ?case by (subst clear_from.simps) (simp add: word_le_nat_alt)
next
  case (Suc n)
  then have le: "x \<le> c" by (simp add: word_le_nat_alt)
  then have "x \<noteq> - 1" using assms word_order.extremum_uniqueI by blast
  then have "n = unat c + 1 - unat (x + 1)" using Suc(2) unat_succ [of x] by simp
  from Suc(1) [OF this] le show ?case by (subst clear_from.simps) simp
qed

lemma mark_none:
  "mark p c = None \<longleftrightarrow> c = - 1 \<and> rp_max p \<noteq> - 1 \<and> \<not> rx_dup_window \<le> c - rp_max p"
proof (cases "c = - 1")
  case True
  moreover have "rp_max p < - 1 \<longleftrightarrow> rp_max p \<noteq> - 1" by (metis word_order.not_eq_extremum)
  ultimately show ?thesis
    by (auto simp: mark_def clear_from_top Let_def rx_dup_window_def split: option.split)
next
  case False
  then show ?thesis using clear_from_returns [OF False, of "rp_max p + 1" "rp_seen p"]
    by (auto simp: mark_def Let_def split: option.split)
qed

text \<open>
  C6: \<^verbatim>\<open>mark\<close> returns for every state and every counter but one: for \<open>2^64 - 1\<close> it does not return exactly
  when the maximum lies below it by less than the window, because \<open>x <= c\<close> then holds of every \<open>x\<close>.
\<close>

theorem mark_returns:
  "mark p c = None \<longleftrightarrow> c = - 1 \<and> rp_max p < c \<and> c - rp_max p < rx_dup_window"
  using mark_none [of p c] word_order.not_eq_extremum [of "rp_max p"] by (auto simp: not_le)

text \<open>
   two transport packets of one new receiver index with the counters \<open>2^64 - 2\<close> and \<open>2^64 - 1\<close>,
  whose contents nothing has authenticated yet, leave \<^verbatim>\<open>observe\<close> in the clearing loop for ever, with the
  lock of the instrument held.
\<close>

theorem two_packets_hang_observe:
  "observe_all [(sample_pkt [0xfe, 0xff, 0xff, 0xff, 0xff, 0xff, 0xff, 0xff], t1),
                (sample_pkt [0xff, 0xff, 0xff, 0xff, 0xff, 0xff, 0xff, 0xff], t2)] new_rx_stats = None"
  (is "observe_all [(?p, t1), (?q, t2)] _ = None")
proof -
  have pkts: "pkt_counter ?p = - 2" "pkt_counter ?q = - 1" "pkt_index ?q = pkt_index ?p" "pkt_counted ?p" "pkt_counted ?q"
    by code_simp+
  have new: "Mapping.lookup (rs_peers new_rx_stats) i = None" "Mapping.size (rs_peers new_rx_stats) = 0" for i
    by (simp_all add: new_rx_stats_def)
  obtain p where m: "mark ((new_rx_peer t1)\<lparr>rp_max := - 2, rp_max_at := t1\<rparr>) (- 2) = Some (False, False, p)"
    and p: "rx_rel p [- 2]" using first_refines by blast
  then have "rp_max p = - 2" by (simp add: rx_rel_def max_def)
  moreover have "\<not> rx_dup_window \<le> 1" by code_simp
  ultimately have "mark (p\<lparr>rp_last := t2\<rparr>) (- 1) = None"
    using mark_none [of "p\<lparr>rp_last := t2\<rparr>" "- 1"] by simp
  then show ?thesis using pkts new m
    by (simp add: observe_def pkt_counted_def rx_max_peers_def lookup_update' classify_counter_def
        flip: pkt_index_def pkt_counter_def)
qed

section \<open>The bounds of the instrument\<close>

definition stats_ok :: "rx_stats \<Rightarrow> bool" where
  "stats_ok s \<longleftrightarrow> finite (Mapping.keys (rs_peers s)) \<and> Mapping.size (rs_peers s) \<le> rx_max_peers
     \<and> length (rs_depth s) = rx_depth_buckets + 1 \<and> length (rs_late s) = rx_late_buckets + 1
     \<and> sum_list (rs_depth s) = rs_displaced s \<and> sum_list (rs_late s) = rs_displaced s"

lemma sum_list_bump: "i < length h \<Longrightarrow> sum_list (bump i h) = sum_list h + 1"
  by (induction h arbitrary: i) (auto simp: bump_def nth_Cons' split: nat.splits)

lemma bucket_less: "depth_bucket d < rx_depth_buckets + 1" "late_bucket l < rx_late_buckets + 1"
proof -
  show "depth_bucket d < rx_depth_buckets + 1"
    by (simp add: depth_bucket_def not_less word_le_nat_alt rx_depth_buckets_def)
  show "late_bucket l < rx_late_buckets + 1"
    by (auto simp: late_bucket_def Let_def not_less rx_late_buckets_def)
qed

lemma count_kind_ok: "stats_ok s \<Longrightarrow> stats_ok (count_kind now p k s)"
  using bucket_less by (auto simp: stats_ok_def count_kind_def sum_list_bump bump_def [THEN arg_cong [where f = length]] Let_def split: rx_kind.split)

lemma stats_ok_new: "stats_ok new_rx_stats"
  by (simp add: stats_ok_def new_rx_stats_def sum_list_replicate)

lemma observe_ok:
  assumes "stats_ok s" and "observe enabled pkt now s = Some s'"
  shows "stats_ok s'"
proof -
  have upd: "stats_ok (s\<lparr>rs_peers := Mapping.update i p (rs_peers s), rs_total := x\<rparr>)"
    if "Mapping.lookup (rs_peers s) i = Some q" for i p q x
    using that assms(1) by (simp add: stats_ok_def size_update_known)
  have new: "stats_ok (s\<lparr>rs_peers := Mapping.update i p (rs_peers s), rs_rekeys := y, rs_total := x\<rparr>)"
    if "\<not> rx_max_peers \<le> Mapping.size (rs_peers s)" for i p x y
    using that assms(1) size_update_le [of "rs_peers s" i p] by (simp add: stats_ok_def)
  have "stats_ok (s\<lparr>rs_refused := z\<rparr>)" for z using assms(1) by (simp add: stats_ok_def)
  with assms upd new count_kind_ok show ?thesis
    by (auto simp: observe_def Let_def split: if_splits option.splits)
qed

lemma dump_ok: "stats_ok s \<Longrightarrow> stats_ok (dump_and_reset enabled now s)"
proof -
  assume ok: "stats_ok s"
  let ?m = "Mapping.filter (\<lambda>_ p. time_sub now (rp_last p) \<le> rx_peer_idle) (rs_peers s)"
  have "Mapping.keys ?m \<subseteq> Mapping.keys (rs_peers s)"
    by (auto simp: in_keys_iff lookup_filter split: option.splits)
  with ok have "finite (Mapping.keys ?m)" "Mapping.size ?m \<le> rx_max_peers"
    by (auto simp: stats_ok_def Mapping.size_def intro: finite_subset order_trans [OF card_mono])
  with ok show ?thesis by (simp add: stats_ok_def dump_and_reset_def map_replicate_const sum_list_replicate)
qed

datatype rx_event = Rx_packet bytes time | Rx_report time

fun rx_step :: "rx_stats option \<Rightarrow> rx_event \<Rightarrow> rx_stats option" where
  "rx_step None e = None"
| "rx_step (Some s) (Rx_packet pkt now) = observe True pkt now s"
| "rx_step (Some s) (Rx_report now) = Some (dump_and_reset True now s)"

interpretation rxm: invariant_machine rx_step "\<lambda>s. \<forall>t. s = Some t \<longrightarrow> stats_ok t"
proof
  fix s e
  assume ok: "\<forall>t. s = Some t \<longrightarrow> stats_ok t"
  show "\<forall>t. rx_step s e = Some t \<longrightarrow> stats_ok t"
    using ok observe_ok dump_ok by (cases "(s, e)" rule: rx_step.cases) auto
qed

text \<open>
   whatever packets and reports follow each other, the instrument tracks at most 64 keypairs, and
  both of its histograms count every displaced packet exactly once.
\<close>

theorem reorder_memory_bounded:
  assumes "run rx_step (Some new_rx_stats) es = Some s"
  shows "Mapping.size (rs_peers s) \<le> 64 \<and> sum_list (rs_depth s) = rs_displaced s
    \<and> sum_list (rs_late s) = rs_displaced s"
  using rxm.run_inv [of "Some new_rx_stats" es] assms stats_ok_new by (simp add: stats_ok_def rx_max_peers_def)

lemma reorder_memory_bounded_witness:
  "\<exists>s. run rx_step (Some new_rx_stats) [Rx_packet (sample_pkt [5, 0, 0, 0, 0, 0, 0, 0]) 0, Rx_report 1] = Some s
    \<and> Mapping.size (rs_peers s) \<le> 64"
proof -
  obtain s where "observe True (sample_pkt [5, 0, 0, 0, 0, 0, 0, 0]) 0 new_rx_stats = Some s"
    using observe_step_refines [OF stats_rel_new, of "sample_pkt [5, 0, 0, 0, 0, 0, 0, 0]" 0]
      sample_spec by auto
  then have "run rx_step (Some new_rx_stats) [Rx_packet (sample_pkt [5, 0, 0, 0, 0, 0, 0, 0]) 0, Rx_report 1]
    = Some (dump_and_reset True 1 s)" by simp
  from this reorder_memory_bounded [OF this] show ?thesis by blast
qed

end
