(* ===== verification/Watchdog.thy ===== *)
theory Watchdog
  imports CredPool
begin

text \<open>
  What keeps the DTLS/TURN proxy of \<^verbatim>\<open>src/pkg/proxy/proxy.go\<close> alive as a whole: the session context that
  Pause, Resume and ForceReconnect replace, the check on wake, and the 30-second watchdog. The fields
  of \<open>proxy\<close> are those of the Go struct these functions touch; \<open>px_spawned\<close> counts the calls
  \<^verbatim>\<open>go p.startConnections()\<close> and \<open>px_wakes\<close> the closings of the wake channel. A tick reads the clock once.
\<close>

section \<open>The proxy and its session context\<close>

text \<open>
  \<open>px_sess\<close> numbers the contexts that were ever stored in \<^verbatim>\<open>sessCtx\<close>: replacing one cancels it first, so
  the contexts before the current one are all done. \<open>px_cancelled\<close> is whether the current one is.
\<close>

record proxy =
  px_ctx_done :: bool
  px_sess :: nat
  px_cancelled :: bool
  px_spawned :: nat
  px_captcha :: bytes
  px_last_recv :: int
  px_pion_errors :: int
  px_first_pion :: int
  px_reconnects :: int
  px_tx :: int
  px_last_wake_tx :: int
  px_last_tick_tx :: int
  px_active :: int
  px_wakes :: nat
  px_pool :: cred_pool

definition session_done :: "nat \<Rightarrow> proxy \<Rightarrow> bool" where
  "session_done k px \<longleftrightarrow> px_ctx_done px \<or> k < px_sess px \<or> px_cancelled px"

definition captcha_pending :: "proxy \<Rightarrow> bool" where
  "captcha_pending px \<longleftrightarrow> px_captcha px \<noteq> []"

text \<open>\<^verbatim>\<open>sessCancel()\<close>, then \<^verbatim>\<open>context.WithCancel(p.ctx)\<close>.\<close>

definition replace_session :: "proxy \<Rightarrow> proxy" where
  "replace_session px = px\<lparr>px_sess := Suc (px_sess px), px_cancelled := False\<rparr>"

definition pause :: "proxy \<Rightarrow> proxy" where
  "pause px = px\<lparr>px_cancelled := True, px_pool := invalidate (px_pool px)\<rparr>"

definition resume :: "proxy \<Rightarrow> proxy" where
  "resume px =
     (if captcha_pending px then px
      else (replace_session px)
        \<lparr>px_pool := invalidate (px_pool px), px_spawned := Suc (px_spawned px)\<rparr>)"

definition force_reconnect :: "time \<Rightarrow> proxy \<Rightarrow> proxy" where
  "force_reconnect now px =
     (if captcha_pending px then px
      else (replace_session px)
        \<lparr>px_pion_errors := 0, px_first_pion := 0, px_last_recv := unix_sec now,
         px_reconnects := px_reconnects px + 1, px_spawned := Suc (px_spawned px)\<rparr>)"

definition broadcast_wake :: "proxy \<Rightarrow> proxy" where
  "broadcast_wake px = px\<lparr>px_wakes := Suc (px_wakes px)\<rparr>"

definition stop :: "proxy \<Rightarrow> proxy" where
  "stop px = px\<lparr>px_ctx_done := True\<rparr>"

section \<open>The check on wake\<close>

definition tx_gate :: int where
  "tx_gate = 4096"

definition rx_stale :: "time \<Rightarrow> duration \<Rightarrow> proxy \<Rightarrow> bool" where
  "rx_stale now limit px \<longleftrightarrow> 0 < px_last_recv px \<and> limit < time_sub now (unix_time (px_last_recv px))"

definition clear_pion_errors :: "proxy \<Rightarrow> proxy" where
  "clear_pion_errors px = px\<lparr>px_pion_errors := 0, px_first_pion := 0\<rparr>"

definition wake_check :: "time \<Rightarrow> proxy \<Rightarrow> proxy" where
  "wake_check now px0 =
     (if captcha_pending px0 then px0
      else
        let px1 = (if 0 < px_pion_errors px0 then clear_pion_errors px0 else px0);
            delta = px_tx px1 - px_last_wake_tx px1;
            px2 = px1\<lparr>px_last_wake_tx := px_tx px1\<rparr>;
            px3 = (if tx_gate < delta \<and> rx_stale now (90 * second) px2 then force_reconnect now px2 else px2)
        in broadcast_wake px3)"

section \<open>The watchdog\<close>

record watchdog =
  wd_zero_since :: time
  wd_last_tick :: time

definition new_watchdog :: "time \<Rightarrow> watchdog" where
  "new_watchdog now = \<lparr>wd_zero_since = 0, wd_last_tick = now\<rparr>"

definition freeze_gap :: duration where
  "freeze_gap = 90 * second"

definition silent_limit :: duration where
  "silent_limit = 2 * minute"

definition zero_conn_limit :: duration where
  "zero_conn_limit = 5 * minute"

lemmas watchdog_consts = freeze_gap_def silent_limit_def zero_conn_limit_def tx_gate_def

text \<open>The tail of a judged tick: condition 3, the connection count.\<close>

definition judge_zero :: "time \<Rightarrow> watchdog \<times> proxy \<Rightarrow> watchdog \<times> proxy" where
  "judge_zero now = (\<lambda>(wd, px).
     if px_active px = 0 then
       (if wd_zero_since wd = 0 then (wd\<lparr>wd_zero_since := now\<rparr>, px)
        else if zero_conn_limit < time_sub now (wd_zero_since wd)
        then (wd\<lparr>wd_zero_since := 0\<rparr>, force_reconnect now px)
        else (wd, px))
     else (wd\<lparr>wd_zero_since := 0\<rparr>, px))"

definition watchdog_tick :: "time \<Rightarrow> watchdog \<times> proxy \<Rightarrow> watchdog \<times> proxy" where
  "watchdog_tick now = (\<lambda>(wd0, px0).
     let wd = wd0\<lparr>wd_last_tick := now\<rparr> in
     if freeze_gap < time_sub now (wd_last_tick wd0)
     then (wd, (clear_pion_errors px0)\<lparr>px_last_recv := unix_sec now\<rparr>)
     else if captcha_pending px0 then (wd, px0)
     else
       let delta = px_tx px0 - px_last_tick_tx px0; px = px0\<lparr>px_last_tick_tx := px_tx px0\<rparr> in
       if tx_gate < delta \<and> 0 < px_active px \<and> rx_stale now silent_limit px
       then (wd, force_reconnect now px)
       else judge_zero now (wd, px))"

section \<open>Runs of the watchdog\<close>

text \<open>What the rest of the proxy has made of the fields a tick reads, and when the tick comes.\<close>

record tick_view =
  tv_now :: time
  tv_active :: int
  tv_tx :: int
  tv_captcha :: bytes
  tv_last_recv :: int

definition seen :: "tick_view \<Rightarrow> proxy \<Rightarrow> proxy" where
  "seen v px = px\<lparr>px_active := tv_active v, px_tx := tv_tx v, px_captcha := tv_captcha v,
     px_last_recv := tv_last_recv v\<rparr>"

fun view_step :: "watchdog \<times> proxy \<Rightarrow> tick_view \<Rightarrow> watchdog \<times> proxy" where
  "view_step (wd, px) v = watchdog_tick (tv_now v) (wd, seen v px)"

declare view_step.simps [simp del]

text \<open>The ticks that reach the verdicts: neither late nor during a captcha.\<close>

definition on_time :: "time \<Rightarrow> tick_view \<Rightarrow> bool" where
  "on_time prev v \<longleftrightarrow> \<not> freeze_gap < time_sub (tv_now v) prev"

fun judged :: "time \<Rightarrow> tick_view list \<Rightarrow> tick_view list" where
  "judged prev [] = []"
| "judged prev (v # vs) = (if on_time prev v \<and> tv_captcha v = [] then [v] else []) @ judged (tv_now v) vs"

definition last_tick :: "time \<Rightarrow> tick_view list \<Rightarrow> time" where
  "last_tick prev vs = (if vs = [] then prev else tv_now (last vs))"

lemma judged_snoc:
  "judged prev (vs @ [v]) =
     judged prev vs @ (if on_time (last_tick prev vs) v \<and> tv_captcha v = [] then [v] else [])"
  by (induction vs arbitrary: prev) (auto simp: last_tick_def)

lemma seen_simps [simp]:
  "px_active (seen v px) = tv_active v" "px_tx (seen v px) = tv_tx v" "px_captcha (seen v px) = tv_captcha v"
  "px_last_recv (seen v px) = tv_last_recv v" "px_reconnects (seen v px) = px_reconnects px"
  "px_last_tick_tx (seen v px) = px_last_tick_tx px"
  "captcha_pending (seen v px) \<longleftrightarrow> tv_captcha v \<noteq> []"
  by (simp_all add: seen_def captcha_pending_def)

lemma px_reconnects_simps [simp]:
  "px_reconnects (clear_pion_errors px) = px_reconnects px"
  "px_reconnects (force_reconnect now px) = (if captcha_pending px then px_reconnects px else px_reconnects px + 1)"
  by (simp_all add: clear_pion_errors_def force_reconnect_def replace_session_def)

lemma captcha_pending_tx [simp]: "captcha_pending (px\<lparr>px_last_tick_tx := x\<rparr>) \<longleftrightarrow> captcha_pending px"
  by (simp add: captcha_pending_def)

lemma wd_last_tick_step [simp]: "wd_last_tick (fst (view_step (wd, px) v)) = tv_now v"
  by (simp add: view_step.simps watchdog_tick_def judge_zero_def Let_def)

lemma reconnects_mono: "px_reconnects px \<le> px_reconnects (snd (view_step (wd, px) v))"
  by (simp add: view_step.simps watchdog_tick_def judge_zero_def Let_def)

lemma wd_last_tick_run: "wd_last_tick (fst (run view_step (wd, px) vs)) = last_tick (wd_last_tick wd) vs"
proof (induction vs arbitrary: wd px)
  case (Cons v vs)
  then show ?case by (cases "view_step (wd, px) v") (use wd_last_tick_step [of wd px v] in \<open>auto simp: last_tick_def\<close>)
qed (simp add: last_tick_def)

text \<open>
  What \<^verbatim>\<open>zeroConnSince\<close> stands for: the start of a streak of judged ticks each of which found no
  connection, or connections that had received nothing for two minutes.
\<close>

definition silent_view :: "tick_view \<Rightarrow> bool" where
  "silent_view v \<longleftrightarrow> 0 < tv_active v \<and> 0 < tv_last_recv v
     \<and> silent_limit < time_sub (tv_now v) (unix_time (tv_last_recv v))"

definition dead_view :: "tick_view \<Rightarrow> bool" where
  "dead_view v \<longleftrightarrow> tv_active v = 0 \<or> silent_view v"

definition zero_streak :: "time \<Rightarrow> tick_view list \<Rightarrow> time \<Rightarrow> bool" where
  "zero_streak t0 vs z \<longleftrightarrow>
     (\<exists>us u ws. judged t0 vs = us @ u # ws \<and> tv_now u = z \<and> tv_active u = 0 \<and> (\<forall>w\<in>set ws. dead_view w))"

lemma zero_streakI:
  "judged t0 vs = us @ u # ws \<Longrightarrow> tv_now u = z \<Longrightarrow> tv_active u = 0 \<Longrightarrow> \<forall>w\<in>set ws. dead_view w
   \<Longrightarrow> zero_streak t0 vs z"
  unfolding zero_streak_def by blast

lemma tick_unjudged:
  assumes "\<not> (on_time (wd_last_tick wd) v \<and> tv_captcha v = [])"
  shows "wd_zero_since (fst (view_step (wd, px) v)) = wd_zero_since wd"
    and "px_reconnects (snd (view_step (wd, px) v)) = px_reconnects px"
  using assms by (auto simp: view_step.simps watchdog_tick_def on_time_def Let_def)

lemma tick_judged:
  assumes "on_time (wd_last_tick wd) v" and "tv_captcha v = []"
  shows "view_step (wd, px) v =
     (if tx_gate < tv_tx v - px_last_tick_tx px \<and> silent_view v
      then (wd\<lparr>wd_last_tick := tv_now v\<rparr>, force_reconnect (tv_now v) ((seen v px)\<lparr>px_last_tick_tx := tv_tx v\<rparr>))
      else judge_zero (tv_now v) (wd\<lparr>wd_last_tick := tv_now v\<rparr>, (seen v px)\<lparr>px_last_tick_tx := tv_tx v\<rparr>))"
  using assms by (auto simp: view_step.simps watchdog_tick_def on_time_def silent_view_def rx_stale_def Let_def)

lemma zero_since_judged:
  assumes "on_time (wd_last_tick wd) v" and "tv_captcha v = []"
    and "wd_zero_since (fst (view_step (wd, px) v)) \<noteq> 0"
  shows "wd_zero_since (fst (view_step (wd, px) v)) = tv_now v \<and> tv_active v = 0
    \<or> wd_zero_since (fst (view_step (wd, px) v)) = wd_zero_since wd \<and> wd_zero_since wd \<noteq> 0 \<and> dead_view v"
  using assms(3) by (auto simp: tick_judged [OF assms(1,2)] judge_zero_def dead_view_def split: if_splits)

lemma zero_since_streak:
  assumes "wd_zero_since wd = 0"
    and "wd_zero_since (fst (run view_step (wd, px) vs)) \<noteq> 0"
  shows "zero_streak (wd_last_tick wd) vs (wd_zero_since (fst (run view_step (wd, px) vs)))"
  using assms(2)
proof (induction vs rule: rev_induct)
  case Nil then show ?case using assms(1) by simp
next
  case (snoc v vs)
  obtain wd' px' where r: "run view_step (wd, px) vs = (wd', px')" by fastforce
  have tick: "wd_last_tick wd' = last_tick (wd_last_tick wd) vs"
    using wd_last_tick_run [of wd px vs] r by simp
  have r': "run view_step (wd, px) (vs @ [v]) = view_step (wd', px') v"
    by (simp add: run_append r)
  show ?case
  proof (cases "on_time (wd_last_tick wd') v \<and> tv_captcha v = []")
    case False
    then have "judged (wd_last_tick wd) (vs @ [v]) = judged (wd_last_tick wd) vs"
      using tick by (auto simp: judged_snoc)
    then show ?thesis using snoc tick_unjudged(1) [OF False] r r' by (simp add: zero_streak_def)
  next
    case True
    then have j: "judged (wd_last_tick wd) (vs @ [v]) = judged (wd_last_tick wd) vs @ [v]"
      using tick by (simp add: judged_snoc)
    from zero_since_judged [of wd' v px'] True snoc.prems r'
    consider "wd_zero_since (fst (view_step (wd', px') v)) = tv_now v" "tv_active v = 0"
      | "wd_zero_since (fst (view_step (wd', px') v)) = wd_zero_since wd'" "wd_zero_since wd' \<noteq> 0" "dead_view v"
      by (auto)
    then show ?thesis
    proof cases
      case 1
      then show ?thesis unfolding r' by (intro zero_streakI [OF j]) simp_all
    next
      case 2
      with snoc.IH r obtain us u ws where "judged (wd_last_tick wd) vs = us @ u # ws" "tv_now u = wd_zero_since wd'"
        "tv_active u = 0" "\<forall>w\<in>set ws. dead_view w" by (auto simp: zero_streak_def)
      then show ?thesis using j 2 unfolding r' by (intro zero_streakI [of _ _ us u "ws @ [v]"]) auto
    qed
  qed
qed


definition sample_proxy :: proxy where
  "sample_proxy = \<lparr>px_ctx_done = False, px_sess = 0, px_cancelled = False, px_spawned = 1, px_captcha = [],
     px_last_recv = 0, px_pion_errors = 0, px_first_pion = 0, px_reconnects = 0, px_tx = 0,
     px_last_wake_tx = 0, px_last_tick_tx = 0, px_active = 0, px_wakes = 0, px_pool = example_pool\<rparr>"

definition silent_tick :: tick_view where
  "silent_tick = \<lparr>tv_now = unix_time 1000300, tv_active = 3, tv_tx = 5000, tv_captcha = [], tv_last_recv = 1000000\<rparr>"


definition idle_view :: "time \<Rightarrow> tick_view" where
  "idle_view t = \<lparr>tv_now = t, tv_active = 0, tv_tx = 0, tv_captcha = [], tv_last_recv = 0\<rparr>"

definition idle_ticks :: "nat \<Rightarrow> time \<Rightarrow> tick_view list" where
  "idle_ticks n t = map (\<lambda>k. idle_view (t + int k * (30 * second))) [0..<n]"

section \<open>A dead proxy is restarted\<close>

text \<open>Consecutive ticks that all come on time.\<close>

fun punctual :: "time \<Rightarrow> tick_view list \<Rightarrow> bool" where
  "punctual prev [] \<longleftrightarrow> True"
| "punctual prev (v # vs) \<longleftrightarrow> on_time prev v \<and> punctual (tv_now v) vs"

lemma punctual_append:
  "punctual prev (us @ vs) \<longleftrightarrow> punctual prev us \<and> punctual (last_tick prev us) vs"
  by (induction us arbitrary: prev) (auto simp: last_tick_def)

lemma idle_tick:
  assumes "on_time (wd_last_tick wd) v" and "tv_captcha v = []" and "tv_active v = 0"
  shows "view_step (wd, px) v = judge_zero (tv_now v) (wd\<lparr>wd_last_tick := tv_now v\<rparr>, (seen v px)\<lparr>px_last_tick_tx := tv_tx v\<rparr>)"
  using assms by (simp add: tick_judged silent_view_def)

lemma reconnects_run_mono: "px_reconnects px \<le> px_reconnects (snd (run view_step (wd, px) vs))"
proof (induction vs arbitrary: wd px)
  case (Cons v vs)
  then show ?case using reconnects_mono [of px wd v]
    by (cases "view_step (wd, px) v") (auto intro: order_trans)
qed simp

lemma idle_run:
  assumes "punctual (wd_last_tick wd) (v # vs)" and "\<forall>w\<in>set (v # vs). tv_captcha w = [] \<and> tv_active w = 0"
    and "\<forall>w\<in>set (v # vs). 0 < tv_now w" and "wd_zero_since wd \<le> tv_now v"
  shows "px_reconnects px < px_reconnects (snd (run view_step (wd, px) (v # vs)))
    \<or> (let z = wd_zero_since (fst (run view_step (wd, px) (v # vs))) in z \<noteq> 0 \<and> z \<le> tv_now v)"
  using assms(1-3)
proof (induction vs rule: rev_induct)
  case Nil
  then show ?case using assms(4) by (auto simp: idle_tick judge_zero_def captcha_pending_def seen_def Let_def)
next
  case (snoc w vs)
  obtain wd' px' where r: "run view_step (wd, px) (v # vs) = (wd', px')" by fastforce
  have r': "run view_step (wd, px) (v # vs @ [w]) = view_step (wd', px') w"
    using r run_append [of view_step "(wd, px)" "v # vs" "[w]"] by simp
  have tick: "wd_last_tick wd' = last_tick (wd_last_tick wd) (v # vs)"
    using wd_last_tick_run [of wd px "v # vs"] r by simp
  have on: "on_time (wd_last_tick wd') w" and p: "punctual (wd_last_tick wd) (v # vs)"
    using snoc.prems(1) punctual_append [of "wd_last_tick wd" "v # vs" "[w]"] tick by auto
  have ih: "px_reconnects px < px_reconnects px' \<or> wd_zero_since wd' \<noteq> 0 \<and> wd_zero_since wd' \<le> tv_now v"
    using snoc.IH [OF p] snoc.prems r by (simp add: Let_def)
  have step: "view_step (wd', px') w = judge_zero (tv_now w) (wd'\<lparr>wd_last_tick := tv_now w\<rparr>, (seen w px')\<lparr>px_last_tick_tx := tv_tx w\<rparr>)"
    using snoc.prems on by (simp add: idle_tick)
  have "px_reconnects px \<le> px_reconnects px'" using reconnects_run_mono [of px wd "v # vs"] r by simp
  with ih step show ?case using snoc.prems r'
    by (auto simp: judge_zero_def captcha_pending_def Let_def split: if_splits)
qed

text \<open>
  C14: a dead proxy is not left alone. If ticks keep coming on time, no captcha is pending and none of
  them finds a connection, then a tick more than five minutes after the first one has forced a
  reconnect at the latest.
\<close>

theorem dead_proxy_restarted:
  assumes "punctual (wd_last_tick wd) (v # vs @ [w])"
    and "\<forall>u\<in>set (v # vs @ [w]). tv_captcha u = [] \<and> tv_active u = 0 \<and> 0 < tv_now u"
    and "wd_zero_since wd \<le> tv_now v" and "zero_conn_limit < tv_now w - tv_now v"
  shows "px_reconnects px < px_reconnects (snd (run view_step (wd, px) (v # vs @ [w])))"
proof -
  obtain wd' px' where r: "run view_step (wd, px) (v # vs) = (wd', px')" by fastforce
  have r': "run view_step (wd, px) (v # vs @ [w]) = view_step (wd', px') w"
    using r run_append [of view_step "(wd, px)" "v # vs" "[w]"] by simp
  have tick: "wd_last_tick wd' = last_tick (wd_last_tick wd) (v # vs)"
    using wd_last_tick_run [of wd px "v # vs"] r by simp
  have on: "on_time (wd_last_tick wd') w" and p: "punctual (wd_last_tick wd) (v # vs)"
    using assms(1) punctual_append [of "wd_last_tick wd" "v # vs" "[w]"] tick by auto
  have ih: "px_reconnects px < px_reconnects px' \<or> wd_zero_since wd' \<noteq> 0 \<and> wd_zero_since wd' \<le> tv_now v"
    using idle_run [OF p, of px] assms(2,3) r by (auto simp: Let_def)
  have "px_reconnects px \<le> px_reconnects px'" using reconnects_run_mono [of px wd "v # vs"] r by simp
  moreover have "zero_conn_limit < time_sub (tv_now w) z" if "z \<le> tv_now v" for z
    using that assms(4) time_sub_le [of zero_conn_limit "tv_now w" z] by (simp add: zero_conn_limit_def not_le [symmetric])
  moreover have "view_step (wd', px') w = judge_zero (tv_now w) (wd'\<lparr>wd_last_tick := tv_now w\<rparr>, (seen w px')\<lparr>px_last_tick_tx := tv_tx w\<rparr>)"
    using assms(2) on by (simp add: idle_tick)
  ultimately show ?thesis using ih assms(2) r'
    by (auto simp: judge_zero_def captcha_pending_def split: if_splits)
qed

lemma dead_proxy_restarted_witness:
  "0 < px_reconnects (snd (run view_step (new_watchdog 1, sample_proxy) (idle_ticks 12 1)))"
proof -
  have split: "idle_ticks 12 1 = idle_view 1 # map (\<lambda>k. idle_view (1 + int k * (30 * second))) [1..<11] @ [idle_view (1 + 11 * (30 * second))]"
    by (simp add: idle_ticks_def upt_rec numeral_eq_Suc)
  have "px_reconnects sample_proxy < px_reconnects (snd (run view_step (new_watchdog 1, sample_proxy) (idle_ticks 12 1)))"
    unfolding split
    by (rule dead_proxy_restarted)
      (simp_all add: idle_view_def new_watchdog_def on_time_def watchdog_consts time_sub_def upt_rec)
  then show ?thesis by (simp add: sample_proxy_def)
qed

lemma captcha_ticks:
  assumes "punctual (wd_last_tick wd) vs" and "\<forall>v\<in>set vs. tv_captcha v \<noteq> []"
  shows "wd_zero_since (fst (run view_step (wd, px) vs)) = wd_zero_since wd"
  using assms
proof (induction vs arbitrary: wd px)
  case (Cons v vs)
  obtain wd' px' where r: "view_step (wd, px) v = (wd', px')" by fastforce
  have "wd_last_tick wd' = tv_now v" "wd_zero_since wd' = wd_zero_since wd"
    using wd_last_tick_step [of wd px v] tick_unjudged(1) [of wd v px] Cons.prems r by auto
  then show ?case using Cons r by simp
qed simp

definition captcha_view :: "time \<Rightarrow> tick_view" where
  "captcha_view t = (idle_view t)\<lparr>tv_captcha := ascii ''https''\<rparr>"

lemma punctual_from:
  "punctual (t + int m * (30 * second)) (map (\<lambda>k. captcha_view (t + int k * (30 * second))) [Suc m..<Suc n])"
  if "m \<le> n"
  using that
proof (induction "n - m" arbitrary: m)
  case (Suc d)
  have "[Suc m..<Suc n] = Suc m # [Suc (Suc m)..<Suc n]" using Suc(2) by (simp add: upt_rec)
  with Suc(1) [of "Suc m"] Suc(2,3) show ?case
    by (simp add: on_time_def captcha_view_def idle_view_def time_sub_def freeze_gap_def algebra_simps)
qed simp

lemma captcha_reconnects:
  assumes "\<forall>v\<in>set vs. tv_captcha v \<noteq> []"
  shows "px_reconnects (snd (run view_step (wd, px) vs)) = px_reconnects px"
  using assms
proof (induction vs arbitrary: wd px)
  case (Cons v vs)
  then show ?case using tick_unjudged(2) [of wd v px] by (cases "view_step (wd, px) v") simp
qed simp

text \<open>
   the five minutes without a connection also count the time spent waiting for a captcha, although
  the code means to leave the start-up, captcha included, alone. A tick finds no connection, then
  every tick for ten minutes finds the captcha pending; the first tick after the answer, when the new
  connections are just being set up, tears them down.
\<close>

theorem captcha_wait_counts_as_dead:
  assumes "0 < t" and "px_reconnects px = 0"
  shows "px_reconnects (snd (run view_step (new_watchdog t, px)
    (idle_view t # map (\<lambda>k. captcha_view (t + int k * (30 * second))) [1..<21] @ [idle_view (t + 630 * second)]))) = 1"
proof -
  let ?cs = "map (\<lambda>k. captcha_view (t + int k * (30 * second))) [1..<21]"
  obtain wd1 px1 where one: "view_step (new_watchdog t, px) (idle_view t) = (wd1, px1)" by fastforce
  have "on_time (wd_last_tick (new_watchdog t)) (idle_view t)"
    by (simp add: on_time_def new_watchdog_def idle_view_def time_sub_def freeze_gap_def)
  then have wd1: "wd_zero_since wd1 = t" "wd_last_tick wd1 = t" "px_reconnects px1 = 0"
    using one assms by (auto simp: idle_tick idle_view_def judge_zero_def new_watchdog_def seen_def)
  obtain wd2 px2 where two: "run view_step (wd1, px1) ?cs = (wd2, px2)" by fastforce
  have punct: "punctual (wd_last_tick wd1) ?cs" using punctual_from [of 0 20 t] wd1 by simp
  have cap: "\<forall>v\<in>set ?cs. tv_captcha v \<noteq> []" by (simp add: captcha_view_def ascii_def)
  have wd2: "wd_zero_since wd2 = t" using captcha_ticks [OF punct cap, of px1] two wd1 by simp
  have "px_reconnects px2 = 0" using captcha_reconnects [OF cap, of wd1 px1] two wd1 by simp
  have last: "wd_last_tick wd2 = t + 600 * second"
    using wd_last_tick_run [of wd1 px1 ?cs] two by (simp add: last_tick_def last_map captcha_view_def idle_view_def)
  have on: "on_time (wd_last_tick wd2) (idle_view (t + 630 * second))"
    by (simp add: last on_time_def idle_view_def time_sub_def freeze_gap_def)
  have "view_step (wd2, px2) (idle_view (t + 630 * second))
    = judge_zero (t + 630 * second) (wd2\<lparr>wd_last_tick := t + 630 * second\<rparr>, (seen (idle_view (t + 630 * second)) px2)\<lparr>px_last_tick_tx := 0\<rparr>)"
    using idle_tick [OF on] by (simp add: idle_view_def)
  then show ?thesis using one two wd2 \<open>px_reconnects px2 = 0\<close> assms(1)
    by (simp add: run_append judge_zero_def zero_conn_limit_def time_sub_def idle_view_def seen_def captcha_pending_def)
qed

lemma captcha_wait_counts_as_dead_witness:
  "px_reconnects (snd (run view_step (new_watchdog 1, sample_proxy)
    (idle_view 1 # map (\<lambda>k. captcha_view (1 + int k * (30 * second))) [1..<21] @ [idle_view (1 + 630 * second)]))) = 1"
  using captcha_wait_counts_as_dead [of 1 sample_proxy] by (simp add: sample_proxy_def)

section \<open>Sessions do not come back\<close>

datatype px_event = Px_pause | Px_resume | Px_force time | Px_wake time | Px_stop | Px_seen tick_view

fun px_step :: "proxy \<Rightarrow> px_event \<Rightarrow> proxy" where
  "px_step px Px_pause = pause px"
| "px_step px Px_resume = resume px"
| "px_step px (Px_force now) = force_reconnect now px"
| "px_step px (Px_wake now) = wake_check now px"
| "px_step px Px_stop = stop px"
| "px_step px (Px_seen v) = seen v px"

definition over :: "nat \<Rightarrow> proxy \<Rightarrow> bool" where
  "over k px \<longleftrightarrow> k \<le> px_sess px \<and> session_done k px"

lemma over_force: "over k px \<Longrightarrow> over k (force_reconnect now px)"
  by (auto simp: over_def session_done_def force_reconnect_def replace_session_def)

lemma over_step: "over k px \<Longrightarrow> over k (px_step px e)"
proof (cases e)
  case (Px_wake now)
  assume "over k px"
  moreover have "over k (px\<lparr>px_last_wake_tx := x\<rparr>)" "over k (clear_pion_errors px)" "over k (broadcast_wake px)"
    if "over k px" for x px
    using that by (simp_all add: over_def session_done_def clear_pion_errors_def broadcast_wake_def)
  ultimately show ?thesis using over_force Px_wake by (simp add: wake_check_def Let_def)
qed (auto simp: over_def session_done_def pause_def resume_def force_reconnect_def replace_session_def stop_def seen_def)

interpretation pxm: invariant_machine px_step "over k" for k
  by unfold_locales (rule over_step)

text \<open>
   a session context that is done stays done, whatever Pause, Resume, ForceReconnect, wake checks
  and Stop follow, so that a connection of an old session never runs beside those of the new one.
\<close>

theorem session_never_revived:
  assumes "k \<le> px_sess px" and "session_done k px"
  shows "session_done k (run px_step px es)"
  using pxm.run_inv [of k px es] assms by (simp add: over_def)

lemma session_never_revived_witness:
  "session_done 0 (run px_step (pause sample_proxy) [Px_resume, Px_wake 5, Px_force 7])"
  by (rule session_never_revived) (simp_all add: pause_def session_done_def)

end
