(* ===== verification/SessionLoop.thy ===== *)
theory SessionLoop
  imports Watchdog
begin

text \<open>
  The life of the connections of the DTLS/TURN proxy: the reconnect loop \<^verbatim>\<open>runConnection\<close> and the bootstrap
  ladder of \<^verbatim>\<open>startConnections\<close> (\<^verbatim>\<open>src/pkg/proxy/proxy.go\<close>), and the restart of every session after a change
  of the network path (\<^verbatim>\<open>src/pkg/proxy/pathrestart.go\<close>). The session a turn of the loop runs is an event:
  how it ended, after how long. A random draw is a function from the bound to the number drawn.
\<close>

section \<open>The reconnect loop\<close>

datatype conn_error = Err_captcha | Err_other bytes

datatype loop_exit = Exit_cancelled | Exit_error conn_error

datatype loop_phase = In_session | Staggering duration | Dormant duration | Delaying duration | Exited loop_exit

text \<open>
  \<open>lp_ready\<close>: whether the loop was given a ready channel (connection 0 of a bootstrap); \<open>lp_done\<close>: whether
  the session context or the proxy's context is done.
\<close>

record conn_loop =
  lp_phase :: loop_phase
  lp_ready :: bool
  lp_done :: bool
  lp_signaled :: bool
  lp_short :: nat

text \<open>The top of the loop: the check of the contexts, then a new session.\<close>

definition loop_top :: "conn_loop \<Rightarrow> conn_loop" where
  "loop_top l = l\<lparr>lp_phase := (if lp_done l then Exited Exit_cancelled else In_session)\<rparr>"

definition run_connection :: "bool \<Rightarrow> bool \<Rightarrow> conn_loop" where
  "run_connection ready cancelled =
     loop_top \<lparr>lp_phase = In_session, lp_ready = ready, lp_done = cancelled, lp_signaled = False, lp_short = 0\<rparr>"

text \<open>A \<^verbatim>\<open>select\<close> over a timer and the contexts: with a context done it returns at once.\<close>

definition wait_in :: "loop_phase \<Rightarrow> conn_loop \<Rightarrow> conn_loop" where
  "wait_in ph l = l\<lparr>lp_phase := (if lp_done l then Exited Exit_cancelled else ph)\<rparr>"

definition conn_start_stagger :: duration where
  "conn_start_stagger = second"

definition restart_stagger :: "(int \<Rightarrow> int) \<Rightarrow> duration" where
  "restart_stagger rnd = rnd conn_start_stagger"

definition conn_start_delay :: "(int \<Rightarrow> int) \<Rightarrow> int \<Rightarrow> duration" where
  "conn_start_delay rnd idx = (if idx \<le> 0 then 0 else restart_stagger rnd)"

definition expected_ramp_time :: "int \<Rightarrow> duration" where
  "expected_ramp_time n = (if n \<le> 1 then 0 else conn_start_stagger)"

definition healthy_after :: duration where
  "healthy_after = 5 * minute"

definition max_short_failures :: nat where
  "max_short_failures = 3"

definition short_failures :: "conn_error \<Rightarrow> duration \<Rightarrow> nat \<Rightarrow> nat" where
  "short_failures e d k = (if e = Err_captcha then 0 else if healthy_after < d then 0 else Suc k)"

text \<open>
  A session is over after \<open>d\<close>: \<open>restarted\<close> says that its own context was cancelled (a path change did
  that), \<open>sig\<close> that it came up and set the signal, \<open>err\<close> what it returned.
\<close>

definition session_ended ::
  "(int \<Rightarrow> int) \<Rightarrow> bool \<Rightarrow> duration \<Rightarrow> bool \<Rightarrow> conn_error option \<Rightarrow> conn_loop \<Rightarrow> conn_loop" where
  "session_ended rnd restarted d sig err l0 =
     (let l = l0\<lparr>lp_signaled := lp_signaled l0 \<or> sig\<rparr> in
      if restarted \<and> \<not> lp_done l then wait_in (Staggering (restart_stagger rnd)) (l\<lparr>lp_short := 0\<rparr>)
      else case err of
          None \<Rightarrow> loop_top l
        | Some e \<Rightarrow>
            if \<not> lp_signaled l \<and> lp_ready l then l\<lparr>lp_phase := Exited (Exit_error e)\<rparr>
            else
              let k = short_failures e d (lp_short l); l = l\<lparr>lp_short := k\<rparr> in
              if max_short_failures \<le> k then wait_in (Dormant ((30 + rnd 30) * second)) l
              else wait_in (Delaying ((2000 + rnd 5000) * millisecond)) l)"

datatype loop_event =
    Lp_ended "int \<Rightarrow> int" bool duration bool "conn_error option"
  | Lp_timer
  | Lp_slot
  | Lp_cancel

text \<open>\<open>Lp_timer\<close> is the timer of the wait, \<open>Lp_slot\<close> the slot-available signal of the pool.\<close>

definition wake_loop :: "bool \<Rightarrow> conn_loop \<Rightarrow> conn_loop" where
  "wake_loop by_slot l = (case lp_phase l of
     Dormant d \<Rightarrow> loop_top (l\<lparr>lp_short := 0\<rparr>)
   | Delaying d \<Rightarrow> loop_top l
   | Staggering d \<Rightarrow> (if by_slot then l else loop_top l)
   | In_session \<Rightarrow> l
   | Exited x \<Rightarrow> l)"

definition cancel_loop :: "conn_loop \<Rightarrow> conn_loop" where
  "cancel_loop l = (let l = l\<lparr>lp_done := True\<rparr> in case lp_phase l of
     In_session \<Rightarrow> l | Exited x \<Rightarrow> l | ph \<Rightarrow> wait_in ph l)"

fun loop_step :: "conn_loop \<Rightarrow> loop_event \<Rightarrow> conn_loop" where
  "loop_step l (Lp_ended rnd r d sig err) =
     (if lp_phase l = In_session then session_ended rnd r d sig err l else l)"
| "loop_step l Lp_timer = wake_loop False l"
| "loop_step l Lp_slot = wake_loop True l"
| "loop_step l Lp_cancel = cancel_loop l"

lemmas loop_defs = session_ended_def wait_in_def loop_top_def wake_loop_def cancel_loop_def Let_def

section \<open>A connection does not give up\<close>

definition loop_ok :: "conn_loop \<Rightarrow> bool" where
  "loop_ok l \<longleftrightarrow> (case lp_phase l of
     Exited Exit_cancelled \<Rightarrow> lp_done l
   | Exited (Exit_error e) \<Rightarrow> lp_ready l \<and> \<not> lp_signaled l
   | _ \<Rightarrow> True)"

lemma loop_ok_start: "loop_ok (run_connection ready cancelled)"
  by (simp add: loop_ok_def run_connection_def loop_top_def)

lemma loop_ok_step: "loop_ok l \<Longrightarrow> loop_ok (loop_step l e)"
  by (cases e; cases "lp_phase l")
    (auto simp: loop_ok_def loop_defs split: loop_phase.splits loop_exit.splits option.splits)

interpretation lpm: invariant_machine loop_step loop_ok
  by unfold_locales (rule loop_ok_step)

text \<open>
   a connection never gives up by itself. Whatever its sessions return and however long they last,
  the loop has only ended if its session (or the proxy) was cancelled, or if it was the first
  connection of a bootstrap and no session of it ever came up.
\<close>

theorem connection_never_gives_up:
  assumes "lp_phase (run loop_step (run_connection ready cancelled) es) = Exited x"
  shows "lp_done (run loop_step (run_connection ready cancelled) es)
    \<or> (\<exists>e. x = Exit_error e) \<and> \<not> lp_signaled (run loop_step (run_connection ready cancelled) es)
      \<and> lp_ready (run loop_step (run_connection ready cancelled) es)"
  using lpm.run_inv [OF loop_ok_start, of ready cancelled es] assms
  by (auto simp: loop_ok_def split: loop_exit.splits)

lemma connection_never_gives_up_witness:
  "lp_phase (run loop_step (run_connection False False)
     [Lp_ended (\<lambda>n. 0) False 1 False (Some (Err_other [])), Lp_cancel]) = Exited Exit_cancelled
   \<and> lp_done (run loop_step (run_connection False False)
     [Lp_ended (\<lambda>n. 0) False 1 False (Some (Err_other [])), Lp_cancel])"
proof -
  let ?es = "[Lp_ended (\<lambda>n. 0) False 1 False (Some (Err_other [])), Lp_cancel]"
  have "lp_phase (run loop_step (run_connection False False) ?es) = Exited Exit_cancelled"
    by (simp add: run_connection_def loop_defs short_failures_def healthy_after_def max_short_failures_def)
  with connection_never_gives_up [OF this] show ?thesis by auto
qed

section \<open>Failing connections do not hammer the relay\<close>

text \<open>How long a run waits: the waits whose timer runs out.\<close>

fun waited :: "conn_loop \<Rightarrow> loop_event list \<Rightarrow> duration" where
  "waited l [] = 0"
| "waited l (e # es) =
     (case (e, lp_phase l) of
        (Lp_timer, Dormant d) \<Rightarrow> d | (Lp_timer, Delaying d) \<Rightarrow> d | (Lp_timer, Staggering d) \<Rightarrow> d | _ \<Rightarrow> 0)
     + waited (loop_step l e) es"

text \<open>One session that fails within five minutes, then the wait runs out.\<close>

definition failing_round :: "(int \<Rightarrow> int) \<times> duration \<Rightarrow> loop_event list" where
  "failing_round = (\<lambda>(rnd, d). [Lp_ended rnd False d False (Some (Err_other [])), Lp_timer])"

definition draws_ok :: "(int \<Rightarrow> int) \<Rightarrow> bool" where
  "draws_ok rnd \<longleftrightarrow> 0 \<le> rnd 30 \<and> 0 \<le> rnd 5000"

lemma failing_round_step:
  assumes "lp_phase l = In_session" and "\<not> lp_done l" and "\<not> lp_ready l" and "lp_short l < 3"
    and "d \<le> healthy_after" and "draws_ok rnd"
  shows "\<exists>l'. run loop_step l (failing_round (rnd, d)) = l' \<and> lp_phase l' = In_session \<and> \<not> lp_done l' \<and> \<not> lp_ready l'
    \<and> lp_short l' = (if lp_short l = 2 then 0 else lp_short l + 1)
    \<and> (\<forall>es. waited l (failing_round (rnd, d) @ es)
         \<ge> (if lp_short l = 2 then 30 * second else 2 * second) + waited l' es)"
  using assms
  by (auto simp: failing_round_def loop_defs short_failures_def max_short_failures_def draws_ok_def)

definition least_wait :: "nat \<Rightarrow> nat \<Rightarrow> duration" where
  "least_wait k n = (34 * int ((n + k) div 3) + 2 * int ((n + k) mod 3) - 2 * int k) * second"

lemma least_wait_step:
  assumes "k < 3"
  shows "least_wait k (Suc n) =
     (if k = 2 then 30 * second else 2 * second) + least_wait (if k = 2 then 0 else k + 1) n"
proof (cases "k = 2")
  case True
  have "Suc n + 2 = n + 1 * 3" by simp
  then have "(Suc n + 2) div 3 = n div 3 + 1" "(Suc n + 2) mod 3 = n mod 3"
    by (simp_all del: One_nat_def)
  with True show ?thesis by (simp add: least_wait_def algebra_simps)
qed (use assms in \<open>simp add: least_wait_def algebra_simps\<close>)

lemma waited_rounds:
  assumes "lp_phase l = In_session" and "\<not> lp_done l" and "\<not> lp_ready l" and "lp_short l < 3"
    and "\<forall>(rnd, d)\<in>set rs. d \<le> healthy_after \<and> draws_ok rnd"
  shows "least_wait (lp_short l) (length rs) \<le> waited l (concat (map failing_round rs))"
  using assms
proof (induction rs arbitrary: l)
  case Nil
  then show ?case by (simp add: least_wait_def)
next
  case (Cons r rs)
  obtain rnd d where r: "r = (rnd, d)" by fastforce
  with Cons.prems have "d \<le> healthy_after" "draws_ok rnd" by auto
  from failing_round_step [OF Cons.prems(1-4) this] obtain l' where l':
    "lp_phase l' = In_session" "\<not> lp_done l'" "\<not> lp_ready l'" "lp_short l' = (if lp_short l = 2 then 0 else lp_short l + 1)"
    and w: "(if lp_short l = 2 then 30 * second else 2 * second) + waited l' (concat (map failing_round rs))
      \<le> waited l (failing_round r @ concat (map failing_round rs))" unfolding r by blast
  have "lp_short l' < 3" using l'(4) Cons.prems(4) by (simp split: if_splits)
  then have "least_wait (lp_short l') (length rs) \<le> waited l' (concat (map failing_round rs))"
    using Cons.IH [OF l'(1-3)] Cons.prems by simp
  with w show ?case using least_wait_step [OF Cons.prems(4), of "length rs"] l'(4) by simp
qed

text \<open>
   a relay that keeps refusing is not hammered. \<open>n\<close> sessions in a row that fail within five minutes
  each, with no signal from the pool in between, cost the connection at least 34 seconds of waiting
  for every three of them, whatever the random draws.
\<close>

theorem failures_back_off:
  assumes "\<forall>(rnd, d)\<in>set rs. d \<le> healthy_after \<and> draws_ok rnd"
  shows "34 * second * int (length rs div 3) \<le> waited (run_connection False False) (concat (map failing_round rs))"
proof -
  have "least_wait 0 (length rs) \<le> waited (run_connection False False) (concat (map failing_round rs))"
    using waited_rounds [of "run_connection False False" rs] assms
    by (simp add: run_connection_def loop_top_def)
  then show ?thesis by (simp add: least_wait_def)
qed

lemma failures_back_off_witness:
  "34 * second \<le> waited (run_connection False False) (concat (map failing_round (replicate 5 (\<lambda>n. n div 2, second))))"
  using failures_back_off [of "replicate 5 (\<lambda>n. n div 2, second)"]
  by (simp add: healthy_after_def draws_ok_def)

text \<open>A session that a path change restarted is followed by the next within a second, without a failure.\<close>

lemma restarted_session:
  assumes "lp_phase l = In_session" and "\<not> lp_done l"
  shows "loop_step l (Lp_ended rnd True d sig err)
     = l\<lparr>lp_signaled := lp_signaled l \<or> sig, lp_short := 0, lp_phase := Staggering (rnd second)\<rparr>"
  using assms by (simp add: loop_defs restart_stagger_def conn_start_stagger_def)

section \<open>The bootstrap ladder\<close>

text \<open>
  \<^verbatim>\<open>startConnections\<close>: the result of each start of connection 0 (\<open>None\<close>: it became ready), and, before
  each further attempt, the pool's snapshots (size, available slots, longest cooldown) and whether the
  proxy was stopped during the wait.
\<close>

record boot_input =
  bi_total :: nat
  bi_available :: nat
  bi_longest :: duration
  bi_stopped :: bool
  bi_result :: "conn_error option"

datatype boot_wait = Wait_slot duration | Wait_backoff duration

datatype boot_result = Boot_up int | Boot_captcha | Boot_failed conn_error | Boot_stopped

definition max_bootstrap_attempts :: nat where
  "max_bootstrap_attempts = 7"

definition bootstrap_backoff :: "nat \<Rightarrow> duration" where
  "bootstrap_backoff failed = int failed * (10 * second)"

definition all_saturated_safety :: duration where
  "all_saturated_safety = 5 * second"

definition boot_wait_for :: "nat \<Rightarrow> boot_input \<Rightarrow> boot_wait" where
  "boot_wait_for attempt i =
     (if 0 < bi_total i \<and> bi_available i = 0 \<and> 0 < bi_longest i
      then Wait_slot (bi_longest i + all_saturated_safety) else Wait_backoff (bootstrap_backoff attempt))"

text \<open>
  The retry loop from the error \<open>err\<close> of attempt \<open>attempt\<close>. The inputs are what the attempts still to come
  will see; with none left the run is not over (\<open>None\<close>).
\<close>

fun boot_loop ::
  "int \<Rightarrow> nat \<Rightarrow> conn_error option \<Rightarrow> boot_input list \<Rightarrow> boot_wait list \<Rightarrow> (boot_result \<times> boot_wait list) option" where
  "boot_loop n attempt None is ws = Some (Boot_up (max 0 (n - 1)), ws)"
| "boot_loop n attempt (Some e) is ws =
     (if e = Err_captcha then Some (Boot_captcha, ws)
      else if max_bootstrap_attempts \<le> attempt then Some (Boot_failed e, ws)
      else case is of
          [] \<Rightarrow> None
        | i # is \<Rightarrow>
            let w = boot_wait_for attempt i in
            if bi_stopped i then Some (Boot_stopped, ws @ [w])
            else boot_loop n (Suc attempt) (bi_result i) is (ws @ [w]))"

definition start_connections :: "int \<Rightarrow> conn_error option \<Rightarrow> boot_input list \<Rightarrow> (boot_result \<times> boot_wait list) option" where
  "start_connections n first is = boot_loop n 1 first is []"

fun backoff_sum :: "boot_wait list \<Rightarrow> duration" where
  "backoff_sum [] = 0"
| "backoff_sum (Wait_backoff d # ws) = d + backoff_sum ws"
| "backoff_sum (Wait_slot d # ws) = backoff_sum ws"

lemma backoff_sum_append [simp]: "backoff_sum (us @ vs) = backoff_sum us + backoff_sum vs"
  by (induction us rule: backoff_sum.induct) auto

definition backoff_left :: "nat \<Rightarrow> duration" where
  "backoff_left attempt = sum_list (map bootstrap_backoff [attempt..<7])"

lemma backoff_left_step:
  "attempt < 7 \<Longrightarrow> backoff_left attempt = bootstrap_backoff attempt + backoff_left (Suc attempt)"
  by (simp add: backoff_left_def upt_conv_Cons)

lemma backoff_left_nonneg: "0 \<le> backoff_left attempt"
  unfolding backoff_left_def by (rule sum_list_nonneg) (auto simp: bootstrap_backoff_def)

lemma boot_loop_bounded:
  assumes "attempt \<le> 7" and "7 - attempt \<le> length is"
  shows "\<exists>r ws'. boot_loop n attempt err is ws = Some (r, ws')
    \<and> length ws' \<le> length ws + (7 - attempt) \<and> backoff_sum ws' \<le> backoff_sum ws + backoff_left attempt
    \<and> (\<forall>e. r = Boot_failed e \<longrightarrow> length ws' = length ws + (7 - attempt))"
  using assms
proof (induction n attempt err "is" ws rule: boot_loop.induct)
  case (1 n attempt "is" ws)
  then show ?case using backoff_left_nonneg by simp
next
  case (2 n attempt e "is" ws)
  show ?case
  proof (cases "e = Err_captcha \<or> max_bootstrap_attempts \<le> attempt")
    case True
    then show ?thesis using 2(2) backoff_left_nonneg [of attempt] by (auto simp: max_bootstrap_attempts_def)
  next
    case False
    then have lt: "attempt < 7" by (simp add: max_bootstrap_attempts_def)
    with 2(3) obtain i is' where "is": "is = i # is'" by (cases "is") auto
    have w: "backoff_sum [boot_wait_for attempt i] \<le> bootstrap_backoff attempt"
      by (simp add: boot_wait_for_def bootstrap_backoff_def)
    show ?thesis
    proof (cases "bi_stopped i")
      case True
      then show ?thesis using False lt w "is" backoff_left_step [OF lt] backoff_left_nonneg [of "Suc attempt"]
        by (simp add: Let_def)
    next
      case go: False
      have "7 - Suc attempt \<le> length is'" using 2(3) "is" by simp
      then obtain r ws' where rec: "boot_loop n (Suc attempt) (bi_result i) is' (ws @ [boot_wait_for attempt i]) = Some (r, ws')"
        "length ws' \<le> length ws + 1 + (7 - Suc attempt)"
        "backoff_sum ws' \<le> backoff_sum (ws @ [boot_wait_for attempt i]) + backoff_left (Suc attempt)"
        "\<forall>e. r = Boot_failed e \<longrightarrow> length ws' = length ws + 1 + (7 - Suc attempt)"
        using 2(1) [of i is' "boot_wait_for attempt i"] False go "is" lt by auto
      then show ?thesis using False go "is" lt w backoff_left_step [OF lt] by (auto simp: Let_def)
    qed
  qed
qed

text \<open>
   the bootstrap ends. With whatever errors, after at most seven attempts of connection 0 it has
  either come up, or asked for a captcha, or been stopped, or failed (then all seven were made), and its
  own backoffs, apart from waits for a pool slot, add up to at most 210 seconds.
\<close>

theorem bootstrap_ends:
  assumes "length is = 6"
  shows "\<exists>r ws. start_connections n first is = Some (r, ws) \<and> length ws \<le> 6 \<and> backoff_sum ws \<le> 210 * second
    \<and> (\<forall>e. r = Boot_failed e \<longrightarrow> length ws = 6)"
proof -
  have "backoff_left 1 = 210 * second"
    by (simp add: backoff_left_def bootstrap_backoff_def upt_rec)
  then show ?thesis using boot_loop_bounded [of 1 "is" n first "[]"] assms
    by (simp add: start_connections_def)
qed

definition refused_input :: boot_input where
  "refused_input = \<lparr>bi_total = 4, bi_available = 1, bi_longest = 0, bi_stopped = False, bi_result = Some (Err_other [])\<rparr>"

lemma bootstrap_ends_witness:
  "\<exists>r ws. start_connections 30 (Some (Err_other [])) (replicate 6 refused_input) = Some (r, ws) \<and> length ws \<le> 6"
  using bootstrap_ends [of "replicate 6 refused_input" 30 "Some (Err_other [])"] by auto

end
