(* ===== verification/PathRestart.thy ===== *)
theory PathRestart
  imports SessionLoop
begin

text \<open>
  The restart of every session after a change of the network path, \<^verbatim>\<open>src/pkg/proxy/pathrestart.go\<close>, with
  the group hello of \<^verbatim>\<open>src/pkg/proxy/proxy.go\<close> that it rotates. Each locked region is one step; the timer's
  function is two, its start and its body, because \<^verbatim>\<open>Timer.Stop\<close> does not stop a function that has started.
  A cancel function is the number of the session it cancels.
\<close>

section \<open>The state\<close>

definition path_restart_settle :: duration where
  "path_restart_settle = second"

text \<open>
  \<open>pr_timer\<close> is the armed timer: when it fires and the epoch its function captured; \<open>pr_started\<close> are the
  epochs of the functions that have started and not yet run; \<open>pr_wired\<close>: \<^verbatim>\<open>fire\<close> is set.
\<close>

record path_restart =
  pr_epoch :: int
  pr_timer :: "(time \<times> int) option"
  pr_started :: "int list"
  pr_wired :: bool

text \<open>\<open>cn_restarted\<close> are the sessions whose cancel function a restart has called.\<close>

record conns =
  cn_restart :: path_restart
  cn_epoch :: "int list"
  cn_cancel :: "nat option list"
  cn_restarted :: "nat set"
  cn_first_up :: bool
  cn_hello :: "bytes option"
  cn_stopped :: bool

definition new_conns :: "nat \<Rightarrow> bytes option \<Rightarrow> conns" where
  "new_conns n hello =
     \<lparr>cn_restart = \<lparr>pr_epoch = 0, pr_timer = None, pr_started = [], pr_wired = True\<rparr>,
      cn_epoch = replicate n 0, cn_cancel = replicate n None, cn_restarted = {}, cn_first_up = False,
      cn_hello = hello, cn_stopped = False\<rparr>"

section \<open>The group hello\<close>

definition group_hello_magic :: bytes where
  "group_hello_magic = [0xff, 0x47, 0x52, 0x50]"

definition group_hello_len :: nat where
  "group_hello_len = 4 + 16"

text \<open>\<open>uuid\<close> is the result of \<^verbatim>\<open>uuid.NewRandom\<close>: 16 random bytes, or an error.\<close>

definition init_group_hello :: "bool \<Rightarrow> bool \<Rightarrow> bytes option \<Rightarrow> bytes option" where
  "init_group_hello wrap_a wrap_s uuid =
     (if wrap_a \<or> wrap_s then None else map_option (\<lambda>u. group_hello_magic @ u) uuid)"

definition rotate_group_hello :: "bytes option \<Rightarrow> conns \<Rightarrow> conns" where
  "rotate_group_hello uuid c = (case (cn_hello c, uuid) of
     (Some h, Some u) \<Rightarrow> c\<lparr>cn_hello := Some (group_hello_magic @ u)\<rparr> | _ \<Rightarrow> c)"

section \<open>The operations\<close>

definition current :: "conns \<Rightarrow> int" where
  "current c = pr_epoch (cn_restart c)"

definition path_up :: "time \<Rightarrow> path_restart \<Rightarrow> path_restart" where
  "path_up now r =
     (let e = pr_epoch r + 1; r = r\<lparr>pr_epoch := e, pr_timer := None\<rparr> in
      if \<not> pr_wired r then r else r\<lparr>pr_timer := Some (now + path_restart_settle, e)\<rparr>)"

definition on_path_up :: "time \<Rightarrow> bytes option \<Rightarrow> conns \<Rightarrow> conns" where
  "on_path_up now uuid c0 =
     (let c = rotate_group_hello uuid c0 in
      if \<not> cn_first_up c then c else c\<lparr>cn_restart := path_up now (cn_restart c)\<rparr>)"

text \<open>The runtime starts the function of a timer whose time has come.\<close>

definition timer_due :: "time \<Rightarrow> conns \<Rightarrow> conns" where
  "timer_due now c = (case pr_timer (cn_restart c) of
     Some (t, e) \<Rightarrow> if t \<le> now then c\<lparr>cn_restart := (cn_restart c)\<lparr>pr_timer := None, pr_started := pr_started (cn_restart c) @ [e]\<rparr>\<rparr> else c
   | None \<Rightarrow> c)"

definition begin_conn_session :: "int \<Rightarrow> nat \<Rightarrow> conns \<Rightarrow> conns" where
  "begin_conn_session idx sess c =
     (if idx < 0 \<or> int (length (cn_epoch c)) \<le> idx then c
      else c\<lparr>cn_epoch := (cn_epoch c)[nat idx := current c], cn_cancel := (cn_cancel c)[nat idx := Some sess]\<rparr>)"

definition end_conn_session :: "int \<Rightarrow> conns \<Rightarrow> conns" where
  "end_conn_session idx c =
     (if idx < 0 \<or> int (length (cn_cancel c)) \<le> idx then c else c\<lparr>cn_cancel := (cn_cancel c)[nat idx := None]\<rparr>)"

definition older_sessions :: "int \<Rightarrow> conns \<Rightarrow> nat list" where
  "older_sessions epoch c = concat (map (\<lambda>i. if cn_epoch c ! i < epoch then (case cn_cancel c ! i of None \<Rightarrow> [] | Some s \<Rightarrow> [s]) else [])
     [0..<length (cn_epoch c)])"

definition restart_sessions_older_than :: "int \<Rightarrow> conns \<Rightarrow> conns" where
  "restart_sessions_older_than epoch c =
     (if cn_stopped c then c else c\<lparr>cn_restarted := cn_restarted c \<union> set (older_sessions epoch c)\<rparr>)"

text \<open>The body of the \<open>k\<close>-th started function.\<close>

definition fire :: "nat \<Rightarrow> conns \<Rightarrow> conns" where
  "fire k c =
     (if k < length (pr_started (cn_restart c))
      then restart_sessions_older_than (pr_started (cn_restart c) ! k)
        (c\<lparr>cn_restart := (cn_restart c)\<lparr>pr_started := take k (pr_started (cn_restart c)) @ drop (Suc k) (pr_started (cn_restart c))\<rparr>\<rparr>)
      else c)"

datatype path_event =
    Pe_path_up time "bytes option"
  | Pe_timer time
  | Pe_fire nat
  | Pe_begin int nat
  | Pe_end int
  | Pe_first_up
  | Pe_stop

fun path_step :: "conns \<Rightarrow> path_event \<Rightarrow> conns" where
  "path_step c (Pe_path_up now uuid) = on_path_up now uuid c"
| "path_step c (Pe_timer now) = timer_due now c"
| "path_step c (Pe_fire k) = fire k c"
| "path_step c (Pe_begin idx s) = begin_conn_session idx s c"
| "path_step c (Pe_end idx) = end_conn_session idx c"
| "path_step c Pe_first_up = c\<lparr>cn_first_up := True\<rparr>"
| "path_step c Pe_stop = c\<lparr>cn_stopped := True\<rparr>"

lemmas path_defs = rotate_group_hello_def on_path_up_def path_up_def timer_due_def begin_conn_session_def
  end_conn_session_def fire_def restart_sessions_older_than_def current_def Let_def

section \<open>The invariant\<close>

text \<open>Epochs lie in the past: those of sessions, of the timer and of started functions.\<close>

definition path_ok :: "conns \<Rightarrow> bool" where
  "path_ok c \<longleftrightarrow> pr_wired (cn_restart c) \<and> length (cn_cancel c) = length (cn_epoch c)
     \<and> (\<forall>e\<in>set (cn_epoch c). e \<le> current c) \<and> (\<forall>e\<in>set (pr_started (cn_restart c)). e \<le> current c)
     \<and> (\<forall>t e. pr_timer (cn_restart c) = Some (t, e) \<longrightarrow> e = current c)"

lemma set_older:
  "set (older_sessions epoch c)
     = {s. \<exists>i < length (cn_epoch c). cn_epoch c ! i < epoch \<and> cn_cancel c ! i = Some s}"
  by (auto simp: older_sessions_def split: option.splits if_splits)

lemma path_ok_new: "path_ok (new_conns n hello)"
  by (simp add: path_ok_def new_conns_def current_def)

lemma set_list_update_le: "(\<forall>x\<in>set xs. x \<le> m) \<Longrightarrow> y \<le> m \<Longrightarrow> (\<forall>x\<in>set (xs[i := y]). x \<le> (m :: int))"
  using set_update_subset_insert [of xs i y] by auto

lemma path_ok_step:
  assumes "path_ok c" shows "path_ok (path_step c e)"
proof (cases e)
  case (Pe_path_up now uuid)
  then show ?thesis using assms
    by (auto simp: path_ok_def path_defs split: option.splits intro: order_trans)
next
  case (Pe_begin idx s)
  then show ?thesis using assms set_list_update_le [of "cn_epoch c" "current c" "current c"]
    by (auto simp: path_ok_def path_defs)
next
  case (Pe_fire k)
  then show ?thesis using assms
    by (auto simp: path_ok_def path_defs dest: in_set_takeD in_set_dropD)
qed (use assms in \<open>auto simp: path_ok_def path_defs split: option.splits\<close>)

interpretation ptm: invariant_machine path_step path_ok
  by unfold_locales (rule path_ok_step)

section \<open>New sessions are spared\<close>

definition spared :: "nat \<Rightarrow> int \<Rightarrow> conns \<Rightarrow> bool" where
  "spared s E c \<longleftrightarrow> path_ok c \<and> current c = E \<and> s \<notin> cn_restarted c
     \<and> (\<forall>i<length (cn_epoch c). cn_cancel c ! i = Some s \<longrightarrow> cn_epoch c ! i = E)"

fun keeps :: "nat \<Rightarrow> path_event \<Rightarrow> bool" where
  "keeps s (Pe_path_up now uuid) \<longleftrightarrow> False"
| "keeps s (Pe_begin idx s') \<longleftrightarrow> s' \<noteq> s"
| "keeps s e \<longleftrightarrow> True"

lemma spared_older: "spared s E c \<Longrightarrow> epoch \<le> E \<Longrightarrow> s \<notin> set (older_sessions epoch c)"
  by (auto simp: set_older spared_def)

lemma spared_restart: "spared s E c \<Longrightarrow> epoch \<le> E \<Longrightarrow> spared s E (restart_sessions_older_than epoch c)"
  using spared_older [of s E c epoch]
  by (auto simp: spared_def restart_sessions_older_than_def path_ok_def current_def)

lemma spared_step:
  assumes sp: "spared s E c" and keep: "keeps s e" shows "spared s E (path_step c e)"
proof -
  have ok: "path_ok (path_step c e)" using sp path_ok_step by (simp add: spared_def)
  show ?thesis
  proof (cases e)
    case (Pe_begin idx s')
    then show ?thesis using sp keep ok by (auto simp: spared_def path_defs path_ok_def nth_list_update split: if_splits)
  next
    case (Pe_end idx)
    then show ?thesis using sp keep ok by (auto simp: spared_def path_defs path_ok_def nth_list_update split: if_splits)
  next
    case (Pe_fire k)
    let ?r = "cn_restart c"
    let ?c = "c\<lparr>cn_restart := ?r\<lparr>pr_started := take k (pr_started ?r) @ drop (Suc k) (pr_started ?r)\<rparr>\<rparr>"
    have "spared s E ?c" using sp
      by (auto simp: spared_def path_ok_def current_def dest: in_set_takeD in_set_dropD)
    moreover have "pr_started ?r ! k \<le> E" if "k < length (pr_started ?r)"
      using sp that by (auto simp: spared_def path_ok_def)
    ultimately show ?thesis using Pe_fire spared_restart sp by (simp add: fire_def)
  qed (use sp keep ok in \<open>auto simp: spared_def path_defs split: option.splits\<close>)
qed

lemma spared_run: "spared s E c \<Longrightarrow> \<forall>e\<in>set es. keeps s e \<Longrightarrow> spared s E (run path_step c es)"
  by (induction es arbitrary: c) (auto intro: spared_step simp del: path_step.simps)

lemma spared_begin:
  assumes "path_ok c" and "s \<notin> cn_restarted c" and "Some s \<notin> set (cn_cancel c)"
  shows "spared s (current c) (path_step c (Pe_begin idx s))"
proof -
  have "cn_cancel c ! i \<noteq> Some s" if "i < length (cn_epoch c)" for i
    using assms(1,3) that nth_mem [of i "cn_cancel c"] unfolding path_ok_def by metis
  then show ?thesis using assms path_ok_step [OF assms(1), of "Pe_begin idx s"]
    by (auto simp: spared_def path_defs path_ok_def nth_list_update)
qed



section \<open>Old sessions are restarted\<close>

text \<open>Events during the settle time of a path change at \<open>t\<close>: no further change, no stop.\<close>

fun settling :: "time \<Rightarrow> path_event \<Rightarrow> bool" where
  "settling t (Pe_path_up now uuid) \<longleftrightarrow> False"
| "settling t (Pe_timer now) \<longleftrightarrow> now < t + path_restart_settle"
| "settling t Pe_stop \<longleftrightarrow> False"
| "settling t e \<longleftrightarrow> True"

definition armed :: "time \<Rightarrow> int \<Rightarrow> conns \<Rightarrow> bool" where
  "armed t E c \<longleftrightarrow> pr_timer (cn_restart c) = Some (t + path_restart_settle, E) \<and> current c = E \<and> \<not> cn_stopped c"

lemma armed_step: "armed t E c \<Longrightarrow> settling t e \<Longrightarrow> armed t E (path_step c e)"
  by (cases e) (auto simp: armed_def path_defs)

lemma armed_run: "armed t E c \<Longrightarrow> \<forall>e\<in>set es. settling t e \<Longrightarrow> armed t E (run path_step c es)"
  by (induction es arbitrary: c) (auto intro: armed_step simp del: path_step.simps)

text \<open>
   a path change reaches every session. Once it has settled (no further change for the settle time)
  and its timer function has run, every session that still runs either carries the new epoch or has
  been told to restart.
\<close>

theorem old_sessions_restarted:
  assumes "cn_first_up (run path_step (new_conns n hello) es)"
    and "\<not> cn_stopped (run path_step (new_conns n hello) es)"
    and "\<forall>e\<in>set fs. settling t e" and "t + path_restart_settle \<le> t'"
    and "c = run path_step (new_conns n hello) (es @ Pe_path_up t uuid # fs @ [Pe_timer t'])"
    and "c' = path_step c (Pe_fire (length (pr_started (cn_restart c)) - 1))"
    and "i < length (cn_epoch c')" and "cn_cancel c' ! i = Some s"
  shows "cn_epoch c' ! i = current c' \<or> s \<in> cn_restarted c'"
proof -
  let ?c0 = "run path_step (new_conns n hello) es"
  let ?c1 = "path_step ?c0 (Pe_path_up t uuid)"
  have ok: "path_ok ?c0" by (rule ptm.run_inv [OF path_ok_new])
  have "armed t (current ?c1) ?c1" using assms(1,2) ok
    by (auto simp: armed_def path_defs path_ok_def split: option.splits)
  then have ar: "armed t (current ?c1) (run path_step ?c1 fs)" using assms(3) by (rule armed_run)
  have c: "c = timer_due t' (run path_step ?c1 fs)" using assms(5) by (simp add: run_append)
  then have st: "pr_started (cn_restart c) \<noteq> []" "last (pr_started (cn_restart c)) = current c" "\<not> cn_stopped c"
    using ar assms(4) by (auto simp: armed_def timer_due_def current_def)
  have "path_ok c'" unfolding assms(6) c by (intro path_ok_step) (use ok ptm.run_inv path_ok_step in \<open>metis path_step.simps(2)\<close>)
  then have le: "cn_epoch c' ! i \<le> current c'" using assms(7) by (simp add: path_ok_def)
  have "pr_started (cn_restart c) ! (length (pr_started (cn_restart c)) - 1) = current c"
    using st by (simp add: last_conv_nth)
  then have c': "current c' = current c" "cn_epoch c' = cn_epoch c" "cn_cancel c' = cn_cancel c"
    "cn_restarted c' = cn_restarted c \<union> set (older_sessions (current c) c)"
    using assms(6) st by (simp_all add: fire_def restart_sessions_older_than_def current_def older_sessions_def)
  show ?thesis using le assms(7,8) unfolding c' set_older by force
qed

lemma old_sessions_restarted_witness:
  "1 \<in> cn_restarted (run path_step (new_conns 2 None)
     [Pe_first_up, Pe_begin 0 1, Pe_path_up 5 None, Pe_timer (5 + second), Pe_fire 0])"
proof -
  define c where "c = run path_step (new_conns 2 None)
     ([Pe_first_up, Pe_begin 0 1] @ Pe_path_up 5 None # [] @ [Pe_timer (5 + second)])"
  define c' where "c' = path_step c (Pe_fire (length (pr_started (cn_restart c)) - 1))"
  have "cn_epoch c' ! 0 = current c' \<or> 1 \<in> cn_restarted c'"
    by (rule old_sessions_restarted [of 2 None "[Pe_first_up, Pe_begin 0 1]" "[]" 5 "5 + second" c None c' 0 1])
      (simp_all add: c_def c'_def path_defs new_conns_def path_restart_settle_def older_sessions_def)
  moreover have "cn_epoch c' ! 0 \<noteq> current c'"
    by (simp add: c_def c'_def path_defs new_conns_def path_restart_settle_def)
  moreover have "c' = run path_step (new_conns 2 None)
     [Pe_first_up, Pe_begin 0 1, Pe_path_up 5 None, Pe_timer (5 + second), Pe_fire 0]"
    by (simp add: c_def c'_def timer_due_def path_up_def on_path_up_def new_conns_def rotate_group_hello_def
        begin_conn_session_def path_restart_settle_def current_def Let_def)
  ultimately show ?thesis by simp
qed

end
