(* ===== verification/Probe.thy ===== *)
theory Probe
  imports Watchdog
begin

unbundle bit_operations_syntax

text \<open>
  The liveness probes of a DTLS or SRTP session, \<^verbatim>\<open>src/pkg/proxy/proxy.go\<close>: the probe goroutine that both
  session functions start (it pings every 30 seconds, and once more after a wake), and the branch of
  the receive goroutine that records the echoes. The two copies of the code differ in log texts only.
  The connection index is in range. Clock readings close together are one reading.
\<close>

section \<open>The probe packet\<close>

definition probe_ping_magic :: bytes where
  "probe_ping_magic = [0xff, 0x50, 0x4e, 0x47]"

definition probe_interval :: duration where
  "probe_interval = 30 * second"

definition probe_stale_threshold :: duration where
  "probe_stale_threshold = 120 * second"

definition is_probe_packet :: "bytes \<Rightarrow> bool" where
  "is_probe_packet buf \<longleftrightarrow> (if length buf < length probe_ping_magic then False
     else \<forall>i\<in>{0..<length probe_ping_magic}. buf ! i = probe_ping_magic ! i)"

definition ping_packet :: "u64 \<Rightarrow> bytes" where
  "ping_packet sq = probe_ping_magic @ be64 sq"

section \<open>State\<close>

text \<open>
  What the proxy keeps per connection index, across its sessions: \<open>pc_probeable\<close> is \<^verbatim>\<open>serverProbeable\<close>,
  which all connections share; times \<open>_at\<close> in Unix seconds except \<open>pc_tx_at\<close> and \<open>pc_rx_at\<close>
  (nanoseconds of the Go clock here, \<^verbatim>\<open>UnixNano\<close> there).
\<close>

record probe_conn =
  pc_probeable :: bool
  pc_pong_at :: int
  pc_ping_seq :: u64
  pc_pong_seq :: u64
  pc_first_ping :: int
  pc_first_pong :: int
  pc_active_probe_at :: int
  pc_tx_at :: time
  pc_rx_at :: time

definition new_probe_conn :: probe_conn where
  "new_probe_conn = \<lparr>pc_probeable = False, pc_pong_at = 0, pc_ping_seq = 0, pc_pong_seq = 0, pc_first_ping = 0,
     pc_first_pong = 0, pc_active_probe_at = 0, pc_tx_at = 0, pc_rx_at = 0\<rparr>"

text \<open>The goroutine: idle in its select, in the jitter before an active probe, polling for the echo, or gone.\<close>

datatype probe_phase = Probe_idle | Probe_jitter | Probe_polling u64 time | Probe_gone

record prober =
  pb_seq :: u64
  pb_last_tick :: time
  pb_phase :: probe_phase

datatype probe_out = Send_hello | Send_ping u64 | Kill_session

definition probe_start :: "time \<Rightarrow> probe_conn \<Rightarrow> prober \<times> probe_conn \<times> probe_out list" where
  "probe_start now c =
     (\<lparr>pb_seq = 0, pb_last_tick = now, pb_phase = Probe_idle\<rparr>, c\<lparr>pc_pong_at := unix_sec now\<rparr>, [Send_hello])"

text \<open>\<^verbatim>\<open>CompareAndSwap(0, v)\<close>\<close>

definition set_once :: "int \<Rightarrow> int \<Rightarrow> int" where
  "set_once v old = (if old = 0 then v else old)"

definition send_ping :: "time \<Rightarrow> prober \<times> probe_conn \<Rightarrow> prober \<times> probe_conn" where
  "send_ping now = (\<lambda>(p, c). (p, c\<lparr>pc_ping_seq := pb_seq p, pc_first_ping := set_once (unix_sec now) (pc_first_ping c)\<rparr>))"

section \<open>The periodic tick\<close>

definition no_pong_for :: "time \<Rightarrow> probe_conn \<Rightarrow> duration" where
  "no_pong_for now c = time_sub now (unix_time (pc_pong_at c))"

text \<open>\<open>wok\<close>: whether the write of the ping succeeds; when it fails the goroutine returns.\<close>

definition probe_tick :: "time \<Rightarrow> bool \<Rightarrow> prober \<times> probe_conn \<Rightarrow> prober \<times> probe_conn \<times> probe_out list" where
  "probe_tick now wok = (\<lambda>(p0, c0).
     let p = p0\<lparr>pb_last_tick := now\<rparr> in
     if freeze_gap < time_sub now (pb_last_tick p0) then (p, c0\<lparr>pc_pong_at := unix_sec now\<rparr>, [])
     else
       let p = p\<lparr>pb_seq := pb_seq p + 1\<rparr> in
       if \<not> wok then (p\<lparr>pb_phase := Probe_gone\<rparr>, c0, [])
       else case send_ping now (p, c0) of (p, c) \<Rightarrow>
         if pc_probeable c \<and> probe_stale_threshold < no_pong_for now c
         then (p\<lparr>pb_phase := Probe_gone\<rparr>, c, [Send_ping (pb_seq p), Kill_session])
         else (p, c, [Send_ping (pb_seq p)]))"

section \<open>The active probe after a wake\<close>

definition active_probe_throttle :: duration where
  "active_probe_throttle = 30 * second"

definition recent_traffic :: duration where
  "recent_traffic = 5 * second"

definition echo_wait :: duration where
  "echo_wait = 30 * second"

definition probe_wake :: "time \<Rightarrow> prober \<times> probe_conn \<Rightarrow> prober \<times> probe_conn" where
  "probe_wake now = (\<lambda>(p, c).
     if \<not> pc_probeable c then (p, c)
     else if 0 < pc_active_probe_at c \<and> time_sub now (unix_time (pc_active_probe_at c)) < active_probe_throttle then (p, c)
     else if now - recent_traffic < pc_tx_at c \<or> now - recent_traffic < pc_rx_at c then (p, c)
     else (p\<lparr>pb_phase := Probe_jitter\<rparr>, c))"

text \<open>The jitter (up to 300 ms) is over: the ping goes out.\<close>

definition probe_active :: "time \<Rightarrow> bool \<Rightarrow> prober \<times> probe_conn \<Rightarrow> prober \<times> probe_conn \<times> probe_out list" where
  "probe_active now wok = (\<lambda>(p, c0).
     let c = c0\<lparr>pc_active_probe_at := unix_sec now\<rparr>; p = p\<lparr>pb_seq := pb_seq p + 1\<rparr> in
     if \<not> wok then (p\<lparr>pb_phase := Probe_gone\<rparr>, c, [])
     else case send_ping now (p, c) of (p, c) \<Rightarrow>
       (p\<lparr>pb_phase := Probe_polling (pb_seq p) (now + echo_wait)\<rparr>, c, [Send_ping (pb_seq p)]))"

text \<open>One turn of the polling loop, entered at the start and then every 100 ms.\<close>

definition probe_poll :: "time \<Rightarrow> u64 \<Rightarrow> time \<Rightarrow> prober \<times> probe_conn \<Rightarrow> prober \<times> probe_conn \<times> probe_out list" where
  "probe_poll now sent deadline = (\<lambda>(p, c).
     if \<not> now < deadline then (p\<lparr>pb_phase := Probe_gone\<rparr>, c, [Kill_session])
     else if sent \<le> pc_pong_seq c then (p\<lparr>pb_phase := Probe_idle, pb_last_tick := now\<rparr>, c, [])
     else (p, c, []))"

section \<open>The receive branch\<close>

definition pong_received :: "time \<Rightarrow> bytes \<Rightarrow> probe_conn \<Rightarrow> probe_conn" where
  "pong_received now pkt c =
     (let s = unix_sec now;
          c = c\<lparr>pc_probeable := True, pc_pong_at := s,
                pc_first_pong := set_once s (pc_first_pong c)\<rparr>
      in if length probe_ping_magic + 8 \<le> length pkt
         then c\<lparr>pc_pong_seq := be_val (gslice pkt (length probe_ping_magic) (length probe_ping_magic + 8))\<rparr> else c)"

text \<open>
  A datagram of the session: an echo is consumed, anything else goes on to the receive queue; only the
  SRTP session (\<open>counts\<close>) stamps the data it receives.
\<close>

definition packet_received :: "bool \<Rightarrow> time \<Rightarrow> bytes \<Rightarrow> probe_conn \<Rightarrow> bool \<times> probe_conn" where
  "packet_received counts now pkt c =
     (if is_probe_packet pkt then (False, pong_received now pkt c)
      else (True, if counts then c\<lparr>pc_rx_at := now\<rparr> else c))"

section \<open>The read loop's deadline\<close>

datatype read_next = Read_again | Read_stop

text \<open>
  \<open>elapsed\<close> is how long the read of 30 seconds really took, \<open>last_recv\<close> the shared \<^verbatim>\<open>lastRecvTime\<close>. A read that
  times out ends the session only when nothing at all has been received for three minutes.
\<close>

definition read_timeout :: "bool \<Rightarrow> time \<Rightarrow> duration \<Rightarrow> int \<Rightarrow> read_next \<times> int" where
  "read_timeout cancelled now elapsed last_recv =
     (if cancelled then (Read_stop, last_recv)
      else if freeze_gap < elapsed then (Read_again, unix_sec now)
      else if 0 < last_recv \<and> time_sub now (unix_time last_recv) < 3 * minute then (Read_again, last_recv)
      else (Read_stop, last_recv))"

section \<open>Runs of a session\<close>

datatype probe_event =
    Pv_tick time bool
  | Pv_wake time
  | Pv_jitter_over time bool
  | Pv_poll time
  | Pv_packet bool time bytes
  | Pv_probeable
  | Pv_sent time

text \<open>
  Events that the goroutine does not wait for in its phase do not happen to it. \<open>Pv_probeable\<close>: another
  connection has heard an echo; \<open>Pv_sent\<close>: the writer stamps an uplink packet.
\<close>

fun probe_step :: "prober \<times> probe_conn \<times> probe_out list \<Rightarrow> probe_event \<Rightarrow> prober \<times> probe_conn \<times> probe_out list" where
  "probe_step (p, c, os) (Pv_tick now wok) =
     (if pb_phase p = Probe_idle then (case probe_tick now wok (p, c) of (p, c, os') \<Rightarrow> (p, c, os @ os')) else (p, c, os))"
| "probe_step (p, c, os) (Pv_wake now) =
     (if pb_phase p = Probe_idle then (case probe_wake now (p, c) of (p, c) \<Rightarrow> (p, c, os)) else (p, c, os))"
| "probe_step (p, c, os) (Pv_jitter_over now wok) =
     (if pb_phase p = Probe_jitter then (case probe_active now wok (p, c) of (p, c, os') \<Rightarrow> (p, c, os @ os')) else (p, c, os))"
| "probe_step (p, c, os) (Pv_poll now) =
     (case pb_phase p of Probe_polling sent deadline \<Rightarrow>
         (case probe_poll now sent deadline (p, c) of (p, c, os') \<Rightarrow> (p, c, os @ os'))
      | _ \<Rightarrow> (p, c, os))"
| "probe_step (p, c, os) (Pv_packet counts now pkt) = (p, snd (packet_received counts now pkt c), os)"
| "probe_step (p, c, os) Pv_probeable = (p, c\<lparr>pc_probeable := True\<rparr>, os)"
| "probe_step (p, c, os) (Pv_sent now) = (p, c\<lparr>pc_tx_at := now\<rparr>, os)"

section \<open>Echoes\<close>

lemma is_probe_packet_prefix: "is_probe_packet buf \<longleftrightarrow> has_prefix probe_ping_magic buf"
proof -
  have "has_prefix probe_ping_magic buf \<longleftrightarrow> length probe_ping_magic \<le> length buf
      \<and> (\<forall>i<length probe_ping_magic. buf ! i = probe_ping_magic ! i)"
    by (auto simp: has_prefix_def list_eq_iff_nth_eq)
  then show ?thesis by (auto simp: is_probe_packet_def)
qed

lemma ping_is_probe: "is_probe_packet (ping_packet sq)"
  by (simp add: is_probe_packet_prefix ping_packet_def)

lemma echo_recorded: "pc_pong_seq (pong_received now (ping_packet sq) c) = sq"
  by (simp add: pong_received_def ping_packet_def probe_ping_magic_def gslice_def Let_def)

text \<open>No WireGuard message, whose first byte is 1 to 4, is taken for an echo.\<close>

lemma wireguard_passes:
  assumes "buf \<noteq> []" and "buf ! 0 \<le> 4"
  shows "fst (packet_received counts now buf c)"
proof -
  have "buf ! 0 \<noteq> 0xff" using assms(2) by auto
  then have "\<not> is_probe_packet buf" by (auto simp: is_probe_packet_prefix has_prefix_iff probe_ping_magic_def)
  then show ?thesis by (simp add: packet_received_def)
qed

section \<open>A session is killed for silence only\<close>

fun probe_event_time :: "probe_event \<Rightarrow> time option" where
  "probe_event_time (Pv_tick now wok) = Some now"
| "probe_event_time (Pv_wake now) = Some now"
| "probe_event_time (Pv_jitter_over now wok) = Some now"
| "probe_event_time (Pv_poll now) = Some now"
| "probe_event_time (Pv_packet counts now pkt) = Some now"
| "probe_event_time Pv_probeable = None"
| "probe_event_time (Pv_sent now) = Some now"

text \<open>The clock does not go back.\<close>

fun clocked :: "time \<Rightarrow> probe_event list \<Rightarrow> bool" where
  "clocked t [] \<longleftrightarrow> True"
| "clocked t (e # es) \<longleftrightarrow> (case probe_event_time e of None \<Rightarrow> clocked t es | Some u \<Rightarrow> t \<le> u \<and> clocked u es)"

definition echo_times :: "probe_event list \<Rightarrow> time list" where
  "echo_times es = concat (map (\<lambda>e. case e of Pv_packet counts now pkt \<Rightarrow> if is_probe_packet pkt then [now] else [] | _ \<Rightarrow> []) es)"

lemma unix_sec_mono: "t \<le> u \<Longrightarrow> unix_sec t \<le> unix_sec u"
  by (simp add: unix_sec_def zdiv_mono1)

lemma pong_at_step:
  assumes "pc_pong_at c \<le> unix_sec t" and "\<forall>u. probe_event_time e = Some u \<longrightarrow> t \<le> u"
  defines "t' \<equiv> (case probe_event_time e of None \<Rightarrow> t | Some u \<Rightarrow> u)"
  shows "pc_pong_at c \<le> pc_pong_at (fst (snd (probe_step (p, c, os) e)))
    \<and> pc_pong_at (fst (snd (probe_step (p, c, os) e))) \<le> unix_sec t'
    \<and> (\<forall>u\<in>set (echo_times [e]). unix_sec u \<le> pc_pong_at (fst (snd (probe_step (p, c, os) e))))"
  using assms unix_sec_mono [of t t']
  by (cases e) (auto simp: probe_tick_def probe_wake_def probe_active_def probe_poll_def packet_received_def pong_received_def
      send_ping_def echo_times_def Let_def intro: order_trans split: probe_phase.splits)

lemma clocked_last: "clocked t (es @ [Pv_tick now wok]) \<Longrightarrow> t \<le> now"
  by (induction es arbitrary: t) (auto split: option.splits intro: order_trans)

lemma pong_at_run:
  assumes "pc_pong_at c \<le> unix_sec t" and "clocked t (es @ [Pv_tick now wok])"
    and "run probe_step (p, c, os) es = (p', c', os')"
  shows "pc_pong_at c \<le> pc_pong_at c' \<and> pc_pong_at c' \<le> unix_sec now
    \<and> (\<forall>u\<in>set (echo_times es). unix_sec u \<le> pc_pong_at c')"
  using assms
proof (induction es arbitrary: p c os t)
  case Nil
  then show ?case using unix_sec_mono [of t now] by (auto simp: echo_times_def)
next
  case (Cons e es)
  obtain p1 c1 os1 where st: "probe_step (p, c, os) e = (p1, c1, os1)" by (metis prod_cases3)
  define t' where "t' = (case probe_event_time e of None \<Rightarrow> t | Some u \<Rightarrow> u)"
  have le: "\<forall>u. probe_event_time e = Some u \<longrightarrow> t \<le> u" and t': "clocked t' (es @ [Pv_tick now wok])"
    using Cons.prems(2) by (auto simp: t'_def split: option.splits)
  have step: "pc_pong_at c \<le> pc_pong_at c1" "pc_pong_at c1 \<le> unix_sec t'"
    "\<forall>u\<in>set (echo_times [e]). unix_sec u \<le> pc_pong_at c1"
    using pong_at_step [OF Cons.prems(1) le, of p os] unfolding st t'_def by auto
  have rest: "run probe_step (p1, c1, os1) es = (p', c', os')" using Cons.prems(3) st by simp
  have "echo_times (e # es) = echo_times [e] @ echo_times es" by (simp add: echo_times_def)
  then show ?case using Cons.IH [OF step(2) t' rest] step by (auto intro: order_trans)
qed

lemma clocked_append: "clocked t (es @ fs) \<Longrightarrow> clocked t es"
  by (induction es arbitrary: t) (auto split: option.splits)

lemma clocked_echoes: "clocked t (es @ [Pv_tick now wok]) \<Longrightarrow> u \<in> set (echo_times es) \<Longrightarrow> t \<le> u \<and> u \<le> now"
proof (induction es arbitrary: t)
  case (Cons e es)
  have app: "echo_times (e # es) = echo_times [e] @ echo_times es" by (simp add: echo_times_def)
  define t' where "t' = (case probe_event_time e of None \<Rightarrow> t | Some u \<Rightarrow> u)"
  have c: "t \<le> t'" "clocked t' (es @ [Pv_tick now wok])" using Cons.prems(1) by (auto simp: t'_def split: option.splits)
  show ?case
  proof (cases "u \<in> set (echo_times [e])")
    case True
    then have "u = t'" by (auto simp: echo_times_def t'_def split: probe_event.splits if_splits)
    with c clocked_last show ?thesis by blast
  next
    case False
    then show ?thesis using Cons.IH [OF c(2)] Cons.prems(2) app c(1) by auto
  qed
qed (simp add: echo_times_def)

lemma unix_time_mono:
  assumes "clock_ok u" and "clock_ok v" and "unix_sec u \<le> s" and "s \<le> unix_sec v"
  shows "unix_time (unix_sec u) \<le> unix_time s"
proof -
  have *: "unix_time x = (x + 62135596800) * second" if "unix_sec u \<le> x" "x \<le> unix_sec v" for x
  proof -
    define q where "q = v div second"
    have "q * second \<le> v" by (simp add: q_def)
    with assms(2) have "q < 2 ^ 63" unfolding clock_ok_def by linarith
    define y where "y = x + 62135596800"
    have "y < 2 ^ 63" using that(2) \<open>q < 2 ^ 63\<close> by (simp add: unix_sec_def q_def y_def)
    moreover have "0 \<le> y" using that(1) unix_roundtrip(2) [OF assms(1)] by (simp add: y_def)
    ultimately have "sint (word_of_int y :: u64) = y" by (simp add: signed_of_int signed_take_bit_int_eq_self)
    then show ?thesis by (simp only: unix_time_def y_def)
  qed
  show ?thesis using * [of s] * [of "unix_sec u"] assms(3,4) by simp
qed


definition probed_conn :: probe_conn where
  "probed_conn = new_probe_conn\<lparr>pc_probeable := True\<rparr>"

abbreviation noon :: time where
  "noon \<equiv> 62136796800 * second"

lemma noon_ok: "clock_ok (noon + int k * second)" if "k \<le> 1000000"
  using that by (simp add: clock_ok_def)

lemma unix_noon: "unix_sec (noon + d * second) = 1200000 + d" "unix_time 1200000 = noon"
  by (simp_all add: unix_sec_def unix_time_def)

abbreviation four_ticks :: "probe_event list" where
  "four_ticks \<equiv> map (\<lambda>k. Pv_tick (noon + k * (30 * second)) True) [1, 2, 3, 4]"


section \<open>A silent session is killed\<close>

fun quiet :: "probe_event \<Rightarrow> bool" where
  "quiet (Pv_tick now wok) \<longleftrightarrow> wok"
| "quiet (Pv_packet counts now pkt) \<longleftrightarrow> \<not> is_probe_packet pkt"
| "quiet (Pv_sent now) \<longleftrightarrow> True"
| "quiet Pv_probeable \<longleftrightarrow> True"
| "quiet e \<longleftrightarrow> False"

fun ticks_punctual :: "time \<Rightarrow> probe_event list \<Rightarrow> bool" where
  "ticks_punctual prev [] \<longleftrightarrow> True"
| "ticks_punctual prev (Pv_tick now wok # es) \<longleftrightarrow> \<not> freeze_gap < time_sub now prev \<and> ticks_punctual now es"
| "ticks_punctual prev (e # es) \<longleftrightarrow> ticks_punctual prev es"

lemma kill_stays: "Kill_session \<in> set os \<Longrightarrow> Kill_session \<in> set (snd (snd (run probe_step (p, c, os) es)))"
proof (induction es arbitrary: p c os)
  case (Cons e es)
  obtain p1 c1 os1 where st: "probe_step (p, c, os) e = (p1, c1, os1)" by (metis prod_cases3)
  then have "Kill_session \<in> set os1" using Cons.prems
    by (cases e) (auto split: prod.splits if_splits probe_phase.splits)
  with Cons.IH st show ?case by simp
qed simp

lemma silent_run:
  assumes "pb_phase p = Probe_idle" and "pb_last_tick p = prev" and "pc_probeable c" and "pc_pong_at c = unix_sec t0"
    and "\<forall>e\<in>set es. quiet e" and "ticks_punctual prev (es @ [Pv_tick now True])" and "clock_ok t0" and "120 * second < now - t0"
  shows "Kill_session \<in> set (snd (snd (run probe_step (p, c, os) (es @ [Pv_tick now True]))))"
  using assms(1-6)
proof (induction es arbitrary: p c os prev)
  case Nil
  have "whole_second t0 \<le> t0" using assms(7) by (simp add: whole_second_def clock_ok_def)
  then have "120 * second < now - whole_second t0" using assms(8) by simp
  then have "120 * second < time_sub now (whole_second t0)"
    using time_sub_le [of "120 * second" now "whole_second t0"] by (simp add: not_le [symmetric])
  then show ?case using Nil unix_roundtrip(1) [OF assms(7)]
    by (simp add: probe_tick_def send_ping_def no_pong_for_def probe_stale_threshold_def)
next
  case (Cons e es)
  show ?case
  proof (cases e)
    case (Pv_tick t wok)
    then have "wok" "\<not> freeze_gap < time_sub t prev" "ticks_punctual t (es @ [Pv_tick now True])"
      using Cons.prems by auto
    then show ?thesis
    proof (cases "probe_stale_threshold < no_pong_for t c")
      case True
      then show ?thesis using Cons.prems Pv_tick \<open>wok\<close> \<open>\<not> freeze_gap < time_sub t prev\<close>
        by (auto simp: probe_tick_def send_ping_def no_pong_for_def intro: kill_stays)
    next
      case False
      then show ?thesis using Cons Pv_tick \<open>wok\<close> \<open>\<not> freeze_gap < time_sub t prev\<close> \<open>ticks_punctual t _\<close>
        by (auto simp: probe_tick_def send_ping_def no_pong_for_def)
    qed
  qed (use Cons in \<open>auto simp: packet_received_def\<close>)
qed

text \<open>
   a dead session is found. Once any connection has heard the server echo a probe, a session that
  hears no echo is killed by the first periodic tick more than 120 seconds after its start, however
  much other traffic it carries, as long as the ticks come on time and the pings can be written.
\<close>

theorem silent_session_killed:
  assumes "pc_probeable c0" and "clock_ok t0" and "\<forall>e\<in>set es. quiet e"
    and "ticks_punctual t0 (es @ [Pv_tick now True])" and "120 * second < now - t0"
  shows "Kill_session \<in> set (snd (snd (run probe_step (probe_start t0 c0) (es @ [Pv_tick now True]))))"
  unfolding probe_start_def by (rule silent_run [OF _ _ _ _ assms(3,4,2,5)]) (use assms(1) in simp_all)

lemma silent_session_killed_witness:
  "Kill_session \<in> set (snd (snd (run probe_step (probe_start noon probed_conn)
     (four_ticks @ [Pv_tick (noon + 150 * second) True]))))"
  by (rule silent_session_killed) (use noon_ok [of 0] in \<open>simp_all add: probed_conn_def time_sub_def freeze_gap_def\<close>)

section \<open>The active probe\<close>

text \<open>A polling goroutine without a new echo waits for 30 seconds, then kills the session.\<close>

lemma active_probe_waits:
  assumes "pc_pong_seq c < sent"
  shows "probe_poll now sent deadline (p, c) =
     (if now < deadline then (p, c, []) else (p\<lparr>pb_phase := Probe_gone\<rparr>, c, [Kill_session]))"
  using assms by (simp add: probe_poll_def)

text \<open>
   the active probe of a new session accepts the echoes of the session before. The highest echoed
  number is kept per connection index and is not reset, while the numbers start over with each
  session: if the previous session heard an echo of any ping, a wake right after the start of a new
  session passes its active probe at the first poll, although nothing has ever arrived on it.
\<close>

theorem stale_echo_passes_probe:
  assumes "pc_probeable c0" and "1 \<le> pc_pong_seq c0" and "pc_active_probe_at c0 = 0"
    and "pc_tx_at c0 \<le> t - recent_traffic" and "pc_rx_at c0 \<le> t - recent_traffic"
  shows "run probe_step (probe_start t0 c0) [Pv_wake t, Pv_jitter_over t' True, Pv_poll t']
     = (\<lparr>pb_seq = 1, pb_last_tick = t', pb_phase = Probe_idle\<rparr>,
        c0\<lparr>pc_pong_at := unix_sec t0, pc_active_probe_at := unix_sec t', pc_ping_seq := 1,
           pc_first_ping := set_once (unix_sec t') (pc_first_ping c0)\<rparr>,
        [Send_hello, Send_ping 1])"
  using assms
  by (simp add: probe_start_def probe_wake_def probe_active_def probe_poll_def send_ping_def echo_wait_def not_less)

lemma stale_echo_passes_probe_witness:
  "snd (snd (run probe_step (probe_start noon (pong_received 0 (ping_packet 9) new_probe_conn))
     [Pv_wake (noon + second), Pv_jitter_over (noon + second) True, Pv_poll (noon + second)])) = [Send_hello, Send_ping 1]"
proof -
  have *: "pc_pong_seq (pong_received 0 (ping_packet 9) new_probe_conn) = 9" by (rule echo_recorded)
  have "pc_probeable (pong_received 0 (ping_packet 9) new_probe_conn)" "pc_active_probe_at (pong_received 0 (ping_packet 9) new_probe_conn) = 0"
    "pc_tx_at (pong_received 0 (ping_packet 9) new_probe_conn) = 0" "pc_rx_at (pong_received 0 (ping_packet 9) new_probe_conn) = 0"
    by (simp_all add: pong_received_def new_probe_conn_def Let_def)
  with * show ?thesis
    by (subst stale_echo_passes_probe) (simp_all add: recent_traffic_def word_le_nat_alt)
qed

end
