(* ===== verification/PacketPath.thy ===== *)
theory PacketPath
  imports RxReorder
begin

text \<open>
  The packet queues between WireGuard and the connections, \<^verbatim>\<open>src/pkg/proxy/proxy.go\<close> (\<^verbatim>\<open>SendPacket\<close>,
  \<^verbatim>\<open>enqueueRecv\<close>, \<^verbatim>\<open>ReceivePacket\<close> and the buffer pools) and \<^verbatim>\<open>src/pkg/proxy/writepacket.go\<close>. The buffers are recycled: a buffer is a number, its backing
  array lies in an explicit store, and a packet is a buffer with a length, so that two holders of one
  buffer would see each other's writes.
\<close>

section \<open>Buffers and queues\<close>

type_synonym buf = nat

record item =
  it_buf :: buf
  it_len :: nat

definition queue_cap :: nat where
  "queue_cap = 256"

definition pool_buf_cap :: nat where
  "pool_buf_cap = 2048"

text \<open>
  \<open>pp_holders\<close> are the goroutines that have filled a buffer and are not in the queue yet, \<open>pp_takers\<close> the
  writers that have taken one out and not yet returned; \<open>pp_out\<close> is what was handed on, in order.
\<close>

record packet_path =
  pp_mem :: "buf \<Rightarrow> bytes"
  pp_next :: buf
  pp_pool :: "buf list"
  pp_holders :: "item list"
  pp_queue :: "item list"
  pp_takers :: "item list"
  pp_out :: "bytes list"
  pp_bytes :: int
  pp_packets :: int
  pp_peak :: int

definition new_packet_path :: packet_path where
  "new_packet_path = \<lparr>pp_mem = (\<lambda>_. []), pp_next = 0, pp_pool = [], pp_holders = [], pp_queue = [],
     pp_takers = [], pp_out = [], pp_bytes = 0, pp_packets = 0, pp_peak = 0\<rparr>"

definition remove_at :: "nat \<Rightarrow> 'a list \<Rightarrow> 'a list" where
  "remove_at k xs = take k xs @ drop (Suc k) xs"

definition fresh_buf :: "nat \<Rightarrow> packet_path \<Rightarrow> buf \<times> packet_path" where
  "fresh_buf n p = (pp_next p, p\<lparr>pp_next := Suc (pp_next p), pp_mem := (pp_mem p)(pp_next p := replicate n 0)\<rparr>)"

text \<open>
  \<^verbatim>\<open>sync.Pool\<close> hands out any of its buffers (\<open>pick\<close>), or makes one; one that is too small is dropped.
\<close>

definition pool_get :: "nat option \<Rightarrow> nat \<Rightarrow> packet_path \<Rightarrow> buf \<times> packet_path" where
  "pool_get pick n p =
     (case (case pick of
              Some k \<Rightarrow> if k < length (pp_pool p) then (pp_pool p ! k, p\<lparr>pp_pool := remove_at k (pp_pool p)\<rparr>)
                        else fresh_buf pool_buf_cap p
            | None \<Rightarrow> fresh_buf pool_buf_cap p) of
        (b, p) \<Rightarrow> if length (pp_mem p b) < n then fresh_buf n p else (b, p))"

definition pool_put :: "buf \<Rightarrow> packet_path \<Rightarrow> packet_path" where
  "pool_put b p = p\<lparr>pp_pool := b # pp_pool p\<rparr>"

text \<open>\<^verbatim>\<open>copy(buf, data)\<close> into a buffer that is long enough.\<close>

definition copy_into :: "buf \<Rightarrow> bytes \<Rightarrow> packet_path \<Rightarrow> packet_path" where
  "copy_into b data p = p\<lparr>pp_mem := (pp_mem p)(b := data @ drop (length data) (pp_mem p b))\<rparr>"

definition contents :: "packet_path \<Rightarrow> item \<Rightarrow> bytes" where
  "contents p it = take (it_len it) (pp_mem p (it_buf it))"

section \<open>The operations\<close>

text \<open>\<^verbatim>\<open>SendPacket\<close> (and the receive goroutines before \<^verbatim>\<open>enqueueRecv\<close>): a buffer is taken and filled.\<close>

definition fill_packet :: "nat option \<Rightarrow> bytes \<Rightarrow> packet_path \<Rightarrow> packet_path" where
  "fill_packet pick data p = (case pool_get pick (length data) p of
     (b, p) \<Rightarrow> (copy_into b data p)\<lparr>pp_holders := pp_holders p @ [\<lparr>it_buf = b, it_len = length data\<rparr>]\<rparr>)"

text \<open>The enqueue, at once or after blocking; \<open>counts\<close>: \<^verbatim>\<open>SendPacket\<close> counts here, \<^verbatim>\<open>enqueueRecv\<close> does not.\<close>

definition note_peak :: "nat \<Rightarrow> packet_path \<Rightarrow> packet_path" where
  "note_peak d p = p\<lparr>pp_peak := max (pp_peak p) (int d)\<rparr>"

definition count_packet :: "nat \<Rightarrow> packet_path \<Rightarrow> packet_path" where
  "count_packet n p = p\<lparr>pp_bytes := pp_bytes p + int n, pp_packets := pp_packets p + 1\<rparr>"

definition enqueue_packet :: "bool \<Rightarrow> nat \<Rightarrow> packet_path \<Rightarrow> packet_path" where
  "enqueue_packet counts k p =
     (if k < length (pp_holders p) \<and> length (pp_queue p) < queue_cap then
        (let it = pp_holders p ! k;
             p = p\<lparr>pp_holders := remove_at k (pp_holders p), pp_queue := pp_queue p @ [it]\<rparr>;
             p = note_peak (length (pp_queue p)) p
         in if counts then count_packet (it_len it) p else p)
      else p)"

text \<open>The context is done before there is room: the holder returns its buffer.\<close>

definition give_up_packet :: "nat \<Rightarrow> packet_path \<Rightarrow> packet_path" where
  "give_up_packet k p =
     (if k < length (pp_holders p)
      then pool_put (it_buf (pp_holders p ! k)) (p\<lparr>pp_holders := remove_at k (pp_holders p)\<rparr>) else p)"

text \<open>A writer takes a packet; \<^verbatim>\<open>writePacket\<close> hands it to the connection and returns the buffer on every path.\<close>

definition take_packet :: "packet_path \<Rightarrow> packet_path" where
  "take_packet p = (case pp_queue p of [] \<Rightarrow> p
     | it # q \<Rightarrow> p\<lparr>pp_queue := q, pp_takers := pp_takers p @ [it]\<rparr>)"

definition write_packet_out :: "nat \<Rightarrow> packet_path \<Rightarrow> packet_path" where
  "write_packet_out k p =
     (if k < length (pp_takers p) then
        (let it = pp_takers p ! k
         in pool_put (it_buf it)
              (p\<lparr>pp_takers := remove_at k (pp_takers p), pp_out := pp_out p @ [contents p it]\<rparr>))
      else p)"

text \<open>\<^verbatim>\<open>ReceivePacket\<close> into a buffer of length \<open>n\<close>.\<close>

definition receive_packet :: "nat \<Rightarrow> packet_path \<Rightarrow> packet_path" where
  "receive_packet n p = (case pp_queue p of [] \<Rightarrow> p
     | it # q \<Rightarrow>
         count_packet (min n (it_len it))
           (pool_put (it_buf it) (p\<lparr>pp_queue := q, pp_out := pp_out p @ [take n (contents p it)]\<rparr>)))"

text \<open>The garbage collector empties a pool at will.\<close>

definition pool_drop :: "nat \<Rightarrow> packet_path \<Rightarrow> packet_path" where
  "pool_drop k p = p\<lparr>pp_pool := remove_at k (pp_pool p)\<rparr>"

datatype packet_event =
    Pk_fill "nat option" bytes
  | Pk_enqueue bool nat
  | Pk_give_up nat
  | Pk_take
  | Pk_write nat
  | Pk_receive nat
  | Pk_drop nat

fun packet_step :: "packet_path \<Rightarrow> packet_event \<Rightarrow> packet_path" where
  "packet_step p (Pk_fill pick data) = fill_packet pick data p"
| "packet_step p (Pk_enqueue counts k) = enqueue_packet counts k p"
| "packet_step p (Pk_give_up k) = give_up_packet k p"
| "packet_step p Pk_take = take_packet p"
| "packet_step p (Pk_write k) = write_packet_out k p"
| "packet_step p (Pk_receive n) = receive_packet n p"
| "packet_step p (Pk_drop k) = pool_drop k p"

section \<open>One owner per buffer\<close>

definition held :: "packet_path \<Rightarrow> item list" where
  "held p = pp_holders p @ pp_queue p @ pp_takers p"

definition owners :: "packet_path \<Rightarrow> buf multiset" where
  "owners p = mset (pp_pool p) + mset (map it_buf (held p))"

definition owned :: "packet_path \<Rightarrow> bool" where
  "owned p \<longleftrightarrow> (\<forall>b. count (owners p) b \<le> 1) \<and> (\<forall>b\<in>#owners p. b < pp_next p)
     \<and> (\<forall>it\<in>set (held p). it_len it \<le> length (pp_mem p (it_buf it)))"

lemma mset_remove_at: "k < length xs \<Longrightarrow> mset xs = add_mset (xs ! k) (mset (remove_at k xs))"
  by (metis id_take_nth_drop mset_append mset.simps(2) remove_at_def union_mset_add_mset_right)

lemma mset_remove_at_le: "mset (remove_at k xs) \<subseteq># mset xs"
proof (cases "k < length xs")
  case True then show ?thesis using mset_remove_at [OF True] by simp
qed (simp add: remove_at_def)

lemma set_remove_atD: "x \<in> set (remove_at k xs) \<Longrightarrow> x \<in> set xs"
  by (auto simp: remove_at_def dest: in_set_takeD in_set_dropD)

lemma remove_at_beyond: "\<not> k < length xs \<Longrightarrow> remove_at k xs = xs"
  by (simp add: remove_at_def)

lemma distinct_count_le: "distinct xs \<longleftrightarrow> (\<forall>x. count (mset xs) x \<le> 1)"
  by (induction xs) (auto simp: not_in_iff le_Suc_eq)

lemma map_remove_at: "map f (remove_at k xs) = remove_at k (map f xs)"
  by (simp add: remove_at_def take_map drop_map)

lemma owned_less:
  assumes "owned p" and "owners p' \<subseteq># owners p" and "pp_next p \<le> pp_next p'" and "pp_mem p' = pp_mem p"
    and "set (held p') \<subseteq> set (held p)"
  shows "owned p'"
proof -
  have "count (owners p') b \<le> 1" for b
    using assms(1) mset_subset_eq_count [OF assms(2), of b] unfolding owned_def by (meson order_trans)
  moreover have "b < pp_next p'" if "b \<in># owners p'" for b
    using assms(1,3) mset_subset_eqD [OF assms(2) that] unfolding owned_def by (meson order_less_le_trans)
  ultimately show ?thesis using assms(1,4,5) unfolding owned_def by auto
qed

text \<open>The fields that taking a buffer does not touch.\<close>

definition same_rest :: "packet_path \<Rightarrow> packet_path \<Rightarrow> bool" where
  "same_rest p' p \<longleftrightarrow> pp_holders p' = pp_holders p \<and> pp_queue p' = pp_queue p \<and> pp_takers p' = pp_takers p
     \<and> pp_out p' = pp_out p \<and> pp_bytes p' = pp_bytes p \<and> pp_packets p' = pp_packets p \<and> pp_peak p' = pp_peak p"

lemma same_rest_trans: "same_rest r q \<Longrightarrow> same_rest q p \<Longrightarrow> same_rest r p"
  by (simp add: same_rest_def)

lemma pool_get_spec:
  assumes "owned p" and "pool_get pick n p = (b, p')"
  shows "held p' = held p" and "b \<notin># owners p'" and "b < pp_next p'" and "n \<le> length (pp_mem p' b)"
    and "owned p'" and "\<And>it. it \<in> set (held p) \<Longrightarrow> contents p' it = contents p it"
    and "same_rest p' p"
proof -
  have fresh: "held q' = held q \<and> b' \<notin># owners q' \<and> b' < pp_next q' \<and> m \<le> length (pp_mem q' b') \<and> owned q'
      \<and> (\<forall>it. it \<in> set (held q) \<longrightarrow> contents q' it = contents q it)
      \<and> same_rest q' q"
    if q: "owned q" "fresh_buf m q = (b', q')" for m q b' q'
  proof -
    have b': "b' = pp_next q" and q': "q' = q\<lparr>pp_next := Suc (pp_next q), pp_mem := (pp_mem q)(pp_next q := replicate m 0)\<rparr>"
      using q(2) by (auto simp: fresh_buf_def)
    have h: "held q' = held q" "owners q' = owners q" by (simp_all add: q' held_def owners_def)
    have nin: "b' \<notin># owners q" using q(1) b' by (auto simp: owned_def)
    then have "it_buf it \<noteq> b'" if "it \<in> set (held q)" for it
      using that by (auto simp: owners_def)
    then show ?thesis using q(1) nin h by (auto simp: q' b' owned_def contents_def same_rest_def)
  qed
  define first where "first = (case pick of
      Some k \<Rightarrow> if k < length (pp_pool p) then (pp_pool p ! k, p\<lparr>pp_pool := remove_at k (pp_pool p)\<rparr>)
                else fresh_buf pool_buf_cap p
    | None \<Rightarrow> fresh_buf pool_buf_cap p)"
  obtain b1 p1 where one: "first = (b1, p1)" by fastforce
  have p1: "held p1 = held p \<and> b1 \<notin># owners p1 \<and> b1 < pp_next p1 \<and> owned p1
      \<and> (\<forall>it. it \<in> set (held p) \<longrightarrow> contents p1 it = contents p it)
      \<and> same_rest p1 p"
  proof (cases "\<exists>k. pick = Some k \<and> k < length (pp_pool p)")
    case True
    then obtain k where k: "pick = Some k" "k < length (pp_pool p)" by blast
    with one have e: "b1 = pp_pool p ! k" "p1 = p\<lparr>pp_pool := remove_at k (pp_pool p)\<rparr>" by (simp_all add: first_def)
    have o: "owners p = add_mset b1 (owners p1)"
      using mset_remove_at [OF k(2)] by (simp add: e owners_def held_def)
    then have "b1 \<notin># owners p1" using assms(1) by (auto simp: owned_def not_in_iff dest!: spec [of _ b1])
    moreover have "owned p1" by (rule owned_less [OF assms(1)]) (simp_all add: o, simp_all add: e held_def)
    moreover have "b1 < pp_next p1" using assms(1) o by (auto simp: owned_def e)
    ultimately show ?thesis by (simp add: e held_def contents_def same_rest_def)
  next
    case False
    then have "fresh_buf pool_buf_cap p = (b1, p1)" using one by (auto simp: first_def split: option.splits)
    from fresh [OF assms(1) this] show ?thesis by blast
  qed
  have "if length (pp_mem p1 b1) < n then fresh_buf n p1 = (b, p') else b = b1 \<and> p' = p1"
    using assms(2) one by (auto simp: pool_get_def first_def split: if_splits)
  then have "held p' = held p \<and> b \<notin># owners p' \<and> b < pp_next p' \<and> n \<le> length (pp_mem p' b) \<and> owned p'
      \<and> (\<forall>it. it \<in> set (held p) \<longrightarrow> contents p' it = contents p it)
      \<and> same_rest p' p"
  proof (cases "length (pp_mem p1 b1) < n")
    case True
    with \<open>if _ then _ else _\<close> have "fresh_buf n p1 = (b, p')" by simp
    then have f: "held p' = held p1 \<and> b \<notin># owners p' \<and> b < pp_next p' \<and> n \<le> length (pp_mem p' b) \<and> owned p'
      \<and> (\<forall>it. it \<in> set (held p1) \<longrightarrow> contents p' it = contents p1 it) \<and> same_rest p' p1"
      using fresh p1 by blast
    have "same_rest p' p" using f p1 same_rest_trans by blast
    with f p1 show ?thesis by simp
  next
    case False
    with \<open>if _ then _ else _\<close> p1 show ?thesis by simp
  qed
  then show "held p' = held p" and "b \<notin># owners p'" and "b < pp_next p'" and "n \<le> length (pp_mem p' b)"
    and "owned p'" and "\<And>it. it \<in> set (held p) \<Longrightarrow> contents p' it = contents p it"
    and "same_rest p' p"
    by blast+
qed

lemma owned_new: "owned new_packet_path"
  by (simp add: owned_def owners_def held_def new_packet_path_def)

lemma owned_fill:
  assumes "owned p"
  shows "owned (fill_packet pick data p)"
    and "\<exists>it. held (fill_packet pick data p) = pp_holders p @ it # pp_queue p @ pp_takers p
      \<and> pp_holders (fill_packet pick data p) = pp_holders p @ [it] \<and> contents (fill_packet pick data p) it = data"
    and "\<And>it. it \<in> set (held p) \<Longrightarrow> contents (fill_packet pick data p) it = contents p it"
proof -
  obtain b p1 where get: "pool_get pick (length data) p = (b, p1)" by fastforce
  note spec = pool_get_spec [OF assms get]
  let ?it = "\<lparr>it_buf = b, it_len = length data\<rparr>"
  let ?p = "fill_packet pick data p"
  have p: "?p = (copy_into b data p1)\<lparr>pp_holders := pp_holders p1 @ [?it]\<rparr>"
    using get by (simp add: fill_packet_def)
  have parts: "pp_holders p1 = pp_holders p" "pp_queue p1 = pp_queue p" "pp_takers p1 = pp_takers p"
    using spec(7) by (simp_all add: same_rest_def)
  have own: "owners ?p = add_mset b (owners p1)" by (simp add: p owners_def held_def copy_into_def)
  have apart: "it_buf it \<noteq> b" if "it \<in> set (held p)" for it
    using that spec(2) by (auto simp: owners_def simp flip: spec(1))
  have mem: "pp_mem ?p = (pp_mem p1)(b := data @ drop (length data) (pp_mem p1 b))" by (simp add: p copy_into_def)
  have cnt: "count (owners ?p) x \<le> 1" for x
    using spec(2,5) unfolding own owned_def by (auto simp: not_in_iff)
  have lt: "x < pp_next ?p" if "x \<in># owners ?p" for x
    using that spec(3,5) unfolding own owned_def by (auto simp: p copy_into_def)
  have len: "it_len it \<le> length (pp_mem ?p (it_buf it))" if "it \<in> set (held ?p)" for it
    using that spec(5,1) apart parts unfolding owned_def mem by (auto simp: p held_def copy_into_def)
  show "owned ?p" using cnt lt len by (simp add: owned_def)
  show "\<exists>it. held ?p = pp_holders p @ it # pp_queue p @ pp_takers p \<and> pp_holders ?p = pp_holders p @ [it]
      \<and> contents ?p it = data"
    by (rule exI [of _ ?it]) (simp add: p held_def parts contents_def copy_into_def)
  show "contents ?p it = contents p it" if "it \<in> set (held p)" for it
    using that spec(6) [OF that] apart [OF that] by (simp add: contents_def mem)
qed

section \<open>The abstract queue\<close>

text \<open>The same interface with packets copied, not shared.\<close>

record packet_queue =
  pq_holders :: "bytes list"
  pq_queue :: "bytes list"
  pq_takers :: "bytes list"
  pq_out :: "bytes list"
  pq_bytes :: int
  pq_packets :: int
  pq_peak :: int

fun queue_step :: "packet_queue \<Rightarrow> packet_event \<Rightarrow> packet_queue" where
  "queue_step q (Pk_fill pick data) = q\<lparr>pq_holders := pq_holders q @ [data]\<rparr>"
| "queue_step q (Pk_enqueue counts k) =
     (if k < length (pq_holders q) \<and> length (pq_queue q) < queue_cap then
        (let data = pq_holders q ! k;
             q = q\<lparr>pq_holders := remove_at k (pq_holders q), pq_queue := pq_queue q @ [data],
                  pq_peak := max (pq_peak q) (int (length (pq_queue q) + 1))\<rparr>
         in if counts then q\<lparr>pq_bytes := pq_bytes q + int (length data), pq_packets := pq_packets q + 1\<rparr> else q)
      else q)"
| "queue_step q (Pk_give_up k) = q\<lparr>pq_holders := remove_at k (pq_holders q)\<rparr>"
| "queue_step q Pk_take = (case pq_queue q of [] \<Rightarrow> q
     | d # ds \<Rightarrow> q\<lparr>pq_queue := ds, pq_takers := pq_takers q @ [d]\<rparr>)"
| "queue_step q (Pk_write k) =
     (if k < length (pq_takers q)
      then q\<lparr>pq_takers := remove_at k (pq_takers q), pq_out := pq_out q @ [pq_takers q ! k]\<rparr> else q)"
| "queue_step q (Pk_receive n) = (case pq_queue q of [] \<Rightarrow> q
     | d # ds \<Rightarrow> q\<lparr>pq_queue := ds, pq_out := pq_out q @ [take n d],
                   pq_bytes := pq_bytes q + int (min n (length d)), pq_packets := pq_packets q + 1\<rparr>)"
| "queue_step q (Pk_drop k) = q"

definition abs_queue :: "packet_path \<Rightarrow> packet_queue" where
  "abs_queue p = \<lparr>pq_holders = map (contents p) (pp_holders p), pq_queue = map (contents p) (pp_queue p),
     pq_takers = map (contents p) (pp_takers p), pq_out = pp_out p, pq_bytes = pp_bytes p,
     pq_packets = pp_packets p, pq_peak = pp_peak p\<rparr>"

lemmas packet_defs = fill_packet_def enqueue_packet_def give_up_packet_def take_packet_def
  write_packet_out_def receive_packet_def pool_drop_def note_peak_def count_packet_def pool_put_def Let_def

lemma image_remove_at:
  "k < length xs \<Longrightarrow> image_mset f (mset xs) = add_mset (f (xs ! k)) (image_mset f (mset (remove_at k xs)))"
  using mset_remove_at [of k xs] by simp

lemma owners_alt: "owners p = mset (pp_pool p) + image_mset it_buf (mset (pp_holders p))
    + image_mset it_buf (mset (pp_queue p)) + image_mset it_buf (mset (pp_takers p))"
  by (simp add: owners_def held_def)

lemma owned_step:
  assumes "owned p" shows "owned (packet_step p e)"
proof (cases "\<exists>pick data. e = Pk_fill pick data")
  case True
  then show ?thesis using owned_fill(1) [OF assms] by auto
next
  case False
  then have "owners (packet_step p e) \<subseteq># owners p"
    by (cases e) (auto simp: packet_defs owners_alt image_remove_at mset_remove_at_le split: list.split)
  moreover have "pp_next (packet_step p e) = pp_next p \<and> pp_mem (packet_step p e) = pp_mem p"
    using False by (cases e) (auto simp: packet_defs split: list.split)
  moreover have "set (held (packet_step p e)) \<subseteq> set (held p)"
    using False by (cases e) (auto simp: packet_defs held_def split: list.split dest: set_remove_atD)
  ultimately show ?thesis using owned_less [OF assms] by simp
qed

interpretation pkm: invariant_machine packet_step owned
  by unfold_locales (rule owned_step)

text \<open>
  C17: no buffer ever has two owners. In every run of the two queues, with any recycling, blocking,
  cancellation, write error and garbage collection, a buffer is in the pool, or held by one goroutine,
  or in the queue, or with one writer, and in none of these twice.
\<close>

theorem buffer_has_one_owner:
  "distinct (pp_pool (run packet_step new_packet_path es)
     @ map it_buf (pp_holders (run packet_step new_packet_path es) @ pp_queue (run packet_step new_packet_path es)
         @ pp_takers (run packet_step new_packet_path es)))"
proof -
  have "owned (run packet_step new_packet_path es)" by (rule pkm.run_inv [OF owned_new])
  then have "count (mset (pp_pool p @ map it_buf (held p))) b \<le> 1" if "p = run packet_step new_packet_path es" for p b
    using that by (simp add: owned_def owners_def)
  then show ?thesis by (simp add: distinct_count_le held_def)
qed

lemma contents_mem: "pp_mem p' = pp_mem p \<Longrightarrow> contents p' = contents p"
  by (auto simp: contents_def fun_eq_iff)

lemma refine_step:
  assumes "owned p" shows "abs_queue (packet_step p e) = queue_step (abs_queue p) e"
proof (cases "\<exists>pick data. e = Pk_fill pick data")
  case True
  then obtain pick data where e: "e = Pk_fill pick data" by blast
  obtain b p1 where get: "pool_get pick (length data) p = (b, p1)" by fastforce
  have rest: "pp_queue p' = pp_queue p" "pp_takers p' = pp_takers p" "pp_out p' = pp_out p"
    "pp_bytes p' = pp_bytes p" "pp_packets p' = pp_packets p" "pp_peak p' = pp_peak p"
    if "p' = fill_packet pick data p" for p'
    using pool_get_spec(7) [OF assms get] unfolding that fill_packet_def get
    by (simp_all add: copy_into_def same_rest_def)
  obtain it where it: "pp_holders (fill_packet pick data p) = pp_holders p @ [it]" "contents (fill_packet pick data p) it = data"
    using owned_fill(2) [OF assms] by blast
  have "\<forall>x\<in>set (held p). contents (fill_packet pick data p) x = contents p x"
    using owned_fill(3) [OF assms] by blast
  then show ?thesis by (simp add: e abs_queue_def it rest held_def ball_Un)
next
  case False
  then have "pp_mem (packet_step p e) = pp_mem p" by (cases e) (auto simp: packet_defs split: list.split)
  note same = contents_mem [OF this]
  have "length (contents p it) = it_len it" if "it \<in> set (held p)" for it
    using assms that by (auto simp: owned_def contents_def)
  then have "k < length (pp_holders p) \<Longrightarrow> length (contents p (pp_holders p ! k)) = it_len (pp_holders p ! k)"
    and "pp_queue p = it # q \<Longrightarrow> length (contents p it) = it_len it" for k it q
    by (simp_all add: held_def)
  with same show ?thesis using False
    by (cases e) (auto simp: packet_defs abs_queue_def map_remove_at remove_at_beyond split: list.split)
qed

lemma refine_run: "owned p \<Longrightarrow> abs_queue (run packet_step p es) = run queue_step (abs_queue p) es"
  by (induction es arbitrary: p) (simp_all add: refine_step owned_step del: packet_step.simps queue_step.simps)

text \<open>
  C18: recycling is invisible. Every run of the queues over shared, recycled buffers hands on exactly the
  packets, and counts exactly the bytes, that the same run hands on and counts when every packet is
  copied: nothing that is written into a recycled buffer shows in a packet that is still on its way.
\<close>

theorem recycled_buffers_refine_copies:
  "abs_queue (run packet_step new_packet_path es) = run queue_step (abs_queue new_packet_path) es"
  by (rule refine_run [OF owned_new])

end
