(* ===== verification/SendWait.thy ===== *)
theory SendWait
  imports RxReorder
begin

text \<open>
  The residence histogram of \<^verbatim>\<open>src/pkg/proxy/sendwait.go\<close>: how long packets waited in the send queue.
  \<open>summary\<close> keeps the numbers of the report line; the ranks \<^verbatim>\<open>math.Ceil(frac * float64(total))\<close> are computed
  in floating point by the caller of \<open>hist_pct\<close> and are arguments.
\<close>

definition send_wait_bucket_ns :: int where
  "send_wait_bucket_ns = 250000"

definition send_wait_buckets :: nat where
  "send_wait_buckets = 2048"

record send_wait =
  sw_hist :: "int list"
  sw_max :: int

definition new_send_wait :: send_wait where
  "new_send_wait = \<lparr>sw_hist = replicate (send_wait_buckets + 1) 0, sw_max = 0\<rparr>"

definition wait_bucket :: "int \<Rightarrow> nat" where
  "wait_bucket d = (let idx = d div send_wait_bucket_ns
     in if int send_wait_buckets < idx then send_wait_buckets else nat idx)"

definition observe_wait :: "int \<Rightarrow> int \<Rightarrow> send_wait \<Rightarrow> send_wait" where
  "observe_wait enqueued_at now s =
     (if enqueued_at = 0 then s
      else let d = (if now - enqueued_at < 0 then 0 else now - enqueued_at)
        in s\<lparr>sw_hist := bump (wait_bucket d) (sw_hist s), sw_max := max (sw_max s) d\<rparr>)"

datatype wait_edge = Edge_none | Edge_at int | Edge_over int

definition send_wait_edge :: "int \<Rightarrow> wait_edge" where
  "send_wait_edge idx =
     (if idx < 0 then Edge_none
      else if int send_wait_buckets \<le> idx then Edge_over (int send_wait_buckets * send_wait_bucket_ns)
      else Edge_at (idx * send_wait_bucket_ns))"

record wait_summary =
  ws_p50 :: wait_edge
  ws_p90 :: wait_edge
  ws_p99 :: wait_edge
  ws_max :: int
  ws_total :: int

definition take_summary :: "(int \<Rightarrow> int) \<Rightarrow> (int \<Rightarrow> int) \<Rightarrow> (int \<Rightarrow> int) \<Rightarrow> send_wait \<Rightarrow> wait_summary option \<times> send_wait" where
  "take_summary r50 r90 r99 s =
     (let h = sw_hist s; tot = sum_list h;
          s' = s\<lparr>sw_hist := map (\<lambda>_. 0) h, sw_max := 0\<rparr>
      in (if tot = 0 then None
          else Some \<lparr>ws_p50 = send_wait_edge (hist_pct h tot (r50 tot)), ws_p90 = send_wait_edge (hist_pct h tot (r90 tot)),
                     ws_p99 = send_wait_edge (hist_pct h tot (r99 tot)), ws_max = sw_max s, ws_total = tot\<rparr>, s'))"

section \<open>Percentiles\<close>

lemma hist_rank_ge: "hist_rank w h i = Some j \<Longrightarrow> i \<le> j"
  by (induction w h i rule: hist_rank.induct) (auto split: if_splits)

lemma hist_rank_mono:
  assumes "v \<le> w" and "hist_rank w h i = Some j"
  shows "\<exists>k \<le> j. hist_rank v h i = Some k"
  using assms by (induction w h i arbitrary: v rule: hist_rank.induct) (auto split: if_splits dest: hist_rank_ge)

lemma hist_rank_hit:
  assumes "0 < w" and "\<forall>c\<in>set h. 0 \<le> c" and "hist_rank w h i = Some j"
  shows "i \<le> j \<and> j < i + length h \<and> 0 < h ! (j - i)"
  using assms
proof (induction w h i rule: hist_rank.induct)
  case (2 want c h i)
  show ?case
  proof (cases "want \<le> c")
    case False
    then have "Suc i \<le> j \<and> j < Suc i + length h \<and> 0 < h ! (j - Suc i)" using 2 by simp
    then show ?thesis by (simp add: nth_Cons' Suc_diff_Suc less_eq_Suc_le)
  qed (use 2 in auto)
qed simp

lemma hist_rank_exists: "w \<le> sum_list h \<Longrightarrow> 0 < w \<Longrightarrow> hist_rank w h i \<noteq> None"
  by (induction h arbitrary: w i) auto

text \<open>The order of the edges, the overflow bucket on top.\<close>

fun edge_ns :: "wait_edge \<Rightarrow> int" where
  "edge_ns Edge_none = - 1"
| "edge_ns (Edge_at d) = d"
| "edge_ns (Edge_over d) = d"

definition wait_ok :: "send_wait \<Rightarrow> bool" where
  "wait_ok s \<longleftrightarrow> length (sw_hist s) = send_wait_buckets + 1
     \<and> (\<forall>i<length (sw_hist s). 0 \<le> sw_hist s ! i \<and> (0 < sw_hist s ! i \<longrightarrow> int i * send_wait_bucket_ns \<le> sw_max s))"

lemma wait_ok_new: "wait_ok new_send_wait"
  by (simp add: wait_ok_def new_send_wait_def del: replicate_Suc)

lemma wait_bucket_le:
  assumes "0 \<le> d" shows "wait_bucket d < send_wait_buckets + 1" and "int (wait_bucket d) * send_wait_bucket_ns \<le> d"
proof -
  have q: "0 \<le> d div send_wait_bucket_ns" "d div send_wait_bucket_ns * send_wait_bucket_ns \<le> d"
    using assms by (simp_all add: send_wait_bucket_ns_def)
  then show "wait_bucket d < send_wait_buckets + 1" by (auto simp: wait_bucket_def Let_def)
  have "int (wait_bucket d) \<le> d div send_wait_bucket_ns" using q(1) by (auto simp: wait_bucket_def Let_def)
  with q(2) show "int (wait_bucket d) * send_wait_bucket_ns \<le> d"
    by (smt (verit) mult_right_mono send_wait_bucket_ns_def)
qed

lemma wait_ok_observe: "wait_ok s \<Longrightarrow> wait_ok (observe_wait e now s)"
proof -
  assume ok: "wait_ok s"
  define d where "d = (if now - e < 0 then 0 else now - e)"
  have "0 \<le> d" by (simp add: d_def)
  note b = wait_bucket_le [OF this]
  have "wait_ok (s\<lparr>sw_hist := bump (wait_bucket d) (sw_hist s), sw_max := max (sw_max s) d\<rparr>)"
    using ok b by (auto simp: wait_ok_def bump_def nth_list_update intro: order_trans)
  with ok show ?thesis unfolding observe_wait_def Let_def d_def [symmetric] by simp
qed

datatype wait_event = Wt_observe int int | Wt_summary

fun wait_step :: "send_wait \<Rightarrow> wait_event \<Rightarrow> send_wait" where
  "wait_step s (Wt_observe e now) = observe_wait e now s"
| "wait_step s Wt_summary = snd (take_summary id id id s)"

lemma wait_ok_summary: "wait_ok s \<Longrightarrow> wait_ok (snd (take_summary r50 r90 r99 s))"
  by (auto simp: wait_ok_def take_summary_def Let_def)

interpretation wtm: invariant_machine wait_step wait_ok
proof
  show "wait_ok (wait_step s e)" if "wait_ok s" for s e
    using that wait_ok_observe wait_ok_summary by (cases e) simp_all
qed

lemma pct_hit:
  assumes "wait_ok s" and "sum_list (sw_hist s) = tot" and "0 < tot" and "w \<le> tot"
  shows "\<exists>j. hist_pct (sw_hist s) tot w = int j \<and> j \<le> send_wait_buckets \<and> int j * send_wait_bucket_ns \<le> sw_max s
    \<and> hist_rank (if w < 1 then 1 else w) (sw_hist s) 0 = Some j"
proof -
  let ?w = "if w < 1 then 1 else w"
  have w: "0 < ?w" "?w \<le> sum_list (sw_hist s)" using assms by auto
  then obtain j where j: "hist_rank ?w (sw_hist s) 0 = Some j" using hist_rank_exists [OF w(2,1)] by blast
  have "\<forall>c\<in>set (sw_hist s). 0 \<le> c" using assms(1) by (auto simp: wait_ok_def in_set_conv_nth)
  from hist_rank_hit [OF w(1) this j] have "j < length (sw_hist s)" "0 < sw_hist s ! j" by simp_all
  with assms(1,3) j show ?thesis by (auto simp: wait_ok_def hist_pct_def Let_def)
qed

lemma edge_ns_edge: "j \<le> send_wait_buckets \<Longrightarrow> edge_ns (send_wait_edge (int j)) = int j * send_wait_bucket_ns"
  by (auto simp: send_wait_edge_def)

text \<open>
   the report cannot contradict itself. After any packets and reports, if the ranks asked for are in
  order and at most the number of packets, the line has p50 at most p90, p90 at most p99, and p99 at
  most the exact maximum; each percentile is of the packets the line counts.
\<close>

theorem percentiles_ordered:
  assumes "s = run wait_step new_send_wait es" and "fst (take_summary r50 r90 r99 s) = Some ws"
    and "r50 (ws_total ws) \<le> r90 (ws_total ws)" and "r90 (ws_total ws) \<le> r99 (ws_total ws)" and "r99 (ws_total ws) \<le> ws_total ws"
  shows "0 \<le> edge_ns (ws_p50 ws) \<and> edge_ns (ws_p50 ws) \<le> edge_ns (ws_p90 ws) \<and> edge_ns (ws_p90 ws) \<le> edge_ns (ws_p99 ws)
    \<and> edge_ns (ws_p99 ws) \<le> ws_max ws"
proof -
  have ok: "wait_ok s" unfolding assms(1) by (rule wtm.run_inv [OF wait_ok_new])
  define tot where "tot = sum_list (sw_hist s)"
  have "tot \<noteq> 0" and ws: "ws_total ws = tot" "ws_max ws = sw_max s"
    "ws_p50 ws = send_wait_edge (hist_pct (sw_hist s) tot (r50 tot))"
    "ws_p90 ws = send_wait_edge (hist_pct (sw_hist s) tot (r90 tot))"
    "ws_p99 ws = send_wait_edge (hist_pct (sw_hist s) tot (r99 tot))"
    using assms(2) by (auto simp: take_summary_def Let_def tot_def split: if_splits)
  moreover have "0 \<le> tot" unfolding tot_def using ok
    by (intro sum_list_nonneg) (auto simp: wait_ok_def in_set_conv_nth)
  ultimately have pos: "0 < tot" by simp
  have le: "r50 tot \<le> r90 tot" "r90 tot \<le> r99 tot" "r99 tot \<le> tot" using assms(3-5) ws by simp_all
  obtain i j k where p: "hist_pct (sw_hist s) tot (r50 tot) = int i" "i \<le> send_wait_buckets"
      "hist_rank (if r50 tot < 1 then 1 else r50 tot) (sw_hist s) 0 = Some i"
    and q: "hist_pct (sw_hist s) tot (r90 tot) = int j" "j \<le> send_wait_buckets"
      "hist_rank (if r90 tot < 1 then 1 else r90 tot) (sw_hist s) 0 = Some j"
    and r: "hist_pct (sw_hist s) tot (r99 tot) = int k" "k \<le> send_wait_buckets"
      "hist_rank (if r99 tot < 1 then 1 else r99 tot) (sw_hist s) 0 = Some k" "int k * send_wait_bucket_ns \<le> sw_max s"
    using pct_hit [OF ok tot_def [symmetric] pos, of "r50 tot"] pct_hit [OF ok tot_def [symmetric] pos, of "r90 tot"]
      pct_hit [OF ok tot_def [symmetric] pos, of "r99 tot"] le by auto
  have "i \<le> j" using hist_rank_mono [OF _ q(3), of "if r50 tot < 1 then 1 else r50 tot"] p(3) le by auto
  moreover have "j \<le> k" using hist_rank_mono [OF _ r(3), of "if r90 tot < 1 then 1 else r90 tot"] q(3) le by auto
  ultimately show ?thesis using r(4) p(2) q(2) r(2)
    by (simp add: ws p(1) q(1) r(1) edge_ns_edge send_wait_bucket_ns_def)
qed

lemma length_bump: "length (bump i xs) = length xs"
  by (simp add: bump_def)

lemma percentiles_ordered_witness:
  "\<exists>ws. fst (take_summary (\<lambda>n. n div 2) (\<lambda>n. n - 1) id
      (run wait_step new_send_wait [Wt_observe 1 400000, Wt_observe 5 900000000])) = Some ws \<and> edge_ns (ws_p99 ws) \<le> ws_max ws"
proof -
  let ?s = "run wait_step new_send_wait [Wt_observe 1 400000, Wt_observe 5 900000000]"
  have "sum_list (sw_hist ?s) = sum_list (bump (wait_bucket 899999995) (bump (wait_bucket 399999) (sw_hist new_send_wait)))"
    by (simp add: observe_wait_def)
  also have "\<dots> = sum_list (sw_hist new_send_wait) + 2"
    using wait_bucket_le(1) [of 899999995] wait_bucket_le(1) [of 399999]
    by (subst sum_list_bump; simp add: length_bump sum_list_bump new_send_wait_def del: replicate_Suc)
  finally have tot: "sum_list (sw_hist ?s) = 2" by (simp add: new_send_wait_def sum_list_replicate)
  then obtain ws where ws: "fst (take_summary (\<lambda>n. n div 2) (\<lambda>n. n - 1) id ?s) = Some ws" "ws_total ws = 2"
    by (auto simp: take_summary_def Let_def)
  with percentiles_ordered [OF refl ws(1)] show ?thesis by auto
qed

end
