(* ===== verification/SrtpWrap.thy ===== *)
theory SrtpWrap
  imports Liveness
begin

unbundle bit_operations_syntax

text \<open>
  The SRTP session of \<^verbatim>\<open>src/pkg/proxy/srtpwrap/srtp.go\<close>: the read deadlines of its two connection types,
  the demultiplexing of one socket, the RTP framing of \<^verbatim>\<open>wrappedConn\<close>, the server's session table. DTLS,
  SRTP and the RTP codec are pion's and are parameters. Closing a closed channel is a panic: \<open>None\<close>.
\<close>

section \<open>Deadlines\<close>

text \<open>
  A channel is a number, in the order of allocation; a closed channel wakes every reader that selects on
  it. Events carry a clock reading. \<open>Dl_due\<close>: the runtime starts the function of a timer whose time has
  come; \<open>Dl_fire\<close>: a started function runs.
\<close>

datatype dl_event = Dl_get time | Dl_set time time | Dl_due time | Dl_fire time nat

fun dl_time :: "dl_event \<Rightarrow> time" where
  "dl_time (Dl_get now) = now"
| "dl_time (Dl_set now t) = now"
| "dl_time (Dl_due now) = now"
| "dl_time (Dl_fire now k) = now"

fun dl_run :: "('s \<Rightarrow> dl_event \<Rightarrow> 's option) \<Rightarrow> 's \<Rightarrow> dl_event list \<Rightarrow> 's option" where
  "dl_run f s [] = Some s"
| "dl_run f s (e # es) = (case f s e of None \<Rightarrow> None | Some s' \<Rightarrow> dl_run f s' es)"

text \<open>The clock does not go back; \<open>end_time\<close> is its last reading.\<close>

fun ordered :: "time \<Rightarrow> dl_event list \<Rightarrow> bool" where
  "ordered t [] \<longleftrightarrow> True"
| "ordered t (e # es) \<longleftrightarrow> t \<le> dl_time e \<and> ordered (dl_time e) es"

definition end_time :: "time \<Rightarrow> dl_event list \<Rightarrow> time" where
  "end_time t es = (if es = [] then t else dl_time (last es))"

text \<open>
  What every read loop needs of a connection with deadlines. \<open>closed\<close>: the closed channels; \<open>current\<close>: the
  channel a reader gets now; \<open>made\<close>: how many channels there are; \<open>expiry\<close>: the deadline, 0 for none;
  \<open>settled t\<close>: every timer function due by \<open>t\<close> has run. \<open>good t\<close> is the connection's invariant at time \<open>t\<close>.
\<close>

locale deadline_conn =
  fixes dstep :: "'s \<Rightarrow> dl_event \<Rightarrow> 's option"
    and closed :: "'s \<Rightarrow> nat set"
    and current :: "'s \<Rightarrow> nat option"
    and made :: "'s \<Rightarrow> nat"
    and expiry :: "'s \<Rightarrow> time"
    and settled :: "time \<Rightarrow> 's \<Rightarrow> bool"
    and good :: "time \<Rightarrow> 's \<Rightarrow> bool"
  assumes step_good: "good t s \<Longrightarrow> t \<le> dl_time e \<Longrightarrow> \<exists>s'. dstep s e = Some s' \<and> good (dl_time e) s'"
    and good_later: "good t s \<Longrightarrow> t \<le> t' \<Longrightarrow> good t' s"
    and only_current_open: "good t s \<Longrightarrow> c < made s \<Longrightarrow> c \<notin> closed s \<Longrightarrow> current s = Some c"
    and closed_is_expired: "good t s \<Longrightarrow> current s = Some c \<Longrightarrow> c \<in> closed s \<Longrightarrow> expiry s \<noteq> 0 \<and> expiry s \<le> t"
    and settled_wakes: "good t s \<Longrightarrow> settled t s \<Longrightarrow> expiry s \<noteq> 0 \<Longrightarrow> expiry s \<le> t \<Longrightarrow> current s = Some c \<Longrightarrow> c \<in> closed s"
begin

lemma run_good: "good t s \<Longrightarrow> ordered t es \<Longrightarrow> \<exists>s'. dl_run dstep s es = Some s' \<and> good (end_time t es) s'"
proof (induction es arbitrary: t s)
  case (Cons e es)
  then obtain s' where "dstep s e = Some s'" "good (dl_time e) s'" using step_good by fastforce
  then show ?case using Cons by (cases "es = []") (fastforce simp: end_time_def)+
qed (simp add: end_time_def)

lemma no_reader_stranded:
  assumes "good t s" and "settled t s" and "expiry s \<noteq> 0" and "expiry s \<le> t" and "c < made s"
  shows "c \<in> closed s"
  using only_current_open [OF assms(1,5)] settled_wakes [OF assms(1-4)] by blast

end

subsection \<open>\<^verbatim>\<open>packetConnAdapter\<close>: a channel and a timer per deadline\<close>

record adapter_dl =
  ad_exp :: time
  ad_ch :: "nat option"
  ad_made :: nat
  ad_closed :: "nat set"
  ad_timers :: "(time \<times> nat) list"

definition new_adapter_dl :: adapter_dl where
  "new_adapter_dl = \<lparr>ad_exp = 0, ad_ch = None, ad_made = 0, ad_closed = {}, ad_timers = []\<rparr>"

definition adapter_make :: "adapter_dl \<Rightarrow> adapter_dl" where
  "adapter_make a = a\<lparr>ad_ch := Some (ad_made a), ad_made := Suc (ad_made a)\<rparr>"

definition adapter_close_ch :: "nat \<Rightarrow> adapter_dl \<Rightarrow> adapter_dl option" where
  "adapter_close_ch c a = (if c \<in> ad_closed a then None else Some (a\<lparr>ad_closed := insert c (ad_closed a)\<rparr>))"

definition adapter_deadline_ch :: "adapter_dl \<Rightarrow> adapter_dl" where
  "adapter_deadline_ch a = (if ad_ch a = None then adapter_make a else a)"

definition adapter_expired :: "time \<Rightarrow> adapter_dl \<Rightarrow> bool" where
  "adapter_expired now a \<longleftrightarrow> ad_exp a \<noteq> 0 \<and> \<not> now < ad_exp a"

definition adapter_set_dl :: "time \<Rightarrow> time \<Rightarrow> adapter_dl \<Rightarrow> adapter_dl option" where
  "adapter_set_dl now t a0 =
     (case (case ad_ch a0 of
              None \<Rightarrow> Some a0
            | Some c \<Rightarrow> if c \<in> ad_closed a0 then Some a0 else adapter_close_ch c a0) of
        None \<Rightarrow> None
      | Some a \<Rightarrow>
          let c = ad_made a; a = (adapter_make a)\<lparr>ad_exp := t\<rparr> in
          if t = 0 then Some a
          else if t - now \<le> 0 then adapter_close_ch c a
          else Some (a\<lparr>ad_timers := ad_timers a @ [(t, c)]\<rparr>))"

text \<open>The function of the \<open>k\<close>-th timer, if that timer is due.\<close>

definition adapter_fire :: "time \<Rightarrow> nat \<Rightarrow> adapter_dl \<Rightarrow> adapter_dl option" where
  "adapter_fire now k a =
     (if k < length (ad_timers a) \<and> fst (ad_timers a ! k) \<le> now then
        (let c = snd (ad_timers a ! k); a = a\<lparr>ad_timers := take k (ad_timers a) @ drop (Suc k) (ad_timers a)\<rparr> in
         if ad_ch a \<noteq> Some c then Some a
         else if c \<in> ad_closed a then Some a
         else adapter_close_ch c a)
      else Some a)"

fun adapter_step :: "adapter_dl \<Rightarrow> dl_event \<Rightarrow> adapter_dl option" where
  "adapter_step a (Dl_get now) = Some (adapter_deadline_ch a)"
| "adapter_step a (Dl_set now t) = adapter_set_dl now t a"
| "adapter_step a (Dl_due now) = Some a"
| "adapter_step a (Dl_fire now k) = adapter_fire now k a"

definition adapter_settled :: "time \<Rightarrow> adapter_dl \<Rightarrow> bool" where
  "adapter_settled now a \<longleftrightarrow> (\<forall>(t, c)\<in>set (ad_timers a). now < t)"

definition adapter_good :: "time \<Rightarrow> adapter_dl \<Rightarrow> bool" where
  "adapter_good now a \<longleftrightarrow> (\<forall>c < ad_made a. c \<notin> ad_closed a \<longrightarrow> ad_ch a = Some c)
     \<and> (\<forall>c\<in>ad_closed a. c < ad_made a) \<and> (ad_ch a = None \<longrightarrow> ad_made a = 0 \<and> ad_exp a = 0)
     \<and> (\<forall>t c. (t, c) \<in> set (ad_timers a) \<longrightarrow> c < ad_made a \<and> (ad_ch a = Some c \<longrightarrow> t = ad_exp a \<and> t \<noteq> 0))
     \<and> (\<forall>c. ad_ch a = Some c \<longrightarrow> c < ad_made a \<and> (c \<in> ad_closed a \<longrightarrow> ad_exp a \<noteq> 0 \<and> ad_exp a \<le> now)
          \<and> (ad_exp a \<noteq> 0 \<and> c \<notin> ad_closed a \<longrightarrow> (ad_exp a, c) \<in> set (ad_timers a)))"

lemma adapter_goodI:
  assumes "\<And>c. c < ad_made a \<Longrightarrow> c \<notin> ad_closed a \<Longrightarrow> ad_ch a = Some c"
    and "\<And>c. c \<in> ad_closed a \<Longrightarrow> c < ad_made a"
    and "ad_ch a = None \<Longrightarrow> ad_made a = 0 \<and> ad_exp a = 0"
    and "\<And>t c. (t, c) \<in> set (ad_timers a) \<Longrightarrow> c < ad_made a \<and> (ad_ch a = Some c \<longrightarrow> t = ad_exp a \<and> t \<noteq> 0)"
    and "\<And>c. ad_ch a = Some c \<Longrightarrow> c < ad_made a"
    and "\<And>c. ad_ch a = Some c \<Longrightarrow> c \<in> ad_closed a \<Longrightarrow> ad_exp a \<noteq> 0 \<and> ad_exp a \<le> now"
    and "\<And>c. ad_ch a = Some c \<Longrightarrow> ad_exp a \<noteq> 0 \<Longrightarrow> c \<notin> ad_closed a \<Longrightarrow> (ad_exp a, c) \<in> set (ad_timers a)"
  shows "adapter_good now a"
  using assms unfolding adapter_good_def by blast

lemma adapter_goodD:
  assumes "adapter_good now a"
  shows "c < ad_made a \<Longrightarrow> c \<notin> ad_closed a \<Longrightarrow> ad_ch a = Some c"
    and "c \<in> ad_closed a \<Longrightarrow> c < ad_made a"
    and "ad_ch a = None \<Longrightarrow> ad_made a = 0 \<and> ad_exp a = 0"
    and "(t, c) \<in> set (ad_timers a) \<Longrightarrow> c < ad_made a \<and> (ad_ch a = Some c \<longrightarrow> t = ad_exp a \<and> t \<noteq> 0)"
    and "ad_ch a = Some c \<Longrightarrow> c < ad_made a"
    and "ad_ch a = Some c \<Longrightarrow> c \<in> ad_closed a \<Longrightarrow> ad_exp a \<noteq> 0 \<and> ad_exp a \<le> now"
    and "ad_ch a = Some c \<Longrightarrow> ad_exp a \<noteq> 0 \<Longrightarrow> c \<notin> ad_closed a \<Longrightarrow> (ad_exp a, c) \<in> set (ad_timers a)"
  using assms unfolding adapter_good_def by blast+

lemmas adapter_defs = adapter_make_def adapter_close_ch_def adapter_deadline_ch_def adapter_set_dl_def
  adapter_fire_def Let_def

lemma adapter_good_new: "adapter_good t new_adapter_dl"
  by (simp add: adapter_good_def new_adapter_dl_def)

lemma in_remove_at: "x \<in> set (take k xs @ drop (Suc k) xs) \<Longrightarrow> x \<in> set xs"
  by (auto dest: in_set_takeD in_set_dropD)

lemma in_remove_at': "x \<in> set xs \<Longrightarrow> x \<noteq> xs ! k \<Longrightarrow> k < length xs \<Longrightarrow> x \<in> set (take k xs @ drop (Suc k) xs)"
  using id_take_nth_drop [of k xs] by (metis Un_iff insert_iff list.simps(15) set_append)

lemma adapter_set_eq:
  assumes "adapter_good t a"
  shows "adapter_set_dl now u a =
     (let closed' = ad_closed a \<union> set_option (ad_ch a);
          a' = a\<lparr>ad_closed := closed', ad_ch := Some (ad_made a), ad_made := Suc (ad_made a), ad_exp := u\<rparr>
      in Some (if u = 0 then a' else if u - now \<le> 0 then a'\<lparr>ad_closed := insert (ad_made a) closed'\<rparr>
               else a'\<lparr>ad_timers := ad_timers a @ [(u, ad_made a)]\<rparr>))"
proof -
  have new: "ad_made a \<notin> ad_closed a" "ad_ch a \<noteq> Some (ad_made a)"
    using assms unfolding adapter_good_def by blast+
  show ?thesis
  proof (cases "ad_ch a")
    case None
    then show ?thesis using new by (simp add: adapter_defs)
  next
    case (Some c)
    then show ?thesis using new by (cases "c \<in> ad_closed a") (auto simp: adapter_defs insert_absorb)
  qed
qed

lemma adapter_good_set:
  assumes good: "adapter_good t a" and "t \<le> now"
  shows "\<exists>a'. adapter_set_dl now u a = Some a' \<and> adapter_good now a'"
proof -
  note D = adapter_goodD [OF good]
  define closed' where "closed' = ad_closed a \<union> set_option (ad_ch a)"
  define a1 where "a1 = a\<lparr>ad_closed := closed', ad_ch := Some (ad_made a), ad_made := Suc (ad_made a), ad_exp := u\<rparr>"
  have shut: "c \<in> closed'" if "c < ad_made a" for c using D(1) [OF that] by (auto simp: closed'_def)
  have old: "c < ad_made a" if "c \<in> closed'" for c using that D(2,5) by (auto simp: closed'_def)
  have tim: "c < ad_made a" if "(v, c) \<in> set (ad_timers a)" for v c using D(4) [OF that] by simp
  have fresh: "ad_made a \<notin> closed'" using old by blast
  have tim': "(v, ad_made a) \<notin> set (ad_timers a)" for v using tim by blast
  have open_: "adapter_good now (a1\<lparr>ad_timers := ts\<rparr>)" if "u = 0 \<and> ts = ad_timers a \<or> u \<noteq> 0 \<and> ts = ad_timers a @ [(u, ad_made a)]" for ts
    using that shut old tim fresh tim'
    by (intro adapter_goodI) (auto simp: a1_def less_Suc_eq)
  have past: "adapter_good now (a1\<lparr>ad_closed := insert (ad_made a) closed'\<rparr>)" if "u \<noteq> 0" "u \<le> now"
    using that shut old tim tim' by (intro adapter_goodI) (auto simp: a1_def less_Suc_eq)
  have "adapter_set_dl now u a = Some (if u = 0 then a1 else if u - now \<le> 0 then a1\<lparr>ad_closed := insert (ad_made a) closed'\<rparr>
      else a1\<lparr>ad_timers := ad_timers a @ [(u, ad_made a)]\<rparr>)"
    unfolding adapter_set_eq [OF good] Let_def closed'_def a1_def by simp
  moreover have "a1 = a1\<lparr>ad_timers := ad_timers a\<rparr>" by (simp add: a1_def)
  ultimately show ?thesis using open_ [of "ad_timers a"] open_ [of "ad_timers a @ [(u, ad_made a)]"] past by auto
qed

lemma adapter_good_drop_timer:
  assumes good: "adapter_good now a" and k: "k < length (ad_timers a)"
    and miss: "ad_ch a \<noteq> Some (snd (ad_timers a ! k)) \<or> snd (ad_timers a ! k) \<in> ad_closed a"
  shows "adapter_good now (a\<lparr>ad_timers := take k (ad_timers a) @ drop (Suc k) (ad_timers a)\<rparr>)"
proof -
  define ts where "ts = take k (ad_timers a) @ drop (Suc k) (ad_timers a)"
  note D = adapter_goodD [OF good]
  have sub: "x \<in> set (ad_timers a)" if "x \<in> set ts" for x using that unfolding ts_def by (rule in_remove_at)
  have keep: "(e, c) \<in> set ts" if "(e, c) \<in> set (ad_timers a)" "ad_ch a = Some c" "c \<notin> ad_closed a" for e c
    using in_remove_at' [OF that(1) _ k] that(2,3) miss unfolding ts_def by (metis snd_conv)
  have "adapter_good now (a\<lparr>ad_timers := ts\<rparr>)"
  proof (rule adapter_goodI; simp)
    show "c < ad_made a \<Longrightarrow> c \<notin> ad_closed a \<Longrightarrow> ad_ch a = Some c" for c by (rule D(1))
    show "c \<in> ad_closed a \<Longrightarrow> c < ad_made a" for c by (rule D(2))
    show "ad_ch a = None \<Longrightarrow> ad_made a = 0 \<and> ad_exp a = 0" by (rule D(3))
    show "(u, c) \<in> set ts \<Longrightarrow> c < ad_made a \<and> (ad_ch a = Some c \<longrightarrow> u = ad_exp a \<and> u \<noteq> 0)" for u c
      by (rule D(4) [OF sub])
    show "ad_ch a = Some c \<Longrightarrow> c < ad_made a" for c by (rule D(5))
    show "ad_ch a = Some c \<Longrightarrow> c \<in> ad_closed a \<Longrightarrow> ad_exp a \<noteq> 0 \<and> ad_exp a \<le> now" for c by (rule D(6))
    show "(ad_exp a, c) \<in> set ts" if "ad_ch a = Some c" "ad_exp a \<noteq> 0" "c \<notin> ad_closed a" for c
      by (rule keep [OF D(7) [OF that] that(1,3)])
  qed
  then show ?thesis by (simp add: ts_def)
qed

lemma adapter_good_later: "adapter_good t a \<Longrightarrow> t \<le> t' \<Longrightarrow> adapter_good t' a"
proof (rule adapter_goodI)
  assume good: "adapter_good t a" and le: "t \<le> t'"
  note D = adapter_goodD [OF good]
  show "c < ad_made a \<Longrightarrow> c \<notin> ad_closed a \<Longrightarrow> ad_ch a = Some c" for c by (rule D(1))
  show "c \<in> ad_closed a \<Longrightarrow> c < ad_made a" for c by (rule D(2))
  show "ad_ch a = None \<Longrightarrow> ad_made a = 0 \<and> ad_exp a = 0" by (rule D(3))
  show "(u, c) \<in> set (ad_timers a) \<Longrightarrow> c < ad_made a \<and> (ad_ch a = Some c \<longrightarrow> u = ad_exp a \<and> u \<noteq> 0)" for u c by (rule D(4))
  show "ad_ch a = Some c \<Longrightarrow> c < ad_made a" for c by (rule D(5))
  show "ad_exp a \<noteq> 0 \<and> ad_exp a \<le> t'" if "ad_ch a = Some c" "c \<in> ad_closed a" for c
    using D(6) [OF that] le by simp
  show "ad_ch a = Some c \<Longrightarrow> ad_exp a \<noteq> 0 \<Longrightarrow> c \<notin> ad_closed a \<Longrightarrow> (ad_exp a, c) \<in> set (ad_timers a)" for c by (rule D(7))
qed

lemma adapter_good_fire:
  assumes "adapter_good t a" and "t \<le> now"
  shows "\<exists>a'. adapter_fire now k a = Some a' \<and> adapter_good now a'"
proof -
  have good: "adapter_good now a" using adapter_good_later assms by blast
  show ?thesis
  proof (cases "k < length (ad_timers a) \<and> fst (ad_timers a ! k) \<le> now")
    case False
    then have "adapter_fire now k a = Some a" unfolding adapter_fire_def by (rule if_not_P)
    then show ?thesis using good by simp
  next
    case True
    define c where "c = snd (ad_timers a ! k)"
    show ?thesis
    proof (cases "ad_ch a \<noteq> Some c \<or> c \<in> ad_closed a")
      case miss: True
      then show ?thesis using True adapter_good_drop_timer [OF good _ miss [unfolded c_def]]
        by (auto simp: adapter_fire_def c_def Let_def)
    next
      case hit: False
      have mem: "ad_timers a ! k \<in> set (ad_timers a)" using True by simp
      then have e: "fst (ad_timers a ! k) = ad_exp a" "ad_exp a \<noteq> 0"
        using adapter_goodD(4) [OF good, of "fst (ad_timers a ! k)" "snd (ad_timers a ! k)"] hit by (simp_all add: c_def)
      have closed: "adapter_good now (a\<lparr>ad_closed := insert c (ad_closed a)\<rparr>)"
      proof (rule adapter_goodI; simp)
        note D = adapter_goodD [OF good]
        show "d < ad_made a \<Longrightarrow> d \<noteq> c \<and> d \<notin> ad_closed a \<Longrightarrow> ad_ch a = Some d" for d using D(1) by simp
        show "d = c \<or> d \<in> ad_closed a \<Longrightarrow> d < ad_made a" for d using D(2,5) hit by auto
        show "ad_ch a = None \<Longrightarrow> ad_made a = 0 \<and> ad_exp a = 0" by (rule D(3))
        show "(u, d) \<in> set (ad_timers a) \<Longrightarrow> d < ad_made a \<and> (ad_ch a = Some d \<longrightarrow> u = ad_exp a \<and> u \<noteq> 0)" for u d by (rule D(4))
        show "ad_ch a = Some d \<Longrightarrow> d < ad_made a" for d by (rule D(5))
        show "ad_exp a \<noteq> 0 \<and> ad_exp a \<le> now" if "ad_ch a = Some d" "d = c \<or> d \<in> ad_closed a" for d
          using e True by simp
        show "(ad_exp a, d) \<in> set (ad_timers a)" if "ad_ch a = Some d" "ad_exp a \<noteq> 0" "d \<noteq> c \<and> d \<notin> ad_closed a" for d
          using D(7) that by simp
      qed
      have swap: "a\<lparr>ad_closed := X, ad_timers := Y\<rparr> = a\<lparr>ad_timers := Y, ad_closed := X\<rparr>" for X Y by simp
      have "adapter_good now (a\<lparr>ad_timers := take k (ad_timers a) @ drop (Suc k) (ad_timers a), ad_closed := insert c (ad_closed a)\<rparr>)"
        using adapter_good_drop_timer [OF closed, of k] True unfolding swap [symmetric] by (simp add: c_def)
      then show ?thesis using True hit by (simp add: adapter_fire_def c_def adapter_close_ch_def Let_def)
    qed
  qed
qed

lemma adapter_good_get: "adapter_good now a \<Longrightarrow> adapter_good now (adapter_deadline_ch a)"
proof (cases "ad_ch a")
  case None
  assume good: "adapter_good now a"
  note D = adapter_goodD [OF good]
  have e: "ad_made a = 0" "ad_exp a = 0" "ad_closed a = {}" "ad_timers a = []"
    using D(2-4) None by (auto, cases "ad_timers a", auto)
  show ?thesis using None e by (intro adapter_goodI) (simp_all add: adapter_deadline_ch_def adapter_make_def)
qed (simp add: adapter_deadline_ch_def)

interpretation ad: deadline_conn adapter_step ad_closed ad_ch ad_made ad_exp adapter_settled adapter_good
proof
  fix t a e
  assume good: "adapter_good t a" and le: "t \<le> dl_time e"
  show "\<exists>a'. adapter_step a e = Some a' \<and> adapter_good (dl_time e) a'"
  proof (cases e)
    case (Dl_get now)
    have "adapter_good now a" using good le Dl_get adapter_good_later by simp
    then show ?thesis using Dl_get adapter_good_get by simp
  next
    case (Dl_due now)
    then show ?thesis using good le adapter_good_later by simp
  qed (use good le adapter_good_set adapter_good_fire in simp_all)
next
  fix t a t' assume "adapter_good t a" and "t \<le> t'"
  then show "adapter_good t' a" by (rule adapter_good_later)
next
  fix t a c
  assume "adapter_good t a" "c < ad_made a" "c \<notin> ad_closed a"
  then show "ad_ch a = Some c" unfolding adapter_good_def by blast
next
  fix t a c
  assume "adapter_good t a" "ad_ch a = Some c" "c \<in> ad_closed a"
  then show "ad_exp a \<noteq> 0 \<and> ad_exp a \<le> t" unfolding adapter_good_def by blast
next
  fix t a c
  assume "adapter_good t a" "adapter_settled t a" "ad_exp a \<noteq> 0" "ad_exp a \<le> t" "ad_ch a = Some c"
  then show "c \<in> ad_closed a" using adapter_goodD(7) [of t a c] unfolding adapter_settled_def
    by (metis case_prodD linorder_not_less)
qed

subsection \<open>\<^verbatim>\<open>wrappedConn\<close>: one timer, one channel until it is closed\<close>

text \<open>
  \<open>wc_flag\<close> is \<^verbatim>\<open>dlClosed\<close>; \<open>wc_timer\<close> is when the timer fires, \<open>wc_firing\<close> the started functions that have
  not run.
\<close>

record wrapped_dl =
  wc_exp :: time
  wc_ch :: "nat option"
  wc_flag :: bool
  wc_made :: nat
  wc_closed :: "nat set"
  wc_timer :: "time option"
  wc_firing :: nat

definition new_wrapped_dl :: wrapped_dl where
  "new_wrapped_dl = \<lparr>wc_exp = 0, wc_ch = None, wc_flag = False, wc_made = 0, wc_closed = {},
     wc_timer = None, wc_firing = 0\<rparr>"

definition wrapped_make :: "wrapped_dl \<Rightarrow> wrapped_dl" where
  "wrapped_make w = w\<lparr>wc_ch := Some (wc_made w), wc_made := Suc (wc_made w), wc_flag := False\<rparr>"

definition wrapped_deadline_ch :: "wrapped_dl \<Rightarrow> wrapped_dl" where
  "wrapped_deadline_ch w = (if wc_ch w = None then wrapped_make w else w)"

definition wrapped_expired :: "time \<Rightarrow> wrapped_dl \<Rightarrow> bool" where
  "wrapped_expired now w \<longleftrightarrow> wc_exp w \<noteq> 0 \<and> \<not> now < wc_exp w"

text \<open>\<^verbatim>\<open>close(c.dlCh); c.dlClosed = true\<close>\<close>

definition wrapped_signal :: "wrapped_dl \<Rightarrow> wrapped_dl option" where
  "wrapped_signal w = (case wc_ch w of
     None \<Rightarrow> None
   | Some c \<Rightarrow> if c \<in> wc_closed w then None
              else Some (w\<lparr>wc_closed := insert c (wc_closed w), wc_flag := True\<rparr>))"

definition wrapped_set_dl :: "time \<Rightarrow> time \<Rightarrow> wrapped_dl \<Rightarrow> wrapped_dl option" where
  "wrapped_set_dl now t w0 =
     (let w1 = w0\<lparr>wc_exp := t\<rparr>; w = (if wc_ch w1 = None \<or> wc_flag w1 then wrapped_make w1 else w1) in
      if t = 0 then Some (w\<lparr>wc_timer := None\<rparr>)
      else if t - now \<le> 0 then map_option (\<lambda>w. w\<lparr>wc_timer := None\<rparr>) (wrapped_signal w)
      else Some (w\<lparr>wc_timer := Some t\<rparr>))"

definition wrapped_due :: "time \<Rightarrow> wrapped_dl \<Rightarrow> wrapped_dl" where
  "wrapped_due now w = (case wc_timer w of
     Some u \<Rightarrow> if u \<le> now then w\<lparr>wc_timer := None, wc_firing := Suc (wc_firing w)\<rparr> else w
   | None \<Rightarrow> w)"

definition fire_deadline :: "time \<Rightarrow> wrapped_dl \<Rightarrow> wrapped_dl option" where
  "fire_deadline now w =
     (if wc_exp w = 0 \<or> now < wc_exp w then Some w
      else if wc_ch w \<noteq> None \<and> \<not> wc_flag w then wrapped_signal w
      else Some w)"

fun wrapped_step :: "wrapped_dl \<Rightarrow> dl_event \<Rightarrow> wrapped_dl option" where
  "wrapped_step w (Dl_get now) = Some (wrapped_deadline_ch w)"
| "wrapped_step w (Dl_set now t) = wrapped_set_dl now t w"
| "wrapped_step w (Dl_due now) = Some (wrapped_due now w)"
| "wrapped_step w (Dl_fire now k) =
     (case wc_firing w of 0 \<Rightarrow> Some w | Suc n \<Rightarrow> fire_deadline now (w\<lparr>wc_firing := n\<rparr>))"

definition wrapped_settled :: "time \<Rightarrow> wrapped_dl \<Rightarrow> bool" where
  "wrapped_settled now w \<longleftrightarrow> (\<forall>u\<in>set_option (wc_timer w). now < u) \<and> wc_firing w = 0"

text \<open>Only the last channel can be open, and the flag says whether it is.\<close>

definition wrapped_good :: "time \<Rightarrow> wrapped_dl \<Rightarrow> bool" where
  "wrapped_good now w \<longleftrightarrow>
     wc_ch w = (if wc_made w = 0 then None else Some (wc_made w - 1))
     \<and> wc_closed w = {..<(if wc_flag w then wc_made w else wc_made w - 1)}
     \<and> (wc_made w = 0 \<longrightarrow> wc_exp w = 0 \<and> \<not> wc_flag w)
     \<and> (wc_flag w \<longrightarrow> wc_exp w \<noteq> 0 \<and> wc_exp w \<le> now)
     \<and> (\<forall>u\<in>set_option (wc_timer w). u = wc_exp w \<and> u \<noteq> 0)
     \<and> (wc_exp w \<noteq> 0 \<and> \<not> wc_flag w \<longrightarrow> wc_timer w = Some (wc_exp w) \<or> 0 < wc_firing w \<and> wc_exp w \<le> now)"

lemma wrapped_good_new: "wrapped_good t new_wrapped_dl"
  by (simp add: wrapped_good_def new_wrapped_dl_def)

lemma wrapped_good_later: "wrapped_good t w \<Longrightarrow> t \<le> t' \<Longrightarrow> wrapped_good t' w"
  by (auto simp: wrapped_good_def)

lemma wrapped_good_get: "wrapped_good now w \<Longrightarrow> wrapped_good now (wrapped_deadline_ch w)"
  by (auto simp: wrapped_good_def wrapped_deadline_ch_def wrapped_make_def split: if_splits)

lemma wrapped_good_due: "wrapped_good now w \<Longrightarrow> wrapped_good now (wrapped_due now w)"
  by (auto simp: wrapped_good_def wrapped_due_def split: option.splits)

lemma lessThan_last: "0 < n \<Longrightarrow> insert (n - Suc 0) {..<n - Suc 0} = {..<n}"
  by (cases n) (auto simp: lessThan_Suc)

lemma wrapped_good_fire:
  assumes "wrapped_good now w"
  shows "\<exists>w'. wrapped_step w (Dl_fire now k) = Some w' \<and> wrapped_good now w'"
proof (cases "wc_firing w")
  case 0
  then show ?thesis using assms by simp
next
  case (Suc n)
  then show ?thesis using assms lessThan_last [of "wc_made w"]
    by (auto simp: wrapped_good_def fire_deadline_def wrapped_signal_def)
qed

lemma wrapped_good_set:
  assumes "wrapped_good now w"
  shows "\<exists>w'. wrapped_set_dl now u w = Some w' \<and> wrapped_good now w'"
proof -
  define w1 where "w1 = (if wc_ch w = None \<or> wc_flag w then wrapped_make (w\<lparr>wc_exp := u\<rparr>) else w\<lparr>wc_exp := u\<rparr>)"
  have w1: "wc_made w1 \<noteq> 0" "wc_ch w1 = Some (wc_made w1 - 1)" "wc_closed w1 = {..<wc_made w1 - 1}" "\<not> wc_flag w1" "wc_exp w1 = u"
    using assms by (auto simp: w1_def wrapped_good_def wrapped_make_def split: if_splits)
  have "wrapped_set_dl now u w = (if u = 0 then Some (w1\<lparr>wc_timer := None\<rparr>)
      else if u - now \<le> 0 then map_option (\<lambda>w. w\<lparr>wc_timer := None\<rparr>) (wrapped_signal w1)
      else Some (w1\<lparr>wc_timer := Some u\<rparr>))"
    by (simp add: wrapped_set_dl_def w1_def Let_def)
  then show ?thesis using w1 lessThan_last [of "wc_made w1"]
    by (auto simp: wrapped_good_def wrapped_signal_def)
qed

interpretation wc: deadline_conn wrapped_step wc_closed wc_ch wc_made wc_exp wrapped_settled wrapped_good
proof
  fix t w e
  assume good: "wrapped_good t w" and le: "t \<le> dl_time e"
  then have good': "wrapped_good (dl_time e) w" by (rule wrapped_good_later)
  show "\<exists>w'. wrapped_step w e = Some w' \<and> wrapped_good (dl_time e) w'"
    using good' wrapped_good_set wrapped_good_fire wrapped_good_get wrapped_good_due by (cases e) auto
next
  fix t w t' assume "wrapped_good t w" and "t \<le> t'"
  then show "wrapped_good t' w" by (rule wrapped_good_later)
next
  fix t w c
  assume "wrapped_good t w" "c < wc_made w" "c \<notin> wc_closed w"
  then show "wc_ch w = Some c" by (auto simp: wrapped_good_def split: if_splits)
next
  fix t w c
  assume "wrapped_good t w" "wc_ch w = Some c" "c \<in> wc_closed w"
  then show "wc_exp w \<noteq> 0 \<and> wc_exp w \<le> t" by (auto simp: wrapped_good_def split: if_splits)
next
  fix t w c
  assume "wrapped_good t w" "wrapped_settled t w" "wc_exp w \<noteq> 0" "wc_exp w \<le> t" "wc_ch w = Some c"
  then have "wc_flag w" "wc_made w \<noteq> 0" "c = wc_made w - 1" "wc_closed w = {..<(if wc_flag w then wc_made w else wc_made w - 1)}"
    unfolding wrapped_good_def wrapped_settled_def
    by (metis linorder_not_less option.set_intros less_numeral_extra(3), auto split: if_splits)
  then show "c \<in> wc_closed w" by simp
qed

text \<open>
  C19: the read deadline of an SRTP connection works in every interleaving of its setting, extension,
  clearing and expiry. No channel is ever closed twice (the panic of an earlier build), and once the
  deadline has passed and the due timer functions have run, every reader that waits, on whichever
  channel it holds, has been woken.
\<close>

theorem wrapped_deadline_wakes_readers:
  assumes "ordered t es"
  shows "\<exists>w. dl_run wrapped_step new_wrapped_dl es = Some w
    \<and> (wrapped_settled (end_time t es) w \<and> wrapped_expired (end_time t es) w \<longrightarrow> (\<forall>c < wc_made w. c \<in> wc_closed w))"
proof -
  obtain s where "dl_run wrapped_step new_wrapped_dl es = Some s" and "wrapped_good (end_time t es) s"
    using wc.run_good [OF wrapped_good_new assms] by blast
  then show ?thesis using wc.no_reader_stranded by (auto simp: wrapped_expired_def)
qed

lemma wrapped_deadline_wakes_readers_witness:
  "\<exists>w. dl_run wrapped_step new_wrapped_dl [Dl_get 1, Dl_set 2 9, Dl_get 3, Dl_set 4 7, Dl_due 8, Dl_fire 8 0] = Some w
    \<and> wrapped_settled 8 w \<and> wrapped_expired 8 w \<and> 0 < wc_made w \<and> (\<forall>c < wc_made w. c \<in> wc_closed w)"
proof -
  let ?es = "[Dl_get 1, Dl_set 2 9, Dl_get 3, Dl_set 4 7, Dl_due 8, Dl_fire 8 0]"
  obtain w where w: "dl_run wrapped_step new_wrapped_dl ?es = Some w"
    "wrapped_settled 8 w \<and> wrapped_expired 8 w \<longrightarrow> (\<forall>c < wc_made w. c \<in> wc_closed w)"
    using wrapped_deadline_wakes_readers [of 0 ?es] by (auto simp: end_time_def simp del: dl_run.simps)
  moreover have "wrapped_settled 8 w \<and> wrapped_expired 8 w \<and> 0 < wc_made w"
    using w(1) by (auto simp: new_wrapped_dl_def wrapped_deadline_ch_def wrapped_make_def wrapped_set_dl_def
        wrapped_due_def fire_deadline_def wrapped_signal_def wrapped_settled_def wrapped_expired_def)
  ultimately show ?thesis by blast
qed

text \<open>
   so does the deadline of the adapter under the DTLS handshake, whose timers are never stopped and
  may fire after their channel was replaced.
\<close>

theorem adapter_deadline_wakes_readers:
  assumes "ordered t es"
  shows "\<exists>a. dl_run adapter_step new_adapter_dl es = Some a
    \<and> (adapter_settled (end_time t es) a \<and> adapter_expired (end_time t es) a \<longrightarrow> (\<forall>c < ad_made a. c \<in> ad_closed a))"
proof -
  obtain s where "dl_run adapter_step new_adapter_dl es = Some s" and "adapter_good (end_time t es) s"
    using ad.run_good [OF adapter_good_new assms] by blast
  then show ?thesis using ad.no_reader_stranded by (auto simp: adapter_expired_def)
qed

lemma adapter_deadline_wakes_readers_witness:
  "\<exists>a. dl_run adapter_step new_adapter_dl [Dl_get 1, Dl_set 2 5, Dl_set 3 4, Dl_fire 6 0, Dl_fire 6 0] = Some a
    \<and> ad_made a = 3 \<and> (\<forall>c < ad_made a. c \<in> ad_closed a)"
proof -
  let ?es = "[Dl_get 1, Dl_set 2 5, Dl_set 3 4, Dl_fire 6 0, Dl_fire 6 0]"
  obtain a where a: "dl_run adapter_step new_adapter_dl ?es = Some a"
    "adapter_settled 6 a \<and> adapter_expired 6 a \<longrightarrow> (\<forall>c < ad_made a. c \<in> ad_closed a)"
    using adapter_deadline_wakes_readers [of 0 ?es] by (auto simp: end_time_def simp del: dl_run.simps)
  moreover have "adapter_settled 6 a \<and> adapter_expired 6 a \<and> ad_made a = 3"
    using a(1) by (auto simp: new_adapter_dl_def adapter_defs adapter_settled_def adapter_expired_def)
  ultimately show ?thesis by blast
qed

section \<open>Demultiplexing\<close>

definition payload_type :: byte where
  "payload_type = 100"

definition is_dtls :: "byte \<Rightarrow> bool" where
  "is_dtls b \<longleftrightarrow> 20 \<le> b \<and> b \<le> 63"

definition is_rtp :: "byte \<Rightarrow> bool" where
  "is_rtp b \<longleftrightarrow> 128 \<le> b \<and> b \<le> 191"

record demux_queues =
  dq_dtls :: "bytes list"
  dq_rtp :: "bytes list"

definition dtls_cap :: nat where
  "dtls_cap = 64"

definition rtp_cap :: nat where
  "rtp_cap = 4096"

text \<open>
  A datagram at the client's demultiplexer: \<open>None\<close> when the queue it belongs to is full, where the
  goroutine blocks until there is room or the connection is closed.
\<close>

definition client_demux :: "bytes \<Rightarrow> demux_queues \<Rightarrow> demux_queues option" where
  "client_demux pkt q =
     (if pkt = [] then Some q
      else if is_dtls (pkt ! 0) then
        (if length (dq_dtls q) < dtls_cap then Some (q\<lparr>dq_dtls := dq_dtls q @ [pkt]\<rparr>) else None)
      else if is_rtp (pkt ! 0) then
        (if length (dq_rtp q) < rtp_cap then Some (q\<lparr>dq_rtp := dq_rtp q @ [pkt]\<rparr>) else None)
      else Some q)"

text \<open>The server's: a full queue drops.\<close>

definition server_demux :: "bytes \<Rightarrow> demux_queues \<Rightarrow> demux_queues" where
  "server_demux pkt q = (case client_demux pkt q of Some q' \<Rightarrow> q' | None \<Rightarrow> q)"

lemma dtls_rtp_disjoint: "\<not> (is_dtls b \<and> is_rtp b)"
  by (simp add: is_dtls_def is_rtp_def word_le_nat_alt)

section \<open>RTP framing\<close>

record rtp_header =
  rh_version :: nat
  rh_payload_type :: byte
  rh_seq :: u16
  rh_ts :: u32
  rh_ssrc :: u32

record wrapped_conn =
  wr_ssrc :: u32
  wr_seq :: u16
  wr_ts :: u32

definition new_wrapped_conn :: "u32 \<Rightarrow> wrapped_conn" where
  "new_wrapped_conn ssrc = \<lparr>wr_ssrc = ssrc, wr_seq = 0, wr_ts = 0\<rparr>"

text \<open>
  \<open>marshal\<close> and \<open>encrypt\<close> are pion's \<^verbatim>\<open>MarshalTo\<close> and \<^verbatim>\<open>EncryptRTP\<close> (\<open>None\<close> for an error). The numbers advance
  even when the packet cannot be sent.
\<close>

definition wrapped_write ::
  "(rtp_header \<Rightarrow> bytes \<Rightarrow> bytes option) \<Rightarrow> (bytes \<Rightarrow> bytes option) \<Rightarrow> bytes \<Rightarrow> wrapped_conn \<Rightarrow> bytes option \<times> wrapped_conn" where
  "wrapped_write marshal encrypt b c =
     (let h = \<lparr>rh_version = 2, rh_payload_type = payload_type, rh_seq = wr_seq c, rh_ts = wr_ts c, rh_ssrc = wr_ssrc c\<rparr>;
          c' = c\<lparr>wr_seq := wr_seq c + 1, wr_ts := wr_ts c + of_nat (length b)\<rparr>
      in (case marshal h b of None \<Rightarrow> None | Some raw \<Rightarrow> encrypt raw, c'))"

text \<open>\<open>unmarshal\<close> is pion's \<^verbatim>\<open>Header.Unmarshal\<close>: the length of the header, \<open>None\<close> for an error.\<close>

definition wrapped_read ::
  "(bytes \<Rightarrow> bytes option) \<Rightarrow> (bytes \<Rightarrow> nat option) \<Rightarrow> nat \<Rightarrow> bytes \<Rightarrow> bytes option" where
  "wrapped_read decrypt unmarshal n pkt = (case decrypt pkt of
     None \<Rightarrow> None
   | Some plain \<Rightarrow> (case unmarshal plain of None \<Rightarrow> None | Some k \<Rightarrow> Some (take n (drop k plain))))"

fun write_all ::
  "(rtp_header \<Rightarrow> bytes \<Rightarrow> bytes option) \<Rightarrow> (bytes \<Rightarrow> bytes option) \<Rightarrow> bytes list \<Rightarrow> wrapped_conn \<Rightarrow> bytes option list \<times> wrapped_conn" where
  "write_all marshal encrypt [] c = ([], c)"
| "write_all marshal encrypt (b # bs) c =
     (case wrapped_write marshal encrypt b c of
        (o1, c1) \<Rightarrow> (case write_all marshal encrypt bs c1 of (os, c2) \<Rightarrow> (o1 # os, c2)))"

lemma write_all_state:
  "snd (write_all m e bs c) = c\<lparr>wr_seq := wr_seq c + of_nat (length bs), wr_ts := wr_ts c + of_nat (sum_list (map length bs))\<rparr>"
  by (induction bs arbitrary: c) (simp_all add: wrapped_write_def Let_def case_prod_beta ac_simps)

text \<open>
   an SRTP session is lossless over lossless primitives. If pion marshals and encrypts every packet,
  decryption undoes encryption and the header that is stripped is the one that was put on, then every
  datagram a session writes is read back as the payload it was made from, by a reader whose buffer is
  large enough, however long the session has run.
\<close>

theorem srtp_roundtrip:
  assumes "\<And>h b. \<exists>raw k. marshal h b = Some raw \<and> unmarshal raw = Some k \<and> drop k raw = b"
    and "\<And>raw. \<exists>ct. encrypt raw = Some ct \<and> decrypt ct = Some raw"
    and "\<forall>b\<in>set bs. length b \<le> n"
  shows "map (\<lambda>d. Option.bind d (wrapped_read decrypt unmarshal n)) (fst (write_all marshal encrypt bs c)) = map Some bs"
  using assms(3)
proof (induction bs arbitrary: c)
  case (Cons b bs)
  let ?h = "\<lparr>rh_version = 2, rh_payload_type = payload_type, rh_seq = wr_seq c, rh_ts = wr_ts c, rh_ssrc = wr_ssrc c\<rparr>"
  obtain raw k where m: "marshal ?h b = Some raw" "unmarshal raw = Some k" "drop k raw = b" using assms(1) by blast
  obtain ct where "encrypt raw = Some ct" "decrypt ct = Some raw" using assms(2) by blast
  with m Cons.prems have "Option.bind (fst (wrapped_write marshal encrypt b c)) (wrapped_read decrypt unmarshal n) = Some b"
    by (simp add: wrapped_write_def wrapped_read_def Let_def)
  with Cons show ?case by (simp add: case_prod_beta)
qed simp

definition toy_marshal :: "rtp_header \<Rightarrow> bytes \<Rightarrow> bytes option" where
  "toy_marshal h b = Some ([0x80, rh_payload_type h] @ be16 (rh_seq h) @ be32 (rh_ts h) @ be32 (rh_ssrc h) @ b)"

lemma srtp_roundtrip_witness:
  "map (\<lambda>d. Option.bind d (wrapped_read (Some \<circ> map (\<lambda>x. x XOR 7)) (\<lambda>raw. Some 12) 1600))
     (fst (write_all toy_marshal (Some \<circ> map (\<lambda>x. x XOR 7)) [[1, 2], [], [3]] (new_wrapped_conn 9))) = map Some [[1, 2], [], [3]]"
  by (rule srtp_roundtrip) (simp_all add: toy_marshal_def comp_def xor.assoc)

text \<open>The numbers of a session: the \<open>i\<close>-th packet has sequence number \<open>i\<close>, its timestamp is the bytes before it.\<close>

lemma write_numbers:
  "wr_seq (snd (write_all m e bs (new_wrapped_conn ssrc))) = of_nat (length bs)"
  "wr_ts (snd (write_all m e bs (new_wrapped_conn ssrc))) = of_nat (sum_list (map length bs))"
  by (simp_all add: write_all_state new_wrapped_conn_def)

section \<open>The server's session table\<close>

text \<open>
  A session is a number; \<open>sv_sessions\<close> maps source addresses to sessions, \<open>sv_owner\<close> are the sessions
  whose handshake goroutine or connection is alive, with their address. \<open>sv_out\<close> are the connections
  published and not yet accepted.
\<close>

record srtp_server =
  sv_sessions :: "(bytes, nat) mapping"
  sv_queues :: "nat \<Rightarrow> demux_queues"
  sv_next :: nat
  sv_owner :: "(nat \<times> bytes) list"
  sv_out :: "nat list"

definition new_srtp_server :: srtp_server where
  "new_srtp_server = \<lparr>sv_sessions = Mapping.empty, sv_queues = (\<lambda>_. \<lparr>dq_dtls = [], dq_rtp = []\<rparr>), sv_next = 0,
     sv_owner = [], sv_out = []\<rparr>"

definition server_packet :: "bytes \<Rightarrow> bytes \<Rightarrow> srtp_server \<Rightarrow> srtp_server" where
  "server_packet src pkt s0 =
     (if pkt = [] then s0
      else case (case Mapping.lookup (sv_sessions s0) src of
                   Some k \<Rightarrow> (k, s0)
                 | None \<Rightarrow> (sv_next s0, s0\<lparr>sv_sessions := Mapping.update src (sv_next s0) (sv_sessions s0),
                                        sv_next := Suc (sv_next s0), sv_owner := (sv_next s0, src) # sv_owner s0\<rparr>)) of
          (k, s) \<Rightarrow> s\<lparr>sv_queues := (sv_queues s)(k := server_demux pkt (sv_queues s k))\<rparr>)"

text \<open>The owner of a session deletes its address from the table, and is gone.\<close>

definition drop_owner :: "nat \<Rightarrow> srtp_server \<Rightarrow> srtp_server" where
  "drop_owner k s = (case map_of (sv_owner s) k of
     None \<Rightarrow> s
   | Some src \<Rightarrow> s\<lparr>sv_sessions := Mapping.delete src (sv_sessions s), sv_owner := filter (\<lambda>(j, _). j \<noteq> k) (sv_owner s)\<rparr>)"

definition handshake_done :: "bool \<Rightarrow> nat \<Rightarrow> srtp_server \<Rightarrow> srtp_server" where
  "handshake_done ok k s =
     (if \<not> ok then drop_owner k s
      else if map_of (sv_owner s) k = None then s else s\<lparr>sv_out := sv_out s @ [k]\<rparr>)"

datatype server_event = Sv_packet bytes bytes | Sv_handshake bool nat | Sv_close nat

fun server_step :: "srtp_server \<Rightarrow> server_event \<Rightarrow> srtp_server" where
  "server_step s (Sv_packet src pkt) = server_packet src pkt s"
| "server_step s (Sv_handshake ok k) = handshake_done ok k s"
| "server_step s (Sv_close k) = drop_owner k s"

definition server_ok :: "srtp_server \<Rightarrow> bool" where
  "server_ok s \<longleftrightarrow> (\<forall>src k. Mapping.lookup (sv_sessions s) src = Some k \<longleftrightarrow> map_of (sv_owner s) k = Some src)
     \<and> (\<forall>(k, src)\<in>set (sv_owner s). k < sv_next s)"

lemma map_of_filter_neq: "map_of (filter (\<lambda>(j, _). j \<noteq> k) xs) j = (if j = k then None else map_of xs j)"
  by (induction xs) auto

lemma server_ok_drop: "server_ok s \<Longrightarrow> server_ok (drop_owner k s)"
proof (cases "map_of (sv_owner s) k")
  case (Some src)
  assume ok: "server_ok s"
  have lk: "Mapping.lookup (sv_sessions s) a = Some j \<longleftrightarrow> map_of (sv_owner s) j = Some a" for a j
    using ok by (simp add: server_ok_def)
  have "Mapping.lookup (Mapping.delete src (sv_sessions s)) a = Some j
      \<longleftrightarrow> map_of (filter (\<lambda>(j, _). j \<noteq> k) (sv_owner s)) j = Some a" for a j
    using lk [of a j] lk [of src k] lk [of src j] Some
    by (cases "a = src") (auto simp: map_of_filter_neq)
  then show ?thesis using ok Some by (auto simp: server_ok_def drop_owner_def)
qed (simp add: drop_owner_def)

lemma server_packet_simps:
  "sv_sessions (server_packet src pkt s) = (if pkt = [] \<or> Mapping.lookup (sv_sessions s) src \<noteq> None then sv_sessions s
     else Mapping.update src (sv_next s) (sv_sessions s))"
  "sv_owner (server_packet src pkt s) = (if pkt = [] \<or> Mapping.lookup (sv_sessions s) src \<noteq> None then sv_owner s
     else (sv_next s, src) # sv_owner s)"
  "sv_next (server_packet src pkt s) = (if pkt = [] \<or> Mapping.lookup (sv_sessions s) src \<noteq> None then sv_next s
     else Suc (sv_next s))"
  by (auto simp: server_packet_def split: option.split)

lemma server_ok_packet:
  assumes ok: "server_ok s"
  shows "server_ok (server_packet src pkt s)"
proof (cases "pkt = [] \<or> Mapping.lookup (sv_sessions s) src \<noteq> None")
  case False
  have fresh: "map_of (sv_owner s) (sv_next s) = None"
    using ok by (auto simp: server_ok_def map_of_eq_None_iff)
  have lk: "Mapping.lookup (sv_sessions s) a = Some j \<longleftrightarrow> map_of (sv_owner s) j = Some a" for a j
    using ok by (simp add: server_ok_def)
  have "Mapping.lookup (Mapping.update src (sv_next s) (sv_sessions s)) a = Some j
      \<longleftrightarrow> map_of ((sv_next s, src) # sv_owner s) j = Some a" for a j
    using lk [of a j] lk [of src j] lk [of a "sv_next s"] fresh False by (auto simp: lookup_update')
  then show ?thesis using ok False by (auto simp: server_ok_def server_packet_simps)
qed (use ok in \<open>auto simp: server_ok_def server_packet_simps\<close>)

lemma server_ok_step: "server_ok s \<Longrightarrow> server_ok (server_step s e)"
  using server_ok_drop server_ok_packet
  by (cases e) (auto simp: handshake_done_def, auto simp: server_ok_def)

interpretation svm: invariant_machine server_step server_ok
  by unfold_locales (rule server_ok_step)

text \<open>
  C20: the session table is exact. Whatever arrives and whichever handshakes fail and connections close,
  in whatever order, an address is in the table exactly as long as the session it is mapped to is
  alive, so no session deletes the entry of another.
\<close>

theorem server_table_exact:
  "Mapping.lookup (sv_sessions (run server_step new_srtp_server es)) src = Some k
     \<longleftrightarrow> map_of (sv_owner (run server_step new_srtp_server es)) k = Some src"
proof -
  have "server_ok new_srtp_server" by (simp add: server_ok_def new_srtp_server_def)
  then have "server_ok (run server_step new_srtp_server es)" by (rule svm.run_inv)
  then show ?thesis by (simp add: server_ok_def)
qed

end
