(* ===== verification/UplinkPace.thy ===== *)
theory UplinkPace
  imports Liveness Complex_Main
begin

text \<open>
  The token bucket on the uplink, \<^verbatim>\<open>src/pkg/proxy/uplinkpace.go\<close>. A generation of the setting is its index in
  \<open>pg_states\<close> (the Go pointer to its \<^verbatim>\<open>paceState\<close>, whose \<^verbatim>\<open>gen\<close> is that number), a connection's writer is a
  phase between the operations that other goroutines can run in between. Rates and tokens are the real
  numbers that the \<^verbatim>\<open>float64\<close> values approximate; their rounding is not modelled. Time is Go's monotonic
  clock in nanoseconds.
\<close>

section \<open>Settings\<close>

definition pace_wire_overhead :: int where
  "pace_wire_overhead = 30"

definition pace_max_cost :: int where
  "pace_max_cost = 1500 + pace_wire_overhead"

definition pace_default_burst_kib :: int where
  "pace_default_burst_kib = 16"

definition pace_max_conns :: int where
  "pace_max_conns = 64"

record pace_state =
  ps_rate :: real
  ps_burst :: real
  ps_awaits :: int
  ps_waited :: int
  ps_wait_ns :: int
  ps_plan_ns :: int
  ps_wait_max :: int
  ps_bytes :: int
  ps_inflight :: int

definition pace_off :: pace_state where
  "pace_off = \<lparr>ps_rate = 0, ps_burst = 0, ps_awaits = 0, ps_waited = 0, ps_wait_ns = 0, ps_plan_ns = 0,
     ps_wait_max = 0, ps_bytes = 0, ps_inflight = 0\<rparr>"

definition pace_is_on :: "pace_state \<Rightarrow> bool" where
  "pace_is_on st \<longleftrightarrow> 0 < ps_rate st"

text \<open>The state that \<^verbatim>\<open>SetUplinkPace\<close> publishes.\<close>

definition pace_setting :: "int \<Rightarrow> int \<Rightarrow> pace_state" where
  "pace_setting kib burst =
     (if 0 < kib then pace_off\<lparr>ps_rate := real_of_int kib * 1024,
        ps_burst := real_of_int (if burst \<le> 0 then pace_default_burst_kib else burst) * 1024\<rparr>
      else pace_off)"

section \<open>The bucket\<close>

record pace_bucket =
  tb_gen :: nat
  tb_rate :: real
  tb_burst :: real
  tb_tokens :: real
  tb_last :: time

definition new_pace_bucket :: "time \<Rightarrow> nat \<Rightarrow> pace_state \<Rightarrow> pace_bucket" where
  "new_pace_bucket now g st =
     \<lparr>tb_gen = g, tb_rate = ps_rate st, tb_burst = ps_burst st, tb_tokens = ps_burst st, tb_last = now\<rparr>"

definition accrued :: "time \<Rightarrow> pace_bucket \<Rightarrow> real" where
  "accrued now b = min (tb_burst b) (tb_tokens b + tb_rate b * (real_of_int (now - tb_last b) / 10 ^ 9))"

text \<open>The wait is truncated to whole nanoseconds by the conversion to \<^verbatim>\<open>time.Duration\<close>.\<close>

definition take_tokens :: "time \<Rightarrow> real \<Rightarrow> pace_bucket \<Rightarrow> duration \<times> pace_bucket" where
  "take_tokens now cost b =
     (if tb_rate b \<le> 0 then (0, b)
      else let left = accrued now b - cost; b = b\<lparr>tb_last := now, tb_tokens := left\<rparr>
           in if 0 \<le> left then (0, b) else (\<lfloor>- left / tb_rate b * 10 ^ 9\<rfloor>, b))"

definition refund_tokens :: "real \<Rightarrow> pace_bucket \<Rightarrow> pace_bucket" where
  "refund_tokens cost b =
     (if cost \<le> 0 \<or> tb_rate b \<le> 0 then b else b\<lparr>tb_tokens := min (tb_burst b) (tb_tokens b + cost)\<rparr>)"

section \<open>The process\<close>

text \<open>
  A writer has nothing, has read the setting (\<open>Loaded\<close>), has its reservation and must wait (\<open>Granted\<close>),
  sleeps (\<open>Asleep\<close>: the generation, what is left, when the sleep and when the slice began), or carries a
  ticket to its dequeue. \<open>pg_charged\<close> sums the counted bytes of a connection.
\<close>

datatype pace_phase = Idle | Loaded nat | Granted nat duration | Asleep nat duration time time | Ticket "nat option"

record pace =
  pg_now :: time
  pg_states :: "pace_state list"
  pg_buckets :: "int \<Rightarrow> pace_bucket option"
  pg_writers :: "int \<Rightarrow> pace_phase"
  pg_charged :: "int \<Rightarrow> int"
  pg_awaits :: int
  pg_waited :: int
  pg_plan_ns :: int
  pg_wait_max :: int
  pg_bytes :: int
  pg_cancels :: int

definition new_pace :: pace where
  "new_pace = \<lparr>pg_now = 0, pg_states = [pace_off], pg_buckets = (\<lambda>_. None), pg_writers = (\<lambda>_. Idle),
     pg_charged = (\<lambda>_. 0), pg_awaits = 0, pg_waited = 0, pg_plan_ns = 0, pg_wait_max = 0, pg_bytes = 0,
     pg_cancels = 0\<rparr>"

definition cur_gen :: "pace \<Rightarrow> nat" where
  "cur_gen p = length (pg_states p) - 1"

definition pace_now :: "pace \<Rightarrow> pace_state" where
  "pace_now p = pg_states p ! cur_gen p"

definition with_state :: "nat \<Rightarrow> (pace_state \<Rightarrow> pace_state) \<Rightarrow> pace \<Rightarrow> pace" where
  "with_state g f p = p\<lparr>pg_states := (pg_states p)[g := f (pg_states p ! g)]\<rparr>"

definition set_phase :: "int \<Rightarrow> pace_phase \<Rightarrow> pace \<Rightarrow> pace" where
  "set_phase k ph p = p\<lparr>pg_writers := (pg_writers p)(k := ph)\<rparr>"

definition set_bucket :: "int \<Rightarrow> pace_bucket option \<Rightarrow> pace \<Rightarrow> pace" where
  "set_bucket k b p = p\<lparr>pg_buckets := (pg_buckets p)(k := b)\<rparr>"

definition pace_reset_conn :: "int \<Rightarrow> pace \<Rightarrow> pace" where
  "pace_reset_conn k p = (if k < 0 \<or> pace_max_conns \<le> k then p else set_bucket k None p)"

definition set_uplink_pace :: "int \<Rightarrow> int \<Rightarrow> pace \<Rightarrow> pace" where
  "set_uplink_pace kib burst p = p\<lparr>pg_states := pg_states p @ [pace_setting kib burst]\<rparr>"

definition uplink_pace_rate :: "pace \<Rightarrow> int" where
  "uplink_pace_rate p = (if pace_is_on (pace_now p) then \<lfloor>ps_rate (pace_now p) / 1024\<rfloor> else 0)"

definition paces_writer :: "pace_state \<Rightarrow> int \<Rightarrow> bool" where
  "paces_writer st k \<longleftrightarrow> pace_is_on st \<and> 0 \<le> k \<and> k < pace_max_conns"

subsection \<open>The reservation\<close>

definition reserve_load :: "int \<Rightarrow> pace \<Rightarrow> pace" where
  "reserve_load k p =
     set_phase k (if paces_writer (pace_now p) k then Loaded (cur_gen p) else Ticket None) p"

definition bucket_for :: "int \<Rightarrow> nat \<Rightarrow> pace \<Rightarrow> pace_bucket" where
  "bucket_for k g p = (case pg_buckets p k of
     Some b \<Rightarrow> if tb_gen b = g then b else new_pace_bucket (pg_now p) g (pg_states p ! g)
   | None \<Rightarrow> new_pace_bucket (pg_now p) g (pg_states p ! g))"

definition reserve_grant :: "int \<Rightarrow> nat \<Rightarrow> pace \<Rightarrow> pace" where
  "reserve_grant k g p0 =
     (case take_tokens (pg_now p0) (real_of_int pace_max_cost) (bucket_for k g p0) of
        (wait, b) \<Rightarrow>
          let p = set_bucket k (Some b) p0;
              p = (with_state g (\<lambda>st. st\<lparr>ps_awaits := ps_awaits st + 1\<rparr>) p)\<lparr>pg_awaits := pg_awaits p0 + 1\<rparr>
          in if wait \<le> 0 then set_phase k (Ticket (Some g)) p
             else set_phase k (Granted g wait)
               ((with_state g (\<lambda>st. st\<lparr>ps_waited := ps_waited st + 1\<rparr>) p)\<lparr>pg_waited := pg_waited p0 + 1\<rparr>))"

definition reserve_sleep :: "int \<Rightarrow> nat \<Rightarrow> duration \<Rightarrow> pace \<Rightarrow> pace" where
  "reserve_sleep k g wait p =
     set_phase k (Asleep g wait (pg_now p) (pg_now p))
       ((with_state g (\<lambda>st. st\<lparr>ps_inflight := ps_inflight st + 1, ps_plan_ns := ps_plan_ns st + wait\<rparr>) p)
         \<lparr>pg_plan_ns := pg_plan_ns p + wait, pg_wait_max := max (pg_wait_max p) wait\<rparr>)"

definition pace_slice :: duration where
  "pace_slice = 10000000"

definition end_sleep :: "int \<Rightarrow> nat \<Rightarrow> duration \<Rightarrow> pace \<Rightarrow> pace" where
  "end_sleep k g actual p =
     set_phase k (Ticket (Some g))
       (with_state g (\<lambda>st. st\<lparr>ps_wait_ns := ps_wait_ns st + actual, ps_wait_max := max (ps_wait_max st) actual,
                              ps_inflight := ps_inflight st - 1\<rparr>) p)"

text \<open>The timer of a slice has fired, not before its time.\<close>

definition reserve_slice :: "int \<Rightarrow> nat \<Rightarrow> duration \<Rightarrow> time \<Rightarrow> time \<Rightarrow> pace \<Rightarrow> pace" where
  "reserve_slice k g left slept0 since p =
     (let d = min pace_slice left in
      if pg_now p < since + d then p
      else if \<not> pace_is_on (pace_now p) \<or> left - d \<le> 0 then end_sleep k g (pg_now p - slept0) p
      else set_phase k (Asleep g (left - d) slept0 (pg_now p)) p)"

text \<open>The proxy stops during the sleep.\<close>

definition reserve_cancel :: "int \<Rightarrow> nat \<Rightarrow> time \<Rightarrow> pace \<Rightarrow> pace" where
  "reserve_cancel k g slept0 p =
     set_phase k (Ticket (Some g))
       ((with_state g (\<lambda>st. st\<lparr>ps_wait_ns := ps_wait_ns st + (pg_now p - slept0), ps_inflight := ps_inflight st - 1\<rparr>) p)
         \<lparr>pg_cancels := pg_cancels p + 1\<rparr>)"

subsection \<open>The settlement\<close>

definition counted :: "nat \<Rightarrow> int" where
  "counted n = min pace_max_cost (int n + pace_wire_overhead)"

definition pace_settle :: "int \<Rightarrow> nat option \<Rightarrow> nat \<Rightarrow> pace \<Rightarrow> pace" where
  "pace_settle k t n p = set_phase k Idle
     (case t of None \<Rightarrow> p
      | Some g \<Rightarrow>
          set_bucket k (map_option (refund_tokens (real_of_int (pace_max_cost - counted n))) (pg_buckets p k))
            ((with_state g (\<lambda>st. st\<lparr>ps_bytes := ps_bytes st + counted n\<rparr>) p)
              \<lparr>pg_bytes := pg_bytes p + counted n, pg_charged := (pg_charged p)(k := pg_charged p k + counted n)\<rparr>))"

section \<open>Reports\<close>

text \<open>
  The setter polls the superseded generation until nobody sleeps under it, at most 42 times 5 ms apart;
  the argument is what it reads.
\<close>

fun drain :: "nat \<Rightarrow> int list \<Rightarrow> bool option" where
  "drain i [] = None"
| "drain i (r # rs) = (if r \<le> 0 then Some True else if 40 < i then Some False else drain (Suc i) rs)"

record pace_summary =
  sm_paced :: int
  sm_waited :: int
  sm_planned :: int
  sm_mean :: int
  sm_max :: int
  sm_bytes :: int
  sm_cancels :: int

definition pace_summary :: "pace \<Rightarrow> pace_summary option \<times> pace" where
  "pace_summary p =
     (if pace_is_on (pace_now p)
      then Some \<lparr>sm_paced = pg_awaits p, sm_waited = pg_waited p, sm_planned = pg_plan_ns p,
                 sm_mean = (if 0 < pg_waited p then pg_plan_ns p div pg_waited p else 0),
                 sm_max = pg_wait_max p, sm_bytes = pg_bytes p, sm_cancels = pg_cancels p\<rparr>
      else None,
      p\<lparr>pg_awaits := 0, pg_waited := 0, pg_plan_ns := 0, pg_wait_max := 0, pg_bytes := 0, pg_cancels := 0\<rparr>)"

section \<open>Runs\<close>

datatype pace_event =
    Pu_clock nat
  | Pu_set int int
  | Pu_reset int
  | Pu_load int
  | Pu_grant int
  | Pu_sleep int
  | Pu_slice int
  | Pu_cancel int
  | Pu_settle int nat
  | Pu_summary

text \<open>A step that the writer is not ready for does not happen.\<close>

fun pace_step :: "pace \<Rightarrow> pace_event \<Rightarrow> pace" where
  "pace_step p (Pu_clock d) = p\<lparr>pg_now := pg_now p + int d\<rparr>"
| "pace_step p (Pu_set kib burst) = set_uplink_pace kib burst p"
| "pace_step p (Pu_reset k) = pace_reset_conn k p"
| "pace_step p (Pu_load k) = (case pg_writers p k of Idle \<Rightarrow> reserve_load k p | _ \<Rightarrow> p)"
| "pace_step p (Pu_grant k) = (case pg_writers p k of Loaded g \<Rightarrow> reserve_grant k g p | _ \<Rightarrow> p)"
| "pace_step p (Pu_sleep k) = (case pg_writers p k of Granted g w \<Rightarrow> reserve_sleep k g w p | _ \<Rightarrow> p)"
| "pace_step p (Pu_slice k) = (case pg_writers p k of Asleep g left s0 since \<Rightarrow> reserve_slice k g left s0 since p | _ \<Rightarrow> p)"
| "pace_step p (Pu_cancel k) = (case pg_writers p k of Asleep g left s0 since \<Rightarrow> reserve_cancel k g s0 p | _ \<Rightarrow> p)"
| "pace_step p (Pu_settle k n) = (case pg_writers p k of Ticket t \<Rightarrow> pace_settle k t n p | _ \<Rightarrow> p)"
| "pace_step p Pu_summary = snd (pace_summary p)"


section \<open>What the operations leave alone\<close>

definition rates :: "pace \<Rightarrow> (real \<times> real) list" where
  "rates p = map (\<lambda>st. (ps_rate st, ps_burst st)) (pg_states p)"

lemma with_state_simps [simp]:
  "pg_now (with_state g f p) = pg_now p" "pg_buckets (with_state g f p) = pg_buckets p"
  "pg_writers (with_state g f p) = pg_writers p" "pg_charged (with_state g f p) = pg_charged p"
  "length (pg_states (with_state g f p)) = length (pg_states p)"
  by (simp_all add: with_state_def)

lemma set_phase_simps [simp]:
  "pg_now (set_phase k ph p) = pg_now p" "pg_buckets (set_phase k ph p) = pg_buckets p"
  "pg_writers (set_phase k ph p) = (pg_writers p)(k := ph)" "pg_charged (set_phase k ph p) = pg_charged p"
  "pg_states (set_phase k ph p) = pg_states p"
  by (simp_all add: set_phase_def)

lemma set_bucket_simps [simp]:
  "pg_now (set_bucket k b p) = pg_now p" "pg_buckets (set_bucket k b p) = (pg_buckets p)(k := b)"
  "pg_writers (set_bucket k b p) = pg_writers p" "pg_charged (set_bucket k b p) = pg_charged p"
  "pg_states (set_bucket k b p) = pg_states p"
  by (simp_all add: set_bucket_def)

lemma rates_simps [simp]:
  "rates (set_phase k ph p) = rates p" "rates (set_bucket k b p) = rates p"
  "rates (p\<lparr>pg_awaits := a\<rparr>) = rates p" "rates (p\<lparr>pg_waited := a\<rparr>) = rates p"
  "rates (p\<lparr>pg_plan_ns := a\<rparr>) = rates p" "rates (p\<lparr>pg_wait_max := a\<rparr>) = rates p"
  "rates (p\<lparr>pg_bytes := a\<rparr>) = rates p" "rates (p\<lparr>pg_cancels := a\<rparr>) = rates p"
  "rates (p\<lparr>pg_charged := c\<rparr>) = rates p" "rates (p\<lparr>pg_now := t\<rparr>) = rates p"
  by (simp_all add: rates_def)

lemma rates_with_state:
  "(\<And>st. ps_rate (f st) = ps_rate st \<and> ps_burst (f st) = ps_burst st) \<Longrightarrow> rates (with_state g f p) = rates p"
  by (simp add: rates_def with_state_def map_update list_update_same_conv) (metis (no_types) list_update_id map_update)

lemma cur_gen_rates: "cur_gen p = length (rates p) - 1"
  by (simp add: cur_gen_def rates_def)

lemmas reserve_defs = reserve_load_def reserve_grant_def reserve_sleep_def reserve_slice_def end_sleep_def
  reserve_cancel_def pace_settle_def

fun sets_pace :: "pace_event \<Rightarrow> bool" where
  "sets_pace (Pu_set kib burst) \<longleftrightarrow> True"
| "sets_pace _ \<longleftrightarrow> False"

lemma rates_step: "\<not> sets_pace e \<Longrightarrow> rates (pace_step p e) = rates p"
  by (cases e) (auto simp: reserve_defs rates_with_state pace_reset_conn_def pace_summary_def Let_def
      split: pace_phase.split option.split prod.split)


section \<open>Well-formedness\<close>

definition bucket_ok :: "pace \<Rightarrow> pace_bucket \<Rightarrow> bool" where
  "bucket_ok p b \<longleftrightarrow> tb_gen b < length (rates p) \<and> (tb_rate b, tb_burst b) = rates p ! tb_gen b
     \<and> 0 < tb_rate b \<and> tb_tokens b \<le> tb_burst b \<and> tb_last b \<le> pg_now p"

fun phase_ok :: "pace \<Rightarrow> pace_phase \<Rightarrow> bool" where
  "phase_ok p Idle \<longleftrightarrow> True"
| "phase_ok p (Loaded g) \<longleftrightarrow> g < length (rates p) \<and> 0 < fst (rates p ! g)"
| "phase_ok p (Granted g w) \<longleftrightarrow> g < length (rates p) \<and> 0 < w"
| "phase_ok p (Asleep g left s0 since) \<longleftrightarrow> g < length (rates p) \<and> 0 < left \<and> s0 \<le> since \<and> since \<le> pg_now p"
| "phase_ok p (Ticket t) \<longleftrightarrow> (case t of None \<Rightarrow> True | Some g \<Rightarrow> g < length (rates p))"

definition pace_ok :: "pace \<Rightarrow> bool" where
  "pace_ok p \<longleftrightarrow> rates p \<noteq> [] \<and> (\<forall>(r, b)\<in>set (rates p). 0 \<le> r \<and> 0 \<le> b \<and> (0 < r \<longrightarrow> 0 < b))
     \<and> (\<forall>k. (case pg_buckets p k of None \<Rightarrow> True | Some b \<Rightarrow> bucket_ok p b) \<and> phase_ok p (pg_writers p k))"

lemma counted_bounds: "counted n \<le> pace_max_cost" "0 < counted n"
  by (simp_all add: counted_def pace_max_cost_def pace_wire_overhead_def)

lemma take_tokens_simps:
  assumes "0 < tb_rate b"
  shows "tb_gen (snd (take_tokens now c b)) = tb_gen b" "tb_rate (snd (take_tokens now c b)) = tb_rate b"
    "tb_burst (snd (take_tokens now c b)) = tb_burst b" "tb_last (snd (take_tokens now c b)) = now"
    "tb_tokens (snd (take_tokens now c b)) = accrued now b - c"
  using assms by (simp_all add: take_tokens_def Let_def)

lemma take_tokens_wait:
  assumes "0 < tb_rate b"
  shows "- (tb_rate b / 10 ^ 9) \<le> accrued now b - c + tb_rate b * (real_of_int (fst (take_tokens now c b)) / 10 ^ 9)"
    and "0 \<le> fst (take_tokens now c b)"
proof -
  let ?l = "accrued now b - c" and ?r = "tb_rate b"
  show "0 \<le> fst (take_tokens now c b)"
    using assms by (simp add: take_tokens_def Let_def)
  have "- ?l / ?r * 10 ^ 9 - 1 \<le> real_of_int \<lfloor>- ?l / ?r * 10 ^ 9\<rfloor>" by linarith
  then have below: "?r * ((- ?l / ?r * 10 ^ 9 - 1) / 10 ^ 9) \<le> ?r * (real_of_int \<lfloor>- ?l / ?r * 10 ^ 9\<rfloor> / 10 ^ 9)"
    using assms by (intro mult_left_mono divide_right_mono) auto
  have eq: "?r * ((- ?l / ?r * 10 ^ 9 - 1) / 10 ^ 9) = - ?l - ?r / 10 ^ 9"
    using assms by (simp add: field_simps)
  show "- (?r / 10 ^ 9) \<le> ?l + ?r * (real_of_int (fst (take_tokens now c b)) / 10 ^ 9)"
  proof (cases "0 \<le> ?l")
    case False
    then have "fst (take_tokens now c b) = \<lfloor>- ?l / ?r * 10 ^ 9\<rfloor>"
      using assms by (simp add: take_tokens_def Let_def)
    with below eq show ?thesis by (simp only:)
  qed (use assms in \<open>simp add: take_tokens_def Let_def\<close>)
qed

lemma refund_simps [simp]:
  "tb_gen (refund_tokens c b) = tb_gen b" "tb_rate (refund_tokens c b) = tb_rate b"
  "tb_burst (refund_tokens c b) = tb_burst b" "tb_last (refund_tokens c b) = tb_last b"
  by (simp_all add: refund_tokens_def)

lemma refund_le: "tb_tokens b \<le> tb_burst b \<Longrightarrow> tb_tokens (refund_tokens c b) \<le> tb_burst b"
  by (simp add: refund_tokens_def)

lemma bucket_ok_cong: "rates p' = rates p \<Longrightarrow> pg_now p \<le> pg_now p' \<Longrightarrow> bucket_ok p b \<Longrightarrow> bucket_ok p' b"
  by (simp add: bucket_ok_def)

lemma phase_ok_cong: "rates p' = rates p \<Longrightarrow> pg_now p \<le> pg_now p' \<Longrightarrow> phase_ok p ph \<Longrightarrow> phase_ok p' ph"
  by (cases ph) (auto split: option.split)

text \<open>An operation on connection \<open>k\<close> needs to be looked at there only.\<close>

lemma pace_ok_at:
  assumes "pace_ok p" and "rates p' = rates p" and "pg_now p \<le> pg_now p'"
    and "\<And>j. j \<noteq> k \<Longrightarrow> pg_buckets p' j = pg_buckets p j \<and> pg_writers p' j = pg_writers p j"
    and "case pg_buckets p' k of None \<Rightarrow> True | Some b \<Rightarrow> bucket_ok p b"
    and "phase_ok p (pg_writers p' k)"
  shows "pace_ok p'"
proof -
  have "(case pg_buckets p' j of None \<Rightarrow> True | Some b \<Rightarrow> bucket_ok p' b) \<and> phase_ok p' (pg_writers p' j)" for j
    using assms(1,4-6) bucket_ok_cong [OF assms(2,3)] phase_ok_cong [OF assms(2,3)]
    by (cases "j = k") (auto simp: pace_ok_def split: option.splits)
  then show ?thesis using assms(1,2) by (simp add: pace_ok_def)
qed

lemma pace_ok_bucket: "pace_ok p \<Longrightarrow> pg_buckets p k = Some b \<Longrightarrow> bucket_ok p b"
  by (auto simp: pace_ok_def split: option.splits)

lemma pace_ok_phase: "pace_ok p \<Longrightarrow> phase_ok p (pg_writers p k)"
  by (simp add: pace_ok_def)

lemma pace_ok_rate:
  assumes "pace_ok p" and "g < length (rates p)"
  shows "0 \<le> fst (rates p ! g)" "0 \<le> snd (rates p ! g)" "0 < fst (rates p ! g) \<Longrightarrow> 0 < snd (rates p ! g)"
  using assms nth_mem [OF assms(2)] by (auto simp: pace_ok_def split_def)

lemma rates_nth: "g < length (rates p) \<Longrightarrow> rates p ! g = (ps_rate (pg_states p ! g), ps_burst (pg_states p ! g))"
  by (simp add: rates_def)

lemma bucket_for_ok:
  assumes "pace_ok p" and "pg_writers p k = Loaded g"
  shows "bucket_ok p (bucket_for k g p)" and "tb_gen (bucket_for k g p) = g"
proof -
  have g: "g < length (rates p)" "0 < fst (rates p ! g)" using pace_ok_phase [OF assms(1), of k] assms(2) by simp_all
  show "bucket_ok p (bucket_for k g p)"
    using g pace_ok_bucket [OF assms(1), of k]
    by (auto simp: bucket_for_def bucket_ok_def new_pace_bucket_def rates_nth split: option.split)
  show "tb_gen (bucket_for k g p) = g"
    by (simp add: bucket_for_def new_pace_bucket_def split: option.split)
qed

lemma reserve_grant_at:
  "pg_now (reserve_grant k g p) = pg_now p" "rates (reserve_grant k g p) = rates p"
  "pg_charged (reserve_grant k g p) = pg_charged p"
  "pg_buckets (reserve_grant k g p) = (pg_buckets p)(k := Some (snd (take_tokens (pg_now p) pace_max_cost (bucket_for k g p))))"
  "pg_writers (reserve_grant k g p) = (pg_writers p)(k :=
     (let w = fst (take_tokens (pg_now p) pace_max_cost (bucket_for k g p)) in if w \<le> 0 then Ticket (Some g) else Granted g w))"
  by (simp_all add: reserve_grant_def Let_def rates_with_state split: prod.split)

lemma accrued_le: "accrued now b \<le> tb_burst b"
  by (simp add: accrued_def)

lemma pace_ok_step: "pace_ok p \<Longrightarrow> pace_ok (pace_step p e)"
proof (cases e)
  case (Pu_clock d)
  assume ok: "pace_ok p"
  show ?thesis using pace_ok_at [OF ok, of _ 0] pace_ok_bucket [OF ok] pace_ok_phase [OF ok]
    by (auto simp: Pu_clock split: option.split)
next
  case (Pu_set kib burst)
  assume ok: "pace_ok p"
  let ?p = "set_uplink_pace kib burst p"
  have r: "rates ?p = rates p @ [(ps_rate (pace_setting kib burst), ps_burst (pace_setting kib burst))]"
    by (simp add: rates_def set_uplink_pace_def)
  have n: "pg_now ?p = pg_now p" by (simp add: set_uplink_pace_def)
  have "phase_ok p ph \<Longrightarrow> phase_ok ?p ph" "bucket_ok p b \<Longrightarrow> bucket_ok ?p b" for ph b
    by (cases ph) (auto simp: r n nth_append bucket_ok_def split: option.split)
  moreover have "pg_buckets ?p = pg_buckets p" "pg_writers ?p = pg_writers p"
    by (simp_all add: set_uplink_pace_def)
  ultimately show ?thesis using ok unfolding Pu_set pace_step.simps
    by (auto simp: pace_ok_def r pace_setting_def pace_off_def pace_default_burst_kib_def split: option.splits)
next
  case (Pu_reset k)
  assume ok: "pace_ok p"
  show ?thesis using pace_ok_at [OF ok, of _ k] pace_ok_phase [OF ok] ok
    by (auto simp: Pu_reset pace_reset_conn_def)
next
  case (Pu_load k)
  assume ok: "pace_ok p"
  then have "rates p \<noteq> []" by (simp add: pace_ok_def)
  then have g: "cur_gen p < length (rates p)" by (simp add: cur_gen_rates)
  show ?thesis using pace_ok_at [OF ok, of _ k] pace_ok_bucket [OF ok] ok g
    by (auto simp: Pu_load reserve_load_def paces_writer_def pace_is_on_def pace_now_def rates_nth
        split: pace_phase.split option.split)
next
  case (Pu_grant k)
  assume ok: "pace_ok p"
  show ?thesis
  proof (cases "pg_writers p k")
    case (Loaded g)
    note bf = bucket_for_ok [OF ok Loaded]
    have "0 < tb_rate (bucket_for k g p)" using bf(1) by (simp add: bucket_ok_def)
    note tt = take_tokens_simps [OF this] take_tokens_wait [OF this]
    have "0 \<le> pace_max_cost" by (simp add: pace_max_cost_def pace_wire_overhead_def)
    then have "bucket_ok p (snd (take_tokens (pg_now p) pace_max_cost (bucket_for k g p)))"
      using bf accrued_le [of "pg_now p" "bucket_for k g p"] by (simp add: bucket_ok_def tt(1-5))
    moreover have "phase_ok p (pg_writers p k)" by (rule pace_ok_phase [OF ok])
    ultimately show ?thesis
      using pace_ok_at [OF ok, of "reserve_grant k g p" k] Loaded by (auto simp: Pu_grant reserve_grant_at Let_def)
  qed (use ok in \<open>simp_all add: Pu_grant\<close>)
next
  case (Pu_sleep k)
  assume ok: "pace_ok p"
  show ?thesis using pace_ok_at [OF ok, of _ k] pace_ok_bucket [OF ok] pace_ok_phase [OF ok, of k] ok
    by (auto simp: Pu_sleep reserve_sleep_def rates_with_state split: pace_phase.split option.split)
next
  case (Pu_slice k)
  assume ok: "pace_ok p"
  show ?thesis using pace_ok_at [OF ok, of _ k] pace_ok_bucket [OF ok] pace_ok_phase [OF ok, of k] ok
    by (auto simp: Pu_slice reserve_slice_def end_sleep_def Let_def pace_slice_def rates_with_state
        split: pace_phase.split option.split)
next
  case (Pu_cancel k)
  assume ok: "pace_ok p"
  show ?thesis using pace_ok_at [OF ok, of _ k] pace_ok_bucket [OF ok] pace_ok_phase [OF ok, of k] ok
    by (auto simp: Pu_cancel reserve_cancel_def rates_with_state split: pace_phase.split option.split)
next
  case (Pu_settle k n)
  assume ok: "pace_ok p"
  have "bucket_ok p b \<Longrightarrow> bucket_ok p (refund_tokens c b)" for b c
    using refund_le [of b c] by (auto simp: bucket_ok_def)
  then show ?thesis using pace_ok_at [OF ok, of _ k] pace_ok_bucket [OF ok] ok
    by (auto simp: Pu_settle pace_settle_def rates_with_state split: pace_phase.split option.split)
next
  case Pu_summary
  assume ok: "pace_ok p"
  show ?thesis using pace_ok_at [OF ok, of _ 0] pace_ok_bucket [OF ok] pace_ok_phase [OF ok]
    by (auto simp: Pu_summary pace_summary_def split: option.split)
qed

interpretation upm: invariant_machine pace_step pace_ok
  by unfold_locales (rule pace_ok_step)


section \<open>The rate\<close>

text \<open>
  The account of connection \<open>k\<close> under the current generation: what its bucket holds now (a bucket that is
  to be rebuilt holds a full burst), and what its writer has reserved and not settled. \<open>due\<close> is the
  earliest instant at which the writer can reach its dequeue.
\<close>

definition max_cost :: real where
  "max_cost = real_of_int pace_max_cost"

definition cur_rate :: "pace \<Rightarrow> real" where
  "cur_rate p = fst (rates p ! cur_gen p)"

definition cur_burst :: "pace \<Rightarrow> real" where
  "cur_burst p = snd (rates p ! cur_gen p)"

definition balance :: "time \<Rightarrow> pace_bucket \<Rightarrow> real" where
  "balance t b = tb_tokens b + tb_rate b * (real_of_int (t - tb_last b) / 10 ^ 9)"

fun due :: "pace \<Rightarrow> pace_phase \<Rightarrow> time" where
  "due p (Granted g w) = pg_now p + w"
| "due p (Asleep g left s0 since) = since + left"
| "due p _ = pg_now p"

fun outstanding :: "pace \<Rightarrow> pace_phase \<Rightarrow> real" where
  "outstanding p Idle = 0"
| "outstanding p (Loaded g) = (if g = cur_gen p then 0 else max_cost)"
| "outstanding p (Ticket t) = (case t of None \<Rightarrow> 0 | Some g \<Rightarrow> max_cost)"
| "outstanding p _ = max_cost"

definition holds :: "int \<Rightarrow> pace \<Rightarrow> real" where
  "holds k p = (case pg_buckets p k of
     Some b \<Rightarrow> if tb_gen b = cur_gen p then accrued (pg_now p) b else cur_burst p
   | None \<Rightarrow> cur_burst p)"

definition account :: "int \<Rightarrow> pace \<Rightarrow> real" where
  "account k p = holds k p + outstanding p (pg_writers p k)"

definition slack :: "pace_bucket \<Rightarrow> real" where
  "slack b = tb_rate b / 10 ^ 9"

definition solvent :: "int \<Rightarrow> pace \<Rightarrow> bool" where
  "solvent k p \<longleftrightarrow> (case pg_buckets p k of None \<Rightarrow> True | Some b \<Rightarrow> tb_gen b = cur_gen p \<longrightarrow>
     - slack b \<le> balance (due p (pg_writers p k)) b
     \<and> - slack b \<le> balance (pg_now p) b + outstanding p (pg_writers p k))"

fun phase_gen :: "pace_phase \<Rightarrow> nat option" where
  "phase_gen (Loaded g) = Some g"
| "phase_gen (Granted g w) = Some g"
| "phase_gen (Asleep g left s0 since) = Some g"
| "phase_gen (Ticket t) = t"
| "phase_gen Idle = None"

text \<open>A writer never works for a generation older than that of its bucket.\<close>

definition up_to_date :: "int \<Rightarrow> pace \<Rightarrow> bool" where
  "up_to_date k p \<longleftrightarrow> (\<forall>b g. pg_buckets p k = Some b \<longrightarrow> phase_gen (pg_writers p k) = Some g \<longrightarrow> tb_gen b \<le> g)"

definition pace_good :: "int \<Rightarrow> pace \<Rightarrow> bool" where
  "pace_good k p \<longleftrightarrow> pace_ok p \<and> up_to_date k p \<and> solvent k p"

lemma accrued_balance: "accrued t b = min (tb_burst b) (balance t b)"
  by (simp add: accrued_def balance_def)

lemma balance_mono: "0 < tb_rate b \<Longrightarrow> t \<le> u \<Longrightarrow> balance t b \<le> balance u b"
  by (simp add: balance_def divide_right_mono)

lemma balance_add: "balance (t + d) b = balance t b + tb_rate b * (real_of_int d / 10 ^ 9)"
  by (simp add: balance_def field_simps)

lemma accrued_add:
  assumes "0 < tb_rate b"
  shows "accrued (t + int d) b \<le> accrued t b + tb_rate b * (real d / 10 ^ 9)"
proof -
  have "0 \<le> tb_rate b * (real d / 10 ^ 9)" using assms by simp
  then show ?thesis unfolding accrued_balance balance_add by simp
qed

lemma max_cost_pos: "0 < max_cost"
  by (simp add: max_cost_def pace_max_cost_def pace_wire_overhead_def)

lemma outstanding_nonneg: "0 \<le> outstanding p ph" "outstanding p ph \<le> max_cost"
  using max_cost_pos by (cases ph; auto split: option.split)+

text \<open>Only the events of its own connection, the clock and the setting touch an account.\<close>

fun about :: "pace_event \<Rightarrow> int \<Rightarrow> bool" where
  "about (Pu_clock d) k \<longleftrightarrow> True"
| "about (Pu_set kib burst) k \<longleftrightarrow> True"
| "about (Pu_reset j) k \<longleftrightarrow> j = k"
| "about (Pu_load j) k \<longleftrightarrow> j = k"
| "about (Pu_grant j) k \<longleftrightarrow> j = k"
| "about (Pu_sleep j) k \<longleftrightarrow> j = k"
| "about (Pu_slice j) k \<longleftrightarrow> j = k"
| "about (Pu_cancel j) k \<longleftrightarrow> j = k"
| "about (Pu_settle j n) k \<longleftrightarrow> j = k"
| "about Pu_summary k \<longleftrightarrow> False"

lemma not_about:
  assumes "\<not> about e k"
  shows "pg_now (pace_step p e) = pg_now p \<and> rates (pace_step p e) = rates p
    \<and> pg_buckets (pace_step p e) k = pg_buckets p k \<and> pg_writers (pace_step p e) k = pg_writers p k
    \<and> pg_charged (pace_step p e) k = pg_charged p k"
  using assms
  by (cases e) (auto simp: reserve_defs rates_with_state pace_reset_conn_def pace_summary_def Let_def
      split: pace_phase.split option.split prod.split)

lemma outstanding_cong: "cur_gen p' = cur_gen p \<Longrightarrow> outstanding p' ph = outstanding p ph"
  by (cases ph) (auto split: option.split)

lemma due_cong: "pg_now p' = pg_now p \<Longrightarrow> due p' ph = due p ph"
  by (cases ph) auto

lemma solvent_cong:
  assumes "pg_now p' = pg_now p" "rates p' = rates p" "pg_buckets p' k = pg_buckets p k" "pg_writers p' k = pg_writers p k"
  shows "solvent k p' = solvent k p"
proof -
  have c: "cur_gen p' = cur_gen p" using assms(2) by (simp add: cur_gen_rates)
  show ?thesis
    by (simp only: solvent_def assms c outstanding_cong [OF c] due_cong [OF assms(1)])
qed

lemma up_to_date_step: "pace_ok p \<Longrightarrow> up_to_date k p \<Longrightarrow> up_to_date k (pace_step p e)"
proof (cases "about e k")
  case False
  assume "up_to_date k p"
  then show ?thesis using not_about [OF False] by (simp add: up_to_date_def)
next
  case True
  assume ok: "pace_ok p" and up: "up_to_date k p"
  have new: "tb_gen b \<le> cur_gen p" if "pg_buckets p k = Some b" for b
    using pace_ok_bucket [OF ok that] by (auto simp: bucket_ok_def cur_gen_rates)
  have grant: "tb_gen (snd (take_tokens t c (bucket_for k g p))) = g" if "pg_writers p k = Loaded g" for t c g
    using bucket_for_ok [OF ok that] take_tokens_simps(1) by (simp add: bucket_ok_def)
  show ?thesis
    using True up new grant
    by (cases e) (auto simp: up_to_date_def reserve_load_def reserve_sleep_def reserve_slice_def end_sleep_def reserve_cancel_def pace_settle_def set_uplink_pace_def reserve_grant_at
        pace_reset_conn_def Let_def split: pace_phase.splits option.splits if_splits)
qed


lemma solvent_new_bucket:
  assumes "pace_ok p" and "solvent k p" and "pg_writers p k = Loaded g" and "g = cur_gen p"
  shows "- slack (bucket_for k g p) \<le> accrued (pg_now p) (bucket_for k g p)"
proof -
  have g: "g < length (rates p)" "0 < fst (rates p ! g)" using pace_ok_phase [OF assms(1), of k] assms(3) by simp_all
  then have burst: "0 < snd (rates p ! g)" by (rule pace_ok_rate(3) [OF assms(1)])
  show ?thesis
  proof (cases "\<exists>b. pg_buckets p k = Some b \<and> tb_gen b = g")
    case True
    then obtain b where b: "pg_buckets p k = Some b" "tb_gen b = g" by blast
    then have "(tb_rate b, tb_burst b) = rates p ! g" using pace_ok_bucket [OF assms(1) b(1)] by (simp add: bucket_ok_def)
    then have "fst (rates p ! g) = tb_rate b" "snd (rates p ! g) = tb_burst b" by (metis fst_conv, metis snd_conv)
    then have "0 < tb_burst b" "0 < tb_rate b" using burst g by simp_all
    moreover have "- slack b \<le> balance (pg_now p) b"
      using assms(2-4) b by (simp add: solvent_def)
    ultimately show ?thesis using b by (simp add: bucket_for_def accrued_balance slack_def)
  next
    case False
    then have "bucket_for k g p = new_pace_bucket (pg_now p) g (pg_states p ! g)"
      by (auto simp: bucket_for_def split: option.split)
    then show ?thesis using g burst by (simp add: new_pace_bucket_def accrued_def slack_def rates_nth)
  qed
qed

fun resets :: "int \<Rightarrow> pace_event \<Rightarrow> bool" where
  "resets k (Pu_reset j) \<longleftrightarrow> j = k"
| "resets k _ \<longleftrightarrow> False"

fun cancels :: "int \<Rightarrow> pace_event \<Rightarrow> bool" where
  "cancels k (Pu_cancel j) \<longleftrightarrow> j = k"
| "cancels k _ \<longleftrightarrow> False"

lemma solvent_step:
  assumes ok: "pace_ok p" and sv: "solvent k p" and nc: "\<not> cancels k e"
  shows "solvent k (pace_step p e)"
proof (cases "about e k")
  case False
  then show ?thesis using sv not_about [OF False, of p] solvent_cong [of "pace_step p e" p k] by blast
next
  case True
  show ?thesis
  proof (cases e)
    case (Pu_clock d)
    let ?p = "p\<lparr>pg_now := pg_now p + int d\<rparr>"
    have c: "cur_gen ?p = cur_gen p" by (simp add: cur_gen_def)
    have "- slack b \<le> balance (due ?p (pg_writers p k)) b \<and>
        - slack b \<le> balance (pg_now p + int d) b + outstanding ?p (pg_writers p k)"
      if b: "pg_buckets p k = Some b" "tb_gen b = cur_gen p" for b
    proof -
      have r: "0 < tb_rate b" using pace_ok_bucket [OF ok b(1)] by (simp add: bucket_ok_def)
      have "due p (pg_writers p k) \<le> due ?p (pg_writers p k)" by (cases "pg_writers p k") simp_all
      from balance_mono [OF r this] balance_mono [OF r, of "pg_now p" "pg_now p + int d"] show ?thesis
        using sv b outstanding_cong [OF c, of "pg_writers p k"] by (auto simp: solvent_def)
    qed
    then show ?thesis by (auto simp: Pu_clock solvent_def c split: option.split)
  next
    case (Pu_set kib burst)
    have "tb_gen b < length (rates p)" if "pg_buckets p k = Some b" for b
      using pace_ok_bucket [OF ok that] by (simp add: bucket_ok_def)
    then show ?thesis
      by (auto simp: Pu_set solvent_def set_uplink_pace_def cur_gen_def rates_def split: option.split)
  next
    case (Pu_reset j)
    with True sv show ?thesis by (auto simp: solvent_def pace_reset_conn_def)
  next
    case (Pu_load j)
    have c: "cur_gen (reserve_load k p) = cur_gen p" by (simp add: reserve_load_def cur_gen_def)
    show ?thesis using True sv Pu_load c
      by (auto simp: solvent_def reserve_load_def split: pace_phase.split option.split)
  next
    case (Pu_grant j)
    show ?thesis
    proof (cases "pg_writers p k")
      case (Loaded g)
      let ?bf = "bucket_for k g p"
      let ?b = "snd (take_tokens (pg_now p) pace_max_cost ?bf)"
      let ?w = "fst (take_tokens (pg_now p) pace_max_cost ?bf)"
      note bf = bucket_for_ok [OF ok Loaded]
      have r: "0 < tb_rate ?bf" using bf(1) by (simp add: bucket_ok_def)
      note tt = take_tokens_simps [OF r] take_tokens_wait [OF r]
      have c: "cur_gen (reserve_grant k g p) = cur_gen p" by (simp add: cur_gen_rates reserve_grant_at)
      have "- slack ?b \<le> balance (pg_now p + ?w) ?b"
        using tt(6) [where now = "pg_now p" and c = "real_of_int pace_max_cost"] by (simp add: balance_def slack_def tt(1-5))
      moreover have "- slack ?b \<le> balance (pg_now p) ?b + max_cost" if "g = cur_gen p"
        using solvent_new_bucket [OF ok sv Loaded that] by (simp add: balance_def slack_def max_cost_def tt(1-5))
      moreover have "?w = 0" if "?w \<le> 0" using tt(7) that by (simp add: order_antisym)
      ultimately show ?thesis using Loaded True Pu_grant
        by (auto simp: solvent_def reserve_grant_at c tt(1) bf(2) Let_def)
    next
      case Idle
      with sv True show ?thesis by (simp add: Pu_grant)
    qed (use sv True in \<open>simp_all add: Pu_grant\<close>)
  next
    case (Pu_sleep j)
    have c: "cur_gen (reserve_sleep k g w p) = cur_gen p" for g w by (simp add: cur_gen_rates reserve_sleep_def rates_with_state)
    show ?thesis using True sv
      by (auto simp: Pu_sleep solvent_def c split: pace_phase.split option.split) (auto simp: reserve_sleep_def split: if_splits)
  next
    case (Pu_slice j)
    show ?thesis
    proof (cases "pg_writers p k")
      case (Asleep g left s0 since)
      let ?d = "min pace_slice left" and ?p = "reserve_slice k g left s0 since p"
      have c: "cur_gen ?p = cur_gen p" by (simp add: cur_gen_rates reserve_slice_def end_sleep_def rates_with_state Let_def)
      have "- slack b \<le> balance (due ?p (pg_writers ?p k)) b \<and> - slack b \<le> balance (pg_now p) b + outstanding ?p (pg_writers ?p k)"
        if b: "pg_buckets p k = Some b" "tb_gen b = cur_gen p" for b
      proof -
        have okb: "bucket_ok p b" by (rule pace_ok_bucket [OF ok b(1)])
        then have r: "0 < tb_rate b" and on: "pace_is_on (pace_now p)"
          using b(2) by (auto simp: bucket_ok_def pace_is_on_def pace_now_def rates_nth)
        have old: "- slack b \<le> balance (since + left) b" "- slack b \<le> balance (pg_now p) b + max_cost"
          using sv b Asleep by (simp_all add: solvent_def)
        show ?thesis
        proof (cases "pg_now p < since + ?d")
          case True
          then show ?thesis using old Asleep by (simp add: reserve_slice_def)
        next
          case False
          show ?thesis
          proof (cases "left - ?d \<le> 0")
            case True
            then have "since + left \<le> pg_now p" using False by simp
            from balance_mono [OF r this] show ?thesis
              using old True False by (simp add: reserve_slice_def Let_def end_sleep_def)
          next
            case after: False
            then have "since + left \<le> pg_now p + (left - ?d)" using False by simp
            from balance_mono [OF r this] show ?thesis
              using old after False on by (simp add: reserve_slice_def Let_def)
          qed
        qed
      qed
      moreover have "pg_buckets ?p = pg_buckets p" "pg_now ?p = pg_now p"
        by (simp_all add: reserve_slice_def end_sleep_def Let_def)
      ultimately show ?thesis using True Asleep by (auto simp: Pu_slice solvent_def c split: option.split)
    qed (use sv True in \<open>simp_all add: Pu_slice\<close>)
  next
    case (Pu_cancel j)
    with True nc show ?thesis by simp
  next
    case (Pu_settle j n)
    show ?thesis
    proof (cases "\<exists>g. pg_writers p k = Ticket (Some g)")
      case True
      then obtain g where g: "pg_writers p k = Ticket (Some g)" by blast
      let ?p = "pace_settle k (Some g) n p" and ?c = "real_of_int (pace_max_cost - counted n)"
      have c: "cur_gen ?p = cur_gen p" by (simp add: cur_gen_rates pace_settle_def rates_with_state)
      have "- slack (refund_tokens ?c b) \<le> balance (pg_now p) (refund_tokens ?c b)"
        if b: "pg_buckets p k = Some b" "tb_gen b = cur_gen p" for b
      proof -
        have "tb_tokens b \<le> tb_tokens (refund_tokens ?c b)"
          using pace_ok_bucket [OF ok b(1)] counted_bounds(1) [of n] by (simp add: bucket_ok_def refund_tokens_def)
        moreover have "- slack b \<le> balance (pg_now p) b" using sv b g by (simp add: solvent_def)
        ultimately show ?thesis by (simp add: balance_def slack_def)
      qed
      then show ?thesis using \<open>about e k\<close> g
        by (auto simp: Pu_settle solvent_def c split: option.split) (auto simp: pace_settle_def)
    next
      case False
      have c: "cur_gen (pace_settle k None n p) = cur_gen p" by (simp add: cur_gen_def pace_settle_def)
      show ?thesis using sv True False
        by (auto simp: Pu_settle solvent_def c split: pace_phase.split option.split) (auto simp: pace_settle_def)
    qed
  next
    case Pu_summary
    with True show ?thesis by simp
  qed
qed


text \<open>
  Between two settings, what a connection settles comes out of its account, which grows with the
  rate: the counted bytes of an event and the account after it never exceed the account before it
  and the tokens of the time that passed.
\<close>

lemma account_step:
  assumes ok: "pace_ok p" and up: "up_to_date k p" and ns: "\<not> sets_pace e" "\<not> resets k e"
  shows "real_of_int (pg_charged (pace_step p e) k - pg_charged p k) + account k (pace_step p e)
    \<le> account k p + cur_rate p * (real_of_int (pg_now (pace_step p e) - pg_now p) / 10 ^ 9)"
proof (cases "about e k")
  case False
  note na = not_about [OF False, of p]
  have c: "cur_gen (pace_step p e) = cur_gen p" using na by (simp add: cur_gen_rates)
  have b: "cur_burst (pace_step p e) = cur_burst p" using na c by (simp add: cur_burst_def)
  have "account k (pace_step p e) = account k p"
    by (simp only: account_def holds_def na c b outstanding_cong [OF c])
  then show ?thesis using na by simp
next
  case True
  have cur: "fst (rates p ! tb_gen b) = tb_rate b" "snd (rates p ! tb_gen b) = tb_burst b" "0 < tb_rate b"
    if "pg_buckets p k = Some b" for b
    using pace_ok_bucket [OF ok that] by (auto simp: bucket_ok_def) (metis fst_conv, metis snd_conv)
  show ?thesis
  proof (cases e)
    case (Pu_clock d)
    let ?p = "p\<lparr>pg_now := pg_now p + int d\<rparr>"
    have c: "cur_gen ?p = cur_gen p" by (simp add: cur_gen_def)
    have r: "0 \<le> cur_rate p"
    proof -
      have "cur_gen p < length (rates p)" using ok by (auto simp: pace_ok_def cur_gen_rates)
      from pace_ok_rate(1) [OF ok this] show ?thesis by (simp add: cur_rate_def)
    qed
    have "holds k ?p \<le> holds k p + cur_rate p * (real d / 10 ^ 9)"
    proof (cases "pg_buckets p k")
      case None
      then show ?thesis using r by (simp add: holds_def cur_burst_def c)
    next
      case (Some b)
      show ?thesis using r cur [OF Some] Some accrued_add [of b "pg_now p" d]
        by (auto simp: holds_def c cur_rate_def cur_burst_def)
    qed
    then show ?thesis using outstanding_cong [OF c] by (simp add: Pu_clock account_def)
  next
    case (Pu_set kib burst)
    with ns show ?thesis by simp
  next
    case (Pu_reset j)
    with ns True show ?thesis by simp
  next
    case (Pu_load j)
    have c: "cur_gen (reserve_load k p) = cur_gen p" by (simp add: reserve_load_def cur_gen_def)
    show ?thesis using True Pu_load c
      by (auto simp: account_def holds_def cur_burst_def split: pace_phase.split option.split) (auto simp: reserve_load_def)
  next
    case (Pu_grant j)
    show ?thesis
    proof (cases "pg_writers p k")
      case (Loaded g)
      let ?bf = "bucket_for k g p"
      let ?b = "snd (take_tokens (pg_now p) pace_max_cost ?bf)" and ?p = "reserve_grant k g p"
      note bf = bucket_for_ok [OF ok Loaded]
      have r: "0 < tb_rate ?bf" using bf(1) by (simp add: bucket_ok_def)
      note tt = take_tokens_simps [OF r]
      have c: "cur_gen ?p = cur_gen p" by (simp add: cur_gen_rates reserve_grant_at)
      have out: "outstanding ?p (pg_writers ?p k) = max_cost" by (simp add: reserve_grant_at Let_def)
      have gen: "tb_gen ?b = g" using tt(1) bf(2) by simp
      have "holds k ?p + max_cost \<le> account k p"
      proof (cases "g = cur_gen p")
        case True
        have acc: "accrued (pg_now p) ?b = accrued (pg_now p) ?bf - max_cost"
          using accrued_le [of "pg_now p" ?bf] max_cost_pos by (simp add: accrued_def tt max_cost_def)
        have "accrued (pg_now p) ?bf \<le> holds k p"
          using cur True bucket_for_ok [OF ok Loaded] accrued_le [of "pg_now p" ?bf]
          by (auto simp: holds_def bucket_for_def new_pace_bucket_def cur_burst_def bucket_ok_def rates_nth split: option.splits if_splits)
        moreover have "holds k ?p = accrued (pg_now p) ?b"
          using gen by (simp add: holds_def c reserve_grant_at flip: True)
        ultimately show ?thesis using acc outstanding_nonneg(1) [of p "pg_writers p k"] by (simp add: account_def)
      next
        case False
        have "g < length (rates p)" using pace_ok_phase [OF ok, of k] Loaded by simp
        then have lt: "g < cur_gen p" using False by (simp add: cur_gen_rates)
        have "tb_gen b \<noteq> cur_gen p" if "pg_buckets p k = Some b" for b
          using up that Loaded lt by (auto simp: up_to_date_def)
        then have "holds k p = cur_burst p" by (auto simp: holds_def split: option.split)
        moreover have "holds k ?p = cur_burst p" using gen False by (simp add: holds_def reserve_grant_at c cur_burst_def)
        ultimately show ?thesis using Loaded False by (simp add: account_def)
      qed
      then show ?thesis using True Loaded Pu_grant out by (simp add: account_def reserve_grant_at)
    qed (use True in \<open>simp_all add: Pu_grant\<close>)
  next
    case (Pu_sleep j)
    have c: "cur_gen (reserve_sleep k g w p) = cur_gen p" "rates (reserve_sleep k g w p) = rates p" for g w
      by (simp_all add: cur_gen_rates reserve_sleep_def rates_with_state)
    show ?thesis using True Pu_sleep c
      by (auto simp: account_def holds_def cur_burst_def split: pace_phase.split option.split) (auto simp: reserve_sleep_def)
  next
    case (Pu_slice j)
    have c: "cur_gen (reserve_slice k g l s0 u p) = cur_gen p" "rates (reserve_slice k g l s0 u p) = rates p" for g l s0 u
      by (simp_all add: cur_gen_rates reserve_slice_def end_sleep_def rates_with_state Let_def)
    show ?thesis
    proof (cases "pg_writers p k")
      case (Asleep g l s0 u)
      let ?p = "reserve_slice k g l s0 u p"
      have same: "pg_buckets ?p = pg_buckets p" "pg_now ?p = pg_now p" "pg_charged ?p = pg_charged p"
        "outstanding ?p (pg_writers ?p k) = max_cost"
        using Asleep by (simp_all add: reserve_slice_def end_sleep_def Let_def)
      have "account k ?p = account k p"
        using Asleep by (simp only: account_def holds_def cur_burst_def same c outstanding.simps)
      then show ?thesis using True Asleep by (simp add: Pu_slice same)
    qed (use True in \<open>simp_all add: Pu_slice\<close>)
  next
    case (Pu_cancel j)
    have c: "cur_gen (reserve_cancel k g s0 p) = cur_gen p" "rates (reserve_cancel k g s0 p) = rates p" for g s0
      by (simp_all add: cur_gen_rates reserve_cancel_def rates_with_state)
    show ?thesis using True Pu_cancel c
      by (auto simp: account_def holds_def cur_burst_def split: pace_phase.split option.split) (auto simp: reserve_cancel_def)
  next
    case (Pu_settle j n)
    show ?thesis
    proof (cases "\<exists>g. pg_writers p k = Ticket (Some g)")
      case True
      then obtain g where g: "pg_writers p k = Ticket (Some g)" by blast
      let ?p = "pace_settle k (Some g) n p" and ?c = "real_of_int (pace_max_cost - counted n)"
      have c: "cur_gen ?p = cur_gen p" "rates ?p = rates p" by (simp_all add: cur_gen_rates pace_settle_def rates_with_state)
      have same: "pg_buckets ?p = (pg_buckets p)(k := map_option (refund_tokens ?c) (pg_buckets p k))"
        "pg_now ?p = pg_now p" "pg_charged ?p k = pg_charged p k + counted n" "pg_writers ?p k = Idle"
        by (simp_all add: pace_settle_def)
      have "accrued t (refund_tokens ?c b) \<le> accrued t b + ?c" for t b
        using counted_bounds(1) [of n] by (auto simp: refund_tokens_def accrued_def min_def)
      then have "holds k ?p \<le> holds k p + ?c"
        using counted_bounds(1) [of n] by (auto simp: holds_def c cur_burst_def same split: option.split)
      then show ?thesis using \<open>about e k\<close> g
        by (simp add: Pu_settle account_def max_cost_def same)
    next
      case False
      have c: "cur_gen (pace_settle k None n p) = cur_gen p" by (simp add: cur_gen_def pace_settle_def)
      show ?thesis using True False
        by (auto simp: Pu_settle account_def holds_def cur_burst_def c split: pace_phase.split option.split)
          (auto simp: pace_settle_def)
    qed
  next
    case Pu_summary
    with True show ?thesis by simp
  qed
qed


lemma pace_good_run:
  "pace_good k p \<Longrightarrow> \<forall>e\<in>set es. \<not> cancels k e \<Longrightarrow> pace_good k (run pace_step p es)"
proof (induction es arbitrary: p)
  case (Cons e es)
  then have "pace_good k (pace_step p e)"
    by (simp add: pace_good_def pace_ok_step up_to_date_step solvent_step)
  with Cons show ?case by simp
qed simp

lemma account_run:
  assumes "pace_good k p" and "\<forall>e\<in>set es. \<not> cancels k e \<and> \<not> resets k e \<and> \<not> sets_pace e"
  shows "rates (run pace_step p es) = rates p
    \<and> real_of_int (pg_charged (run pace_step p es) k - pg_charged p k) + account k (run pace_step p es)
      \<le> account k p + cur_rate p * (real_of_int (pg_now (run pace_step p es) - pg_now p) / 10 ^ 9)"
  using assms
proof (induction es arbitrary: p)
  case (Cons e es)
  let ?q = "pace_step p e" and ?r = "run pace_step (pace_step p e) es"
  have good: "pace_good k ?q" using Cons.prems by (simp add: pace_good_def pace_ok_step up_to_date_step solvent_step)
  have rt: "rates ?q = rates p" using Cons.prems by (simp add: rates_step)
  then have cr: "cur_rate ?q = cur_rate p" by (simp add: cur_rate_def cur_gen_rates)
  have "real_of_int (pg_charged ?q k - pg_charged p k) + account k ?q
      \<le> account k p + cur_rate p * (real_of_int (pg_now ?q - pg_now p) / 10 ^ 9)"
    using account_step [of p k e] Cons.prems by (simp add: pace_good_def)
  moreover have "rates ?r = rates ?q
    \<and> real_of_int (pg_charged ?r k - pg_charged ?q k) + account k ?r
      \<le> account k ?q + cur_rate p * (real_of_int (pg_now ?r - pg_now ?q) / 10 ^ 9)"
    using Cons.IH [OF good] Cons.prems(2) cr by simp
  ultimately show ?case using rt by (simp add: algebra_simps diff_divide_distrib)
qed simp

lemma account_upper: "pace_good k p \<Longrightarrow> account k p \<le> cur_burst p + max_cost"
  using outstanding_nonneg(2) [of p "pg_writers p k"] accrued_le pace_ok_bucket [of p k]
  by (auto simp: account_def holds_def cur_burst_def pace_good_def bucket_ok_def split: option.split)
    (smt (verit) accrued_le snd_conv)

lemma account_lower: "pace_good k p \<Longrightarrow> - (cur_rate p / 10 ^ 9) \<le> account k p"
proof -
  assume good: "pace_good k p"
  then have ok: "pace_ok p" and "cur_gen p < length (rates p)" by (auto simp: pace_good_def pace_ok_def cur_gen_rates)
  from pace_ok_rate [OF this] have rb: "0 \<le> cur_rate p" "0 < cur_rate p \<longrightarrow> 0 < cur_burst p" "0 \<le> cur_burst p"
    by (simp_all add: cur_rate_def cur_burst_def)
  show ?thesis
  proof (cases "\<exists>b. pg_buckets p k = Some b \<and> tb_gen b = cur_gen p")
    case True
    then obtain b where b: "pg_buckets p k = Some b" "tb_gen b = cur_gen p" by blast
    have "tb_rate b = cur_rate p" "tb_burst b = cur_burst p" "0 < tb_rate b"
      using pace_ok_bucket [of p k b] good b by (auto simp: pace_good_def bucket_ok_def cur_rate_def cur_burst_def) (metis fst_conv, metis snd_conv)
    moreover have "- slack b \<le> balance (pg_now p) b + outstanding p (pg_writers p k)"
      using good b by (simp add: pace_good_def solvent_def)
    ultimately show ?thesis using rb b outstanding_nonneg(1) [of p "pg_writers p k"]
      by (auto simp: account_def holds_def accrued_balance slack_def min_def)
  next
    case False
    then have "holds k p = cur_burst p" by (auto simp: holds_def split: option.split)
    then show ?thesis using rb outstanding_nonneg(1) [of p "pg_writers p k"] by (simp add: account_def)
  qed
qed

lemma pace_good_new: "pace_good k new_pace"
  by (simp add: pace_good_def pace_ok_def up_to_date_def solvent_def new_pace_def rates_def pace_off_def)

text \<open>
  C21: the pacer keeps its rate. Take any run of the process, and in it any stretch without a change of the
  setting in which the connection's bucket is not discarded and no sleep of its writer is cut short by
  shutdown: the bytes its writer settles in that stretch are at most the burst, one reservation, and the rate
  times the length of the stretch (to the nanosecond), however the sleeps, the slices, the dequeues and
  the refunds of this and the other connections interleave.
\<close>

theorem paced_rate_bounded:
  assumes "\<forall>e\<in>set (es @ fs). \<not> cancels k e" and "\<forall>e\<in>set fs. \<not> resets k e \<and> \<not> sets_pace e"
    and p: "p = run pace_step new_pace es" and q: "q = run pace_step p fs"
  shows "real_of_int (pg_charged q k - pg_charged p k)
    \<le> ps_burst (pace_now p) + real_of_int pace_max_cost
      + ps_rate (pace_now p) * (real_of_int (pg_now q - pg_now p + 1) / 10 ^ 9)"
proof -
  have good: "pace_good k p" unfolding p by (rule pace_good_run [OF pace_good_new]) (use assms(1) in auto)
  then have goodq: "pace_good k q" unfolding q by (rule pace_good_run) (use assms(1) in auto)
  have es: "\<forall>e\<in>set fs. \<not> cancels k e \<and> \<not> resets k e \<and> \<not> sets_pace e" using assms(1,2) by auto
  have "rates q = rates p" unfolding q using account_run [OF good es] by blast
  then have "cur_rate q = cur_rate p" by (simp add: cur_rate_def cur_gen_rates)
  moreover have "cur_gen p < length (rates p)" using good by (auto simp: pace_good_def pace_ok_def cur_gen_rates)
  then have "cur_rate p = ps_rate (pace_now p)" "cur_burst p = ps_burst (pace_now p)"
    by (simp_all add: cur_rate_def cur_burst_def rates_nth pace_now_def)
  ultimately show ?thesis
    using conjunct2 [OF account_run [OF good es]] account_upper [OF good] account_lower [OF goodq]
    by (simp add: q max_cost_def ring_distribs add_divide_distrib diff_divide_distrib)
qed


text \<open>At 247 KiB/s: a burst of 16 KiB goes through at once, the next packet has to wait.\<close>

definition sample_round :: "pace_event list" where
  "sample_round = [Pu_load 3, Pu_grant 3, Pu_settle 3 1470]"

definition sample_pace :: pace where
  "sample_pace = run pace_step new_pace [Pu_set 1 2]"

definition sample_paced :: "pace_event list" where
  "sample_paced = sample_round @ [Pu_load 3, Pu_grant 3, Pu_sleep 3, Pu_clock 10000000, Pu_slice 3]"

lemma paced_rate_bounded_witness:
  "real_of_int (pg_charged (run pace_step sample_pace sample_paced) 3 - pg_charged sample_pace 3)
    \<le> ps_burst (pace_now sample_pace) + real_of_int pace_max_cost
      + ps_rate (pace_now sample_pace) * (real_of_int (pg_now (run pace_step sample_pace sample_paced) - pg_now sample_pace + 1) / 10 ^ 9)"
  by (rule paced_rate_bounded [where es = "[Pu_set 1 2]" and fs = sample_paced])
    (simp_all add: sample_paced_def sample_round_def sample_pace_def)

section \<open>The verdict of a generation\<close>

text \<open>The counters that the verdict of generation \<open>g\<close> prints, apart from its bytes.\<close>

definition verdict :: "nat \<Rightarrow> pace \<Rightarrow> int \<times> int \<times> int \<times> int \<times> int" where
  "verdict g p = (let st = pg_states p ! g in
     (ps_awaits st, ps_waited st, ps_wait_ns st, ps_plan_ns st, ps_wait_max st))"

text \<open>A writer between reading the setting and going to sleep.\<close>

fun on_the_way :: "nat \<Rightarrow> pace_phase \<Rightarrow> bool" where
  "on_the_way g (Loaded h) \<longleftrightarrow> h = g"
| "on_the_way g (Granted h w) \<longleftrightarrow> h = g"
| "on_the_way g _ \<longleftrightarrow> False"

fun asleep_under :: "nat \<Rightarrow> pace_phase \<Rightarrow> bool" where
  "asleep_under g (Asleep h left s0 since) \<longleftrightarrow> h = g"
| "asleep_under g _ \<longleftrightarrow> False"

definition sleepers :: "nat \<Rightarrow> pace \<Rightarrow> int set" where
  "sleepers g p = {k \<in> {0..<pace_max_conns}. asleep_under g (pg_writers p k)}"

definition inflight_exact :: "pace \<Rightarrow> bool" where
  "inflight_exact p \<longleftrightarrow> pg_states p \<noteq> []
     \<and> (\<forall>g < length (pg_states p). ps_inflight (pg_states p ! g) = int (card (sleepers g p)))
     \<and> (\<forall>k g. (on_the_way g (pg_writers p k) \<or> asleep_under g (pg_writers p k)) \<longrightarrow> k \<in> {0..<pace_max_conns} \<and> g < length (pg_states p))"


lemma inflight_at:
  assumes ok: "inflight_exact p" and w: "\<And>j. j \<noteq> k \<Longrightarrow> pg_writers p' j = pg_writers p j"
    and len: "length (pg_states p') = length (pg_states p)"
    and st: "\<And>g. g < length (pg_states p) \<Longrightarrow> ps_inflight (pg_states p' ! g) = ps_inflight (pg_states p ! g)
      + (if asleep_under g (pg_writers p' k) then 1 else 0) - (if asleep_under g (pg_writers p k) then 1 else 0)"
    and ph: "\<And>g. on_the_way g (pg_writers p' k) \<or> asleep_under g (pg_writers p' k) \<Longrightarrow> k \<in> {0..<pace_max_conns} \<and> g < length (pg_states p)"
  shows "inflight_exact p'"
proof -
  have "int (card (sleepers g p')) = int (card (sleepers g p)) + (if asleep_under g (pg_writers p' k) then 1 else 0)
      - (if asleep_under g (pg_writers p k) then 1 else 0)" for g
  proof -
    let ?s = "sleepers g p - {k}"
    have fin: "finite (sleepers g p)"
      by (rule finite_subset [of _ "{0..<pace_max_conns}"]) (auto simp: sleepers_def)
    have k: "asleep_under g (pg_writers p k) \<longleftrightarrow> k \<in> sleepers g p"
      using ok by (auto simp: inflight_exact_def sleepers_def)
    have new: "sleepers g p' = (if asleep_under g (pg_writers p' k) then insert k ?s else ?s)"
      using ph [of g] by (intro set_eqI, rename_tac j, case_tac "j = k") (auto simp: sleepers_def w)
    show ?thesis
      using fin card_Suc_Diff1 [OF fin, of k] unfolding new k by (auto simp: card_insert_if)
  qed
  then have "ps_inflight (pg_states p' ! g) = int (card (sleepers g p'))" if "g < length (pg_states p)" for g
    using st [OF that] ok that by (simp add: inflight_exact_def)
  moreover have "j \<in> {0..<pace_max_conns} \<and> g < length (pg_states p)"
    if "on_the_way g (pg_writers p' j) \<or> asleep_under g (pg_writers p' j)" for j g
    using ok ph [of g] that by (cases "j = k") (auto simp: w inflight_exact_def)
  moreover have "pg_states p' \<noteq> []" using ok len by (metis inflight_exact_def length_0_conv)
  ultimately show ?thesis using ok by (simp add: inflight_exact_def len)
qed

lemma with_state_at: "g < length (pg_states p) \<Longrightarrow>
    pg_states (with_state g f p) ! h = (if h = g then f (pg_states p ! g) else pg_states p ! h)"
  by (simp add: with_state_def)

lemma inflight_step: "inflight_exact p \<Longrightarrow> inflight_exact (pace_step p e)"
proof -
  assume ok: "inflight_exact p"
  have rng: "k \<in> {0..<pace_max_conns} \<and> g < length (pg_states p)"
    if "on_the_way g (pg_writers p k) \<or> asleep_under g (pg_writers p k)" for k g
    using ok that by (auto simp: inflight_exact_def)
  show ?thesis
  proof (cases e)
    case (Pu_clock d)
    show ?thesis using ok by (simp add: Pu_clock inflight_exact_def sleepers_def)
  next
    case (Pu_set kib burst)
    have "sleepers g p = {}" if "length (pg_states p) \<le> g" for g
      using rng [of g] that by (fastforce simp: sleepers_def)
    then have "ps_inflight (pg_states (set_uplink_pace kib burst p) ! g) = int (card (sleepers g p))"
      if "g < Suc (length (pg_states p))" for g
      using ok that by (auto simp: inflight_exact_def set_uplink_pace_def pace_setting_def pace_off_def nth_append)
    then show ?thesis using ok unfolding Pu_set pace_step.simps
      by (simp add: inflight_exact_def set_uplink_pace_def sleepers_def) (meson less_SucI)
  next
    case (Pu_reset k)
    show ?thesis using ok by (simp add: Pu_reset pace_reset_conn_def inflight_exact_def sleepers_def)
  next
    case (Pu_load k)
    have "cur_gen p < length (pg_states p)" using ok by (simp add: inflight_exact_def cur_gen_def)
    then show ?thesis using ok inflight_at [OF ok, where p' = "reserve_load k p" and k = k]
      by (auto simp: Pu_load reserve_load_def paces_writer_def split: pace_phase.split)
  next
    case (Pu_grant k)
    show ?thesis
    proof (cases "pg_writers p k")
      case (Loaded g)
      then have g: "k \<in> {0..<pace_max_conns}" "g < length (pg_states p)" using rng [of g k] by simp_all
      show ?thesis using inflight_at [OF ok, where p' = "reserve_grant k g p" and k = k] g Loaded
        by (auto simp: Pu_grant reserve_grant_def Let_def with_state_at split: prod.split)
    qed (use ok in \<open>simp_all add: Pu_grant\<close>)
  next
    case (Pu_sleep k)
    show ?thesis
    proof (cases "pg_writers p k")
      case (Granted g w)
      then have g: "k \<in> {0..<pace_max_conns}" "g < length (pg_states p)" using rng [of g k] by simp_all
      show ?thesis using inflight_at [OF ok, where p' = "reserve_sleep k g w p" and k = k] g Granted
        by (auto simp: Pu_sleep reserve_sleep_def with_state_at)
    qed (use ok in \<open>simp_all add: Pu_sleep\<close>)
  next
    case (Pu_slice k)
    show ?thesis
    proof (cases "pg_writers p k")
      case (Asleep g left s0 since)
      then have g: "k \<in> {0..<pace_max_conns}" "g < length (pg_states p)" using rng [of g k] by simp_all
      show ?thesis using inflight_at [OF ok, where p' = "reserve_slice k g left s0 since p" and k = k] g Asleep ok
        by (auto simp: Pu_slice reserve_slice_def end_sleep_def Let_def with_state_at)
    qed (use ok in \<open>simp_all add: Pu_slice\<close>)
  next
    case (Pu_cancel k)
    show ?thesis
    proof (cases "pg_writers p k")
      case (Asleep g left s0 since)
      then have g: "k \<in> {0..<pace_max_conns}" "g < length (pg_states p)" using rng [of g k] by simp_all
      show ?thesis using inflight_at [OF ok, where p' = "reserve_cancel k g s0 p" and k = k] g Asleep
        by (auto simp: Pu_cancel reserve_cancel_def with_state_at)
    qed (use ok in \<open>simp_all add: Pu_cancel\<close>)
  next
    case (Pu_settle k n)
    show ?thesis
    proof (cases "\<exists>t. pg_writers p k = Ticket t")
      case True
      then obtain t where t: "pg_writers p k = Ticket t" by blast
      have "ps_inflight (pg_states (with_state g (\<lambda>st. st\<lparr>ps_bytes := ps_bytes st + c\<rparr>) p) ! h) = ps_inflight (pg_states p ! h)"
        if "h < length (pg_states p)" for g h c
        using that by (cases "g = h") (simp_all add: with_state_def)
      then show ?thesis using inflight_at [OF ok, where p' = "pace_settle k t n p" and k = k] t
        by (auto simp: Pu_settle pace_settle_def split: option.split)
    qed (use ok in \<open>auto simp: Pu_settle split: pace_phase.split\<close>)
  next
    case Pu_summary
    show ?thesis using ok by (simp add: Pu_summary pace_summary_def inflight_exact_def sleepers_def)
  qed
qed

interpretation inm: invariant_machine pace_step inflight_exact
  by unfold_locales (rule inflight_step)


definition finished :: "nat \<Rightarrow> pace \<Rightarrow> bool" where
  "finished g p \<longleftrightarrow> g < cur_gen p \<and> (\<forall>k. \<not> on_the_way g (pg_writers p k) \<and> \<not> asleep_under g (pg_writers p k))"

lemma verdict_with_state [simp]: "h \<noteq> g \<Longrightarrow> pg_states (with_state h f p) ! g = pg_states p ! g"
  by (simp add: with_state_def)

lemma verdict_bytes: "verdict g (with_state h (\<lambda>st. st\<lparr>ps_bytes := b st\<rparr>) p) = verdict g p"
  by (cases "h = g"; cases "g < length (pg_states p)") (simp_all add: verdict_def with_state_def Let_def list_update_beyond)

lemma finished_step:
  assumes fin: "finished g p"
  shows "finished g (pace_step p e) \<and> verdict g (pace_step p e) = verdict g p"
proof -
  have lt: "g < length (pg_states p)" "cur_gen p \<noteq> g" using fin by (auto simp: finished_def cur_gen_def)
  have away: "h \<noteq> g" if "on_the_way h (pg_writers p k) \<or> asleep_under h (pg_writers p k)" for h k
    using fin that by (auto simp: finished_def)
  show ?thesis
  proof (cases e)
    case (Pu_set kib burst)
    show ?thesis using fin lt by (auto simp: Pu_set finished_def set_uplink_pace_def cur_gen_def verdict_def nth_append)
  next
    case (Pu_load k)
    show ?thesis using fin lt
      by (auto simp: Pu_load reserve_load_def finished_def cur_gen_def verdict_def split: pace_phase.split)
  next
    case (Pu_grant k)
    show ?thesis using fin lt away [of _ k]
      by (auto simp: Pu_grant reserve_grant_def finished_def cur_gen_def verdict_def Let_def split: pace_phase.split prod.split)
  next
    case (Pu_sleep k)
    show ?thesis using fin lt away [of _ k]
      by (auto simp: Pu_sleep reserve_sleep_def finished_def cur_gen_def verdict_def Let_def split: pace_phase.split)
  next
    case (Pu_slice k)
    show ?thesis using fin lt away [of _ k]
      by (auto simp: Pu_slice reserve_slice_def end_sleep_def finished_def cur_gen_def verdict_def Let_def split: pace_phase.split)
  next
    case (Pu_cancel k)
    show ?thesis using fin lt away [of _ k]
      by (auto simp: Pu_cancel reserve_cancel_def finished_def cur_gen_def verdict_def Let_def split: pace_phase.split)
  next
    case (Pu_settle k n)
    have "verdict g (pace_settle k t n p) = verdict g p" for t
      using verdict_bytes [of g _ "\<lambda>st. ps_bytes st + counted n" p]
      by (simp add: pace_settle_def verdict_def Let_def split: option.split)
    then show ?thesis using fin
      by (auto simp: Pu_settle pace_settle_def finished_def cur_gen_def split: pace_phase.split option.split)
  qed (use fin in \<open>auto simp: finished_def cur_gen_def verdict_def pace_reset_conn_def pace_summary_def\<close>)
qed

lemma finished_run: "finished g p \<Longrightarrow> verdict g (run pace_step p es) = verdict g p"
proof (induction es arbitrary: p)
  case (Cons e es)
  from finished_step [OF Cons.prems, of e] Cons.IH [of "pace_step p e"] show ?case by simp
qed simp

text \<open>
   the verdict of a superseded generation is final. In any run, once nobody sleeps under the old generation
  and no writer is between reading it and its sleep, the counts and the times of that generation never
  change again.
\<close>

theorem drained_verdict_final:
  assumes p: "p = run pace_step new_pace es" and "g < cur_gen p" and "ps_inflight (pg_states p ! g) = 0"
    and "\<forall>k\<in>{0..<pace_max_conns}. \<not> on_the_way g (pg_writers p k)"
  shows "verdict g (run pace_step p fs) = verdict g p"
proof (rule finished_run)
  have "inflight_exact new_pace" by (simp add: inflight_exact_def new_pace_def pace_off_def sleepers_def)
  then have ok: "inflight_exact p" unfolding p by (rule inm.run_inv)
  have fin: "finite (sleepers g p)"
    by (rule finite_subset [of _ "{0..<pace_max_conns}"]) (auto simp: sleepers_def)
  have "g < length (pg_states p)" using assms(2) by (simp add: cur_gen_def)
  then have "card (sleepers g p) = 0" using ok assms(3) by (simp add: inflight_exact_def)
  then have "sleepers g p = {}" using fin by simp
  then show "finished g p" using ok assms(2,4) by (fastforce simp: finished_def inflight_exact_def sleepers_def)
qed

text \<open>
  The second condition is needed: a writer that has been granted its wait and does not yet sleep is not
  counted in flight, so the setter finds nobody to wait for, prints a wait of 0 ns, and the time arrives later.
\<close>

definition late_sleeper :: "pace_event list" where
  "late_sleeper = [Pu_set 1 2, Pu_load 3, Pu_grant 3, Pu_settle 3 1470, Pu_load 3, Pu_grant 3, Pu_set 0 0]"

lemma first_grant: "take_tokens 0 1530 \<lparr>tb_gen = 1, tb_rate = 1024, tb_burst = 2048, tb_tokens = 2048, tb_last = 0\<rparr>
    = (0, \<lparr>tb_gen = 1, tb_rate = 1024, tb_burst = 2048, tb_tokens = 518, tb_last = 0\<rparr>)"
  by (simp add: take_tokens_def accrued_def)

lemma second_grant: "take_tokens 0 1530 \<lparr>tb_gen = 1, tb_rate = 1024, tb_burst = 2048, tb_tokens = 548, tb_last = 0\<rparr>
    = (958984375, \<lparr>tb_gen = 1, tb_rate = 1024, tb_burst = 2048, tb_tokens = - 982, tb_last = 0\<rparr>)"
  by (simp add: take_tokens_def accrued_def)

definition snap ::
  "time \<Rightarrow> pace_state list \<Rightarrow> pace_bucket option \<Rightarrow> pace_phase \<Rightarrow> int \<Rightarrow> int \<times> int \<times> int \<times> int \<times> int \<Rightarrow> pace" where
  "snap now sts b ph c = (\<lambda>(aw, wt, pl, mx, by). \<lparr>pg_now = now, pg_states = sts, pg_buckets = (\<lambda>_. None)(3 := b),
     pg_writers = (\<lambda>_. Idle)(3 := ph), pg_charged = (\<lambda>_. 0)(3 := c), pg_awaits = aw, pg_waited = wt, pg_plan_ns = pl,
     pg_wait_max = mx, pg_bytes = by, pg_cancels = 0\<rparr>)"

definition snap_state :: "int \<times> int \<times> int \<times> int \<times> int \<Rightarrow> int \<Rightarrow> pace_state" where
  "snap_state = (\<lambda>(aw, wt, ns, pl, mx) fl. \<lparr>ps_rate = 1024, ps_burst = 2048, ps_awaits = aw, ps_waited = wt,
     ps_wait_ns = ns, ps_plan_ns = pl, ps_wait_max = mx, ps_bytes = 1500 * fl, ps_inflight = 0\<rparr>)"

abbreviation snap_bucket :: "real \<Rightarrow> pace_bucket" where
  "snap_bucket tok \<equiv> \<lparr>tb_gen = 1, tb_rate = 1024, tb_burst = 2048, tb_tokens = tok, tb_last = 0\<rparr>"

lemmas snap_simps = snap_def snap_state_def with_state_def set_phase_def set_bucket_def pace_max_conns_def
  pace_max_cost_def pace_wire_overhead_def

lemma snap_set: "pace_step new_pace (Pu_set 1 2) = snap 0 [pace_off, snap_state (0, 0, 0, 0, 0) 0] None Idle 0 (0, 0, 0, 0, 0)"
  by (simp add: new_pace_def set_uplink_pace_def pace_setting_def pace_off_def snap_simps fun_eq_iff)

lemma snap_load: "pace_step (snap 0 [pace_off, snap_state v n] b Idle c g) (Pu_load 3) = snap 0 [pace_off, snap_state v n] b (Loaded 1) c g"
  by (cases v; cases g) (simp add: reserve_load_def paces_writer_def pace_is_on_def pace_now_def cur_gen_def snap_simps)

lemma snap_grant1: "pace_step (snap 0 [pace_off, snap_state (0, 0, 0, 0, 0) 0] None (Loaded 1) 0 (0, 0, 0, 0, 0)) (Pu_grant 3)
    = snap 0 [pace_off, snap_state (1, 0, 0, 0, 0) 0] (Some (snap_bucket 518)) (Ticket (Some 1)) 0 (1, 0, 0, 0, 0)"
  using first_grant by (simp add: reserve_grant_def bucket_for_def new_pace_bucket_def snap_simps Let_def)

lemma snap_settle: "pace_step (snap 0 [pace_off, snap_state (1, 0, 0, 0, 0) 0] (Some (snap_bucket 518)) (Ticket (Some 1)) 0 (1, 0, 0, 0, 0)) (Pu_settle 3 1470)
    = snap 0 [pace_off, snap_state (1, 0, 0, 0, 0) 1] (Some (snap_bucket 548)) Idle 1500 (1, 0, 0, 0, 1500)"
  by (simp add: pace_settle_def counted_def refund_tokens_def snap_simps fun_eq_iff)

lemma snap_grant2: "pace_step (snap 0 [pace_off, snap_state (1, 0, 0, 0, 0) 1] (Some (snap_bucket 548)) (Loaded 1) 1500 (1, 0, 0, 0, 1500)) (Pu_grant 3)
    = snap 0 [pace_off, snap_state (2, 1, 0, 0, 0) 1] (Some (snap_bucket (- 982))) (Granted 1 958984375) 1500 (2, 1, 0, 0, 1500)"
  using second_grant by (simp add: reserve_grant_def bucket_for_def snap_simps Let_def)

lemma snap_off: "pace_step (snap 0 sts b ph c g) (Pu_set 0 0) = snap 0 (sts @ [pace_off]) b ph c g"
  by (cases g) (simp add: set_uplink_pace_def pace_setting_def snap_def)

lemma late_sleeper_state: "run pace_step new_pace late_sleeper
    = snap 0 [pace_off, snap_state (2, 1, 0, 0, 0) 1, pace_off] (Some (snap_bucket (- 982))) (Granted 1 958984375) 1500 (2, 1, 0, 0, 1500)"
  by (simp add: late_sleeper_def snap_set snap_load snap_grant1 snap_settle snap_grant2 snap_off del: pace_step.simps One_nat_def)

lemma late_sleeper_missed:
  "verdict 1 (run pace_step new_pace late_sleeper) = (2, 1, 0, 0, 0)"
  "ps_inflight (pg_states (run pace_step new_pace late_sleeper) ! 1) = 0"
  "verdict 1 (run pace_step new_pace (late_sleeper @ [Pu_sleep 3, Pu_clock 10000000, Pu_slice 3])) = (2, 1, 10000000, 958984375, 10000000)"
  unfolding run_append late_sleeper_state
  by (simp_all add: verdict_def snap_simps reserve_sleep_def reserve_slice_def end_sleep_def pace_slice_def
      pace_is_on_def pace_now_def pace_off_def cur_gen_def Let_def)

text \<open>Once that writer has slept, the verdict is final.\<close>

definition slept :: "pace_event list" where
  "slept = [Pu_sleep 3, Pu_clock 10000000, Pu_slice 3]"

lemma drained_verdict_final_witness:
  "verdict 1 (run pace_step (run pace_step new_pace (late_sleeper @ slept)) [Pu_settle 3 99, Pu_load 3, Pu_set 1 1])
     = verdict 1 (run pace_step new_pace (late_sleeper @ slept))"
  by (rule drained_verdict_final [OF refl]; unfold run_append late_sleeper_state slept_def)
    (simp_all add: snap_simps reserve_sleep_def reserve_slice_def end_sleep_def pace_slice_def
      pace_is_on_def pace_now_def pace_off_def cur_gen_def Let_def)

end
