(* ===== verification/Sessions.thy ===== *)
theory Sessions
  imports CredPool
begin

text \<open>
  One session of a connection over a TURN relay, \<^verbatim>\<open>src/pkg/proxy/proxy.go\<close>: how an error text of pion is
  read, what \<^verbatim>\<open>runDTLSSession\<close>, \<^verbatim>\<open>runSRTPSession\<close>, \<^verbatim>\<open>runWrapASession\<close> and \<^verbatim>\<open>setupSRTPSession\<close> do to the
  credential pool and to the resources they open, on every path out of them, and the two goroutines of
  \<^verbatim>\<open>runDirectSession\<close> that share the seat of the connection. The deferred calls of a function run in
  the reverse order of their registration. Packets and probes are the subject of other theories.
\<close>

section \<open>Error texts\<close>

text \<open>\<^verbatim>\<open>strings.Contains\<close>\<close>

fun contains :: "'a list \<Rightarrow> 'a list \<Rightarrow> bool" where
  "contains p [] \<longleftrightarrow> p = []"
| "contains p (x # xs) \<longleftrightarrow> has_prefix p (x # xs) \<or> contains p xs"

text \<open>The errors are their texts; \<open>None\<close> is \<^verbatim>\<open>nil\<close>.\<close>

definition is_auth_error :: "bytes option \<Rightarrow> bool" where
  "is_auth_error err = (case err of None \<Rightarrow> False
     | Some s \<Rightarrow> contains (ascii ''error 401:'') s \<or> contains (ascii ''error 403:'') s)"

definition is_quota_error :: "bytes option \<Rightarrow> bool" where
  "is_quota_error err = (case err of None \<Rightarrow> False | Some s \<Rightarrow> contains (ascii ''error 486:'') s)"

text \<open>The log line of pion that counts as an authentication error on the slot.\<close>

definition flags_auth_error :: "bytes \<Rightarrow> bool" where
  "flags_auth_error msg \<longleftrightarrow> \<not> (\<not> contains (ascii ''Unauthorized'') msg \<and> \<not> contains (ascii ''Forbidden'') msg
     \<and> \<not> contains (ascii ''error 401:'') msg \<and> \<not> contains (ascii ''error 403:'') msg)"

definition maybe_flag_auth_error :: "int \<Rightarrow> bytes \<Rightarrow> cred_pool \<Rightarrow> cred_pool" where
  "maybe_flag_auth_error slot msg cp = (if flags_auth_error msg then record_auth_error slot cp else cp)"

definition counts_transient :: "bytes \<Rightarrow> bool" where
  "counts_transient msg \<longleftrightarrow> contains (ascii ''error response'') msg
     \<and> (contains (ascii ''Fail to refresh permissions'') msg \<or> contains (ascii ''Failed to bind channel'') msg)"

text \<open>The counter and the time of its first error, in Unix seconds.\<close>

definition maybe_count_transient_error :: "time \<Rightarrow> bytes \<Rightarrow> int \<times> int \<Rightarrow> int \<times> int" where
  "maybe_count_transient_error now msg = (\<lambda>(n, first).
     if counts_transient msg then (n + 1, if first = 0 then unix_sec now else first) else (n, first))"

definition sanitize_log :: "bytes \<Rightarrow> bytes" where
  "sanitize_log s = filter (\<lambda>b. b \<noteq> 0) s"

lemma contains_iff: "contains p s \<longleftrightarrow> (\<exists>u v. s = u @ p @ v)"
proof (induction s)
  case (Cons x xs)
  have "(\<exists>u v. x # xs = u @ p @ v) \<longleftrightarrow> has_prefix p (x # xs) \<or> (\<exists>u v. xs = u @ p @ v)"
    by (auto simp: has_prefix_iff Cons_eq_append_conv)
  then show ?case using Cons.IH by simp
qed simp

section \<open>Blame\<close>

text \<open>What a session does to its slot when the relay could not be set up.\<close>

definition blame :: "env \<Rightarrow> int \<Rightarrow> bytes option \<Rightarrow> cred_pool \<Rightarrow> cred_pool" where
  "blame ev slot err cp =
     (if is_quota_error err then snd (mark_saturated ev slot cp)
      else if is_auth_error err then invalidate_entry ev slot cp else cp)"

section \<open>Setting up an SRTP session\<close>

datatype res = Ctl_conn | Turn_client | Relay_conn | Dtls_conn | Srtp_conn | Pipe

datatype act =
    Opens res
  | Closes res
  | Registers
  | Unregisters
  | Bounds_writes
  | Acquires nat
  | Blames nat "bytes option"
  | Releases nat
  | Counts_up
  | Counts_down
  | Sends_client_id
  | Provisions bytes
  | Readies
  | Bootstraps
  | Carries

text \<open>
  What the calls of \<^verbatim>\<open>setupSRTPSession\<close> answer: \<open>None\<close> for success, the error otherwise.
\<close>

record setup_answers =
  an_dial :: "bytes option"
  an_client :: "bytes option"
  an_listen :: "bytes option"
  an_allocate :: "bytes option"
  an_permission :: "bytes option"
  an_handshake :: "bytes option"

definition wrap_err :: "string \<Rightarrow> bytes \<Rightarrow> bytes" where
  "wrap_err what e = ascii what @ e"

definition setup_srtp :: "bool \<Rightarrow> setup_answers \<Rightarrow> act list \<times> bytes option" where
  "setup_srtp use_udp a =
     (case an_dial a of Some e \<Rightarrow> ([], Some (wrap_err (if use_udp then ''local udp listen: '' else ''dial tcp to relay: '') e)) | None \<Rightarrow>
       let as = Opens Ctl_conn # (if use_udp then [] else [Registers]) in
      case an_client a of Some e \<Rightarrow> (as @ [Closes Ctl_conn], Some (wrap_err ''turn.NewClient: '' e)) | None \<Rightarrow>
       let as = as @ [Opens Turn_client] in
      case an_listen a of Some e \<Rightarrow> (as @ [Closes Turn_client, Closes Ctl_conn], Some (wrap_err ''turn listen: '' e)) | None \<Rightarrow>
      case an_allocate a of Some e \<Rightarrow> (as @ [Closes Turn_client, Closes Ctl_conn], Some (wrap_err ''turn allocate: '' e)) | None \<Rightarrow>
       let as = as @ [Opens Relay_conn] in
      case an_permission a of
        Some e \<Rightarrow> (as @ [Closes Relay_conn, Closes Turn_client, Closes Ctl_conn], Some (wrap_err ''turn create permission: '' e)) | None \<Rightarrow>
      case an_handshake a of
        Some e \<Rightarrow> (as @ [Closes Relay_conn, Closes Turn_client, Closes Ctl_conn], Some (wrap_err ''srtp handshake: '' e)) | None \<Rightarrow>
      (as @ [Opens Srtp_conn], None))"

text \<open>\<^verbatim>\<open>srtpSessionConn.Close\<close>, its first call.\<close>

definition srtp_session_close :: "act list" where
  "srtp_session_close = [Bounds_writes, Closes Srtp_conn, Closes Relay_conn, Closes Turn_client, Closes Ctl_conn]"

section \<open>The sessions\<close>

text \<open>
  \<open>acquired\<close> is what \<^verbatim>\<open>resolveTURNAddr\<close> answers; \<open>first_up\<close>: somebody waits for this connection's first session
  (\<^verbatim>\<open>readyCh != nil && !*signaled\<close>).
\<close>

definition announce :: "bool \<Rightarrow> act list" where
  "announce first_up = (if first_up then [Readies] else []) @ [Bootstraps]"

definition run_srtp_session ::
  "bool \<Rightarrow> bool \<Rightarrow> bytes + nat \<Rightarrow> setup_answers \<Rightarrow> act list \<times> bytes option" where
  "run_srtp_session first_up use_udp acquired a =
     (case acquired of Inl e \<Rightarrow> ([], Some e)
      | Inr slot \<Rightarrow>
          (case setup_srtp use_udp a of
             (as, Some e) \<Rightarrow> (Acquires slot # as @ [Blames slot (Some e), Releases slot], Some (wrap_err ''SRTP setup: '' e))
           | (as, None) \<Rightarrow>
               (Acquires slot # as @ [Counts_up] @ announce first_up @ [Carries]
                  @ [Counts_down, Unregisters] @ srtp_session_close @ [Releases slot], None)))"

text \<open>
  The DTLS and the WRAP-A session run the relay (\<^verbatim>\<open>runTURN\<close>) as a goroutine of their own. \<open>turn_err\<close> is what it
  has answered when the handshake has failed: nothing yet (\<open>None\<close>), or an error or a normal end.
\<close>

record dtls_answers =
  da_handshake :: "bytes option"
  da_turn :: "bytes option option"
  da_client_id :: "bytes option"

definition handshake_failed :: "string \<Rightarrow> nat \<Rightarrow> bytes \<Rightarrow> bytes option option \<Rightarrow> act list \<times> bytes option" where
  "handshake_failed pre slot e turn =
     (case turn of Some (Some te) \<Rightarrow>
        ([Blames slot (Some te)], Some (ascii pre @ ascii ''DTLS failed: '' @ e @ ascii '' (TURN error: '' @ te @ ascii '')''))
      | _ \<Rightarrow> ([], Some (ascii pre @ ascii ''DTLS: '' @ e)))"

definition run_dtls_session ::
  "bool \<Rightarrow> bool \<Rightarrow> bytes + nat \<Rightarrow> dtls_answers \<Rightarrow> act list \<times> bytes option" where
  "run_dtls_session first_up wrap_s acquired a =
     (case acquired of Inl e \<Rightarrow> ([Opens Pipe, Closes Pipe], Some e)
      | Inr slot \<Rightarrow>
          (case da_handshake a of
             Some e \<Rightarrow> (case handshake_failed '''' slot e (da_turn a) of
                 (as, r) \<Rightarrow> ([Opens Pipe, Acquires slot] @ as @ [Releases slot, Closes Pipe], r))
           | None \<Rightarrow>
               (let up = [Opens Pipe, Acquires slot, Opens Dtls_conn, Counts_up];
                    down = [Counts_down, Closes Dtls_conn, Releases slot, Closes Pipe]
                in if wrap_s \<and> da_client_id a \<noteq> None
                   then (up @ [Sends_client_id] @ down, map_option (wrap_err ''write client-id: '') (da_client_id a))
                   else (up @ (if wrap_s then [Sends_client_id] else []) @ announce first_up @ [Carries] @ down, None))))"

text \<open>\<open>init_err\<close>: \<^verbatim>\<open>newWrapAPacketConn\<close> fails; \<open>conf\<close>: what GETCONF answers.\<close>

definition run_wrap_a_session ::
  "bool \<Rightarrow> bytes + nat \<Rightarrow> bytes option \<Rightarrow> dtls_answers \<Rightarrow> bytes + bytes \<Rightarrow> act list \<times> bytes option" where
  "run_wrap_a_session first_up acquired init_err a conf =
     (case acquired of Inl e \<Rightarrow> ([Opens Pipe, Closes Pipe], Some e)
      | Inr slot \<Rightarrow>
          (case init_err of Some e \<Rightarrow> ([Opens Pipe, Acquires slot, Releases slot, Closes Pipe], Some (wrap_err ''WRAP-A init: '' e))
           | None \<Rightarrow>
          (case da_handshake a of
             Some e \<Rightarrow> (case handshake_failed ''WRAP-A '' slot e (da_turn a) of
                 (as, r) \<Rightarrow> ([Opens Pipe, Acquires slot] @ as @ [Releases slot, Closes Pipe], r))
           | None \<Rightarrow>
               (let up = [Opens Pipe, Acquires slot, Opens Dtls_conn];
                    down = [Closes Dtls_conn, Releases slot, Closes Pipe]
                in case conf of
                     Inl e \<Rightarrow> (up @ down, Some (wrap_err ''WRAP-A getconf: '' e))
                   | Inr prov \<Rightarrow> (up @ [Provisions prov, Counts_up] @ announce first_up @ [Carries, Counts_down] @ down, None)))))"


section \<open>The audit\<close>

text \<open>
  The books of a session: the resources that are open, the seat it holds, its part of the count of active
  connections. \<open>None\<close> when an action does not fit: a second seat, a release or blame of a slot that is not
  its own, traffic or readiness without a seat, a transport and the count.
\<close>

record books =
  bk_open :: "res set"
  bk_seat :: "nat option"
  bk_active :: nat

definition closed_books :: books where
  "closed_books = \<lparr>bk_open = {}, bk_seat = None, bk_active = 0\<rparr>"

definition in_business :: "books \<Rightarrow> bool" where
  "in_business b \<longleftrightarrow> bk_seat b \<noteq> None \<and> (Dtls_conn \<in> bk_open b \<or> Srtp_conn \<in> bk_open b) \<and> bk_active b = 1"

fun book :: "act \<Rightarrow> books \<Rightarrow> books option" where
  "book (Opens r) b = (if r \<in> bk_open b then None else Some (b\<lparr>bk_open := insert r (bk_open b)\<rparr>))"
| "book (Closes r) b = Some (b\<lparr>bk_open := bk_open b - {r}\<rparr>)"
| "book (Acquires s) b = (if bk_seat b = None then Some (b\<lparr>bk_seat := Some s\<rparr>) else None)"
| "book (Blames s e) b = (if bk_seat b = Some s then Some b else None)"
| "book (Releases s) b = (if bk_seat b = Some s then Some (b\<lparr>bk_seat := None\<rparr>) else None)"
| "book Counts_up b = Some (b\<lparr>bk_active := Suc (bk_active b)\<rparr>)"
| "book Counts_down b = (if bk_active b = 0 then None else Some (b\<lparr>bk_active := bk_active b - 1\<rparr>))"
| "book Readies b = (if in_business b then Some b else None)"
| "book Bootstraps b = (if in_business b then Some b else None)"
| "book Carries b = (if in_business b then Some b else None)"
| "book _ b = Some b"

fun audit :: "act list \<Rightarrow> books \<Rightarrow> books option" where
  "audit [] b = Some b"
| "audit (a # as) b = (case book a b of None \<Rightarrow> None | Some b \<Rightarrow> audit as b)"

lemma audit_append: "audit (as @ bs) b = (case audit as b of None \<Rightarrow> None | Some b \<Rightarrow> audit bs b)"
  by (induction as arbitrary: b) (auto split: option.split)

definition set_up :: "res set" where
  "set_up = {Ctl_conn, Turn_client, Relay_conn, Srtp_conn}"

text \<open>A failed setup leaves nothing open, a successful one exactly what \<^verbatim>\<open>Close\<close> closes.\<close>

lemma audit_setup:
  "audit (fst (setup_srtp udp a)) \<lparr>bk_open = {}, bk_seat = s, bk_active = n\<rparr> =
     Some \<lparr>bk_open = (if snd (setup_srtp udp a) = None then set_up else {}), bk_seat = s, bk_active = n\<rparr>"
  by (auto simp: setup_srtp_def Let_def set_up_def split: option.split)

lemma audit_close:
  "audit srtp_session_close \<lparr>bk_open = set_up, bk_seat = s, bk_active = n\<rparr> = Some \<lparr>bk_open = {}, bk_seat = s, bk_active = n\<rparr>"
  by (auto simp: srtp_session_close_def set_up_def)

lemma audit_announce: "in_business b \<Longrightarrow> audit (announce f) b = Some b"
  by (simp add: announce_def)


lemma setup_registers:
  "\<not> udp \<Longrightarrow> an_dial a = None \<Longrightarrow> Registers \<in> set (fst (setup_srtp udp a))"
  by (auto simp: setup_srtp_def Let_def split: option.split)

lemma setup_never_unregisters: "Unregisters \<notin> set (fst (setup_srtp udp a))"
  by (auto simp: setup_srtp_def Let_def split: option.split)

lemma setup_failed_closes:
  "an_dial a = None \<Longrightarrow> snd (setup_srtp udp a) = Some e \<Longrightarrow> Closes Ctl_conn \<in> set (fst (setup_srtp udp a))"
  by (auto simp: setup_srtp_def Let_def split: option.split_asm)

text \<open>
  Over TCP, a setup that fails after the dial closes the socket and leaves it registered with the sampler:
  nobody unregisters it.
\<close>

lemma failed_setup_keeps_socket:
  assumes "an_dial a = None" and "snd (setup_srtp False a) \<noteq> None"
  shows "let as = set (fst (run_srtp_session first_up False (Inr slot) a))
    in Registers \<in> as \<and> Closes Ctl_conn \<in> as \<and> Unregisters \<notin> as"
proof -
  obtain as e where s: "setup_srtp False a = (as, Some e)" using assms(2) by (cases "setup_srtp False a") auto
  then show ?thesis
    using setup_registers [of False a] setup_never_unregisters [of False a] setup_failed_closes [of a False e] assms(1)
    by (simp add: run_srtp_session_def Let_def)
qed

section \<open>The cooldown of a refused slot\<close>

lemma take_seat_active:
  assumes "i < length (cp_pool cp)"
  shows "0 < pe_active (cp_pool (snd (take_seat i cp)) ! i)"
  using assms by (simp add: take_seat_def Let_def nth_upd_slot)

lemma mark_saturated_active:
  assumes "i < cp_size cp" and "i < length (cp_pool cp)" and "0 < pe_active (cp_pool cp ! i)"
  shows "fst (mark_saturated ev (int i) cp) = vk_active_allocations_cooldown"
  using assms by (simp add: mark_saturated_def Let_def)


lemma got_seat:
  assumes "pool_ok cp" and "get_begin ev conn cp = (Got addr c i, cp') \<or> get_finish ev conn t g r cp = (Got addr c i, cp')"
  shows "i < length (cp_pool cp') \<and> 0 < pe_active (cp_pool cp' ! i)"
  using assms(2)
proof
  assume "get_begin ev conn cp = (Got addr c i, cp')"
  from get_begin_Got [OF assms(1) this] assms(1) show ?thesis
    by (auto simp: pool_ok_def nth_upd_slot)
next
  have seat: "i < length (cp_pool cp') \<and> 0 < pe_active (cp_pool cp' ! i)"
    if "pool_ok q" and gf: "get_failed ev conn t m e q = (Got addr c i, cp')" for q m e
  proof -
    let ?q = "if m then upd_slot t (\<lambda>e. e\<lparr>pe_cooldown_until := ev_now ev + cp_cooldown q\<rparr>) q else q"
    obtain k where k: "pick_acquire_slot (ev_now ev) ?q (own_slot conn (cp_size q)) = Some (i, k)"
      and cp': "cp' = snd (take_seat i ?q)"
      using gf by (auto simp: get_failed_def Let_def take_seat_def split: option.splits prod.splits if_splits)
    have "i < length (cp_pool ?q)" using pick_acquire_Some(1) [OF k] by (simp add: seat_free_def is_fresh_def)
    then show ?thesis using take_seat_active [of i ?q] by (simp add: cp' take_seat_def Let_def)
  qed
  assume got: "get_finish ev conn t g r cp = (Got addr c i, cp')"
  have ok: "pool_ok (upd_slot t (\<lambda>e. e\<lparr>pe_fetching := False\<rparr>) cp)"
    using assms(1) by (rule pool_ok_upd_keep) simp
  show ?thesis
  proof (cases "owns cp t g")
    case True
    then have "t < length (cp_pool cp)" by (simp add: owns_def)
    then show ?thesis using got True seat [OF ok] ok
      by (auto simp: get_finish_def Let_def nth_upd_slot split: sum.splits prod.splits)
  next
    case False
    have placed: "i < length (cp_pool q) \<and> pe_active (cp_pool q ! i) = 1"
      if "place_into_empty_slot ev a d 1 cp = (Some i, q)" for a d q
      using that by (auto simp: place_into_empty_slot_def Let_def nth_upd_slot split: if_splits option.splits dest: first_slot_Some)
    show ?thesis using got False seat [of cp] seat [of "snd (place_into_empty_slot ev a d 1 cp)" for a d] assms(1) placed place_keeps_None
      by (auto simp: get_finish_def Let_def split: sum.splits prod.splits option.splits) blast+
  qed
qed


text \<open>
   a refused allocation saturates its slot for the long cooldown. However a session came by its seat,
  when the relay refuses with 486 and the session blames its slot and then releases the seat, the slot
  keeps its credential, is closed to acquires for eleven minutes and no other slot is touched: the session's
  own seat counts as a connection that still holds the slot, so the three minutes are never chosen here.
\<close>

theorem refused_session_waits_long:
  assumes "pool_ok cp" and "get_begin ev conn cp = (Got addr c i, cp') \<or> get_finish ev conn t g r cp = (Got addr c i, cp')"
    and "i < cp_size cp'" and "is_quota_error err"
  shows "let q = release ev2 (int i) (blame ev1 (int i) err cp')
    in pe_saturated_until (cp_pool q ! i) = ev_now ev1 + vk_active_allocations_cooldown
     \<and> pe_creds (cp_pool q ! i) = pe_creds (cp_pool cp' ! i)
     \<and> (\<forall>now. now < ev_now ev1 + vk_active_allocations_cooldown \<longrightarrow> \<not> seat_free now q i)
     \<and> (\<forall>j. j \<noteq> i \<longrightarrow> cp_pool q ! j = cp_pool cp' ! j)"
proof -
  let ?b = "blame ev1 (int i) err cp'" and ?e = "cp_pool cp' ! i"
  have i: "i < length (cp_pool cp')" "0 < pe_active ?e" using got_seat [OF assms(1,2)] by simp_all
  have b: "?b = apply_saturation (ev_now ev1) i vk_active_allocations_cooldown cp'"
    using assms(3,4) i by (simp add: blame_def mark_saturated_def Let_def)
  have q: "cp_pool (release ev2 (int i) ?b) = (cp_pool ?b)[i := (cp_pool ?b ! i)\<lparr>pe_active := pe_active (cp_pool ?b ! i) - 1,
      pe_last_used_at := (if pe_active (cp_pool ?b ! i) = 1 then ev_now ev2 else pe_last_used_at (cp_pool ?b ! i))\<rparr>]"
    using assms(3) i by (simp add: release_def Let_def b apply_saturation_def upd_slot_def)
  have at_i: "pe_saturated_until (cp_pool (release ev2 (int i) ?b) ! i) = ev_now ev1 + vk_active_allocations_cooldown
      \<and> pe_creds (cp_pool (release ev2 (int i) ?b) ! i) = pe_creds ?e"
    unfolding q using i by (simp add: b apply_saturation_def upd_slot_def)
  moreover have "cp_pool (release ev2 (int i) ?b) ! j = cp_pool cp' ! j" if "j \<noteq> i" for j
    unfolding q using that by (simp add: b apply_saturation_def upd_slot_def)
  ultimately show ?thesis by (simp add: Let_def seat_free_def)
qed

definition quota_text :: bytes where
  "quota_text = ascii ''turn allocate: Allocate error response (error 486: Allocation Quota Reached)''"

lemma quota_text_read: "is_quota_error (Some quota_text)" "\<not> is_auth_error (Some quota_text)"
  by code_simp+

text \<open>The port in the text of a refresh failure is not read as a 401.\<close>

lemma port_is_no_auth_error:
  "\<not> flags_auth_error (ascii ''Fail to refresh permissions: write udp 10.0.0.2:64014: use of closed network connection'')"
  by code_simp

definition seated_pool :: cred_pool where
  "seated_pool = snd (get_begin (at 5) 3 example_pool)"

lemma refused_session_waits_long_witness:
  "let q = release (at 7) (int 0) (blame (at 6) (int 0) (Some quota_text) seated_pool)
    in pe_saturated_until (cp_pool q ! 0) = ev_now (at 6) + vk_active_allocations_cooldown
     \<and> pe_creds (cp_pool q ! 0) = pe_creds (cp_pool seated_pool ! 0)
     \<and> (\<forall>now. now < ev_now (at 6) + vk_active_allocations_cooldown \<longrightarrow> \<not> seat_free now q 0)
     \<and> (\<forall>j. j \<noteq> 0 \<longrightarrow> cp_pool q ! j = cp_pool seated_pool ! j)"
proof -
  have "fst (get_begin (at 5) 3 example_pool) = Got (ascii ''r:1'') (Some cred_a) 0" by code_simp
  then have got: "get_begin (at 5) 3 example_pool = (Got (ascii ''r:1'') (Some cred_a) 0, seated_pool)"
    unfolding seated_pool_def by (metis prod.collapse)
  have sz: "0 < cp_size seated_pool" by code_simp
  show ?thesis
    by (rule refused_session_waits_long [OF pool_ok_example disjI1 [OF got] sz quota_text_read(1)])
qed

section \<open>The direct session\<close>

text \<open>
  \<^verbatim>\<open>runDirectSession\<close> keeps its seat in two variables that two goroutines share: the session itself, which at
  its end releases \<open>dr_current\<close>, and the reconnector, which on every end of the relay gives the seat back and
  gets another. Slots are pool slots, \<open>- 1\<close> is none; the log counts what was acquired and released.
\<close>

datatype recon =
    Rc_wait
  | Rc_pause
  | Rc_release
  | Rc_clear
  | Rc_retry nat
  | Rc_resolve nat
  | Rc_backoff nat
  | Rc_store int
  | Rc_gone

record direct =
  dr_slot :: int
  dr_current :: int
  dr_recon :: recon
  dr_cancelled :: bool
  dr_exited :: bool
  dr_acquired :: "int list"
  dr_released :: "int list"

definition start_direct :: "int \<Rightarrow> direct" where
  "start_direct slot = \<lparr>dr_slot = slot, dr_current = slot, dr_recon = Rc_wait, dr_cancelled = False, dr_exited = False,
     dr_acquired = [slot], dr_released = []\<rparr>"

text \<open>\<^verbatim>\<open>release\<close> ignores negative slots.\<close>

definition give_back :: "int \<Rightarrow> direct \<Rightarrow> direct" where
  "give_back slot d = (if slot < 0 then d else d\<lparr>dr_released := dr_released d @ [slot]\<rparr>)"

definition max_retries :: nat where
  "max_retries = 5"

datatype direct_event = Dv_turn_ended | Dv_step | Dv_resolved "int option" | Dv_cancel | Dv_exit

text \<open>
  One step of the reconnector. \<open>Rc_release\<close>: the pause is over, the seat not yet given back; \<open>Rc_clear\<close>: given
  back, the variables still name it; \<open>Rc_store\<close>: a new seat has been acquired, the variables do not name it yet.
\<close>

definition recon_step :: "direct \<Rightarrow> direct" where
  "recon_step d = (case dr_recon d of
     Rc_wait \<Rightarrow> if dr_cancelled d then d\<lparr>dr_recon := Rc_gone\<rparr> else d
   | Rc_pause \<Rightarrow> if dr_cancelled d then d\<lparr>dr_recon := Rc_gone\<rparr> else d\<lparr>dr_recon := Rc_release\<rparr>
   | Rc_release \<Rightarrow> (give_back (dr_slot d) d)\<lparr>dr_recon := Rc_clear\<rparr>
   | Rc_clear \<Rightarrow> d\<lparr>dr_slot := - 1, dr_current := - 1, dr_recon := Rc_retry 0\<rparr>
   | Rc_retry n \<Rightarrow> if dr_cancelled d then d\<lparr>dr_recon := Rc_gone\<rparr> else d\<lparr>dr_recon := Rc_resolve n\<rparr>
   | Rc_backoff n \<Rightarrow>
       if dr_cancelled d then d\<lparr>dr_recon := Rc_gone\<rparr>
       else if max_retries \<le> n then d\<lparr>dr_recon := Rc_gone, dr_cancelled := True\<rparr> else d\<lparr>dr_recon := Rc_retry n\<rparr>
   | Rc_store s \<Rightarrow> d\<lparr>dr_slot := s, dr_current := s, dr_recon := Rc_wait\<rparr>
   | _ \<Rightarrow> d)"

fun direct_step :: "direct \<Rightarrow> direct_event \<Rightarrow> direct" where
  "direct_step d Dv_turn_ended = (if dr_recon d = Rc_wait \<and> \<not> dr_cancelled d then d\<lparr>dr_recon := Rc_pause\<rparr> else d)"
| "direct_step d Dv_step = recon_step d"
| "direct_step d (Dv_resolved r) = (case dr_recon d of
     Rc_resolve n \<Rightarrow> (case r of
         None \<Rightarrow> d\<lparr>dr_recon := Rc_backoff (Suc n)\<rparr>
       | Some s \<Rightarrow> if s < 0 then d else d\<lparr>dr_recon := Rc_store s, dr_acquired := dr_acquired d @ [s]\<rparr>)
   | _ \<Rightarrow> d)"
| "direct_step d Dv_cancel = d\<lparr>dr_cancelled := True\<rparr>"
| "direct_step d Dv_exit =
     (if dr_cancelled d \<and> \<not> dr_exited d then (give_back (dr_current d) d)\<lparr>dr_exited := True\<rparr> else d)"

text \<open>The instants at which the variables do not name the seat.\<close>

fun in_between :: "recon \<Rightarrow> bool" where
  "in_between Rc_release \<longleftrightarrow> True"
| "in_between Rc_clear \<longleftrightarrow> True"
| "in_between (Rc_resolve n) \<longleftrightarrow> True"
| "in_between (Rc_store s) \<longleftrightarrow> True"
| "in_between _ \<longleftrightarrow> False"

fun clean_exits :: "direct \<Rightarrow> direct_event list \<Rightarrow> bool" where
  "clean_exits d [] \<longleftrightarrow> True"
| "clean_exits d (e # es) \<longleftrightarrow> (e = Dv_exit \<longrightarrow> \<not> in_between (dr_recon d)) \<and> clean_exits (direct_step d e) es"

text \<open>The seat of the session: none once it has exited, else what the phase says.\<close>

definition seat_of :: "direct \<Rightarrow> int" where
  "seat_of d = (if dr_exited d then - 1 else case dr_recon d of
     Rc_clear \<Rightarrow> - 1 | Rc_resolve n \<Rightarrow> - 1 | Rc_retry n \<Rightarrow> - 1 | Rc_backoff n \<Rightarrow> - 1 | Rc_store s \<Rightarrow> s | _ \<Rightarrow> dr_current d)"

definition direct_ok :: "direct \<Rightarrow> bool" where
  "direct_ok d \<longleftrightarrow> mset (dr_acquired d) = mset (dr_released d) + (if seat_of d < 0 then {#} else {#seat_of d#})
     \<and> (dr_recon d \<noteq> Rc_clear \<longrightarrow> dr_slot d = dr_current d)
     \<and> (case dr_recon d of Rc_resolve n \<Rightarrow> dr_current d = - 1 | Rc_retry n \<Rightarrow> dr_current d = - 1
         | Rc_backoff n \<Rightarrow> dr_current d = - 1 | Rc_store s \<Rightarrow> dr_current d = - 1 \<and> 0 \<le> s | _ \<Rightarrow> True)
     \<and> (dr_exited d \<longrightarrow> dr_cancelled d \<and> \<not> in_between (dr_recon d))"

lemma direct_ok_step:
  "direct_ok d \<Longrightarrow> (e = Dv_exit \<longrightarrow> \<not> in_between (dr_recon d)) \<Longrightarrow> direct_ok (direct_step d e)"
  by (cases e) (auto simp: direct_ok_def seat_of_def recon_step_def give_back_def split: recon.splits option.splits if_splits)

lemma direct_ok_run: "direct_ok d \<Longrightarrow> clean_exits d es \<Longrightarrow> direct_ok (run direct_step d es)"
  by (induction es arbitrary: d) (auto simp: direct_ok_step)

text \<open>
   the seat of a direct session. If the session does not end in one of the instants at which its variables do
  not name its seat, every seat it ever acquired has been released exactly once when it is over.
\<close>

theorem direct_session_returns_seats:
  assumes "0 \<le> slot" and "clean_exits (start_direct slot) es" and "dr_exited (run direct_step (start_direct slot) es)"
  shows "mset (dr_released (run direct_step (start_direct slot) es)) = mset (dr_acquired (run direct_step (start_direct slot) es))"
proof -
  have "direct_ok (start_direct slot)" using assms(1) by (simp add: direct_ok_def start_direct_def seat_of_def)
  then have "direct_ok (run direct_step (start_direct slot) es)" using assms(2) by (rule direct_ok_run)
  then show ?thesis using assms(3) by (simp add: direct_ok_def seat_of_def)
qed

lemma direct_session_returns_seats_witness:
  "mset (dr_released (run direct_step (start_direct 0) [Dv_turn_ended, Dv_step, Dv_step, Dv_step, Dv_step, Dv_resolved (Some 2), Dv_step, Dv_cancel, Dv_exit]))
   = mset (dr_acquired (run direct_step (start_direct 0) [Dv_turn_ended, Dv_step, Dv_step, Dv_step, Dv_step, Dv_resolved (Some 2), Dv_step, Dv_cancel, Dv_exit]))"
  by (rule direct_session_returns_seats) (simp_all add: start_direct_def recon_step_def give_back_def)

text \<open>
   the condition is needed. A session cancelled while the reconnector gets its new seat never returns
  that seat, and one that ends between the release and the clearing of the variables returns its seat twice,
  which takes the seat of another connection.
\<close>

theorem direct_session_races:
  "dr_exited (run direct_step (start_direct 0) [Dv_turn_ended, Dv_step, Dv_step, Dv_step, Dv_step, Dv_cancel, Dv_exit, Dv_resolved (Some 2), Dv_step, Dv_step])
   \<and> dr_recon (run direct_step (start_direct 0) [Dv_turn_ended, Dv_step, Dv_step, Dv_step, Dv_step, Dv_cancel, Dv_exit, Dv_resolved (Some 2), Dv_step, Dv_step]) = Rc_gone
   \<and> dr_acquired (run direct_step (start_direct 0) [Dv_turn_ended, Dv_step, Dv_step, Dv_step, Dv_step, Dv_cancel, Dv_exit, Dv_resolved (Some 2), Dv_step, Dv_step]) = [0, 2]
   \<and> dr_released (run direct_step (start_direct 0) [Dv_turn_ended, Dv_step, Dv_step, Dv_step, Dv_step, Dv_cancel, Dv_exit, Dv_resolved (Some 2), Dv_step, Dv_step]) = [0]
   \<and> dr_released (run direct_step (start_direct 0) [Dv_turn_ended, Dv_step, Dv_step, Dv_cancel, Dv_exit]) = [0, 0]"
  by (simp add: start_direct_def recon_step_def give_back_def)

end
