(* ===== verification/Grower.thy ===== *)
theory Grower
  imports Watchdog
begin

text \<open>
  The background fill of the credential pool: the signals its start waits for, \<^verbatim>\<open>Proxy.growCredPool\<close>
  (\<^verbatim>\<open>src/pkg/proxy/proxy.go\<close>), \<^verbatim>\<open>CredPool.Grow\<close> and the rest of the stand-alone pool of
  \<^verbatim>\<open>src/pkg/proxy/credpool.go\<close>. The grower is a goroutine that shares the pool: one step of its machine is
  what it does between two points at which others can run, and the events of the others come in between.
\<close>

section \<open>Signals that are given once\<close>

text \<open>
  \<^verbatim>\<open>bootstrapDoneOnce\<close> and the channel of one place, with the values that waiters have taken out and not yet
  replayed (\<open>bo_held\<close>), and what the waiters have returned (\<open>bo_seen\<close>). \<open>None\<close> is the error \<^verbatim>\<open>nil\<close>.
\<close>

record boot_signal =
  bo_first_up :: bool
  bo_done :: bool
  bo_ch :: "bytes option list"
  bo_held :: "bytes option list"
  bo_seen :: "bytes option list"

definition new_boot_signal :: boot_signal where
  "new_boot_signal = \<lparr>bo_first_up = False, bo_done = False, bo_ch = [], bo_held = [], bo_seen = []\<rparr>"

definition signal_bootstrap_done :: "bytes option \<Rightarrow> boot_signal \<Rightarrow> boot_signal" where
  "signal_bootstrap_done err b0 =
     (let b = (if err = None then b0\<lparr>bo_first_up := True\<rparr> else b0)
      in if bo_done b then b else b\<lparr>bo_done := True, bo_ch := bo_ch b @ [err]\<rparr>)"

text \<open>A waiter takes the value, then puts it back if there is room and returns it.\<close>

definition wait_bootstrap_take :: "boot_signal \<Rightarrow> boot_signal" where
  "wait_bootstrap_take b = (case bo_ch b of
     [] \<Rightarrow> b | err # rest \<Rightarrow> b\<lparr>bo_ch := rest, bo_held := err # bo_held b\<rparr>)"

definition wait_bootstrap_replay :: "nat \<Rightarrow> boot_signal \<Rightarrow> boot_signal" where
  "wait_bootstrap_replay i b =
     (if length (bo_held b) \<le> i then b
      else let err = bo_held b ! i
           in b\<lparr>bo_held := take i (bo_held b) @ drop (Suc i) (bo_held b),
                bo_ch := (if bo_ch b = [] then [err] else bo_ch b), bo_seen := bo_seen b @ [err]\<rparr>)"

datatype boot_event = Bo_signal "bytes option" | Bo_take | Bo_replay nat

fun boot_step :: "boot_signal \<Rightarrow> boot_event \<Rightarrow> boot_signal" where
  "boot_step b (Bo_signal err) = signal_bootstrap_done err b"
| "boot_step b Bo_take = wait_bootstrap_take b"
| "boot_step b (Bo_replay i) = wait_bootstrap_replay i b"

text \<open>There is one token from the first signal on: in the channel, or with one waiter.\<close>

definition one_token :: "bytes option \<Rightarrow> boot_signal \<Rightarrow> bool" where
  "one_token err b \<longleftrightarrow> bo_done b \<and> bo_ch b @ bo_held b = [err] \<and> set (bo_seen b) \<subseteq> {err}"

lemma one_token_step: "one_token err b \<Longrightarrow> one_token err (boot_step b e)"
  by (cases e) (auto simp: one_token_def signal_bootstrap_done_def wait_bootstrap_take_def wait_bootstrap_replay_def
      Let_def append_eq_Cons_conv Cons_eq_append_conv nth_Cons' split: list.splits)

lemma one_token_run: "one_token err b \<Longrightarrow> one_token err (run boot_step b es)"
  by (induction es arbitrary: b) (auto simp: one_token_step)

text \<open>
   the signal that the bootstrap is over is given once and for all. Whatever signals and waiters follow,
  every waiter that returns because of the channel returns the first signal, and the signal is not lost: it is
  in the channel, or one waiter is about to put it back.
\<close>

theorem bootstrap_signal_sticks:
  "let b = run boot_step (signal_bootstrap_done err new_boot_signal) es
   in set (bo_seen b) \<subseteq> {err} \<and> bo_ch b @ bo_held b = [err]"
proof -
  have "one_token err (signal_bootstrap_done err new_boot_signal)"
    by (simp add: one_token_def signal_bootstrap_done_def new_boot_signal_def)
  from one_token_run [OF this, of es] show ?thesis by (simp add: one_token_def Let_def)
qed

text \<open>
  The provisioning of WRAP-A: \<open>None\<close> as \<open>pr_closed\<close> is a proxy without WRAP-A, whose channel is nil. The value
  is stored before the channel is closed.
\<close>

record 'p provision =
  pr_done :: bool
  pr_value :: "'p option"
  pr_closed :: "bool option"

definition new_provision :: "bool \<Rightarrow> 'p provision" where
  "new_provision wrap_a = \<lparr>pr_done = False, pr_value = None, pr_closed = (if wrap_a then Some False else None)\<rparr>"

definition store_wrap_a_provision :: "'p \<Rightarrow> 'p provision \<Rightarrow> 'p provision" where
  "store_wrap_a_provision prov p =
     (if pr_done p then p
      else p\<lparr>pr_done := True, pr_value := Some prov, pr_closed := map_option (\<lambda>_. True) (pr_closed p)\<rparr>)"

datatype wait_end = By_channel | By_timeout duration | By_stop bytes

definition wait_wrap_a_provision :: "wait_end \<Rightarrow> 'p provision \<Rightarrow> (bytes + 'p option) option" where
  "wait_wrap_a_provision how p = (case pr_closed p of
     None \<Rightarrow> Some (Inl (ascii ''WRAP-A not enabled''))
   | Some closed \<Rightarrow> (case how of
       By_channel \<Rightarrow> if closed then Some (Inr (pr_value p)) else None
     | By_timeout d \<Rightarrow> Some (Inl (ascii ''WRAP-A provision timeout''))
     | By_stop e \<Rightarrow> Some (Inl e)))"

lemma provision_first_wins:
  "run (\<lambda>p v. store_wrap_a_provision v p) (new_provision w) (v # vs) = store_wrap_a_provision v (new_provision w)"
proof -
  have "run (\<lambda>p v. store_wrap_a_provision v p) p vs = p" if "pr_done p" for p :: "'a provision"
    using that by (induction vs) (simp_all add: store_wrap_a_provision_def)
  then show ?thesis by (simp add: store_wrap_a_provision_def new_provision_def)
qed

lemma provision_waiter_gets_first:
  "wait_wrap_a_provision By_channel (run (\<lambda>p v. store_wrap_a_provision v p) (new_provision True) (v # vs)) = Some (Inr (Some v))"
  by (simp only: provision_first_wins) (simp add: wait_wrap_a_provision_def store_wrap_a_provision_def new_provision_def)

section \<open>The grower\<close>

record grow_pace =
  gp_fast :: duration
  gp_slow :: duration
  gp_stagger_min :: duration
  gp_stagger_max :: duration
  gp_bootstrap :: duration

definition default_grow_pace :: grow_pace where
  "default_grow_pace = \<lparr>gp_fast = 2 * second, gp_slow = 30 * second, gp_stagger_min = 120 * second,
     gp_stagger_max = 300 * second, gp_bootstrap = 2 * minute\<rparr>"

lemma default_grow_pace_simps [simp]:
  "gp_fast default_grow_pace = 2 * second" "gp_slow default_grow_pace = 30 * second"
  "gp_stagger_min default_grow_pace = 120 * second" "gp_stagger_max default_grow_pace = 300 * second"
  by (simp_all add: default_grow_pace_def)

text \<open>
  Where the grower is: before its start, at the top of the loop with the interval it will wait, waiting until a
  time, about to pick, before the check of the target, before and inside the fill, after it, gone.
\<close>

datatype grow_pc =
    Gr_boot
  | Gr_top duration
  | Gr_wait time
  | Gr_pick
  | Gr_check nat
  | Gr_fill nat
  | Gr_fetch nat u64
  | Gr_after bool
  | Gr_gone

record grower =
  gr_pc :: grow_pc
  gr_met :: bool
  gr_target :: int

definition new_grower :: grower where
  "new_grower = \<lparr>gr_pc = Gr_boot, gr_met = False, gr_target = 0\<rparr>"

definition target_met :: "env \<Rightarrow> grower \<Rightarrow> cred_pool \<Rightarrow> bool" where
  "target_met ev g cp \<longleftrightarrow> gr_target g \<le> int (fst (snapshot_size ev cp))"

text \<open>\<^verbatim>\<open>Int63n(n)\<close> over a generator that gave \<open>r\<close>.\<close>

definition int63n :: "nat \<Rightarrow> int \<Rightarrow> int" where
  "int63n r n = int r mod n"

text \<open>
  \<open>Gv_boot\<close>: what \<^verbatim>\<open>WaitBootstrap\<close> answers. \<open>Gv_run\<close>: the grower goes on, with the environment, the captcha URL
  and the generator it meets. \<open>Gv_fetched\<close>: the fetch returns. \<open>Gv_other\<close>: somebody else acts on the pool.
\<close>

datatype grow_event =
    Gv_boot "bytes option"
  | Gv_stop
  | Gv_run env bytes nat
  | Gv_fetched env fetch_result
  | Gv_other pool_event

definition grow_run :: "env \<Rightarrow> bytes \<Rightarrow> nat \<Rightarrow> grower \<times> cred_pool \<Rightarrow> grower \<times> cred_pool" where
  "grow_run ev captcha r = (\<lambda>(g, cp). case gr_pc g of
     Gr_top d \<Rightarrow> (g\<lparr>gr_pc := Gr_wait (ev_now ev + d)\<rparr>, cp)
   | Gr_wait t \<Rightarrow>
       if ev_now ev < t then (g, cp)
       else if captcha \<noteq> [] then (g\<lparr>gr_pc := Gr_top (30 * second)\<rparr>, cp)
       else (g\<lparr>gr_pc := Gr_pick\<rparr>, cp)
   | Gr_pick \<Rightarrow> (case pick_slot_to_fill ev cp of
         (None, cp) \<Rightarrow> (g\<lparr>gr_pc := Gr_top (30 * second)\<rparr>, cp)
       | (Some s, cp) \<Rightarrow> (g\<lparr>gr_pc := Gr_check s\<rparr>, cp))
   | Gr_check s \<Rightarrow> (g\<lparr>gr_pc := Gr_fill s, gr_met := gr_met g \<or> target_met ev g cp\<rparr>, cp)
   | Gr_fill s \<Rightarrow> (case fill_begin ev (int s) (if gr_met g then 0 else gr_target g) cp of
         (Fill_done ok, cp) \<Rightarrow> (g\<lparr>gr_pc := Gr_after ok\<rparr>, cp)
       | (Fill_claimed k, cp) \<Rightarrow> (g\<lparr>gr_pc := Gr_fetch s k\<rparr>, cp))
   | Gr_after ok \<Rightarrow>
       let met = gr_met g \<or> target_met ev g cp in
       (g\<lparr>gr_met := met,
         gr_pc := Gr_top (if met then 120 * second + int63n r (300 * second - 120 * second) else 2 * second)\<rparr>, cp)
   | _ \<Rightarrow> (g, cp))"

fun grow_cred_pool :: "grower \<times> cred_pool \<Rightarrow> grow_event \<Rightarrow> grower \<times> cred_pool" where
  "grow_cred_pool (g, cp) (Gv_boot err) = (if gr_pc g \<noteq> Gr_boot then (g, cp)
     else if err \<noteq> None then (g\<lparr>gr_pc := Gr_gone\<rparr>, cp)
     else (g\<lparr>gr_pc := Gr_top (2 * second), gr_target := cp_cold_start_target cp, gr_met := False\<rparr>, cp))"
| "grow_cred_pool (g, cp) Gv_stop = (case gr_pc g of Gr_wait t \<Rightarrow> (g\<lparr>gr_pc := Gr_gone\<rparr>, cp) | _ \<Rightarrow> (g, cp))"
| "grow_cred_pool (g, cp) (Gv_run ev captcha r) = grow_run ev captcha r (g, cp)"
| "grow_cred_pool (g, cp) (Gv_fetched ev res) = (case gr_pc g of
     Gr_fetch s k \<Rightarrow> (case fill_finish ev s k res cp of (ok, cp) \<Rightarrow> (g\<lparr>gr_pc := Gr_after ok\<rparr>, cp))
   | _ \<Rightarrow> (g, cp))"
| "grow_cred_pool (g, cp) (Gv_other e) = (g, pool_step cp e)"


text \<open>
  \<^verbatim>\<open>CredPool.Grow\<close>, the same loop over a pace given as a value and without a captcha. \<open>Pv_ready\<close>: what ended the
  wait for the transport; a pool with no \<^verbatim>\<open>ready\<close> channel starts as with \<open>Ready\<close>.
\<close>

datatype ready_end = Ready | Not_ready | Pool_closed

datatype pool_grow_event =
    Pv_ready ready_end
  | Pv_stop
  | Pv_run env nat
  | Pv_fetched env fetch_result
  | Pv_other pool_event

definition pool_grow_run :: "grow_pace \<Rightarrow> env \<Rightarrow> nat \<Rightarrow> grower \<times> cred_pool \<Rightarrow> grower \<times> cred_pool" where
  "pool_grow_run pace ev r = (\<lambda>(g, cp). case gr_pc g of
     Gr_top d \<Rightarrow> (g\<lparr>gr_pc := Gr_wait (ev_now ev + d)\<rparr>, cp)
   | Gr_wait t \<Rightarrow> if ev_now ev < t then (g, cp) else (g\<lparr>gr_pc := Gr_pick\<rparr>, cp)
   | Gr_pick \<Rightarrow> (case pick_slot_to_fill ev cp of
         (None, cp) \<Rightarrow> (g\<lparr>gr_pc := Gr_top (gp_slow pace)\<rparr>, cp)
       | (Some s, cp) \<Rightarrow> (g\<lparr>gr_pc := Gr_check s\<rparr>, cp))
   | Gr_check s \<Rightarrow> (g\<lparr>gr_pc := Gr_fill s, gr_met := gr_met g \<or> target_met ev g cp\<rparr>, cp)
   | Gr_fill s \<Rightarrow> (case fill_begin ev (int s) (if gr_met g then 0 else gr_target g) cp of
         (Fill_done ok, cp) \<Rightarrow> (g\<lparr>gr_pc := Gr_after ok\<rparr>, cp)
       | (Fill_claimed k, cp) \<Rightarrow> (g\<lparr>gr_pc := Gr_fetch s k\<rparr>, cp))
   | Gr_after ok \<Rightarrow>
       let met = gr_met g \<or> target_met ev g cp in
       (g\<lparr>gr_met := met,
         gr_pc := Gr_top (if met then gp_stagger_min pace + int63n r (gp_stagger_max pace - gp_stagger_min pace)
                          else gp_fast pace)\<rparr>, cp)
   | _ \<Rightarrow> (g, cp))"

fun pool_grow :: "grow_pace \<Rightarrow> grower \<times> cred_pool \<Rightarrow> pool_grow_event \<Rightarrow> grower \<times> cred_pool" where
  "pool_grow pace (g, cp) (Pv_ready how) = (if gr_pc g \<noteq> Gr_boot then (g, cp)
     else if how \<noteq> Ready then (g\<lparr>gr_pc := Gr_gone\<rparr>, cp)
     else (g\<lparr>gr_pc := Gr_top (gp_fast pace), gr_target := cp_cold_start_target cp, gr_met := False\<rparr>, cp))"
| "pool_grow pace (g, cp) Pv_stop = (case gr_pc g of Gr_wait t \<Rightarrow> (g\<lparr>gr_pc := Gr_gone\<rparr>, cp) | _ \<Rightarrow> (g, cp))"
| "pool_grow pace (g, cp) (Pv_run ev r) = pool_grow_run pace ev r (g, cp)"
| "pool_grow pace (g, cp) (Pv_fetched ev res) = (case gr_pc g of
     Gr_fetch s k \<Rightarrow> (case fill_finish ev s k res cp of (ok, cp) \<Rightarrow> (g\<lparr>gr_pc := Gr_after ok\<rparr>, cp))
   | _ \<Rightarrow> (g, cp))"
| "pool_grow pace (g, cp) (Pv_other e) = (g, pool_step cp e)"

text \<open>The event of \<^verbatim>\<open>growCredPool\<close>, without a captcha, that an event of \<^verbatim>\<open>Grow\<close> is the copy of.\<close>

fun without_captcha :: "pool_grow_event \<Rightarrow> grow_event" where
  "without_captcha (Pv_ready how) = Gv_boot (if how = Ready then None else Some [])"
| "without_captcha Pv_stop = Gv_stop"
| "without_captcha (Pv_run ev r) = Gv_run ev [] r"
| "without_captcha (Pv_fetched ev res) = Gv_fetched ev res"
| "without_captcha (Pv_other e) = Gv_other e"

lemma pool_grow_run_default: "pool_grow_run default_grow_pace ev r = grow_run ev [] r"
  unfolding pool_grow_run_def grow_run_def default_grow_pace_simps simp_thms if_False by simp

lemma pool_grow_step: "pool_grow default_grow_pace gc e = grow_cred_pool gc (without_captcha e)"
  by (cases gc; cases e)
    (auto simp: pool_grow_run_default)

text \<open>
  C29: \<^verbatim>\<open>CredPool.Grow\<close> with its production pace and \<^verbatim>\<open>Proxy.growCredPool\<close> without a captcha are the same
  machine: they pass through the same states and leave the same pool, whatever happens around them.
\<close>

theorem growers_agree:
  "run (pool_grow default_grow_pace) gc es = run grow_cred_pool gc (map without_captcha es)"
  by (induction es arbitrary: gc) (simp_all add: pool_grow_step)

section \<open>How far apart the mints are\<close>

text \<open>
  The mints the grower starts, each with its time, whether it is a fill of maintenance mode, and the number of
  slots that were available then.
\<close>

definition mint_of :: "grower \<times> cred_pool \<Rightarrow> grow_event \<Rightarrow> (time \<times> bool \<times> nat) option" where
  "mint_of gc e = (case (e, gr_pc (fst gc), gr_pc (fst (grow_cred_pool gc e))) of
     (Gv_run ev captcha r, Gr_fill s, Gr_fetch s' k) \<Rightarrow> Some (ev_now ev, gr_met (fst gc), count_available (ev_now ev) (snd gc))
   | _ \<Rightarrow> None)"

fun mints :: "grower \<times> cred_pool \<Rightarrow> grow_event list \<Rightarrow> (time \<times> bool \<times> nat) list" where
  "mints gc [] = []"
| "mints gc (e # es) = (case mint_of gc e of None \<Rightarrow> [] | Some m \<Rightarrow> [m]) @ mints (grow_cred_pool gc e) es"

text \<open>The clock the grower reads does not go back.\<close>

fun grower_clock :: "grow_event \<Rightarrow> time option" where
  "grower_clock (Gv_run ev captcha r) = Some (ev_now ev)"
| "grower_clock (Gv_fetched ev res) = Some (ev_now ev)"
| "grower_clock _ = None"

fun clock_from :: "time \<Rightarrow> grow_event list \<Rightarrow> bool" where
  "clock_from t [] \<longleftrightarrow> True"
| "clock_from t (e # es) \<longleftrightarrow> (case grower_clock e of None \<Rightarrow> clock_from t es | Some u \<Rightarrow> t \<le> u \<and> clock_from u es)"

definition mint_gap :: "bool \<Rightarrow> duration" where
  "mint_gap met = (if met then 120 * second else 2 * second)"

fun paced :: "(time \<times> bool \<times> nat) list \<Rightarrow> bool" where
  "paced ((t, met, n) # (u, met', n') # ms) \<longleftrightarrow> t + mint_gap met \<le> u \<and> (met \<longrightarrow> met') \<and> paced ((u, met', n') # ms)"
| "paced _ \<longleftrightarrow> True"

text \<open>The mint \<open>(t, met)\<close> is the last one: when the next can be started, at the clock \<open>now\<close>.\<close>

definition gap_kept :: "time \<Rightarrow> bool \<Rightarrow> time \<Rightarrow> grower \<Rightarrow> bool" where
  "gap_kept t met now g \<longleftrightarrow> t \<le> now \<and> (met \<longrightarrow> gr_met g) \<and> (case gr_pc g of
     Gr_top d \<Rightarrow> t + mint_gap met \<le> now + d
   | Gr_wait u \<Rightarrow> t + mint_gap met \<le> u
   | Gr_fetch s k \<Rightarrow> True | Gr_after ok \<Rightarrow> True | Gr_gone \<Rightarrow> True | Gr_boot \<Rightarrow> False
   | _ \<Rightarrow> t + mint_gap met \<le> now)"

lemma int63n_nonneg: "0 < n \<Longrightarrow> 0 \<le> int63n r n"
  by (simp add: int63n_def)

lemma int63n_later: "t \<le> c + u \<Longrightarrow> 0 < n \<Longrightarrow> t \<le> c + (u + int63n r n)"
  using int63n_nonneg [of n r] by linarith

lemma gap_step:
  assumes "gap_kept t met now (fst gc)" and "case grower_clock e of None \<Rightarrow> now' = now | Some u \<Rightarrow> now \<le> u \<and> now' = u"
  shows "gap_kept t met now' (fst (grow_cred_pool gc e))"
proof -
  obtain g cp where gc: "gc = (g, cp)" by (cases gc)
  show ?thesis using assms unfolding gc
    by (cases e; cases "gr_pc g")
      (auto simp: gap_kept_def grow_run_def mint_gap_def Let_def int63n_later split: prod.split option.split fill_result.split if_splits)
qed


lemma mint_ofD:
  assumes "mint_of gc e = Some (u, met, n)"
  shows "\<exists>captcha r s k ev. e = Gv_run ev captcha r \<and> u = ev_now ev \<and> gr_pc (fst gc) = Gr_fill s
    \<and> gr_pc (fst (grow_cred_pool gc e)) = Gr_fetch s k \<and> met = gr_met (fst gc)
    \<and> gr_met (fst (grow_cred_pool gc e)) = met \<and> n = count_available u (snd gc)
    \<and> gr_target (fst (grow_cred_pool gc e)) = gr_target (fst gc)"
  using assms
  by (cases gc) (auto simp: mint_of_def grow_run_def split: grow_event.splits grow_pc.splits prod.splits fill_result.splits)

lemma gap_after_mint:
  assumes "mint_of gc e = Some (u, met, n)" and "grower_clock e = Some now"
  shows "gap_kept u met now (fst (grow_cred_pool gc e))"
  using mint_ofD [OF assms(1)] assms(2) by (auto simp: gap_kept_def)

lemma paced_mints:
  assumes "clock_from now es" and "gap_kept t met now (fst gc)"
  shows "paced ((t, met, n) # mints gc es)"
  using assms
proof (induction es arbitrary: now t met n gc)
  case (Cons e es)
  let ?now = "case grower_clock e of None \<Rightarrow> now | Some u \<Rightarrow> u"
  have "clock_from ?now es" and "case grower_clock e of None \<Rightarrow> ?now = now | Some u \<Rightarrow> now \<le> u \<and> ?now = u"
    using Cons.prems(1) by (auto split: option.splits)
  note later = this(1) gap_step [OF Cons.prems(2) this(2)]
  show ?case
  proof (cases "mint_of gc e")
    case None
    then show ?thesis using Cons.IH [OF later] by simp
  next
    case (Some m)
    obtain u b k where m: "m = (u, b, k)" by (cases m)
    note mint = mint_ofD [OF Some [unfolded m]]
    then have "grower_clock e = Some u" by auto
    with Cons.IH [OF later(1), of u b "grow_cred_pool gc e" k] gap_after_mint [OF Some [unfolded m]]
    have "paced ((u, b, k) # mints (grow_cred_pool gc e) es)" by simp
    moreover have "t + mint_gap met \<le> u \<and> (met \<longrightarrow> b)"
      using Cons.prems mint by (auto simp: gap_kept_def)
    ultimately show ?thesis using Some m by simp
  qed
qed simp

text \<open>In the mode that fills fast, a mint is started below the target only.\<close>

lemma mint_below_target:
  assumes "mint_of gc e = Some (u, False, n)" and "0 < gr_target (fst gc)" and "pool_ok (snd gc)"
  shows "int n < gr_target (fst gc)"
  using assms
  by (cases gc) (auto simp: mint_of_def grow_run_def fill_begin_def Let_def split: grow_event.splits grow_pc.splits prod.splits fill_result.splits if_splits)


lemma pool_step_target:
  assumes "pool_ok cp" shows "cp_cold_start_target (pool_step cp e) = cp_cold_start_target cp"
proof (cases "is_seed e \<or> is_fill e")
  case True
  then show ?thesis
    by (cases e) (auto simp: seed_slot_def seed_write_def clear_duplicates_def fill_begin_def claim_for_fetch_def Let_def
        grow_to_def upd_slot_def broadcast_def save_to_disk_def reset_auth_errors_def split: option.split)
next
  case False
  with capped_step [OF assms] show ?thesis by (auto simp: capped_def)
qed

definition grower_ok :: "int \<Rightarrow> grower \<times> cred_pool \<Rightarrow> bool" where
  "grower_ok target = (\<lambda>(g, cp). pool_ok cp \<and> cp_cold_start_target cp = target
     \<and> (gr_pc g = Gr_boot \<or> gr_pc g = Gr_gone \<or> gr_target g = target))"

lemma grower_ok_step: "grower_ok target gc \<Longrightarrow> grower_ok target (grow_cred_pool gc e)"
proof -
  assume "grower_ok target gc"
  moreover obtain g cp where gc: "gc = (g, cp)" by (cases gc)
  ultimately have ok: "pool_ok cp" "cp_cold_start_target cp = target" "gr_pc g = Gr_boot \<or> gr_pc g = Gr_gone \<or> gr_target g = target"
    by (simp_all add: grower_ok_def)
  note fb = pool_step_target [OF ok(1), of "Ev_fill ev s a" for ev s a, simplified]
  note ff = pool_step_target [OF ok(1), of "Ev_fill_done ev s k res" for ev s k res, simplified]
  note pb = pool_ok_fill_begin [OF ok(1)] note pf = pool_ok_fill_finish [OF ok(1)]
  show ?thesis
  proof (cases e)
    case (Gv_run ev captcha r)
    show ?thesis
    proof (cases "gr_pc g")
      case (Gr_fill s)
      with Gv_run gc ok fb [of ev "int s" "if gr_met g then 0 else gr_target g"]
        pb [of ev "int s" "if gr_met g then 0 else gr_target g"] show ?thesis
        by (auto simp: grower_ok_def grow_run_def split: prod.splits fill_result.splits)
    qed (use Gv_run gc ok in \<open>auto simp: grower_ok_def grow_run_def pick_slot_to_fill_def Let_def split: option.split\<close>)
  next
    case (Gv_fetched ev res)
    show ?thesis
    proof (cases "gr_pc g")
      case (Gr_fetch s k)
      with Gv_fetched gc ok ff [of ev s k res] pf [of ev s k res] show ?thesis
        by (auto simp: grower_ok_def split: prod.splits)
    qed (use Gv_fetched gc ok in \<open>auto simp: grower_ok_def\<close>)
  next
    case (Gv_other pe)
    with gc ok pool_step_target [OF ok(1), of pe] pool_ok_step [OF ok(1), of pe] show ?thesis
      by (simp add: grower_ok_def)
  qed (use gc ok in \<open>auto simp: grower_ok_def split: grow_pc.split\<close>)
qed

lemma mints_below:
  assumes "grower_ok target gc" and "0 < target" and "(u, False, n) \<in> set (mints gc es)"
  shows "int n < target"
  using assms
proof (induction es arbitrary: gc)
  case (Cons e es)
  note later = Cons.IH [OF grower_ok_step [OF Cons.prems(1)] Cons.prems(2)]
  have "int n < target" if "mint_of gc e = Some (u, False, n)"
    using mint_below_target [OF that] mint_ofD [OF that] Cons.prems(1,2) by (auto simp: grower_ok_def split: prod.splits)
  with later Cons.prems(3) show ?case by (auto split: option.splits)
qed simp

lemma mints_paced:
  "clock_from now es \<Longrightarrow> paced (mints gc es)"
proof (induction es arbitrary: gc now)
  case (Cons e es)
  obtain now' where c: "clock_from now' es" using Cons.prems by (auto split: option.splits)
  show ?case
  proof (cases "mint_of gc e")
    case None
    with Cons.IH [OF c] show ?thesis by simp
  next
    case (Some m)
    obtain u b k where m: "m = (u, b, k)" by (cases m)
    from mint_ofD [OF Some [unfolded m]] have e: "grower_clock e = Some u" by auto
    with Cons.prems have "clock_from u es" by simp
    from paced_mints [OF this gap_after_mint [OF Some [unfolded m] e]] Some m show ?thesis by simp
  qed
qed simp

text \<open>
   the mints of the grower are paced. Over a clock that does not go back, whatever the other goroutines do to
  the pool and however the fetches end, two mints of the grower are at least two seconds apart and at least 120
  seconds once the target has been met; a mint of maintenance mode is never followed by one of the fast mode,
  and a mint of the fast mode is started only while fewer slots are available than the target.
\<close>

theorem grower_mints_paced:
  assumes "clock_from now es" and "pool_ok cp" and "0 < cp_cold_start_target cp"
  shows "paced (mints (new_grower, cp) es)
    \<and> list_all (\<lambda>(u, met, n). met \<or> int n < cp_cold_start_target cp) (mints (new_grower, cp) es)"
proof -
  have "grower_ok (cp_cold_start_target cp) (new_grower, cp)"
    using assms(2) by (simp add: grower_ok_def new_grower_def)
  note below = mints_below [OF this assms(3)]
  have "met \<or> int n < cp_cold_start_target cp" if "(u, met, n) \<in> set (mints (new_grower, cp) es)" for u met n
    using below [of u n es] that by (cases met) simp_all
  then show ?thesis using mints_paced [OF assms(1)] by (auto simp: list_all_iff)
qed


section \<open>How the target is reached\<close>

text \<open>
  A round of the grower that nothing disturbs: it arms the timer at \<open>t\<close>, and two seconds later picks, checks and
  starts a fill, whose fetch takes \<open>f\<close> and answers with a credential.
\<close>

definition with_clock :: "env \<Rightarrow> time \<Rightarrow> env" where
  "with_clock ev t = ev\<lparr>ev_now := t\<rparr>"

definition fill_round :: "env \<Rightarrow> time \<Rightarrow> duration \<times> bytes \<times> turn_creds \<Rightarrow> grow_event list" where
  "fill_round ev t = (\<lambda>(f, addr, c). let e = with_clock ev (t + 2 * second); e' = with_clock ev (t + 2 * second + f) in
     [Gv_run (with_clock ev t) [] 0, Gv_run e [] 0, Gv_run e [] 0, Gv_run e [] 0, Gv_run e [] 0, Gv_fetched e' (Inr (addr, c)), Gv_run e' [] 0])"

fun fill_rounds :: "env \<Rightarrow> time \<Rightarrow> (duration \<times> bytes \<times> turn_creds) list \<Rightarrow> grow_event list" where
  "fill_rounds ev t [] = []"
| "fill_rounds ev t (r # rs) = fill_round ev t r @ fill_rounds ev (t + 2 * second + fst r) rs"

definition rounds_end :: "time \<Rightarrow> (duration \<times> bytes \<times> turn_creds) list \<Rightarrow> time" where
  "rounds_end t rs = t + 2 * second * int (length rs) + sum_list (map fst rs)"

text \<open>The first \<open>k\<close> slots hold credentials that are good until \<open>h\<close>, the others are empty.\<close>

definition good_until :: "time \<Rightarrow> pool_entry \<Rightarrow> bool" where
  "good_until h e \<longleftrightarrow> (case pe_creds e of None \<Rightarrow> False | Some c \<Rightarrow> unexpired h c) \<and> pe_available_at e = 0
     \<and> pe_saturated_until e = 0"

definition filled_to :: "time \<Rightarrow> nat \<Rightarrow> cred_pool \<Rightarrow> bool" where
  "filled_to h k cp \<longleftrightarrow> length (cp_pool cp) = cp_size cp \<and> k \<le> cp_size cp
     \<and> (\<forall>i<k. good_until h (cp_pool cp ! i)) \<and> (\<forall>i. k \<le> i \<and> i < cp_size cp \<longrightarrow> cp_pool cp ! i = empty_entry)"

lemma unexpired_earlier: "unexpired h c \<Longrightarrow> now \<le> h \<Longrightarrow> unexpired now c"
  by (auto simp: unexpired_def split: option.splits)

lemma good_available: "good_until h e \<Longrightarrow> now \<le> h \<Longrightarrow> entry_is_available now e"
  by (auto simp: good_until_def entry_is_available_def entry_is_fresh_def unexpired_earlier split: option.splits)

lemma empty_not_available [simp]: "\<not> entry_is_available now empty_entry"
  by (simp add: entry_is_available_def entry_is_fresh_def empty_entry_def)

lemma filled_available:
  assumes "filled_to h k cp" and "now \<le> h"
  shows "count_available now cp = k"
proof -
  have "filter (\<lambda>i. entry_is_available now (cp_pool cp ! i)) [0..<length (cp_pool cp)] = [0..<k]"
  proof -
    have "[0..<length (cp_pool cp)] = [0..<k] @ [k..<length (cp_pool cp)]"
      using assms(1) by (metis filled_to_def le0 upt_add_eq_append le_add_diff_inverse)
    then show ?thesis using assms good_available
      by (auto simp: filled_to_def filter_empty_conv intro!: filter_True)
  qed
  moreover have "filter (entry_is_available now) (cp_pool cp)
      = map ((!) (cp_pool cp)) (filter (\<lambda>i. entry_is_available now (cp_pool cp ! i)) [0..<length (cp_pool cp)])"
    using filter_map [of "entry_is_available now" "(!) (cp_pool cp)" "[0..<length (cp_pool cp)]"]
    by (simp add: map_nth comp_def)
  ultimately show ?thesis by (simp add: count_available_def)
qed

lemma filled_pick:
  assumes "filled_to h k cp" and "k < cp_size cp" and "0 \<le> ev_now ev" and "ev_now ev \<le> h"
  shows "pick_slot_to_fill ev cp = (Some k, cp)"
proof -
  have grow: "grow_to (cp_size cp) cp = cp" using assms(1) by (simp add: filled_to_def)
  have fresh: "\<not> fetchable (ev_now ev) (cp_pool cp ! i)" if "i < k" for i
    using assms(1,4) that good_available [of h "cp_pool cp ! i" "ev_now ev"]
    by (auto simp: filled_to_def fetchable_def entry_is_available_def)
  have "fetchable (ev_now ev) (cp_pool cp ! k)"
    using assms by (simp add: filled_to_def fetchable_def entry_is_fresh_def entry_is_pending_def empty_entry_def)
  then have "List.find (\<lambda>i. fetchable (ev_now ev) (cp_pool cp ! i)) [0..<cp_size cp] = Some k"
    using fresh assms(2) by (auto simp: find_Some_iff)
  then show ?thesis by (simp add: pick_slot_to_fill_def Let_def grow)
qed

lemma filled_claim:
  assumes "filled_to h k cp" and "k < cp_size cp" and "0 \<le> ev_now ev" and "ev_now ev \<le> h" and "int k < a"
  shows "fill_begin ev (int k) a cp = (Fill_claimed (cp_next_gen cp + 1), snd (claim_for_fetch k cp))"
proof -
  have e: "cp_pool cp ! k = empty_entry" and l: "length (cp_pool cp) = cp_size cp"
    using assms(1,2) by (auto simp: filled_to_def)
  then show ?thesis using assms filled_available [OF assms(1,4)]
    by (simp add: fill_begin_def Let_def is_fresh_def e entry_is_fresh_def entry_is_pending_def empty_entry_def claim_for_fetch_def)
qed

lemma filled_store:
  assumes "filled_to h k cp" and "k < cp_size cp" and "unexpired h c"
  shows "\<exists>cp'. fill_finish ev k (cp_next_gen cp + 1) (Inr (addr, c)) (snd (claim_for_fetch k cp)) = (True, cp')
     \<and> filled_to h (Suc k) cp' \<and> cp_size cp' = cp_size cp \<and> cp_cold_start_target cp' = cp_cold_start_target cp"
  using assms
  by (auto simp: fill_finish_def claim_for_fetch_def owns_def Let_def filled_to_def good_until_def filled_entry_def
      empty_entry_def upd_slot_def broadcast_def save_to_disk_def reset_auth_errors_def nth_list_update less_Suc_eq)

lemma fill_round_fills:
  assumes "filled_to h k cp" and "k < cp_size cp" and "int k < gr_target g" and "gr_pc g = Gr_top (2 * second)" and "\<not> gr_met g"
    and "0 \<le> t" and "0 \<le> f" and "t + 2 * second + f \<le> h" and "unexpired h c"
  shows "\<exists>g' cp'. run grow_cred_pool (g, cp) (fill_round ev t (f, addr, c)) = (g', cp') \<and> filled_to h (Suc k) cp'
    \<and> cp_size cp' = cp_size cp \<and> gr_target g' = gr_target g \<and> gr_met g' = (gr_target g \<le> int (Suc k))
    \<and> (gr_met g' \<or> gr_pc g' = Gr_top (2 * second))"
proof -
  define e where "e = with_clock ev (t + 2 * second)"
  define e' where "e' = with_clock ev (t + 2 * second + f)"
  have now [simp]: "ev_now e = t + 2 * second" "ev_now e' = t + 2 * second + f" by (simp_all add: e_def e'_def with_clock_def)
  have pick: "pick_slot_to_fill e cp = (Some k, cp)"
    using filled_pick [OF assms(1,2), of e] assms by simp
  have check: "\<not> target_met e g' cp" if "gr_target g' = gr_target g" for g'
    using filled_available [OF assms(1), of "t + 2 * second"] assms that by (simp add: target_met_def snapshot_size_def)
  have claim: "fill_begin e (int k) (gr_target g) cp = (Fill_claimed (cp_next_gen cp + 1), snd (claim_for_fetch k cp))"
    using filled_claim [OF assms(1,2), of e] assms by simp
  obtain cp' where store: "fill_finish e' k (cp_next_gen cp + 1) (Inr (addr, c)) (snd (claim_for_fetch k cp)) = (True, cp')"
    and cp': "filled_to h (Suc k) cp'" "cp_size cp' = cp_size cp"
    using filled_store [OF assms(1,2,9), of e' addr] by blast
  have after: "target_met e' g' cp' \<longleftrightarrow> gr_target g \<le> int (Suc k)" if "gr_target g' = gr_target g" for g'
    using filled_available [OF cp'(1), of "t + 2 * second + f"] assms that by (simp add: target_met_def snapshot_size_def)
  let ?k = "cp_next_gen cp + 1" and ?met = "gr_target g \<le> int (Suc k)"
  have "grow_cred_pool (g, cp) (Gv_run (with_clock ev t) [] 0) = (g\<lparr>gr_pc := Gr_wait (t + 2 * second)\<rparr>, cp)"
    using assms(4) by (simp add: grow_run_def with_clock_def)
  moreover have "grow_cred_pool (g\<lparr>gr_pc := Gr_wait (t + 2 * second)\<rparr>, cp) (Gv_run e [] 0) = (g\<lparr>gr_pc := Gr_pick\<rparr>, cp)"
    by (simp add: grow_run_def)
  moreover have "grow_cred_pool (g\<lparr>gr_pc := Gr_pick\<rparr>, cp) (Gv_run e [] 0) = (g\<lparr>gr_pc := Gr_check k\<rparr>, cp)"
    by (simp add: grow_run_def pick)
  moreover have "grow_cred_pool (g\<lparr>gr_pc := Gr_check k\<rparr>, cp) (Gv_run e [] 0) = (g\<lparr>gr_pc := Gr_fill k, gr_met := False\<rparr>, cp)"
    using assms(5) by (simp add: grow_run_def check)
  moreover have "grow_cred_pool (g\<lparr>gr_pc := Gr_fill k, gr_met := False\<rparr>, cp) (Gv_run e [] 0)
      = (g\<lparr>gr_pc := Gr_fetch k ?k, gr_met := False\<rparr>, snd (claim_for_fetch k cp))"
    by (simp add: grow_run_def claim)
  moreover have "grow_cred_pool (g\<lparr>gr_pc := Gr_fetch k ?k, gr_met := False\<rparr>, snd (claim_for_fetch k cp)) (Gv_fetched e' (Inr (addr, c)))
      = (g\<lparr>gr_pc := Gr_after True, gr_met := False\<rparr>, cp')"
    by (simp add: store)
  moreover have "grow_cred_pool (g\<lparr>gr_pc := Gr_after True, gr_met := False\<rparr>, cp') (Gv_run e' [] 0)
      = (g\<lparr>gr_pc := Gr_top (if ?met then 120 * second + int63n 0 (180 * second) else 2 * second), gr_met := ?met\<rparr>, cp')"
    by (simp add: grow_run_def after del: of_nat_Suc)
  ultimately have "run grow_cred_pool (g, cp) (fill_round ev t (f, addr, c))
      = (g\<lparr>gr_pc := Gr_top (if ?met then 120 * second + int63n 0 (180 * second) else 2 * second), gr_met := ?met\<rparr>, cp')"
    by (simp only: fill_round_def Let_def split run.simps e_def [symmetric] e'_def [symmetric])
  moreover obtain g' where "g' = g\<lparr>gr_pc := Gr_top (if ?met then 120 * second + int63n 0 (180 * second) else 2 * second), gr_met := ?met\<rparr>"
    by blast
  ultimately have "run grow_cred_pool (g, cp) (fill_round ev t (f, addr, c)) = (g', cp')"
    and "gr_target g' = gr_target g" and "gr_met g' = ?met" and "gr_met g' \<or> gr_pc g' = Gr_top (2 * second)"
    by simp_all
  with cp' show ?thesis by blast
qed


lemma fill_rounds_fill:
  assumes "filled_to h k cp" and "k + length rs = nat (gr_target g)" and "int k < gr_target g" and "gr_target g \<le> int (cp_size cp)"
    and "gr_pc g = Gr_top (2 * second)" and "\<not> gr_met g"
    and "0 \<le> t" and "list_all (\<lambda>(f, addr, c). 0 \<le> f \<and> unexpired h c) rs" and "rounds_end t rs \<le> h"
  shows "\<exists>g' cp'. run grow_cred_pool (g, cp) (fill_rounds ev t rs) = (g', cp') \<and> gr_met g'
    \<and> filled_to h (nat (gr_target g)) cp'"
  using assms
proof (induction rs arbitrary: k cp g t)
  case (Cons r rs)
  obtain f addr c where r: "r = (f, addr, c)" by (cases r)
  have "0 \<le> sum_list (map fst rs)" using Cons.prems(8) by (intro sum_list_nonneg) (auto simp: list_all_iff)
  with Cons.prems(9) r have "t + 2 * second + f \<le> h" by (simp add: rounds_end_def algebra_simps)
  moreover have "k < cp_size cp" using Cons.prems(3,4) by linarith
  ultimately obtain g' cp' where one: "run grow_cred_pool (g, cp) (fill_round ev t (f, addr, c)) = (g', cp')"
    and f: "filled_to h (Suc k) cp'" and same: "cp_size cp' = cp_size cp" "gr_target g' = gr_target g"
    and met: "gr_met g' = (gr_target g \<le> int (Suc k))" "gr_met g' \<or> gr_pc g' = Gr_top (2 * second)"
    using fill_round_fills [of h k cp g t f c ev addr] Cons.prems(1,3,5,6,7,8) r by auto
  have all: "run grow_cred_pool (g, cp) (fill_rounds ev t (r # rs)) = run grow_cred_pool (g', cp') (fill_rounds ev (t + 2 * second + f) rs)"
    using one by (simp add: run_append r)
  show ?case
  proof (cases rs)
    case Nil
    then have "nat (gr_target g) = Suc k" using Cons.prems(2) by simp
    moreover from this have "gr_target g \<le> int (Suc k)" by linarith
    ultimately show ?thesis using all one f met(1) Nil by auto
  next
    case (Cons r' rs')
    have len: "Suc k + length rs = nat (gr_target g')" using Cons.prems(2) same by simp
    then have lt: "int (Suc k) < gr_target g'" using Cons by simp
    have pc: "gr_pc g' = Gr_top (2 * second)" "\<not> gr_met g'" using met lt same by auto
    have fits: "gr_target g' \<le> int (cp_size cp')" using same \<open>gr_target g \<le> int (cp_size cp)\<close> by simp
    have ends: "rounds_end (t + 2 * second + f) rs \<le> h" using Cons.prems(9) r by (simp add: rounds_end_def algebra_simps)
    have good: "0 \<le> t + 2 * second + f" "list_all (\<lambda>(f, addr, c). 0 \<le> f \<and> unexpired h c) rs"
      using Cons.prems(7,8) r by auto
    from Cons.IH [OF f len lt fits pc good ends] show ?thesis unfolding all same .
  qed
qed (simp split: if_splits)

lemma new_pool_unfilled:
  "1 \<le> sz \<Longrightarrow> filled_to h 0 (new_cred_pool ev sz cd False None)"
  by (simp add: new_cred_pool_def filled_to_def Let_def)

text \<open>
  C30: the grower makes a cold pool usable by itself. Once the bootstrap is over, on an empty pool sized for \<open>n\<close>
  connections, with fetches that succeed with credentials good to the end, it has met the target after as many
  rounds as the target says, each two seconds and a fetch long, and then as many slots are available as are needed
  to seat the \<open>n\<close> connections at ten each.
\<close>

theorem grower_reaches_target:
  assumes "1 \<le> n" and "sz = pool_size_for_num_conns n" and "int (length rs) = cold_start_target_for n sz"
    and "0 \<le> t" and "list_all (\<lambda>(f, addr, c). 0 \<le> f \<and> unexpired (rounds_end t rs) c) rs"
  shows "case run grow_cred_pool (new_grower, set_cold_start_target n (new_cred_pool ev sz cd False None)) (Gv_boot None # fill_rounds ev t rs) of
    (g, cp) \<Rightarrow> gr_met g \<and> int (count_available (rounds_end t rs) cp) = cold_start_target_for n sz
      \<and> n \<le> 10 * int (count_available (rounds_end t rs) cp)"
proof -
  let ?h = "rounds_end t rs" and ?cp = "set_cold_start_target n (new_cred_pool ev sz cd False None)"
  let ?g = "new_grower\<lparr>gr_pc := Gr_top (2 * second), gr_target := cp_cold_start_target ?cp, gr_met := False\<rparr>"
  note hosts = cold_start_target_hosts [OF assms(1,2)]
  have sz: "1 \<le> sz" using hosts(3,4) by linarith
  then have size: "int (cp_size ?cp) = sz" by (simp add: set_cold_start_target_def)
  have target: "gr_target ?g = cold_start_target_for n sz" using sz by (simp add: set_cold_start_target_def)
  have "filled_to ?h 0 ?cp" using new_pool_unfilled [OF sz, of ?h ev cd] by (simp add: filled_to_def set_cold_start_target_def)
  moreover have "0 + length rs = nat (gr_target ?g)" "int 0 < gr_target ?g" "gr_target ?g \<le> int (cp_size ?cp)"
    using assms(3) hosts(3,4) unfolding target size by simp_all
  moreover have "gr_pc ?g = Gr_top (2 * second)" "\<not> gr_met ?g" by simp_all
  ultimately obtain g' cp' where r: "run grow_cred_pool (?g, ?cp) (fill_rounds ev t rs) = (g', cp')" "gr_met g'"
    and f: "filled_to ?h (nat (gr_target ?g)) cp'"
    using fill_rounds_fill [OF _ _ _ _ _ _ assms(4,5) order_refl, of 0 ?cp ?g ev] by blast
  have "int (count_available ?h cp') = cold_start_target_for n sz"
    using filled_available [OF f, of ?h] hosts(4) target by simp
  then show ?thesis using r hosts(1) by (simp add: new_grower_def)
qed


text \<open>A pool for ten connections has two slots and the target one; \<open>cred_b\<close> is good for sixteen hours.\<close>

lemma grower_reaches_target_witness:
  "case run grow_cred_pool (new_grower, set_cold_start_target 10 (new_cred_pool (at 0) 4 0 False None))
      (Gv_boot None # fill_rounds (at 0) (day 0) [(second, ascii ''r:1'', cred_b)]) of
    (g, cp) \<Rightarrow> gr_met g \<and> int (count_available (rounds_end (day 0) [(second, ascii ''r:1'', cred_b)]) cp) = cold_start_target_for 10 4
      \<and> 10 \<le> 10 * int (count_available (rounds_end (day 0) [(second, ascii ''r:1'', cred_b)]) cp)"
proof (rule grower_reaches_target)
  show "4 = pool_size_for_num_conns 10" and "int (length [(second, ascii ''r:1'', cred_b)]) = cold_start_target_for 10 4"
    by code_simp+
  show "0 \<le> day 0" by (simp add: day_def)
  show "list_all (\<lambda>(f, addr, c). 0 \<le> f \<and> unexpired (rounds_end (day 0) [(second, ascii ''r:1'', cred_b)]) c) [(second, ascii ''r:1'', cred_b)]"
    by code_simp
qed simp

text \<open>The grower of a pool whose only credential has expired, over one round.\<close>

lemma grower_mints_paced_witness:
  "paced (mints (new_grower, example_pool) (Gv_boot None # fill_round (at 0) (day 27100) (second, ascii ''r:1'', cred_b)))
    \<and> list_all (\<lambda>(u, met, n). met \<or> int n < cp_cold_start_target example_pool)
        (mints (new_grower, example_pool) (Gv_boot None # fill_round (at 0) (day 27100) (second, ascii ''r:1'', cred_b)))"
proof (rule grower_mints_paced)
  show "clock_from (day 0) (Gv_boot None # fill_round (at 0) (day 27100) (second, ascii ''r:1'', cred_b))"
    by (simp add: fill_round_def with_clock_def day_def Let_def)
  show "pool_ok example_pool" by (rule pool_ok_example)
  show "0 < cp_cold_start_target example_pool" by code_simp
qed

section \<open>The check before the fill\<close>

text \<open>
  When connections have reached the target before the grower's first fill, the check before the fill notices it
  and the fill is made all the same, in the same turn and without its guard.
\<close>

theorem grower_fills_when_met:
  assumes "gr_pc g = Gr_check s" and "target_met ev g cp" and "pool_ok cp" and "s < cp_size cp"
    and "fetchable (ev_now ev) (cp_pool cp ! s)"
  shows "\<exists>k g' cp'. run grow_cred_pool (g, cp) [Gv_run ev [] 0, Gv_run ev [] 0] = (g', cp')
    \<and> gr_pc g' = Gr_fetch s k \<and> gr_met g'"
  using assms
  by (simp add: grow_run_def fill_begin_def is_fresh_def fetchable_def Let_def split: prod.split fill_result.split)

end
