(* ===== verification/VkApi.thy ===== *)
theory VkApi
  imports Sessions Complex_Main
begin

text \<open>
  How an anonymous TURN credential is minted from VK: \<^verbatim>\<open>GetVKCreds\<close> and \<^verbatim>\<open>getVKCredsWithClientID\<close> of
  \<^verbatim>\<open>src/pkg/proxy/creds.go\<close>, \<^verbatim>\<open>getVKCredsViaVKCallsPath\<close> of \<^verbatim>\<open>src/pkg/proxy/creds_vkcalls.go\<close> and the
  session client they share (\<^verbatim>\<open>captcha_pow.go\<close>). The code asks, and goes on according to the answers: it is
  a tree of questions (\<open>mint\<close>), whose paths are its runs. A request is its endpoint and its parameters as
  values; their URL encoding is not modelled. An answer is the decoded JSON object or the text of the error; the
  solver of proof-of-work captchas and the user who solves the others only answer here.
\<close>

section \<open>JSON answers\<close>

text \<open>
  A decoded value. A number is its exact value, never a negative zero. The text \<^verbatim>\<open>null\<close> decodes to an object
  without members at the top, as Go's nil map behaves.
\<close>

datatype json = Null | Bool bool | Num real | Str bytes | Arr "json list" | Obj "(bytes \<times> json) list"

definition field :: "bytes \<Rightarrow> json \<Rightarrow> json" where
  "field k j = (case j of Obj fs \<Rightarrow> (case map_of fs k of None \<Rightarrow> Null | Some v \<Rightarrow> v) | _ \<Rightarrow> Null)"

definition key :: "string \<Rightarrow> json \<Rightarrow> json" where
  "key k = field (ascii k)"

fun type_name :: "json \<Rightarrow> string" where
  "type_name Null = ''<nil>''"
| "type_name (Bool b) = ''bool''"
| "type_name (Num x) = ''float64''"
| "type_name (Str s) = ''string''"
| "type_name (Arr xs) = ''[]interface {}''"
| "type_name (Obj fs) = ''map[string]interface {}''"

text \<open>\<^verbatim>\<open>extractStr\<close>, \<^verbatim>\<open>extractStrFromResp\<close>, \<^verbatim>\<open>extractFloatFromResp\<close>: walk the keys, then look at the leaf.\<close>

fun walk :: "string list \<Rightarrow> json \<Rightarrow> bytes + json" where
  "walk [] cur = Inr cur"
| "walk (k # ks) cur = (case cur of
     Obj fs \<Rightarrow> walk ks (key k cur)
   | _ \<Rightarrow> Inl (ascii (''expected map at key '' @ [CHR 0x22] @ k @ [CHR 0x22] @ '', got '' @ type_name cur)))"

definition extract_str :: "string list \<Rightarrow> json \<Rightarrow> bytes + bytes" where
  "extract_str ks resp = (case walk ks resp of
     Inl e \<Rightarrow> Inl e
   | Inr (Str s) \<Rightarrow> Inr s
   | Inr v \<Rightarrow> Inl (ascii (''expected string at end of path, got '' @ type_name v)))"

definition extract_float :: "string list \<Rightarrow> json \<Rightarrow> bytes + real" where
  "extract_float ks resp = (case walk ks resp of
     Inl e \<Rightarrow> Inl e
   | Inr (Num x) \<Rightarrow> Inr x
   | Inr v \<Rightarrow> Inl (ascii (''expected float64 at end of path, got '' @ type_name v)))"

text \<open>\<^verbatim>\<open>int(f)\<close> for a number in range, and the verb \<^verbatim>\<open>%.0f\<close>.\<close>

definition trunc :: "real \<Rightarrow> int" where
  "trunc x = (if x < 0 then \<lceil>x\<rceil> else \<lfloor>x\<rfloor>)"

definition round_even :: "real \<Rightarrow> int" where
  "round_even x = (let n = \<lfloor>x\<rfloor>; d = x - of_int n in
     if d < 1 / 2 then n else if 1 / 2 < d then n + 1 else if even n then n else n + 1)"

definition fmt0 :: "real \<Rightarrow> bytes" where
  "fmt0 x = itoa (round_even x)"

fun str_or_empty :: "json \<Rightarrow> bytes" where
  "str_or_empty (Str s) = s"
| "str_or_empty _ = []"

fun num_or_zero :: "json \<Rightarrow> real" where
  "num_or_zero (Num x) = x"
| "num_or_zero _ = 0"

fun is_obj :: "json \<Rightarrow> bool" where
  "is_obj (Obj fs) = True"
| "is_obj _ = False"

section \<open>What an error answer says\<close>

text \<open>\<^verbatim>\<open>fatalCallError\<close>: the code and VK's text.\<close>

definition fatal_call_error :: "json \<Rightarrow> (int \<times> bytes) option" where
  "fatal_call_error resp =
     (let e = key ''error'' resp; code = trunc (num_or_zero (key ''error_code'' e)) in
      if \<not> is_obj e then None
      else if code = 951 \<or> code = 954 \<or> 9000 \<le> code \<and> code \<le> 9999
      then Some (code, str_or_empty (key ''error_msg'' e)) else None)"

record captcha =
  ch_sid :: bytes
  ch_url :: bytes
  ch_ts :: real
  ch_attempt :: real

definition no_captcha :: captcha where
  "no_captcha = \<lparr>ch_sid = [], ch_url = [], ch_ts = 0, ch_attempt = 0\<rparr>"

definition captcha_sid :: "json \<Rightarrow> bytes" where
  "captcha_sid j = (case j of Str s \<Rightarrow> s | Num x \<Rightarrow> fmt0 x | _ \<Rightarrow> [])"

definition extract_captcha :: "json \<Rightarrow> captcha" where
  "extract_captcha resp =
     (let e = key ''error'' resp in
      if \<not> is_obj e \<or> trunc (num_or_zero (key ''error_code'' e)) \<noteq> 14 then no_captcha
      else
        let uri = str_or_empty (key ''redirect_uri'' e); attempt = num_or_zero (key ''captcha_attempt'' e)
        in \<lparr>ch_sid = captcha_sid (key ''captcha_sid'' e),
            ch_url = (if uri \<noteq> [] then uri else str_or_empty (key ''captcha_img'' e)),
            ch_ts = num_or_zero (key ''captcha_ts'' e),
            ch_attempt = (if attempt = 0 then 1 else attempt)\<rparr>)"

text \<open>\<^verbatim>\<open>nextEmptyShowHint\<close>\<close>

definition next_empty_show_hint :: "bool \<Rightarrow> bytes \<Rightarrow> nat \<Rightarrow> nat" where
  "next_empty_show_hint reached show_type n =
     (if show_type \<noteq> [] then 0 else if \<not> reached then n else n + 1)"

definition trim_prefix :: "bytes \<Rightarrow> bytes \<Rightarrow> bytes" where
  "trim_prefix p s = (case cut_prefix p s of None \<Rightarrow> s | Some r \<Rightarrow> r)"

text \<open>One element of \<^verbatim>\<open>turn_server.urls\<close>, and the list: elements that are not strings are skipped.\<close>

definition turn_addr :: "bytes \<Rightarrow> bytes" where
  "turn_addr s = trim_prefix (ascii ''turns:'') (trim_prefix (ascii ''turn:'') (hd (split_on 0x3f s)))"

definition turn_addrs :: "json list \<Rightarrow> bytes list" where
  "turn_addrs us = concat (map (\<lambda>u. case u of Str s \<Rightarrow> [turn_addr s] | _ \<Rightarrow> []) us)"

definition parse_turn_addresses :: "json \<Rightarrow> bytes list" where
  "parse_turn_addresses resp = (case key ''turn_server'' resp of
     Obj fs \<Rightarrow> (case key ''urls'' (Obj fs) of Arr us \<Rightarrow> turn_addrs us | _ \<Rightarrow> [])
   | _ \<Rightarrow> [])"

section \<open>Errors of the network\<close>

definition transient_texts :: "string list" where
  "transient_texts = [''no such host'', ''connection refused'', ''network is unreachable'', ''no route to host'',
     ''read: can'' @ [CHR 0x27] @ ''t assign requested address'', ''write: can'' @ [CHR 0x27] @ ''t assign requested address'',
     ''i/o timeout'', ''deadline exceeded'', ''connection reset'']"

definition is_transient_network_error :: "bytes \<Rightarrow> bool" where
  "is_transient_network_error s \<longleftrightarrow> list_ex (\<lambda>k. contains (ascii k) s) transient_texts"

definition network_error_kinds :: "string list" where
  "network_error_kinds = [''can'' @ [CHR 0x27] @ ''t assign requested address'', ''use of closed network connection'',
     ''context deadline exceeded'', ''Client.Timeout exceeded'', ''connection reset by peer'', ''broken pipe'',
     ''unexpected EOF'', ''http2: client connection'', ''http2: server sent GOAWAY'']"

definition is_network_class_error :: "bytes \<Rightarrow> bool" where
  "is_network_class_error s \<longleftrightarrow> is_transient_network_error s \<or> list_ex (\<lambda>k. contains (ascii k) s) network_error_kinds"

text \<open>\<^verbatim>\<open>networkErrorKind\<close>, the name of the error in the log.\<close>

definition network_error_kind :: "bytes \<Rightarrow> bytes" where
  "network_error_kind s =
     (case List.find (\<lambda>k. contains (ascii k) s)
        (network_error_kinds @ [''no such host'', ''connection refused'', ''network is unreachable'', ''no route to host'', ''i/o timeout'']) of
        Some k \<Rightarrow> ascii k | None \<Rightarrow> ascii ''network error'')"


section \<open>Programs that ask\<close>

record request =
  rq_url :: bytes
  rq_params :: "(bytes \<times> bytes) list"

definition req :: "bytes \<Rightarrow> (string \<times> bytes) list \<Rightarrow> request" where
  "req url ps = \<lparr>rq_url = url, rq_params = map (\<lambda>(k, v). (ascii k, v)) ps\<rparr>"

text \<open>
  The draws of one fetch: the name, the device ids (\<open>id_ok_device\<close> is the one OK sees), and with them a client
  with an empty cookie jar. What a request that failed sees of the session client: whether a request ever
  completed on its holder, whether the holder is still the current one, whether a rotation gives a holder at all.
\<close>

record identity =
  id_name :: bytes
  id_device :: bytes
  id_ok_device :: bytes

record client_view =
  cv_used :: bool
  cv_current :: bool
  cv_fresh :: bool

text \<open>\<open>pw_reached\<close>: VK answered the attempt.\<close>

record pow_answer =
  pw_token :: bytes
  pw_show_type :: bytes
  pw_reached :: bool
  pw_err :: "bytes option"

datatype 'a mint =
    Return 'a
  | Identity "identity \<Rightarrow> 'a mint"
  | Shuffled "(nat \<Rightarrow> nat) \<Rightarrow> 'a mint"
  | Look "client_view \<Rightarrow> 'a mint"
  | Post request "bytes + json \<Rightarrow> 'a mint"
  | Pow bytes bytes "pow_answer \<Rightarrow> 'a mint"
  | Solve bytes "bytes + bytes \<Rightarrow> 'a mint"
  | Sleep duration "'a mint"

datatype mint_event =
    Ev_identity identity
  | Ev_shuffle "nat \<Rightarrow> nat"
  | Ev_look client_view
  | Ev_post request "bytes + json"
  | Ev_pow bytes bytes pow_answer
  | Ev_solve bytes "bytes + bytes"
  | Ev_sleep duration

primrec bind :: "'a mint \<Rightarrow> ('a \<Rightarrow> 'b mint) \<Rightarrow> 'b mint" where
  "bind (Return a) f = f a"
| "bind (Identity k) f = Identity (\<lambda>i. bind (k i) f)"
| "bind (Shuffled k) f = Shuffled (\<lambda>d. bind (k d) f)"
| "bind (Look k) f = Look (\<lambda>v. bind (k v) f)"
| "bind (Post q k) f = Post q (\<lambda>r. bind (k r) f)"
| "bind (Pow u s k) f = Pow u s (\<lambda>a. bind (k a) f)"
| "bind (Solve u k) f = Solve u (\<lambda>a. bind (k a) f)"
| "bind (Sleep d p) f = Sleep d (bind p f)"

definition bind_ok :: "('e + 'a) mint \<Rightarrow> ('a \<Rightarrow> ('e + 'b) mint) \<Rightarrow> ('e + 'b) mint" where
  "bind_ok p f = bind p (\<lambda>r. case r of Inl e \<Rightarrow> Return (Inl e) | Inr a \<Rightarrow> f a)"

text \<open>The runs: what was asked and answered, and what came out.\<close>

inductive path :: "'a mint \<Rightarrow> mint_event list \<Rightarrow> 'a \<Rightarrow> bool" where
  "path (Return a) [] a"
| "path (k i) tr a \<Longrightarrow> path (Identity k) (Ev_identity i # tr) a"
| "path (k d) tr a \<Longrightarrow> path (Shuffled k) (Ev_shuffle d # tr) a"
| "path (k v) tr a \<Longrightarrow> path (Look k) (Ev_look v # tr) a"
| "path (k r) tr a \<Longrightarrow> path (Post q k) (Ev_post q r # tr) a"
| "path (k w) tr a \<Longrightarrow> path (Pow u s k) (Ev_pow u s w # tr) a"
| "path (k r) tr a \<Longrightarrow> path (Solve u k) (Ev_solve u r # tr) a"
| "path p tr a \<Longrightarrow> path (Sleep d p) (Ev_sleep d # tr) a"

inductive_simps path_simps [simp]:
  "path (Return x) tr a" "path (Identity k) tr a" "path (Shuffled k) tr a" "path (Look k) tr a"
  "path (Post q k) tr a" "path (Pow u s k) tr a" "path (Solve u k) tr a" "path (Sleep d p) tr a"

lemma path_bindI: "path p tr1 a \<Longrightarrow> path (f a) tr2 b \<Longrightarrow> path (bind p f) (tr1 @ tr2) b"
  by (induction rule: path.induct) auto

lemma path_bindE: "path (bind p f) tr b \<Longrightarrow> \<exists>tr1 tr2 a. tr = tr1 @ tr2 \<and> path p tr1 a \<and> path (f a) tr2 b"
proof (induction p arbitrary: tr)
  case (Identity k)
  then obtain x tr' where x: "tr = Ev_identity x # tr'" "path (bind (k x) f) tr' b" by auto
  from Identity.IH [OF rangeI x(2)] obtain tr1 tr2 a where "tr' = tr1 @ tr2" "path (k x) tr1 a" "path (f a) tr2 b" by blast
  with x(1) have "tr = (Ev_identity x # tr1) @ tr2" "path (Identity k) (Ev_identity x # tr1) a" "path (f a) tr2 b" by auto
  then show ?case by blast
next
  case (Shuffled k)
  then obtain x tr' where x: "tr = Ev_shuffle x # tr'" "path (bind (k x) f) tr' b" by auto
  from Shuffled.IH [OF rangeI x(2)] obtain tr1 tr2 a where "tr' = tr1 @ tr2" "path (k x) tr1 a" "path (f a) tr2 b" by blast
  with x(1) have "tr = (Ev_shuffle x # tr1) @ tr2" "path (Shuffled k) (Ev_shuffle x # tr1) a" "path (f a) tr2 b" by auto
  then show ?case by blast
next
  case (Look k)
  then obtain x tr' where x: "tr = Ev_look x # tr'" "path (bind (k x) f) tr' b" by auto
  from Look.IH [OF rangeI x(2)] obtain tr1 tr2 a where "tr' = tr1 @ tr2" "path (k x) tr1 a" "path (f a) tr2 b" by blast
  with x(1) have "tr = (Ev_look x # tr1) @ tr2" "path (Look k) (Ev_look x # tr1) a" "path (f a) tr2 b" by auto
  then show ?case by blast
next
  case (Post q k)
  then obtain x tr' where x: "tr = Ev_post q x # tr'" "path (bind (k x) f) tr' b" by auto
  from Post.IH [OF rangeI x(2)] obtain tr1 tr2 a where "tr' = tr1 @ tr2" "path (k x) tr1 a" "path (f a) tr2 b" by blast
  with x(1) have "tr = (Ev_post q x # tr1) @ tr2" "path (Post q k) (Ev_post q x # tr1) a" "path (f a) tr2 b" by auto
  then show ?case by blast
next
  case (Pow u s k)
  then obtain x tr' where x: "tr = Ev_pow u s x # tr'" "path (bind (k x) f) tr' b" by auto
  from Pow.IH [OF rangeI x(2)] obtain tr1 tr2 a where "tr' = tr1 @ tr2" "path (k x) tr1 a" "path (f a) tr2 b" by blast
  with x(1) have "tr = (Ev_pow u s x # tr1) @ tr2" "path (Pow u s k) (Ev_pow u s x # tr1) a" "path (f a) tr2 b" by auto
  then show ?case by blast
next
  case (Solve u k)
  then obtain x tr' where x: "tr = Ev_solve u x # tr'" "path (bind (k x) f) tr' b" by auto
  from Solve.IH [OF rangeI x(2)] obtain tr1 tr2 a where "tr' = tr1 @ tr2" "path (k x) tr1 a" "path (f a) tr2 b" by blast
  with x(1) have "tr = (Ev_solve u x # tr1) @ tr2" "path (Solve u k) (Ev_solve u x # tr1) a" "path (f a) tr2 b" by auto
  then show ?case by blast
next
  case (Sleep d p)
  then obtain tr' where x: "tr = Ev_sleep d # tr'" "path (bind p f) tr' b" by auto
  from Sleep.IH [OF x(2)] obtain tr1 tr2 a where "tr' = tr1 @ tr2" "path p tr1 a" "path (f a) tr2 b" by blast
  with x(1) have "tr = (Ev_sleep d # tr1) @ tr2" "path (Sleep d p) (Ev_sleep d # tr1) a" "path (f a) tr2 b" by auto
  then show ?case by blast
qed auto

lemma path_bind: "path (bind p f) tr b \<longleftrightarrow> (\<exists>tr1 tr2 a. tr = tr1 @ tr2 \<and> path p tr1 a \<and> path (f a) tr2 b)"
  by (rule iffI, erule path_bindE) (elim exE conjE, simp add: path_bindI)

text \<open>Every program has a run, so what holds of all its runs is not void.\<close>

lemma path_exists: "\<exists>tr a. path p tr a"
proof (induction p)
  case (Identity k) then show ?case by (auto; meson rangeI)
next
  case (Shuffled k) then show ?case by (auto; meson rangeI)
next
  case (Look k) then show ?case by (auto; meson rangeI)
next
  case (Post q k) then show ?case by (auto; meson rangeI)
next
  case (Pow u s k) then show ?case by (auto; meson rangeI)
next
  case (Solve u k) then show ?case by (auto; meson rangeI)
qed auto

text \<open>
  A rule per construct for what holds of all runs: \<open>Q\<close> of the trace so far and the result.
\<close>

definition spec :: "'a mint \<Rightarrow> (mint_event list \<Rightarrow> 'a \<Rightarrow> bool) \<Rightarrow> bool" where
  "spec p Q \<longleftrightarrow> (\<forall>tr a. path p tr a \<longrightarrow> Q tr a)"

lemma specD: "spec p Q \<Longrightarrow> path p tr a \<Longrightarrow> Q tr a"
  by (simp add: spec_def)

lemma spec_simps [simp]:
  "spec (Return x) Q \<longleftrightarrow> Q [] x"
  "spec (Identity ki) Q \<longleftrightarrow> (\<forall>i. spec (ki i) (\<lambda>tr. Q (Ev_identity i # tr)))"
  "spec (Shuffled kd) Q \<longleftrightarrow> (\<forall>d. spec (kd d) (\<lambda>tr. Q (Ev_shuffle d # tr)))"
  "spec (Look kv) Q \<longleftrightarrow> (\<forall>v. spec (kv v) (\<lambda>tr. Q (Ev_look v # tr)))"
  "spec (Post q kq) Q \<longleftrightarrow> (\<forall>r. spec (kq r) (\<lambda>tr. Q (Ev_post q r # tr)))"
  "spec (Pow u s kw) Q \<longleftrightarrow> (\<forall>w. spec (kw w) (\<lambda>tr. Q (Ev_pow u s w # tr)))"
  "spec (Solve u ks) Q \<longleftrightarrow> (\<forall>r. spec (ks r) (\<lambda>tr. Q (Ev_solve u r # tr)))"
  "spec (Sleep d p) Q \<longleftrightarrow> spec p (\<lambda>tr. Q (Ev_sleep d # tr))"
  by (auto simp: spec_def)

lemma spec_bind: "spec (bind p f) Q \<longleftrightarrow> spec p (\<lambda>tr a. spec (f a) (\<lambda>tr'. Q (tr @ tr')))"
  unfolding spec_def path_bind by blast

lemma spec_mono: "spec p Q \<Longrightarrow> (\<And>tr a. Q tr a \<Longrightarrow> R tr a) \<Longrightarrow> spec p R"
  by (auto simp: spec_def)

lemma spec_bind_ok:
  "spec (bind_ok p f) Q \<longleftrightarrow>
     spec p (\<lambda>tr r. case r of Inl e \<Rightarrow> Q tr (Inl e) | Inr a \<Rightarrow> spec (f a) (\<lambda>tr'. Q (tr @ tr')))"
  unfolding bind_ok_def spec_bind
  by (rule arg_cong [where f = "spec p"]) (auto simp: fun_eq_iff split: sum.split)


section \<open>The session client\<close>

text \<open>
  The current holder, by number; how many were built; those that answered a request. A rotation is two steps,
  between which others run: it looks and builds (\<open>rotate_begin\<close>: \<open>Inl\<close> for what it returns at once, \<open>Inr\<close> the
  fresh holder), then swaps if the old one is still current. \<open>sc_swaps\<close> lists what was replaced by what.
\<close>

record session_client =
  sc_once :: bool
  sc_current :: "nat option"
  sc_built :: nat
  sc_used :: "nat list"
  sc_swaps :: "(nat \<times> nat) list"

definition no_session_client :: session_client where
  "no_session_client = \<lparr>sc_once = False, sc_current = None, sc_built = 0, sc_used = [], sc_swaps = []\<rparr>"

text \<open>The body of the \<^verbatim>\<open>Once\<close>; \<open>ok\<close>: the construction succeeded.\<close>

definition get_session_client :: "bool \<Rightarrow> session_client \<Rightarrow> session_client" where
  "get_session_client ok c =
     (if sc_once c then c
      else if \<not> ok then c\<lparr>sc_once := True\<rparr>
      else c\<lparr>sc_once := True, sc_current := Some (sc_built c), sc_built := Suc (sc_built c)\<rparr>)"

definition rotate_begin :: "nat option \<Rightarrow> bool \<Rightarrow> session_client \<Rightarrow> (nat option + nat) \<times> session_client" where
  "rotate_begin old ok c =
     (let cur = sc_current c in
      if cur = None \<or> cur \<noteq> old then (Inl cur, c)
      else if \<not> ok then (Inl cur, c)
      else (Inr (sc_built c), c\<lparr>sc_built := Suc (sc_built c)\<rparr>))"

definition rotate_swap :: "nat \<Rightarrow> nat \<Rightarrow> session_client \<Rightarrow> nat option \<times> session_client" where
  "rotate_swap old fresh c =
     (if sc_current c \<noteq> Some old then (sc_current c, c)
      else (Some fresh, c\<lparr>sc_current := Some fresh, sc_swaps := sc_swaps c @ [(old, fresh)]\<rparr>))"

section \<open>The captcha-free path of VK Calls\<close>

record captcha_required =
  cr_url :: bytes
  cr_sid :: bytes
  cr_ts :: real
  cr_attempt :: real
  cr_token1 :: bytes
  cr_client_id :: bytes
  cr_rate_limit :: bool

definition captcha_required_of :: "captcha \<Rightarrow> bytes \<Rightarrow> bytes \<Rightarrow> bool \<Rightarrow> captcha_required" where
  "captcha_required_of c token1 client limited = \<lparr>cr_url = ch_url c, cr_sid = ch_sid c, cr_ts = ch_ts c,
     cr_attempt = ch_attempt c, cr_token1 = token1, cr_client_id = client, cr_rate_limit = limited\<rparr>"

datatype mint_error = Captcha_required captcha_required | Call_unavailable int bytes | Failed bytes

type_synonym minted = "mint_error + turn_creds"

definition fails :: "string \<Rightarrow> bytes \<Rightarrow> (mint_error + 'a) mint" where
  "fails what e = Return (Inl (Failed (ascii what @ e)))"

definition ok_or :: "string \<Rightarrow> bytes + 'a \<Rightarrow> (mint_error + 'a) mint" where
  "ok_or what r = (case r of Inl e \<Rightarrow> fails what e | Inr a \<Rightarrow> Return (Inr a))"

text \<open>A request whose error ends the fetch.\<close>

definition post_or :: "string \<Rightarrow> (bytes + json) mint \<Rightarrow> (mint_error + json) mint" where
  "post_or what p = bind p (ok_or what)"

text \<open>\<^verbatim>\<open>vkCallsPost\<close>, with a session client or without: one retry on another client after an error of the network.\<close>

definition vk_calls_post :: "bool \<Rightarrow> request \<Rightarrow> (bytes + json) mint" where
  "vk_calls_post client q = (if \<not> client then Return (Inl (ascii ''vkcalls: no session client'')) else Post q (\<lambda>r. case r of
     Inr resp \<Rightarrow> Return (Inr resp)
   | Inl e \<Rightarrow>
       if \<not> is_network_class_error e then Return (Inl e)
       else Look (\<lambda>v. if \<not> cv_used v \<and> cv_current v then Return (Inl e)
                      else if \<not> cv_fresh v then Return (Inl e) else Post q Return)))"

text \<open>The two checks that a gated step makes on its answer.\<close>

definition calls_gate :: "json \<Rightarrow> mint_error option" where
  "calls_gate resp =
     (let c = extract_captcha resp in
      if ch_sid c \<noteq> [] then Some (Captcha_required (captcha_required_of c [] [] False))
      else map_option (\<lambda>(code, msg). Call_unavailable code msg) (fatal_call_error resp))"

definition gated :: "json \<Rightarrow> (mint_error + json) mint" where
  "gated resp = Return (case calls_gate resp of Some e \<Rightarrow> Inl e | None \<Rightarrow> Inr resp)"

definition turn_creds_of :: "bytes \<Rightarrow> bytes \<Rightarrow> bytes list \<Rightarrow> turn_creds" where
  "turn_creds_of user pass addrs = \<lparr>tc_username = user, tc_password = pass, tc_address = hd addrs, tc_addresses = addrs\<rparr>"

record mint_env =
  me_client :: bool
  me_force_legacy :: bool
  me_api_host :: bytes
  me_test_creds :: bytes
  me_only :: bytes

definition vk_api_host :: "mint_env \<Rightarrow> bytes" where
  "vk_api_host me = (if me_api_host me \<noteq> [] then me_api_host me else ascii ''api.vk.ru'')"

definition vk_call_join_base :: bytes where
  "vk_call_join_base = ascii ''https://vk.ru/call/join/''"

definition calls_url :: "string \<Rightarrow> bytes" where
  "calls_url m = ascii ''https://api.vk.me/method/'' @ ascii m"

definition ok_url :: bytes where
  "ok_url = ascii ''https://calls.okcdn.ru/fb.do''"

definition ok_app_key :: bytes where
  "ok_app_key = ascii ''CGMMEJLGDIHBABABA''"

definition session_data :: "bytes \<Rightarrow> bytes \<Rightarrow> bytes" where
  "session_data device rest = ascii ''{'' @ [0x22] @ ascii ''version'' @ [0x22] @ ascii '':2,'' @ [0x22] @ ascii ''device_id'' @ [0x22]
     @ ascii '':'' @ [0x22] @ device @ [0x22] @ ascii '','' @ rest @ ascii ''}''"

text \<open>The last step of both paths, and what is read from its answer.\<close>

definition join_request :: "bytes \<Rightarrow> bytes \<Rightarrow> bytes \<Rightarrow> request" where
  "join_request link token session = req ok_url [(''joinLink'', link), (''isVideo'', ascii ''false''), (''protocolVersion'', ascii ''5''),
     (''anonymToken'', token), (''method'', ascii ''vchat.joinConversationByLink''), (''format'', ascii ''JSON''),
     (''application_key'', ok_app_key), (''session_key'', session)]"

definition calls_creds :: "json \<Rightarrow> minted mint" where
  "calls_creds resp =
     bind_ok (ok_or ''vkcalls step5 parse username: '' (extract_str [''turn_server'', ''username''] resp)) (\<lambda>user.
     bind_ok (ok_or ''vkcalls step5 parse credential: '' (extract_str [''turn_server'', ''credential''] resp)) (\<lambda>pass.
     if parse_turn_addresses resp = [] then fails ''vkcalls step5: turn_server.urls empty'' []
     else Return (Inr (turn_creds_of user pass (parse_turn_addresses resp)))))"

definition vk_calls_path :: "mint_env \<Rightarrow> bytes \<Rightarrow> minted mint" where
  "vk_calls_path me link =
     (if me_force_legacy me then fails ''vkcalls skipped (force legacy captcha for on-device test)'' []
      else Identity (\<lambda>i.
        let url = vk_call_join_base @ link; v = (''v'', ascii ''5.276''); device = (''device_id'', id_device i); lang = (''lang'', ascii ''en'') in
        bind_ok (post_or ''vkcalls step1 (auth.getAnonymToken): ''
          (vk_calls_post (me_client me) (req (calls_url ''auth.getAnonymToken'')
             [v, (''client_id'', ascii ''8093730''), (''link'', url), device, (''anonymName'', id_name i), lang]))) (\<lambda>resp1.
        bind_ok (ok_or ''vkcalls step1 parse: '' (extract_str [''response'', ''token''] resp1)) (\<lambda>token.
        bind_ok (post_or ''vkcalls step2 (messages.getCallPreview): ''
          (vk_calls_post (me_client me) (req (calls_url ''messages.getCallPreview'')
             [v, (''anonymous_token'', token), device, (''extended'', ascii ''1''), (''fields'', ascii ''first_name,last_name,photo_200''), lang, (''link'', url)]))) (\<lambda>resp2.
        bind_ok (gated resp2) (\<lambda>resp2.
        bind_ok (ok_or ''vkcalls step2 parse user_id: '' (extract_float [''response'', ''user_id''] resp2)) (\<lambda>user_id.
        bind_ok (ok_or ''vkcalls step2 parse secret: '' (extract_str [''response'', ''secret''] resp2)) (\<lambda>secret.
        bind_ok (post_or ''vkcalls step3 (messages.getAnonymCallToken): ''
          (vk_calls_post (me_client me) (req (calls_url ''messages.getAnonymCallToken'')
             [v, (''anonymous_token'', token), device, (''link'', url), (''name'', id_name i), (''user_id'', fmt0 user_id), (''secret'', secret), lang]))) (\<lambda>resp3.
        bind_ok (gated resp3) (\<lambda>resp3.
        bind_ok (ok_or ''vkcalls step3 parse: '' (extract_str [''response'', ''token''] resp3)) (\<lambda>ok_token.
        bind_ok (post_or ''vkcalls step4 (auth.anonymLogin): ''
          (vk_calls_post (me_client me) (req ok_url [(''session_data'', session_data (id_ok_device i) ([0x22] @ ascii ''client_version'' @ [0x22] @ ascii '':'' @ [0x22] @ ascii ''1.0.1'' @ [0x22])),
             (''method'', ascii ''auth.anonymLogin''), (''format'', ascii ''JSON''), (''application_key'', ok_app_key)]))) (\<lambda>resp4.
        bind_ok (ok_or ''vkcalls step4 parse: '' (extract_str [''session_key''] resp4)) (\<lambda>session.
        bind_ok (post_or ''vkcalls step5 (vchat.joinConversationByLink): '' (vk_calls_post (me_client me) (join_request link ok_token session)))
          calls_creds)))))))))))))"


section \<open>The legacy path\<close>

record vk_credentials =
  vc_client_id :: bytes
  vc_client_secret :: bytes

definition vk_credentials_list :: "vk_credentials list" where
  "vk_credentials_list = [\<lparr>vc_client_id = ascii ''6287487'', vc_client_secret = ascii ''MuAxFaKDYDOICzGnEOhp''\<rparr>,
     \<lparr>vc_client_id = ascii ''8202606'', vc_client_secret = ascii ''lMRsTiMCyPnp5vfoldmn''\<rparr>]"

text \<open>A captcha solved before the call, with what it is bound to.\<close>

record solved_captcha =
  sv_sid :: bytes
  sv_key :: bytes
  sv_ts :: real
  sv_attempt :: real
  sv_token1 :: bytes
  sv_client_id :: bytes

record mint_ctx =
  mc_env :: mint_env
  mc_link :: bytes
  mc_vc :: vk_credentials
  mc_id :: identity
  mc_token1 :: bytes
  mc_solver :: bool

definition step2_url :: "mint_ctx \<Rightarrow> bytes" where
  "step2_url c = ascii ''https://'' @ vk_api_host (mc_env c) @ ascii ''/method/calls.getAnonymousToken?v=5.282&client_id=''
     @ vc_client_id (mc_vc c)"

text \<open>The body of step 2: plain, or with a solved captcha (\<^verbatim>\<open>buildCaptchaRetry\<close>); \<open>%.3f\<close> is rounding to thousandths.\<close>

definition fmt3 :: "real \<Rightarrow> bytes" where
  "fmt3 x = (let n = round_even (x * 1000); f = digits (nat (\<bar>n\<bar> mod 1000))
     in (if n < 0 then [0x2d] else []) @ digits (nat (\<bar>n\<bar> div 1000)) @ [0x2e] @ replicate (3 - length f) 0x30 @ f)"

definition step2_plain :: "mint_ctx \<Rightarrow> request" where
  "step2_plain c = req (step2_url c) [(''vk_join_link'', vk_call_join_base @ mc_link c), (''name'', id_name (mc_id c)),
     (''access_token'', mc_token1 c), (''device_id'', id_device (mc_id c))]"

definition step2_solved :: "mint_ctx \<Rightarrow> bytes \<Rightarrow> bytes \<Rightarrow> real \<Rightarrow> real \<Rightarrow> request" where
  "step2_solved c sid token ts attempt =
     req (step2_url c) ([(''vk_join_link'', vk_call_join_base @ mc_link c), (''name'', id_name (mc_id c)), (''access_token'', mc_token1 c)]
       @ (if sid = [] then [(''success_token'', token)]
          else [(''captcha_key'', []), (''captcha_sid'', sid), (''is_sound_captcha'', ascii ''0''), (''success_token'', token),
                (''captcha_ts'', fmt3 ts), (''captcha_attempt'', itoa (trunc attempt))])
       @ [(''device_id'', id_device (mc_id c))])"

text \<open>
  The inner loop, the attempts of the automatic solver: \<open>n\<close> attempts are left. \<open>Pow_solved\<close>: a success token for
  the captcha; \<open>Pow_token\<close>: the fresh request gave the call token; \<open>Pow_out\<close>: out of attempts, with the last
  error of the solver and the token as the last fresh answer left it.
\<close>

datatype pow_out = Pow_solved captcha bytes | Pow_token bytes | Pow_out captcha "bytes option" bytes

fun pow_loop :: "mint_ctx \<Rightarrow> nat \<Rightarrow> captcha \<Rightarrow> nat \<Rightarrow> bytes option \<Rightarrow> bytes \<Rightarrow> pow_out mint" where
  "pow_loop c 0 cur empties last_err token2 = Return (Pow_out cur last_err token2)"
| "pow_loop c (Suc n) cur empties last_err token2 = Pow (ch_url cur) (ch_sid cur) (\<lambda>w.
     if pw_err w = None \<and> pw_token w \<noteq> [] then Return (Pow_solved cur (pw_token w))
     else
       let empties = next_empty_show_hint (pw_reached w) (pw_show_type w) empties in
       if 2 \<le> empties \<or> n = 0 then Return (Pow_out cur (pw_err w) token2)
       else Post (step2_plain c) (\<lambda>r. case r of
         Inl e \<Rightarrow> Return (Pow_out cur (pw_err w) token2)
       | Inr resp \<Rightarrow>
           let fresh = extract_captcha resp in
           if ch_url fresh = [] then
             (case extract_str [''response'', ''token''] resp of
                Inl e \<Rightarrow> Return (Pow_out cur (pw_err w) [])
              | Inr t \<Rightarrow> Return (Pow_token t))
           else pow_loop c n fresh empties (pw_err w) token2))"

definition rate_limited :: "bytes option \<Rightarrow> bool" where
  "rate_limited err = (case err of None \<Rightarrow> False | Some e \<Rightarrow> contains (ascii ''ERROR_LIMIT'') e)"

text \<open>
  Out of automatic attempts: one more captcha, which the solver has not used up, goes to the caller, or to the
  user; \<open>retry\<close> goes on with the user's answer.
\<close>

definition hand_out :: "mint_ctx \<Rightarrow> captcha \<Rightarrow> bytes option \<Rightarrow> (request \<Rightarrow> (mint_error + bytes) mint) \<Rightarrow> (mint_error + bytes) mint" where
  "hand_out c burned last_err retry = Post (step2_plain c) (\<lambda>r.
     let fresh = (case r of Inl e \<Rightarrow> no_captcha | Inr resp \<Rightarrow> extract_captcha resp);
         cur = (if ch_url fresh \<noteq> [] then fresh else burned) in
     if \<not> mc_solver c
     then Return (Inl (Captcha_required (captcha_required_of cur (mc_token1 c) (vc_client_id (mc_vc c)) (rate_limited last_err))))
     else Solve (ch_url cur) (\<lambda>a. case a of
         Inl e \<Rightarrow> fails ''step2: captcha solver: '' e
       | Inr ans \<Rightarrow> retry (step2_solved c (ch_sid cur) ans (ch_ts cur) (ch_attempt cur))))"

text \<open>An answer without a captcha: the call is gone, or the token.\<close>

definition read_token :: "json \<Rightarrow> (mint_error + bytes) mint" where
  "read_token resp = (case fatal_call_error resp of
     Some (code, msg) \<Rightarrow> Return (Inl (Call_unavailable code msg))
   | None \<Rightarrow> (case extract_str [''response'', ''token''] resp of
       Inl e \<Rightarrow> fails ''step2 parse: '' e
     | Inr t \<Rightarrow> if t = [] then fails ''step2: failed after 3 captcha attempts'' [] else Return (Inr t)))"

text \<open>The outer loop: \<open>n\<close> requests of step 2 are left, \<open>q\<close> is the next one.\<close>

fun step2_loop :: "mint_ctx \<Rightarrow> nat \<Rightarrow> request \<Rightarrow> bytes \<Rightarrow> (mint_error + bytes) mint" where
  "step2_loop c 0 q token2 =
     (if token2 = [] then fails ''step2: failed after 3 captcha attempts'' [] else Return (Inr token2))"
| "step2_loop c (Suc n) q token2 = Post q (\<lambda>r. case r of
     Inl e \<Rightarrow> fails ''step2: '' e
   | Inr resp \<Rightarrow>
       let cap = extract_captcha resp in
       if ch_url cap \<noteq> [] then
         bind (pow_loop c 3 cap 0 None token2) (\<lambda>out. case out of
           Pow_solved cur tok \<Rightarrow> step2_loop c n (step2_solved c (ch_sid cur) tok (ch_ts cur) (ch_attempt cur)) token2
         | Pow_token t \<Rightarrow> step2_loop c n q t
         | Pow_out cur last_err token2 \<Rightarrow> hand_out c cur last_err (\<lambda>q. step2_loop c n q token2))
       else read_token resp)"

definition legacy_creds :: "json \<Rightarrow> minted mint" where
  "legacy_creds resp =
     bind_ok (ok_or ''step4 parse username: '' (extract_str [''turn_server'', ''username''] resp)) (\<lambda>user.
     bind_ok (ok_or ''step4 parse credential: '' (extract_str [''turn_server'', ''credential''] resp)) (\<lambda>pass.
     case key ''turn_server'' resp of
       Obj fs \<Rightarrow> (case key ''urls'' (Obj fs) of
           Arr us \<Rightarrow>
             if us = [] then fails ''step4: turn_server.urls empty'' []
             else if turn_addrs us = [] then fails ''step4: no usable turn_server.urls (all non-string?)'' []
             else Return (Inr (turn_creds_of user pass (turn_addrs us)))
         | _ \<Rightarrow> fails ''step4: turn_server.urls empty'' [])
     | _ \<Rightarrow> fails ''step4: turn_server not a map'' []))"

text \<open>\<^verbatim>\<open>getVKCredsWithClientID\<close>\<close>

definition legacy_mint :: "mint_env \<Rightarrow> bytes \<Rightarrow> bool \<Rightarrow> solved_captcha \<Rightarrow> vk_credentials \<Rightarrow> minted mint" where
  "legacy_mint me link solver sv vc = Identity (\<lambda>i.
     bind_ok
       (if sv_token1 sv \<noteq> [] then Return (Inr (sv_token1 sv))
        else bind_ok (post_or ''step1: '' (Post (req (ascii ''https://login.vk.ru/?act=get_anonym_token'')
               [(''client_id'', vc_client_id vc), (''token_type'', ascii ''messages''), (''client_secret'', vc_client_secret vc),
                (''version'', ascii ''1''), (''app_id'', vc_client_id vc), (''device_id'', id_device i)]) Return)) (\<lambda>resp.
             ok_or ''step1 parse: '' (extract_str [''data'', ''access_token''] resp))) (\<lambda>token1.
     let c = \<lparr>mc_env = me, mc_link = link, mc_vc = vc, mc_id = i, mc_token1 = token1, mc_solver = solver\<rparr> in
     Post (req (ascii ''https://'' @ vk_api_host me @ ascii ''/method/calls.getCallPreview?v=5.282&client_id='' @ vc_client_id vc)
       [(''vk_join_link'', vk_call_join_base @ link), (''access_token'', token1), (''device_id'', id_device i)]) (\<lambda>_.
     bind_ok (step2_loop c 3
         (if sv_key sv \<noteq> [] then step2_solved c (sv_sid sv) (sv_key sv) (sv_ts sv) (sv_attempt sv) else step2_plain c) []) (\<lambda>token2.
     bind_ok (post_or ''step3: '' (Post (req ok_url
         [(''session_data'', session_data (id_ok_device i) ([0x22] @ ascii ''client_version'' @ [0x22] @ ascii '':1.1,'' @ [0x22] @ ascii ''client_type'' @ [0x22]
             @ ascii '':'' @ [0x22] @ ascii ''SDK_JS'' @ [0x22])),
          (''method'', ascii ''auth.anonymLogin''), (''format'', ascii ''JSON''), (''application_key'', ok_app_key)]) Return)) (\<lambda>resp.
     bind_ok (ok_or ''step3 parse: '' (extract_str [''session_key''] resp)) (\<lambda>token3.
     bind_ok (post_or ''step4: '' (Post (join_request link token2 token3) Return)) legacy_creds))))))"

section \<open>The whole fetch\<close>

text \<open>
  \<^verbatim>\<open>rand.Shuffle\<close> over a generator whose draws are \<open>d\<close>: from the last index down, swap with an index drawn
  among those up to it.
\<close>

fun shuffle :: "(nat \<Rightarrow> nat) \<Rightarrow> nat \<Rightarrow> 'a list \<Rightarrow> 'a list" where
  "shuffle d 0 xs = xs"
| "shuffle d (Suc i) xs =
     (if length xs \<le> Suc i then shuffle d i xs
      else let j = d (Suc i) mod (Suc i + 1) in shuffle d i (xs[Suc i := xs ! j, j := xs ! Suc i]))"

text \<open>ASCII white space, which is all that such texts hold.\<close>

definition is_space :: "byte \<Rightarrow> bool" where
  "is_space b \<longleftrightarrow> b = 0x20 \<or> 9 \<le> b \<and> b \<le> 13"

definition trim_space :: "bytes \<Rightarrow> bytes" where
  "trim_space s = List.rev (dropWhile is_space (List.rev (dropWhile is_space s)))"

text \<open>\<^verbatim>\<open>VK_TEST_CREDS\<close>: pairs \<^verbatim>\<open>id:secret\<close> with commas between.\<close>

definition test_creds :: "bytes \<Rightarrow> vk_credentials list" where
  "test_creds tc = concat (map (\<lambda>pair.
     let p = trim_space pair; i = takeWhile (\<lambda>b. b \<noteq> 0x3a) p; s = drop (Suc (length i)) p
     in if length i < length p \<and> i \<noteq> [] \<and> s \<noteq> [] then [\<lparr>vc_client_id = i, vc_client_secret = s\<rparr>] else []) (split_on 0x2c tc))"

definition rotation :: "mint_env \<Rightarrow> vk_credentials list" where
  "rotation me =
     (let base = (if me_test_creds me \<noteq> [] \<and> test_creds (me_test_creds me) \<noteq> [] then test_creds (me_test_creds me) else vk_credentials_list)
      in if me_only me \<noteq> [] then filter (\<lambda>vc. vc_client_id vc = me_only me) base else base)"

text \<open>One wave over the credentials: the end of the fetch, or whether all failed transiently and the last error.\<close>

datatype wave_end = Wave_done minted | Wave_failed bool bytes

fun mint_error_text :: "mint_error \<Rightarrow> bytes" where
  "mint_error_text (Failed e) = e"
| "mint_error_text (Captcha_required c) = ascii ''captcha required: '' @ cr_url c"
| "mint_error_text (Call_unavailable code msg) =
     (if msg \<noteq> [] then ascii ''call unavailable: '' @ msg @ ascii '' (VK error '' @ itoa code @ ascii '')''
      else ascii ''call unavailable (VK error '' @ itoa code @ ascii '')'')"

fun wave :: "(vk_credentials \<Rightarrow> minted mint) \<Rightarrow> vk_credentials list \<Rightarrow> bool \<Rightarrow> bytes \<Rightarrow> wave_end mint" where
  "wave f [] all_transient last_err = Return (Wave_failed all_transient last_err)"
| "wave f (vc # vcs) all_transient last_err = bind (f vc) (\<lambda>r. case r of
     Inl (Failed e) \<Rightarrow> wave f vcs (all_transient \<and> is_transient_network_error e) e
   | _ \<Rightarrow> Return (Wave_done r))"

definition network_retry_delay :: duration where
  "network_retry_delay = 4 * second"

definition max_network_retries :: nat where
  "max_network_retries = 12"

definition all_failed :: "bytes \<Rightarrow> minted mint" where
  "all_failed e = fails ''all 2 client_ids failed, last error: '' e"

text \<open>\<open>pinned\<close>: the credentials of a captcha retry, \<open>None\<close> in the rotating mode; \<open>n\<close> waves are left.\<close>

fun waves :: "mint_env \<Rightarrow> (vk_credentials \<Rightarrow> minted mint) \<Rightarrow> vk_credentials list option \<Rightarrow> nat \<Rightarrow> bytes \<Rightarrow> minted mint" where
  "waves me f pinned 0 last_err = all_failed last_err"
| "waves me f pinned (Suc n) last_err =
     (let go = (\<lambda>vcs. bind (wave f vcs True last_err) (\<lambda>e. case e of
         Wave_done r \<Rightarrow> Return r
       | Wave_failed all_transient last_err \<Rightarrow>
           if \<not> all_transient then all_failed last_err
           else if n = 0 then all_failed last_err
           else Sleep network_retry_delay (waves me f pinned n last_err)))
      in case pinned of
        Some vcs \<Rightarrow> go vcs
      | None \<Rightarrow>
          if rotation me = [] then fails ''VK_CLIENT_ID_ONLY not in vkCredentialsList'' []
          else Shuffled (\<lambda>d. go (shuffle d (length (rotation me) - 1) (rotation me))))"

definition legacy_fetch :: "mint_env \<Rightarrow> bytes \<Rightarrow> bool \<Rightarrow> solved_captcha \<Rightarrow> minted mint" where
  "legacy_fetch me link solver sv =
     (let f = legacy_mint me link solver sv in
      if sv_client_id sv \<noteq> [] then
        (case List.find (\<lambda>vc. vc_client_id vc = sv_client_id sv) vk_credentials_list of
           None \<Rightarrow> fails ''savedClientID not in vkCredentialsList'' []
         | Some vc \<Rightarrow> waves me f (Some [vc]) max_network_retries [])
      else waves me f None max_network_retries [])"

text \<open>\<^verbatim>\<open>GetVKCreds\<close> without the cookie path.\<close>

definition fetch_anonymous :: "mint_env \<Rightarrow> bytes \<Rightarrow> bool \<Rightarrow> solved_captcha \<Rightarrow> minted mint" where
  "fetch_anonymous me link solver sv =
     (if sv_token1 sv = [] \<and> sv_sid sv = [] \<and> sv_client_id sv = [] then
        bind (vk_calls_path me link) (\<lambda>r. case r of
          Inl (Failed e) \<Rightarrow> legacy_fetch me link solver sv
        | Inl (Captcha_required c) \<Rightarrow> legacy_fetch me link solver sv
        | _ \<Rightarrow> Return r)
      else legacy_fetch me link solver sv)"

section \<open>A successful fetch\<close>

text \<open>What the last answer of a trace says a credential is.\<close>

definition answered_creds :: "mint_event list \<Rightarrow> turn_creds \<Rightarrow> bool" where
  "answered_creds tr c \<longleftrightarrow> (\<exists>q resp. tr \<noteq> [] \<and> last tr = Ev_post q (Inr resp)
     \<and> extract_str [''turn_server'', ''username''] resp = Inr (tc_username c)
     \<and> extract_str [''turn_server'', ''credential''] resp = Inr (tc_password c)
     \<and> parse_turn_addresses resp = tc_addresses c \<and> tc_addresses c \<noteq> [] \<and> tc_address c = hd (tc_addresses c))"

lemma fails_spec [simp]: "spec (fails w e) Q \<longleftrightarrow> Q [] (Inl (Failed (ascii w @ e)))"
  by (simp add: fails_def)

lemma ok_or_spec [simp]: "spec (ok_or w r) Q \<longleftrightarrow> (case r of Inl e \<Rightarrow> Q [] (Inl (Failed (ascii w @ e))) | Inr a \<Rightarrow> Q [] (Inr a))"
  by (simp add: ok_or_def split: sum.split)

lemma post_or_spec [simp]:
  "spec (post_or w p) Q \<longleftrightarrow> spec p (\<lambda>tr r. case r of Inl e \<Rightarrow> Q tr (Inl (Failed (ascii w @ e))) | Inr a \<Rightarrow> Q tr (Inr a))"
  unfolding post_or_def spec_bind
  by (rule arg_cong [where f = "spec p"]) (auto simp: fun_eq_iff split: sum.split)

lemma gated_spec [simp]: "spec (gated resp) Q \<longleftrightarrow> (case calls_gate resp of Some e \<Rightarrow> Q [] (Inl e) | None \<Rightarrow> Q [] (Inr resp))"
  by (simp add: gated_def split: option.split)

text \<open>
  What an end of the fetch rests on: a credential on the last answer; VK's word that the call is gone on the last
  answer, so that nothing is asked after it; a captcha that is handed out on the last answer too, if that holds one,
  so that no solver has seen it.
\<close>

definition good_error :: "mint_event list \<Rightarrow> mint_error \<Rightarrow> bool" where
  "good_error tr e = (case e of
     Failed t \<Rightarrow> True
   | Call_unavailable code msg \<Rightarrow> (\<exists>q resp. tr \<noteq> [] \<and> last tr = Ev_post q (Inr resp) \<and> fatal_call_error resp = Some (code, msg))
   | Captcha_required cr \<Rightarrow> (\<exists>q r. tr \<noteq> [] \<and> last tr = Ev_post q r
       \<and> (\<forall>resp. r = Inr resp \<longrightarrow> ch_url (extract_captcha resp) = []
            \<or> cr_url cr = ch_url (extract_captcha resp) \<and> cr_sid cr = ch_sid (extract_captcha resp)
              \<and> cr_ts cr = ch_ts (extract_captcha resp) \<and> cr_attempt cr = ch_attempt (extract_captcha resp))))"

definition sound :: "(mint_error + 'a) mint \<Rightarrow> bool" where
  "sound p \<longleftrightarrow> spec p (\<lambda>tr r. \<forall>e. r = Inl e \<longrightarrow> good_error tr e)"

definition finishes :: "minted mint \<Rightarrow> bool" where
  "finishes p \<longleftrightarrow> spec p (\<lambda>tr r. case r of Inl e \<Rightarrow> good_error tr e | Inr c \<Rightarrow> answered_creds tr c)"

lemma good_error_append: "good_error tr e \<Longrightarrow> good_error (pre @ tr) e"
  by (cases e) (auto simp: good_error_def)

lemma good_error_Cons: "good_error tr e \<Longrightarrow> good_error (x # tr) e"
  using good_error_append [of tr e "[x]"] by simp

lemma answered_append: "answered_creds tr c \<Longrightarrow> answered_creds (pre @ tr) c"
  by (auto simp: answered_creds_def)

lemma answered_Cons: "answered_creds tr c \<Longrightarrow> answered_creds (x # tr) c"
  using answered_append [of tr c "[x]"] by simp

lemma good_failed [simp]: "good_error tr (Failed t)"
  by (simp add: good_error_def)

lemma spec_later: "spec p Q \<Longrightarrow> (\<And>tr a. Q tr a \<Longrightarrow> Q (pre @ tr) a) \<Longrightarrow> spec p (\<lambda>tr. Q (pre @ tr))"
  by (auto simp: spec_def)

lemma sound_later: "sound p \<Longrightarrow> spec p (\<lambda>tr r. \<forall>e. r = Inl e \<longrightarrow> good_error (pre @ tr) e)"
  by (auto simp: sound_def spec_def good_error_append)

lemma finishes_later: "finishes p \<Longrightarrow> spec p (\<lambda>tr r. case r of Inl e \<Rightarrow> good_error (pre @ tr) e | Inr c \<Rightarrow> answered_creds (pre @ tr) c)"
  by (auto simp: finishes_def spec_def good_error_append answered_append split: sum.split_asm sum.split)

lemma spec_bindI: "(\<And>tr a. path p tr a \<Longrightarrow> spec (f a) (\<lambda>tr'. Q (tr @ tr'))) \<Longrightarrow> spec (bind p f) Q"
  by (simp add: spec_bind spec_def [of p])

lemma spec_bind_okI:
  assumes "\<And>tr e. path p tr (Inl e) \<Longrightarrow> Q tr (Inl e)" and "\<And>tr a. path p tr (Inr a) \<Longrightarrow> spec (f a) (\<lambda>tr'. Q (tr @ tr'))"
  shows "spec (bind_ok p f) Q"
  unfolding spec_bind_ok using assms by (auto simp: spec_def [of p] split: sum.split)

lemma finishes_bind: "(\<And>a. finishes (f a)) \<Longrightarrow> finishes (bind p f)"
  unfolding finishes_def [of "bind p f"] by (rule spec_bindI) (rule finishes_later)

lemma sound_bind: "(\<And>a. sound (f a)) \<Longrightarrow> sound (bind p f)"
  unfolding sound_def [of "bind p f"] by (rule spec_bindI) (rule sound_later)

lemma finishes_bind_ok: "sound p \<Longrightarrow> (\<And>a. finishes (f a)) \<Longrightarrow> finishes (bind_ok p f)"
  unfolding finishes_def [of "bind_ok p f"]
  by (rule spec_bind_okI) (auto simp: sound_def intro: finishes_later dest: specD)

lemma sound_bind_ok: "sound p \<Longrightarrow> (\<And>a. sound (f a)) \<Longrightarrow> sound (bind_ok p f)"
  unfolding sound_def [of "bind_ok p f"]
  by (rule spec_bind_okI) (auto simp: sound_def [of p] intro: sound_later dest: specD)

lemma sound_simps [simp]: "sound (ok_or w r)" "sound (post_or w p)" "sound (Return (Inr a))"
  unfolding sound_def post_or_spec by (auto simp: spec_def [of p] split: sum.split)

text \<open>A request whose answer the next step looks at.\<close>

definition posted :: "(bytes + json) mint \<Rightarrow> bool" where
  "posted p \<longleftrightarrow> spec p (\<lambda>tr r. \<forall>resp. r = Inr resp \<longrightarrow> tr \<noteq> [] \<and> (\<exists>q. last tr = Ev_post q (Inr resp)))"

lemma posted_post [simp]: "posted (Post q Return)" "posted (vk_calls_post client q)"
  by (auto simp: posted_def vk_calls_post_def split: sum.split)

lemma posted_sound_gated: "posted p \<Longrightarrow> sound (bind_ok (post_or w p) gated)"
  unfolding sound_def spec_bind_ok posted_def post_or_spec
  by (erule spec_mono) (auto simp: calls_gate_def good_error_def Let_def captcha_required_of_def split: sum.split option.splits)

lemma posted_calls_creds: "posted p \<Longrightarrow> finishes (bind_ok (post_or w p) calls_creds)"
  unfolding finishes_def spec_bind_ok posted_def post_or_spec
  by (erule spec_mono) (auto simp: calls_creds_def spec_bind_ok answered_creds_def turn_creds_of_def split: sum.split)

lemma legacy_creds_reads:
  "spec (legacy_creds resp) (\<lambda>tr r. tr = [] \<and> (case r of Inl e \<Rightarrow> \<exists>t. e = Failed t
     | Inr c \<Rightarrow> extract_str [''turn_server'', ''username''] resp = Inr (tc_username c)
         \<and> extract_str [''turn_server'', ''credential''] resp = Inr (tc_password c)
         \<and> parse_turn_addresses resp = tc_addresses c \<and> tc_addresses c \<noteq> [] \<and> tc_address c = hd (tc_addresses c)))"
  by (auto simp: legacy_creds_def spec_bind_ok turn_creds_of_def parse_turn_addresses_def split: sum.split json.split)

lemma finishes_iff:
  "finishes p \<longleftrightarrow> (\<forall>tr e. path p tr (Inl e) \<longrightarrow> good_error tr e) \<and> (\<forall>tr c. path p tr (Inr c) \<longrightarrow> answered_creds tr c)"
  unfolding finishes_def spec_def by (simp add: split_sum_all) blast

lemma sound_iff: "sound p \<longleftrightarrow> (\<forall>tr e. path p tr (Inl e) \<longrightarrow> good_error tr e)"
  by (auto simp: sound_def spec_def)

lemma path_post_or: "path (post_or w p) tr (Inr resp) \<longleftrightarrow> path p tr (Inr resp)"
  by (auto simp: post_or_def path_bind ok_or_def fails_def split_sum_ex)

lemma posted_legacy_creds:
  assumes "posted p" shows "finishes (bind_ok (post_or w p) legacy_creds)"
  unfolding finishes_def
proof (rule spec_bind_okI)
  fix tr e assume "path (post_or w p) tr (Inl e)"
  then have "good_error tr e" using sound_simps(2) [of w p] by (simp add: sound_iff)
  then show "case Inl e of Inl e \<Rightarrow> good_error tr e | Inr c \<Rightarrow> answered_creds tr c" by simp
next
  fix tr resp assume "path (post_or w p) tr (Inr resp)"
  then have "tr \<noteq> [] \<and> (\<exists>q. last tr = Ev_post q (Inr resp))"
    using assms by (auto simp: path_post_or posted_def spec_def)
  then show "spec (legacy_creds resp) (\<lambda>tr' r. case r of Inl e \<Rightarrow> good_error (tr @ tr') e | Inr c \<Rightarrow> answered_creds (tr @ tr') c)"
    by (intro spec_mono [OF legacy_creds_reads]) (auto simp: answered_creds_def split: sum.splits)
qed

lemma gated_simps: "sound (bind_ok (post_or w (vk_calls_post cl q)) gated)"
  by (rule posted_sound_gated) simp

lemma bind_assoc: "bind (bind p f) g = bind p (\<lambda>a. bind (f a) g)"
  by (induction p) auto

lemma bind_ok_assoc: "bind_ok (bind_ok p f) g = bind_ok p (\<lambda>a. bind_ok (f a) g)"
  unfolding bind_ok_def bind_assoc by (rule arg_cong [where f = "bind p"]) (auto simp: fun_eq_iff split: sum.split)

lemma finishes_gated:
  "(\<And>a. finishes (f a)) \<Longrightarrow> finishes (bind_ok (post_or w (vk_calls_post cl q)) (\<lambda>resp. bind_ok (gated resp) f))"
  unfolding bind_ok_assoc [symmetric] by (rule finishes_bind_ok [OF gated_simps])

lemma finishes_Identity: "(\<And>i. finishes (k i)) \<Longrightarrow> finishes (Identity k)"
  by (auto simp: finishes_iff good_error_Cons answered_Cons)

lemma finishes_Post: "(\<And>r. finishes (k r)) \<Longrightarrow> finishes (Post q k)"
  by (auto simp: finishes_iff good_error_Cons answered_Cons)

lemma finishes_fails [simp]: "finishes (fails w e)"
  by (simp add: finishes_def)

lemma vk_calls_path_finishes: "finishes (vk_calls_path me link)"
  unfolding vk_calls_path_def Let_def
  by (simp, intro impI finishes_Identity) (intro finishes_gated posted_calls_creds posted_post finishes_bind_ok sound_simps)

lemma sound_Post: "(\<And>r. sound (k r)) \<Longrightarrow> sound (Post q k)"
  by (auto simp: sound_def spec_def good_error_Cons)

lemma sound_Solve: "(\<And>a. sound (k a)) \<Longrightarrow> sound (Solve u k)"
  by (auto simp: sound_iff good_error_Cons)

lemma sound_fails [simp]: "sound (fails w e)"
  by (simp add: sound_def)

lemma sound_hand_out: "(\<And>q. sound (retry q)) \<Longrightarrow> sound (hand_out c burned last_err retry)"
proof (cases "mc_solver c")
  case True
  assume "\<And>q. sound (retry q)"
  with True show ?thesis
    by (auto simp: hand_out_def Let_def intro!: sound_Post sound_Solve split: sum.split)
next
  case False
  then show ?thesis
    by (auto simp: hand_out_def sound_iff good_error_def captcha_required_of_def Let_def no_captcha_def split: sum.split_asm)
qed

lemma step2_loop_sound: "sound (step2_loop c n q token2)"
proof (induction n arbitrary: q token2)
  case (Suc n)
  have captcha: "sound (bind (pow_loop c 3 cap 0 None token2) (\<lambda>out. case out of
       Pow_solved cur tok \<Rightarrow> step2_loop c n (step2_solved c (ch_sid cur) tok (ch_ts cur) (ch_attempt cur)) token2
     | Pow_token t \<Rightarrow> step2_loop c n q t
     | Pow_out cur last_err token2 \<Rightarrow> hand_out c cur last_err (\<lambda>q. step2_loop c n q token2)))" for cap
    by (rule sound_bind) (use Suc sound_hand_out in \<open>simp split: pow_out.split\<close>)
  have token: "good_error (Ev_post q (Inr resp) # tr) e" if "path (read_token resp) tr (Inl e)" for resp tr e
    using that by (auto simp: read_token_def fails_def good_error_def split: option.split_asm sum.split_asm if_splits)
  with captcha show ?case
    by (auto simp: sound_iff Let_def good_error_Cons fails_def split: sum.split_asm if_splits)
qed (simp add: sound_def)

lemma sound_if: "sound p \<Longrightarrow> sound p' \<Longrightarrow> sound (if b then p else p')"
  by simp

lemma legacy_mint_finishes: "finishes (legacy_mint me link solver sv vc)"
  unfolding legacy_mint_def Let_def
  by (intro finishes_Identity finishes_Post posted_legacy_creds posted_post finishes_bind_ok sound_if sound_bind_ok step2_loop_sound sound_simps)

lemma finishes_Return [simp]: "finishes (Return (Inl (Failed e)))"
  by (simp add: finishes_def)

lemma finishes_Shuffled: "(\<And>d. finishes (k d)) \<Longrightarrow> finishes (Shuffled k)"
  by (auto simp: finishes_iff good_error_Cons answered_Cons)

lemma finishes_Sleep: "finishes p \<Longrightarrow> finishes (Sleep d p)"
  by (auto simp: finishes_iff good_error_Cons answered_Cons)

text \<open>A wave that ends the fetch ends it with the answer of the mint it ran last.\<close>

lemma wave_then_finishes:
  assumes "\<And>vc. finishes (f vc)" and "\<And>tn e. finishes (k (Wave_failed tn e))" and "\<And>r. k (Wave_done r) = Return r"
  shows "finishes (bind (wave f vcs tn e) k)"
proof (induction vcs arbitrary: tn e)
  case (Cons vc vcs)
  have "finishes (bind (f vc) (\<lambda>r. bind (case r of Inl (Failed e) \<Rightarrow> wave f vcs (tn \<and> is_transient_network_error e) e | _ \<Rightarrow> Return (Wave_done r)) k))"
    unfolding finishes_def
  proof (rule spec_bindI)
    fix tr r assume r: "path (f vc) tr r"
    show "spec (bind (case r of Inl (Failed e) \<Rightarrow> wave f vcs (tn \<and> is_transient_network_error e) e | _ \<Rightarrow> Return (Wave_done r)) k)
        (\<lambda>tr' r. case r of Inl e \<Rightarrow> good_error (tr @ tr') e | Inr c \<Rightarrow> answered_creds (tr @ tr') c)"
    proof (cases "\<exists>e. r = Inl (Failed e)")
      case True
      then show ?thesis using finishes_later [OF Cons.IH] by auto
    next
      case False
      with r assms(1) [of vc] show ?thesis
        by (auto simp: finishes_iff assms(3) split: sum.split mint_error.split)
    qed
  qed
  then show ?case by (simp add: bind_assoc)
qed (simp add: assms)

lemma waves_finish: "(\<And>vc. finishes (f vc)) \<Longrightarrow> finishes (waves me f pinned n e)"
proof (induction n arbitrary: e)
  case (Suc n)
  have "finishes (bind (wave f vcs True e) (\<lambda>e. case e of Wave_done r \<Rightarrow> Return r
      | Wave_failed tn e \<Rightarrow> if \<not> tn then all_failed e else if n = 0 then all_failed e else Sleep network_retry_delay (waves me f pinned n e)))" for vcs
    using Suc by (intro wave_then_finishes) (auto simp: all_failed_def intro!: finishes_Sleep)
  then show ?case by (auto simp: Let_def intro!: finishes_Shuffled split: option.split)
qed (simp add: all_failed_def)

lemma legacy_fetch_finishes: "finishes (legacy_fetch me link solver sv)"
  by (auto simp: legacy_fetch_def Let_def intro!: waves_finish legacy_mint_finishes split: option.split)

lemma fetch_anonymous_finishes: "finishes (fetch_anonymous me link solver sv)"
proof -
  have "finishes (bind (vk_calls_path me link) (\<lambda>r. case r of
      Inl (Failed e) \<Rightarrow> legacy_fetch me link solver sv | Inl (Captcha_required c) \<Rightarrow> legacy_fetch me link solver sv | _ \<Rightarrow> Return r))"
    unfolding finishes_def
  proof (rule spec_bindI)
    fix tr r assume r: "path (vk_calls_path me link) tr r"
    show "spec (case r of Inl (Failed e) \<Rightarrow> legacy_fetch me link solver sv | Inl (Captcha_required c) \<Rightarrow> legacy_fetch me link solver sv | _ \<Rightarrow> Return r)
        (\<lambda>tr' r. case r of Inl e \<Rightarrow> good_error (tr @ tr') e | Inr c \<Rightarrow> answered_creds (tr @ tr') c)"
    proof (cases r)
      case (Inl e)
      with r vk_calls_path_finishes [of me link] finishes_later [OF legacy_fetch_finishes] show ?thesis
        by (cases e) (simp_all add: finishes_iff)
    next
      case (Inr c)
      with r vk_calls_path_finishes [of me link] show ?thesis by (simp add: finishes_iff)
    qed
  qed
  then show ?thesis by (simp add: fetch_anonymous_def legacy_fetch_finishes)
qed

lemma good_captcha:
  assumes "good_error tr (Captcha_required cr)"
  shows "\<exists>q ans. last tr = Ev_post q ans \<and> (case ans of Inl e \<Rightarrow> True | Inr resp \<Rightarrow> ch_url (extract_captcha resp) \<in> {[], cr_url cr})"
proof -
  from assms obtain q ans where last: "last tr = Ev_post q ans"
    and *: "\<forall>resp. ans = Inr resp \<longrightarrow> ch_url (extract_captcha resp) = [] \<or> cr_url cr = ch_url (extract_captcha resp)"
    by (simp add: good_error_def) blast
  then show ?thesis by (intro exI [of _ q] exI [of _ ans]) (auto split: sum.split)
qed

lemma good_call: "good_error tr (Call_unavailable code msg) \<Longrightarrow> \<exists>q resp. last tr = Ev_post q (Inr resp) \<and> fatal_call_error resp = Some (code, msg)"
  by (auto simp: good_error_def)


section \<open>How much a fetch asks\<close>

definition posts :: "mint_event list \<Rightarrow> nat" where
  "posts tr = length (filter (\<lambda>e. case e of Ev_post q r \<Rightarrow> True | _ \<Rightarrow> False) tr)"

definition pows :: "mint_event list \<Rightarrow> nat" where
  "pows tr = length (filter (\<lambda>e. case e of Ev_pow u s w \<Rightarrow> True | _ \<Rightarrow> False) tr)"

definition slept :: "mint_event list \<Rightarrow> duration" where
  "slept tr = sum_list (map (\<lambda>e. case e of Ev_sleep d \<Rightarrow> d | _ \<Rightarrow> 0) tr)"

definition effort :: "nat \<Rightarrow> nat \<Rightarrow> duration \<Rightarrow> 'a mint \<Rightarrow> bool" where
  "effort a b c p \<longleftrightarrow> spec p (\<lambda>tr r. posts tr \<le> a \<and> pows tr \<le> b \<and> slept tr \<le> c)"

lemma effort_simps [simp]:
  "posts [] = 0" "pows [] = 0" "slept [] = 0"
  "posts (e # tr) = (case e of Ev_post q r \<Rightarrow> 1 | _ \<Rightarrow> 0) + posts tr" "pows (e # tr) = (case e of Ev_pow u s w \<Rightarrow> 1 | _ \<Rightarrow> 0) + pows tr"
  "slept (e # tr) = (case e of Ev_sleep d \<Rightarrow> d | _ \<Rightarrow> 0) + slept tr"
  "posts (tr @ tr') = posts tr + posts tr'" "pows (tr @ tr') = pows tr + pows tr'" "slept (tr @ tr') = slept tr + slept tr'"
  by (simp_all add: posts_def pows_def slept_def split: mint_event.split)

lemma effort_mono: "effort a b c p \<Longrightarrow> a \<le> a' \<Longrightarrow> b \<le> b' \<Longrightarrow> c \<le> c' \<Longrightarrow> effort a' b' c' p"
  unfolding effort_def by (erule spec_mono) auto

lemma effort_bind: "effort a b c p \<Longrightarrow> (\<And>x. effort a' b' c' (f x)) \<Longrightarrow> effort (a + a') (b + b') (c + c') (bind p f)"
  by (fastforce simp: effort_def spec_def path_bind)

lemma effort_bind_ok: "effort a b c p \<Longrightarrow> 0 \<le> c' \<Longrightarrow> (\<And>x. effort a' b' c' (f x)) \<Longrightarrow> effort (a + a') (b + b') (c + c') (bind_ok p f)"
  unfolding bind_ok_def by (rule effort_bind) (auto simp: effort_def split: sum.split)

lemma effort_simps2 [simp]:
  "effort a b c (Return x) \<longleftrightarrow> 0 \<le> c" "effort a b c (fails w e) \<longleftrightarrow> 0 \<le> c" "effort a b c (ok_or w r) \<longleftrightarrow> 0 \<le> c"
  "effort a b c (gated resp) \<longleftrightarrow> 0 \<le> c"
  by (auto simp: effort_def spec_def ok_or_def fails_def gated_def split: sum.splits)

lemma effort_Post: "(\<And>r. effort a b c (k r)) \<Longrightarrow> effort (Suc a) b c (Post q k)"
  by (fastforce simp: effort_def spec_def)

lemma effort_Pow: "(\<And>w. effort a b c (k w)) \<Longrightarrow> effort a (Suc b) c (Pow u s k)"
  by (fastforce simp: effort_def spec_def)

lemma effort_free:
  "(\<And>r. effort a b c (ks r)) \<Longrightarrow> effort a b c (Solve u ks)" "(\<And>i. effort a b c (ki i)) \<Longrightarrow> effort a b c (Identity ki)"
  "(\<And>d. effort a b c (kd d)) \<Longrightarrow> effort a b c (Shuffled kd)" "(\<And>v. effort a b c (kv v)) \<Longrightarrow> effort a b c (Look kv)"
  by (fastforce simp: effort_def spec_def)+

lemma effort_Sleep: "effort a b c p \<Longrightarrow> effort a b (d + c) (Sleep d p)"
  by (fastforce simp: effort_def spec_def)

lemma effort_post_or: "effort a b c p \<Longrightarrow> effort a b c (post_or w p)"
  unfolding effort_def post_or_spec by (erule spec_mono) (simp split: sum.split)

lemma effort_calls_post: "effort 2 0 0 (vk_calls_post cl q)"
  unfolding vk_calls_post_def numeral_2_eq_2
  by (auto intro!: effort_Post effort_free(4) split: sum.split intro: effort_mono [of 0 0 0])

text \<open>Chains: what each link adds.\<close>

lemma effort_ask:
  "0 \<le> c \<Longrightarrow> (\<And>x. effort a b c (f x)) \<Longrightarrow> effort (2 + a) b c (bind_ok (post_or w (vk_calls_post cl q)) f)"
  using effort_bind_ok [OF effort_post_or [OF effort_calls_post], of c a b f w cl q] by simp

lemma effort_post:
  "0 \<le> c \<Longrightarrow> (\<And>x. effort a b c (f x)) \<Longrightarrow> effort (1 + a) b c (bind_ok (post_or w (Post q Return)) f)"
  using effort_bind_ok [OF effort_post_or [OF effort_Post [of 0 0 0 Return]], of c a b f w q] by simp

lemma effort_ok_or: "0 \<le> c \<Longrightarrow> (\<And>x. effort a b c (f x)) \<Longrightarrow> effort a b c (bind_ok (ok_or w r) f)"
  using effort_bind_ok [of 0 0 0 "ok_or w r" c a b f] by simp

lemma effort_gated: "0 \<le> c \<Longrightarrow> (\<And>x. effort a b c (f x)) \<Longrightarrow> effort a b c (bind_ok (gated resp) f)"
  using effort_bind_ok [of 0 0 0 "gated resp" c a b f] by simp

lemmas effort_read = effort_ok_or effort_gated

lemma creds_effort: "effort 0 0 0 (calls_creds resp)" "effort 0 0 0 (legacy_creds resp)"
  by (auto simp: calls_creds_def legacy_creds_def intro!: effort_read split: json.split)

lemma effort_if: "effort a b c p \<Longrightarrow> effort a b c p' \<Longrightarrow> effort a b c (if x then p else p')"
  by simp

lemma vk_calls_path_effort: "effort 10 0 0 (vk_calls_path me link)"
proof -
  have "effort (2 + (2 + (2 + (2 + (2 + 0))))) 0 0 (vk_calls_path me link)"
    unfolding vk_calls_path_def Let_def
    by (intro effort_if effort_free(2) effort_ask effort_read creds_effort order_refl; simp)
  then show ?thesis by simp
qed

lemma pow_loop_effort: "effort (n - 1) n 0 (pow_loop c n cur k e t)"
proof (induction n arbitrary: cur k e t)
  case (Suc n)
  show ?case
  proof (cases n)
    case 0
    then show ?thesis by (auto simp: Let_def intro!: effort_Pow)
  next
    case (Suc m)
    with Suc.IH have "effort m n 0 (pow_loop c n cur k e t)" for cur k e t by (metis diff_Suc_1)
    then show ?thesis using Suc
      by (auto simp: Let_def intro!: effort_Pow effort_Post split: sum.split)
  qed
qed simp

lemma hand_out_effort: "(\<And>q. effort a b 0 (retry q)) \<Longrightarrow> effort (Suc a) b 0 (hand_out c cur e retry)"
  by (auto simp: hand_out_def Let_def intro!: effort_Post effort_free(1) split: sum.split)

lemma step2_loop_effort: "effort (4 * n) (3 * n) 0 (step2_loop c n q t)"
proof (induction n arbitrary: q t)
  case (Suc n)
  have out: "effort (1 + 4 * n) (3 * n) 0 (case x of
       Pow_solved cur tok \<Rightarrow> step2_loop c n (step2_solved c (ch_sid cur) tok (ch_ts cur) (ch_attempt cur)) t
     | Pow_token t \<Rightarrow> step2_loop c n q t
     | Pow_out cur last_err t \<Rightarrow> hand_out c cur last_err (\<lambda>q. step2_loop c n q t))" for x
    using Suc hand_out_effort [OF Suc] by (auto intro: effort_mono [OF Suc] split: pow_out.split)
  have "effort (2 + (1 + 4 * n)) (3 + 3 * n) (0 + 0) (bind (pow_loop c 3 cap 0 None t) (\<lambda>x. case x of
       Pow_solved cur tok \<Rightarrow> step2_loop c n (step2_solved c (ch_sid cur) tok (ch_ts cur) (ch_attempt cur)) t
     | Pow_token t \<Rightarrow> step2_loop c n q t
     | Pow_out cur last_err t \<Rightarrow> hand_out c cur last_err (\<lambda>q. step2_loop c n q t)))" for cap
    using pow_loop_effort [of 3] by (intro effort_bind out) simp
  then have captcha: "effort (3 + 4 * n) (3 + 3 * n) 0 (bind (pow_loop c 3 cap 0 None t) (\<lambda>x. case x of
       Pow_solved cur tok \<Rightarrow> step2_loop c n (step2_solved c (ch_sid cur) tok (ch_ts cur) (ch_attempt cur)) t
     | Pow_token t \<Rightarrow> step2_loop c n q t
     | Pow_out cur last_err t \<Rightarrow> hand_out c cur last_err (\<lambda>q. step2_loop c n q t)))" for cap
    by (simp add: numeral_2_eq_2 numeral_3_eq_3)
  have "effort a b 0 (read_token resp)" for a b resp
    by (auto simp: read_token_def split: option.split sum.split)
  then have "effort (Suc (3 + 4 * n)) (3 + 3 * n) 0 (step2_loop c (Suc n) q t)"
    unfolding step2_loop.simps by (intro effort_Post) (auto simp: Let_def captcha split: sum.split)
  then show ?case by (simp add: algebra_simps)
qed simp

lemma legacy_mint_effort: "effort 16 9 0 (legacy_mint me link solver sv vc)"
proof -
  let ?first = "\<lambda>i. if sv_token1 sv \<noteq> [] then Return (Inr (sv_token1 sv))
        else bind_ok (post_or ''step1: '' (Post (req (ascii ''https://login.vk.ru/?act=get_anonym_token'')
               [(''client_id'', vc_client_id vc), (''token_type'', ascii ''messages''), (''client_secret'', vc_client_secret vc),
                (''version'', ascii ''1''), (''app_id'', vc_client_id vc), (''device_id'', id_device i)]) Return)) (\<lambda>resp.
             ok_or ''step1 parse: '' (extract_str [''data'', ''access_token''] resp))"
  have first: "effort (1 + 0) 0 0 (?first i)" for i by (auto intro!: effort_post [of 0, simplified])
  have step2: "effort 12 9 0 (step2_loop c 3 q t)" for c q t using step2_loop_effort [of 3] by simp
  have "effort (1 + 0 + Suc (12 + (1 + (1 + 0)))) (0 + (9 + 0)) (0 + (0 + 0)) (legacy_mint me link solver sv vc)"
    unfolding legacy_mint_def Let_def
    by (intro effort_free(2) effort_bind_ok [OF first] effort_Post effort_bind_ok [OF step2] effort_post effort_read creds_effort order_refl; simp)
  then show ?thesis by simp
qed


lemma wave_effort: "(\<And>vc. effort a b 0 (f vc)) \<Longrightarrow> effort (length vcs * a) (length vcs * b) 0 (wave f vcs tn e)"
proof (induction vcs arbitrary: tn e)
  case (Cons vc vcs)
  have "effort (length vcs * a) (length vcs * b) 0
      (case r of Inl (Failed e) \<Rightarrow> wave f vcs (tn \<and> is_transient_network_error e) e | _ \<Rightarrow> Return (Wave_done r))" for r
    using Cons by (cases r; cases "projl r") auto
  from effort_bind [OF Cons.prems this] show ?case by (simp add: algebra_simps)
qed simp

lemma waves_effort:
  assumes "\<And>vc. effort a b 0 (f vc)" and "case pinned of None \<Rightarrow> length (rotation me) \<le> k | Some vcs \<Rightarrow> length vcs \<le> k"
  shows "effort (n * (k * a)) (n * (k * b)) (int (n - 1) * network_retry_delay) (waves me f pinned n e)"
proof (induction n arbitrary: e)
  case (Suc n)
  let ?rest = "\<lambda>x. case x of Wave_done r \<Rightarrow> Return r
      | Wave_failed tn e \<Rightarrow> if \<not> tn then all_failed e else if n = 0 then all_failed e else Sleep network_retry_delay (waves me f pinned n e)"
  have delay: "0 \<le> network_retry_delay" by (simp add: network_retry_delay_def)
  have sleeping: "effort (n * (k * a)) (n * (k * b)) (int n * network_retry_delay) (Sleep network_retry_delay (waves me f pinned n e))"
    if "n \<noteq> 0" for e
  proof -
    have "network_retry_delay + int (n - 1) * network_retry_delay = int n * network_retry_delay"
      using that by (cases n) (simp_all add: algebra_simps)
    with effort_Sleep [OF Suc, of network_retry_delay e] show ?thesis by simp
  qed
  have rest: "effort (n * (k * a)) (n * (k * b)) (int n * network_retry_delay) (?rest x)" for x
    using sleeping delay by (cases x) (auto simp: all_failed_def)
  have go: "effort (Suc n * (k * a)) (Suc n * (k * b)) (int n * network_retry_delay) (bind (wave f vcs True e) ?rest)" if "length vcs \<le> k" for vcs
  proof (rule effort_mono)
    show "effort (length vcs * a + n * (k * a)) (length vcs * b + n * (k * b)) (0 + int n * network_retry_delay) (bind (wave f vcs True e) ?rest)"
      by (rule effort_bind [OF wave_effort [OF assms(1)] rest])
  qed (use that in \<open>simp_all add: mult_le_mono1\<close>)
  show ?case
  proof (cases pinned)
    case None
    have len: "length (shuffle d i xs) = length xs" for d i and xs :: "vk_credentials list"
      by (induction d i xs rule: shuffle.induct) (auto simp: Let_def)
    show ?thesis using None go assms(2) delay by (auto simp: Let_def len intro!: effort_free(3))
  next
    case (Some vcs)
    show ?thesis using go [of vcs] assms(2) unfolding Some by (simp add: Let_def)
  qed
qed (simp add: all_failed_def)

text \<open>
  C24: a fetch asks boundedly much. Whatever VK, the solvers and the network answer, one fetch with \<open>k\<close> client
  ids in rotation (two, unless a diagnostic variable overrides them) makes at most \<open>10 + 192 k\<close> requests, starts
  the automatic solver at most \<open>108 k\<close> times, and sleeps at most 44 seconds between its waves.
\<close>

theorem fetch_effort_bounded:
  "spec (fetch_anonymous me link solver sv) (\<lambda>tr r. posts tr \<le> 10 + 192 * max 1 (length (rotation me))
     \<and> pows tr \<le> 108 * max 1 (length (rotation me)) \<and> slept tr \<le> 44 * second)"
proof -
  let ?k = "max 1 (length (rotation me))"
  have "effort (12 * (?k * 16)) (12 * (?k * 9)) (int (12 - 1) * network_retry_delay) (waves me (legacy_mint me link solver sv) pinned 12 [])"
    if "case pinned of None \<Rightarrow> True | Some vcs \<Rightarrow> length vcs = 1" for pinned
    by (rule waves_effort [OF legacy_mint_effort]) (use that in \<open>auto split: option.splits\<close>)
  then have waves: "effort (192 * ?k) (108 * ?k) (44 * second) (waves me (legacy_mint me link solver sv) pinned max_network_retries [])"
    if "case pinned of None \<Rightarrow> True | Some vcs \<Rightarrow> length vcs = 1" for pinned
    using that by (auto simp: max_network_retries_def network_retry_delay_def algebra_simps intro!: effort_mono)
  have legacy: "effort (192 * ?k) (108 * ?k) (44 * second) (legacy_fetch me link solver sv)"
    using waves [of None] waves [of "Some [vc]" for vc] by (auto simp: legacy_fetch_def Let_def simp del: One_nat_def split: option.split)
  have next_path: "effort (192 * ?k) (108 * ?k) (44 * second) (case r of
      Inl (Failed e) \<Rightarrow> legacy_fetch me link solver sv | Inl (Captcha_required c) \<Rightarrow> legacy_fetch me link solver sv | _ \<Rightarrow> Return r)" for r
    using legacy by (auto split: sum.split mint_error.split)
  have "effort (10 + 192 * ?k) (0 + 108 * ?k) (0 + 44 * second) (fetch_anonymous me link solver sv)"
    unfolding fetch_anonymous_def
    by (intro effort_if effort_bind [OF vk_calls_path_effort] next_path effort_mono [OF legacy]) simp_all
  then show ?thesis by (simp add: effort_def)
qed

section \<open>Rotating the session client\<close>

text \<open>
  The rotations under way are the pairs of the holder they want to replace and the one they have built.
\<close>

datatype rotate_event = Rt_get bool | Rt_begin "nat option" bool | Rt_swap nat

fun rotate_step :: "session_client \<times> (nat \<times> nat) list \<Rightarrow> rotate_event \<Rightarrow> session_client \<times> (nat \<times> nat) list" where
  "rotate_step (c, ps) (Rt_get ok) = (get_session_client ok c, ps)"
| "rotate_step (c, ps) (Rt_begin old ok) = (case rotate_begin old ok c of
     (Inl cur, c) \<Rightarrow> (c, ps) | (Inr fresh, c) \<Rightarrow> (c, ps @ [(the old, fresh)]))"
| "rotate_step (c, ps) (Rt_swap i) =
     (if length ps \<le> i then (c, ps)
      else (snd (rotate_swap (fst (ps ! i)) (snd (ps ! i)) c), take i ps @ drop (Suc i) ps))"

definition rotate_ok :: "session_client \<times> (nat \<times> nat) list \<Rightarrow> bool" where
  "rotate_ok = (\<lambda>(c, ps). distinct (map fst (sc_swaps c)) \<and> distinct (map snd ps)
     \<and> (\<forall>n \<in> set_option (sc_current c) \<union> snd ` set ps. n \<notin> fst ` set (sc_swaps c) \<and> n < sc_built c)
     \<and> set_option (sc_current c) \<inter> snd ` set ps = {} \<and> (\<forall>n \<in> fst ` set (sc_swaps c). n < sc_built c)
     \<and> (sc_current c = None \<longrightarrow> sc_swaps c = [] \<and> ps = []) \<and> (\<not> sc_once c \<longrightarrow> sc_current c = None))"

lemma rotate_ok_step: "rotate_ok s \<Longrightarrow> rotate_ok (rotate_step s e)"
proof (cases s)
  case (Pair c ps)
  assume ok: "rotate_ok s"
  show ?thesis
  proof (cases e)
    case (Rt_get b)
    with ok Pair show ?thesis by (auto simp: rotate_ok_def get_session_client_def)
  next
    case (Rt_begin old b)
    with ok Pair show ?thesis by (fastforce simp: rotate_ok_def rotate_begin_def Let_def)
  next
    case (Rt_swap i)
    show ?thesis
    proof (cases "length ps \<le> i")
      case True
      with ok Pair Rt_swap show ?thesis by simp
    next
      case False
      define qs where "qs = take i ps @ drop (Suc i) ps"
      have parts: "ps = take i ps @ ps ! i # drop (Suc i) ps" using False by (simp add: id_take_nth_drop)
      have "set qs \<subseteq> set ps" by (auto simp: qs_def dest: in_set_takeD in_set_dropD)
      then have sub: "snd ` set qs \<subseteq> snd ` set ps" by blast
      have mem: "snd (ps ! i) \<in> snd ` set ps" using False by simp
      have d: "distinct (map snd qs)" "snd (ps ! i) \<notin> snd ` set qs"
        using ok Pair arg_cong [OF parts, of "\<lambda>xs. distinct (map snd xs)"] by (auto simp: rotate_ok_def qs_def)
      show ?thesis
      proof (cases "sc_current c = Some (fst (ps ! i))")
        case True
        have s: "rotate_step s e = (c\<lparr>sc_current := Some (snd (ps ! i)), sc_swaps := sc_swaps c @ [ps ! i]\<rparr>, qs)"
          using Pair Rt_swap False True by (simp add: rotate_swap_def qs_def)
        have cur: "fst (ps ! i) \<notin> fst ` set (sc_swaps c)" "fst (ps ! i) < sc_built c" "fst (ps ! i) \<notin> snd ` set ps" "sc_once c"
          using ok Pair True by (auto simp: rotate_ok_def)
        have old: "\<And>n. n \<in> snd ` set ps \<Longrightarrow> n \<notin> fst ` set (sc_swaps c) \<and> n < sc_built c" "distinct (map fst (sc_swaps c))"
            "\<And>n. n \<in> fst ` set (sc_swaps c) \<Longrightarrow> n < sc_built c"
          using ok Pair by (auto simp: rotate_ok_def)
        have "\<forall>n \<in> insert (snd (ps ! i)) (snd ` set qs). n \<notin> insert (fst (ps ! i)) (fst ` set (sc_swaps c)) \<and> n < sc_built c"
        proof
          fix n assume "n \<in> insert (snd (ps ! i)) (snd ` set qs)"
          then have "n \<in> snd ` set ps" using mem sub by (metis insertE subsetD)
          with old(1) [OF this] cur(3) show "n \<notin> insert (fst (ps ! i)) (fst ` set (sc_swaps c)) \<and> n < sc_built c"
            by (metis insert_iff)
        qed
        moreover have "\<forall>n \<in> insert (fst (ps ! i)) (fst ` set (sc_swaps c)). n < sc_built c" using cur(2) old(3) by blast
        ultimately show ?thesis unfolding s rotate_ok_def case_prod_conv using d cur old(2) by simp
      next
        case other: False
        then have s: "rotate_step s e = (c, qs)" using Pair Rt_swap False by (simp add: rotate_swap_def qs_def)
        note h = ok [unfolded Pair rotate_ok_def case_prod_conv]
        have "sc_current c = None \<longrightarrow> sc_swaps c = [] \<and> qs = []" using h by (simp add: qs_def)
        moreover have "\<forall>n \<in> set_option (sc_current c) \<union> snd ` set qs. n \<notin> fst ` set (sc_swaps c) \<and> n < sc_built c"
          by (meson h sub Un_iff subsetD)
        moreover have "set_option (sc_current c) \<inter> snd ` set qs = {}"
          using h sub disjoint_eq_subset_Compl subset_trans by (metis Int_commute)
        ultimately show ?thesis using h d unfolding s rotate_ok_def case_prod_conv by (elim conjE, intro conjI)
      qed
    qed
  qed
qed

text \<open>
  However rotations interleave, no client is replaced twice: two goroutines that lost the same connection rotate
  once between them, and what a rotation installs has never been current before.
\<close>

theorem clients_rotate_once:
  "distinct (map fst (sc_swaps (fst (run rotate_step (no_session_client, []) es))))"
proof -
  have "rotate_ok (no_session_client, [])" by (simp add: rotate_ok_def no_session_client_def)
  moreover have "rotate_ok s \<Longrightarrow> rotate_ok (run rotate_step s es)" for s
    by (induction es arbitrary: s) (simp_all add: rotate_ok_step)
  ultimately have "rotate_ok (run rotate_step (no_session_client, []) es)" by blast
  then show ?thesis by (cases "run rotate_step (no_session_client, []) es") (simp add: rotate_ok_def)
qed

section \<open>What the code misses\<close>

text \<open>
  The captcha of VK's new form has no \<^verbatim>\<open>captcha_sid\<close>. The checks of the VK Calls path look at the sid only, and do
  not see it.
\<close>

lemma sidless_captcha_unseen:
  assumes "ch_sid (extract_captcha resp) = []" and "ch_url (extract_captcha resp) \<noteq> []"
  shows "calls_gate resp = None"
proof -
  have "trunc (num_or_zero (key ''error_code'' (key ''error'' resp))) = 14"
    using assms(2) by (auto simp: extract_captcha_def Let_def no_captcha_def split: if_splits)
  with assms(1) show ?thesis by (simp add: calls_gate_def fatal_call_error_def Let_def)
qed

text \<open>
  When the fresh request between two automatic attempts gives the call token itself, the token is not used: step 2
  is asked again, and an error of that request ends the mint.
\<close>

theorem token_in_hand_lost:
  assumes "ch_url (extract_captcha resp) \<noteq> []" and "pw_err w = Some e'" and "pw_show_type w \<noteq> []"
    and "ch_url (extract_captcha resp') = []" and "extract_str [''response'', ''token''] resp' = Inr t"
  shows "path (step2_loop c 3 q [])
     [Ev_post q (Inr resp), Ev_pow (ch_url (extract_captcha resp)) (ch_sid (extract_captcha resp)) w,
      Ev_post (step2_plain c) (Inr resp'), Ev_post q (Inl e)] (Inl (Failed (ascii ''step2: '' @ e)))"
proof -
  have "path (pow_loop c 3 (extract_captcha resp) 0 None [])
      [Ev_pow (ch_url (extract_captcha resp)) (ch_sid (extract_captcha resp)) w, Ev_post (step2_plain c) (Inr resp')] (Pow_token t)"
    using assms by (simp add: numeral_3_eq_3 next_empty_show_hint_def Let_def)
  moreover have "path (step2_loop c 2 q t) [Ev_post q (Inl e)] (Inl (Failed (ascii ''step2: '' @ e)))"
    by (simp add: numeral_2_eq_2 fails_def)
  ultimately have "path (bind (pow_loop c 3 (extract_captcha resp) 0 None []) (\<lambda>out. case out of
           Pow_solved cur tok \<Rightarrow> step2_loop c 2 (step2_solved c (ch_sid cur) tok (ch_ts cur) (ch_attempt cur)) []
         | Pow_token t \<Rightarrow> step2_loop c 2 q t
         | Pow_out cur last_err token2 \<Rightarrow> hand_out c cur last_err (\<lambda>q. step2_loop c 2 q token2)))
      ([Ev_pow (ch_url (extract_captcha resp)) (ch_sid (extract_captcha resp)) w, Ev_post (step2_plain c) (Inr resp')] @ [Ev_post q (Inl e)])
      (Inl (Failed (ascii ''step2: '' @ e)))"
    by (intro path_bindI) (assumption, simp)
  moreover have three: "step2_loop c 3 q [] = step2_loop c (Suc 2) q []" by simp
  ultimately show ?thesis using assms(1) unfolding three step2_loop.simps(2) by (simp add: Let_def)
qed

text \<open>
  The same request is not asked whether the call is gone: VK's answer that it is sends the loop to its end, where a
  captcha is handed out for a call that no longer exists.
\<close>

theorem gone_call_unheard:
  assumes "pw_err w = Some e'" and "pw_show_type w \<noteq> []" and "fatal_call_error resp = Some (code, msg)"
    and "extract_str [''response'', ''token''] resp = Inl e"
  shows "path (pow_loop c 3 cap 0 None []) [Ev_pow (ch_url cap) (ch_sid cap) w, Ev_post (step2_plain c) (Inr resp)] (Pow_out cap (Some e') [])"
proof -
  have "ch_url (extract_captcha resp) = []"
    using assms(3) by (auto simp: fatal_call_error_def extract_captcha_def no_captcha_def Let_def split: if_splits)
  then show ?thesis using assms by (simp add: numeral_3_eq_3 next_empty_show_hint_def Let_def)
qed

end
