(* ===== verification/VkCookie.thy ===== *)
theory VkCookie
  imports VkApi
begin

text \<open>
  Credentials of a logged-in VK session, \<^verbatim>\<open>src/pkg/proxy/creds_vkcookie.go\<close>: the five requests that mint one
  (\<open>via_cookies\<close>), the discovery of distinct relays over the configured call links (\<open>cookie_cred_for_slot\<close>), the
  latch of a rejected cookie, and \<^verbatim>\<open>GetVKCreds\<close> of \<^verbatim>\<open>creds.go\<close>, which chooses between this path and the
  anonymous one. \<^verbatim>\<open>cookieMu\<close> is held over a whole call, so a call is one step. One clock reading per call.
\<close>

section \<open>Configuration\<close>

record cookie_state =
  ck_enabled :: bool
  ck_header :: bytes
  ck_fatal :: bytes
  ck_links :: "bytes list"
  ck_cache :: "bytes \<Rightarrow> turn_creds option"
  ck_relays :: "(bytes \<times> bytes) list"
  ck_seen :: "bytes list"
  ck_discovered :: nat

text \<open>\<^verbatim>\<open>strings.LastIndex\<close>, then what follows; \<^verbatim>\<open>strings.TrimRight\<close> with one byte.\<close>

fun after_last :: "bytes \<Rightarrow> bytes \<Rightarrow> bytes option" where
  "after_last p [] = (if p = [] then Some [] else None)"
| "after_last p (x # xs) = (case after_last p xs of
     Some r \<Rightarrow> Some r
   | None \<Rightarrow> if has_prefix p (x # xs) then Some (drop (length p) (x # xs)) else None)"

definition trim_right :: "byte \<Rightarrow> bytes \<Rightarrow> bytes" where
  "trim_right c s = List.rev (dropWhile (\<lambda>b. b = c) (List.rev s))"

definition cookie_link_id :: "bytes \<Rightarrow> bytes" where
  "cookie_link_id s =
     (let i0 = trim_space s;
          i1 = (case after_last (ascii ''join/'') i0 of Some r \<Rightarrow> r | None \<Rightarrow> i0);
          i2 = trim_right 0x2f i1; cut = takeWhile (\<lambda>b. b \<noteq> 0x3f \<and> b \<noteq> 0x23) i2
      in if length cut < length i2 \<and> cut \<noteq> [] then cut else i2)"

definition set_vk_cookie_auth :: "bool \<Rightarrow> bytes \<Rightarrow> bytes list \<Rightarrow> cookie_state" where
  "set_vk_cookie_auth enabled header links = \<lparr>ck_enabled = enabled, ck_header = trim_space header, ck_fatal = [],
     ck_links = filter (\<lambda>l. l \<noteq> []) (map cookie_link_id links), ck_cache = Map.empty, ck_relays = [], ck_seen = [], ck_discovered = 0\<rparr>"

section \<open>The requests of one mint\<close>

text \<open>\<open>Rejected\<close> is an error that wraps \<^verbatim>\<open>ErrCookieRejected\<close>.\<close>

datatype cookie_error = Rejected bytes | Cookie_failed bytes

definition cookie_resp_str :: "string list \<Rightarrow> json \<Rightarrow> bytes option" where
  "cookie_resp_str ks resp = (case walk ks resp of Inr (Str s) \<Rightarrow> Some s | _ \<Rightarrow> None)"

definition cookie_api_error :: "json \<Rightarrow> bytes" where
  "cookie_api_error resp =
     (let e = key ''error'' resp; code = num_or_zero (key ''error_code'' e); msg = str_or_empty (key ''error_msg'' e)
      in if \<not> is_obj e \<or> code = 0 \<and> msg = [] then [] else ascii ''error_code='' @ fmt0 code @ ascii '' '' @ msg)"

definition cookie_ok_error :: "json \<Rightarrow> bytes" where
  "cookie_ok_error resp =
     (let code = num_or_zero (key ''error_code'' resp)
      in if code = 0 then [] else ascii ''error_code='' @ fmt0 code @ ascii '' '' @ str_or_empty (key ''error_msg'' resp))"

definition c_fails :: "string \<Rightarrow> bytes \<Rightarrow> (cookie_error + 'a) mint" where
  "c_fails what e = Return (Inl (Cookie_failed (ascii what @ e)))"

text \<open>A form with the header fields that carry the session after its own fields, and its answer.\<close>

definition do_form :: "bytes \<Rightarrow> string \<Rightarrow> bytes \<Rightarrow> (string \<times> bytes) list \<Rightarrow> bytes \<Rightarrow> (cookie_error + json) mint" where
  "do_form header what url form bearer =
     Post (req url (form @ (if bearer \<noteq> [] then [(''Authorization'', ascii ''Bearer '' @ bearer)] else []) @ [(''Cookie'', header)]))
       (\<lambda>r. case r of Inl e \<Rightarrow> c_fails what e | Inr resp \<Rightarrow> Return (Inr resp))"

definition no_error :: "string \<Rightarrow> bytes \<Rightarrow> (cookie_error + unit) mint" where
  "no_error what e = (if e \<noteq> [] then c_fails what e else Return (Inr ()))"

definition need :: "string \<Rightarrow> 'a option \<Rightarrow> (cookie_error + 'a) mint" where
  "need what x = (case x of None \<Rightarrow> c_fails what [] | Some v \<Rightarrow> Return (Inr v))"

definition fb_do :: "bytes \<Rightarrow> bytes" where
  "fb_do base = (let b = trim_right 0x2f base in if drop (length b - length (ascii ''/fb.do'')) b = ascii ''/fb.do'' then b else b @ ascii ''/fb.do'')"

text \<open>
  A Go string as \<^verbatim>\<open>json.Marshal\<close> writes it, byte by byte: the escapes of ASCII; the bytes of other characters are
  kept (the tokens VK sends are ASCII; \<^verbatim>\<open>Marshal\<close> would replace invalid UTF-8, which this does not).
\<close>

definition hex_digit :: "nat \<Rightarrow> byte" where
  "hex_digit n = of_nat (if n < 10 then 48 + n else 87 + n)"

definition json_escape :: "byte \<Rightarrow> bytes" where
  "json_escape b =
     (if b = 0x22 \<or> b = 0x5c then [0x5c, b]
      else if b = 0x08 then [0x5c, 0x62] else if b = 0x0c then [0x5c, 0x66]
      else if b = 0x0a then [0x5c, 0x6e] else if b = 0x0d then [0x5c, 0x72] else if b = 0x09 then [0x5c, 0x74]
      else if b < 0x20 \<or> b = 0x3c \<or> b = 0x3e \<or> b = 0x26
        then [0x5c, 0x75, 0x30, 0x30, hex_digit (unat b div 16), hex_digit (unat b mod 16)]
      else [b])"

definition json_string :: "bytes \<Rightarrow> bytes" where
  "json_string s = [0x22] @ concat (map json_escape s) @ [0x22]"

definition cookie_session_data :: "bytes \<Rightarrow> bytes \<Rightarrow> bytes" where
  "cookie_session_data device token = (let q = json_string; kv = (\<lambda>k v. q (ascii k) @ ascii '':'' @ v) in
     ascii ''{'' @ kv ''auth_token'' (q token) @ ascii '','' @ kv ''client_type'' (q (ascii ''SDK_JS'')) @ ascii '',''
     @ kv ''client_version'' (q (ascii ''1.1'')) @ ascii '','' @ kv ''device_id'' (q device) @ ascii '','' @ kv ''version'' (ascii ''3'') @ ascii ''}'')"

definition via_cookies :: "bytes \<Rightarrow> bytes \<Rightarrow> (cookie_error + turn_creds) mint" where
  "via_cookies link0 header0 =
     (let header = trim_space header0; link = trim_space link0; v = (''v'', ascii ''5.280'') in
      if header = [] then c_fails ''empty cookie'' []
      else if link = [] then c_fails ''empty join link'' []
      else Identity (\<lambda>i.
        bind_ok (do_form header ''web_token: '' (ascii ''https://login.vk.ru/?act=web_token'')
          [(''version'', ascii ''1''), (''app_id'', ascii ''6287487'')] []) (\<lambda>web.
        let token = (case cookie_resp_str [''data'', ''access_token''] web of None \<Rightarrow> [] | Some t \<Rightarrow> t) in
        if token = [] then Return (Inl (Rejected (ascii ''web_token empty access_token'')))
        else
        bind_ok (do_form header ''calls.getSettings: '' (ascii ''https://api.vk.ru/method/calls.getSettings'') [v] token) (\<lambda>settings.
        bind_ok (no_error ''calls.getSettings: '' (cookie_api_error settings)) (\<lambda>_.
        let app_key = (case cookie_resp_str [''response'', ''settings'', ''public_key''] settings of
              Some (b # bs) \<Rightarrow> b # bs
            | _ \<Rightarrow> (case cookie_resp_str [''response'', ''public_key''] settings of Some (b # bs) \<Rightarrow> b # bs | _ \<Rightarrow> ok_app_key)) in
        bind_ok (do_form header ''messages.getCallToken: '' (ascii ''https://api.vk.ru/method/messages.getCallToken'')
          [v, (''env'', ascii ''production'')] token) (\<lambda>call.
        bind_ok (no_error ''messages.getCallToken: '' (cookie_api_error call)) (\<lambda>_.
        bind_ok (need ''messages.getCallToken: no token'' (cookie_resp_str [''response'', ''token''] call)) (\<lambda>auth.
        bind_ok (need ''messages.getCallToken: no api_base_url'' (cookie_resp_str [''response'', ''api_base_url''] call)) (\<lambda>base.
        let url = fb_do base; json_format = (''format'', ascii ''JSON'') in
        bind_ok (do_form header ''auth.anonymLogin: '' url [(''method'', ascii ''auth.anonymLogin''), (''application_key'', app_key), json_format,
          (''session_data'', cookie_session_data (id_ok_device i) auth)] []) (\<lambda>login.
        bind_ok (no_error ''auth.anonymLogin: '' (cookie_ok_error login)) (\<lambda>_.
        bind_ok (need ''auth.anonymLogin: no session_key'' (cookie_resp_str [''session_key''] login)) (\<lambda>session.
        bind_ok (do_form header ''join: '' url [(''method'', ascii ''vchat.joinConversationByLink''), (''session_key'', session),
          (''application_key'', app_key), json_format, (''joinLink'', link), (''isVideo'', ascii ''false''), (''isAudio'', ascii ''false''),
          (''protocolVersion'', ascii ''5''), (''capabilities'', ascii ''2F7F'')] []) (\<lambda>join.
        bind_ok (no_error ''join: '' (cookie_ok_error join)) (\<lambda>_.
        bind_ok (need ''join: no turn_server.username'' (cookie_resp_str [''turn_server'', ''username''] join)) (\<lambda>user.
        bind_ok (need ''join: no turn_server.credential'' (cookie_resp_str [''turn_server'', ''credential''] join)) (\<lambda>pass.
        if parse_turn_addresses join = [] then c_fails ''join: turn_server.urls empty'' []
        else Return (Inr (turn_creds_of user pass (parse_turn_addresses join)))))))))))))))))))"

section \<open>The relays of the slots\<close>

definition cookie_cred_stale :: "time \<Rightarrow> turn_creds \<Rightarrow> bool" where
  "cookie_cred_stale now c = (case parse_cred_expiry (tc_username c) of
     None \<Rightarrow> False | Some e \<Rightarrow> time_sub e now < cred_expiry_buffer)"

definition cookie_mint_cached :: "time \<Rightarrow> bytes \<Rightarrow> bytes \<Rightarrow> cookie_state \<Rightarrow> ((cookie_error + turn_creds) \<times> cookie_state) mint" where
  "cookie_mint_cached now header link st =
     (let mint_it = bind (via_cookies link header) (\<lambda>r. case r of
          Inl e \<Rightarrow> Return (Inl e, st)
        | Inr c \<Rightarrow> Return (Inr c, st\<lparr>ck_cache := (ck_cache st)(link \<mapsto> c)\<rparr>))
      in case ck_cache st link of
           None \<Rightarrow> mint_it
         | Some c \<Rightarrow> if cookie_cred_stale now c then mint_it else Return (Inr c, st))"

definition add_relay :: "bytes \<Rightarrow> cookie_state \<Rightarrow> bytes \<Rightarrow> cookie_state" where
  "add_relay link st addr =
     (if addr = [] \<or> addr \<in> set (ck_seen st) then st
      else st\<lparr>ck_seen := addr # ck_seen st, ck_relays := ck_relays st @ [(addr, link)]\<rparr>)"

text \<open>The loop over the links that are still to be minted.\<close>

fun discover :: "time \<Rightarrow> bytes \<Rightarrow> nat \<Rightarrow> bytes list \<Rightarrow> cookie_state \<Rightarrow> (cookie_error option \<times> cookie_state) mint" where
  "discover now header slot [] st = Return (None, st)"
| "discover now header slot (link # links) st =
     (if slot < length (ck_relays st) then Return (None, st)
      else bind (cookie_mint_cached now header link (st\<lparr>ck_discovered := Suc (ck_discovered st)\<rparr>)) (\<lambda>(r, st). case r of
          Inl e \<Rightarrow> Return (Some e, st)
        | Inr c \<Rightarrow> discover now header slot links (foldl (add_relay link) st (tc_addresses c))))"

definition relay_cred :: "bytes \<Rightarrow> turn_creds \<Rightarrow> turn_creds" where
  "relay_cred addr c = \<lparr>tc_username = tc_username c, tc_password = tc_password c, tc_address = addr, tc_addresses = [addr]\<rparr>"

definition cookie_cred_for_slot :: "time \<Rightarrow> int \<Rightarrow> cookie_state \<Rightarrow> ((cookie_error + turn_creds) \<times> cookie_state) mint" where
  "cookie_cred_for_slot now slot0 st =
     (let header = ck_header st; slot = nat slot0 in
      if header = [] then Return (Inl (Rejected (ascii ''no VK cookie stored'')), st)
      else if ck_links st = [] then Return (Inl (Cookie_failed (ascii ''cookie auth: no call links configured'')), st)
      else bind (discover now header slot (drop (ck_discovered st) (ck_links st)) st) (\<lambda>(e, st). case e of
          Some e \<Rightarrow> Return (Inl e, st)
        | None \<Rightarrow>
            if length (ck_relays st) \<le> slot then Return (Inl (Cookie_failed (ascii ''cookie auth: too few distinct TURN relays'')), st)
            else bind (cookie_mint_cached now header (snd (ck_relays st ! slot)) st) (\<lambda>(r, st'). case r of
                Inl e \<Rightarrow> Return (Inl e, st')
              | Inr c \<Rightarrow> Return (Inr (relay_cred (fst (ck_relays st ! slot)) c), st'))))"

section \<open>The latch and the whole fetch\<close>

definition cookie_error_text :: "cookie_error \<Rightarrow> bytes" where
  "cookie_error_text e = (case e of Rejected t \<Rightarrow> t | Cookie_failed t \<Rightarrow> t)"

text \<open>What both fetchers and \<^verbatim>\<open>GetVKCreds\<close> make of the answer.\<close>

definition cookie_fetch :: "time \<Rightarrow> int \<Rightarrow> cookie_state \<Rightarrow> (minted \<times> cookie_state) mint" where
  "cookie_fetch now slot st = bind (cookie_cred_for_slot now slot st) (\<lambda>(r, st). case r of
     Inl e \<Rightarrow> Return (Inl (Failed (ascii ''cookie auth: '' @ cookie_error_text e)),
         case e of Rejected t \<Rightarrow> st\<lparr>ck_fatal := t\<rparr> | _ \<Rightarrow> st)
   | Inr c \<Rightarrow> Return (Inr c, st\<lparr>ck_fatal := []\<rparr>))"

definition get_vk_creds :: "time \<Rightarrow> mint_env \<Rightarrow> bytes \<Rightarrow> bool \<Rightarrow> solved_captcha \<Rightarrow> cookie_state \<Rightarrow> (minted \<times> cookie_state) mint" where
  "get_vk_creds now me link solver sv st =
     (if ck_enabled st then cookie_fetch now 0 st
      else bind (fetch_anonymous me link solver sv) (\<lambda>r. Return (r, st)))"

section \<open>The relay of a slot\<close>

definition relays_ok :: "cookie_state \<Rightarrow> bool" where
  "relays_ok st \<longleftrightarrow> set (ck_seen st) = fst ` set (ck_relays st) \<and> distinct (map fst (ck_relays st))"

definition grows :: "cookie_state \<Rightarrow> cookie_state \<Rightarrow> bool" where
  "grows st st' \<longleftrightarrow> (relays_ok st \<longrightarrow> relays_ok st') \<and> take (length (ck_relays st)) (ck_relays st') = ck_relays st
     \<and> ck_links st' = ck_links st \<and> ck_header st' = ck_header st"

lemma grows_refl [simp]: "grows st st"
  by (simp add: grows_def)

lemma grows_length: "grows a b \<Longrightarrow> length (ck_relays a) \<le> length (ck_relays b)"
proof -
  assume "grows a b"
  then have "length (take (length (ck_relays a)) (ck_relays b)) = length (ck_relays a)" by (simp add: grows_def)
  then show ?thesis by simp
qed

lemma grows_trans: "grows a b \<Longrightarrow> grows b c \<Longrightarrow> grows a c"
proof -
  assume ab: "grows a b" and bc: "grows b c"
  have b: "length (ck_relays a) \<le> length (ck_relays b)" using ab by (rule grows_length)
  have "take (length (ck_relays a)) (ck_relays c) = take (length (ck_relays a)) (take (length (ck_relays b)) (ck_relays c))"
    using b by simp
  also have "\<dots> = ck_relays a" using ab bc by (simp add: grows_def)
  finally show "grows a c" using ab bc by (simp add: grows_def)
qed

lemma grows_same: "ck_relays st' = ck_relays st \<Longrightarrow> ck_seen st' = ck_seen st \<Longrightarrow> ck_links st' = ck_links st
    \<Longrightarrow> ck_header st' = ck_header st \<Longrightarrow> grows st st'"
  by (simp add: grows_def relays_ok_def)

lemma grows_nth: "grows st st' \<Longrightarrow> i < length (ck_relays st) \<Longrightarrow> i < length (ck_relays st') \<and> ck_relays st' ! i = ck_relays st ! i"
proof -
  assume g: "grows st st'" and i: "i < length (ck_relays st)"
  have "ck_relays st ! i = take (length (ck_relays st)) (ck_relays st') ! i" using g by (simp add: grows_def)
  then show ?thesis using i grows_length [OF g] by simp
qed

lemma add_relay_grows: "grows st (add_relay link st addr)"
  by (simp add: grows_def add_relay_def relays_ok_def image_iff)

lemma add_relays_grow: "grows st (foldl (add_relay link) st addrs)"
proof (induction addrs arbitrary: st)
  case (Cons a addrs)
  show ?case using grows_trans [OF add_relay_grows Cons.IH] by simp
qed simp

lemma mint_cached_grows: "spec (cookie_mint_cached now header link st) (\<lambda>tr (r, st'). grows st st' \<and> ck_discovered st' = ck_discovered st)"
proof -
  have "spec (bind p (\<lambda>r. case r of Inl e \<Rightarrow> Return (Inl e, st) | Inr c \<Rightarrow> Return (Inr c, st\<lparr>ck_cache := (ck_cache st)(link \<mapsto> c)\<rparr>)))
      (\<lambda>tr (r, st'). grows st st' \<and> ck_discovered st' = ck_discovered st)" for p
    unfolding spec_bind by (rule spec_mono [where Q = "\<lambda>tr r. True"]) (auto simp: spec_def [of p] grows_same split: sum.split)
  then show ?thesis by (auto simp: cookie_mint_cached_def Let_def split: option.split)
qed

lemma discover_grows: "spec (discover now header slot links st) (\<lambda>tr (e, st'). grows st st')"
proof (induction links arbitrary: st)
  case (Cons link links)
  show ?case
  proof (cases "slot < length (ck_relays st)")
    case False
    define st1 where "st1 = st\<lparr>ck_discovered := Suc (ck_discovered st)\<rparr>"
    have 0: "grows st st1" by (simp add: st1_def grows_same)
    have "spec (cookie_mint_cached now header link st1) (\<lambda>tr (r, st'). grows st1 st')"
      by (rule spec_mono [OF mint_cached_grows]) auto
    then have "spec (cookie_mint_cached now header link st1) (\<lambda>tr a. spec (case a of (r, st') \<Rightarrow> case r of
          Inl e \<Rightarrow> Return (Some e, st')
        | Inr c \<Rightarrow> discover now header slot links (foldl (add_relay link) st' (tc_addresses c))) (\<lambda>tr' (e, st'). grows st st'))"
    proof (rule spec_mono)
      fix tr and a :: "(cookie_error + turn_creds) \<times> cookie_state" assume "case a of (r, st') \<Rightarrow> grows st1 st'"
      then obtain r st' where a: "a = (r, st')" "grows st st'" using grows_trans [OF 0] by (cases a) auto
      have "spec (discover now header slot links (foldl (add_relay link) st' (tc_addresses c))) (\<lambda>tr' (e, st''). grows st st'')" for c
        by (rule spec_mono [OF Cons.IH]) (auto dest: grows_trans [OF grows_trans [OF a(2) add_relays_grow]])
      then show "spec (case a of (r, st') \<Rightarrow> case r of
          Inl e \<Rightarrow> Return (Some e, st')
        | Inr c \<Rightarrow> discover now header slot links (foldl (add_relay link) st' (tc_addresses c))) (\<lambda>tr' (e, st'). grows st st')"
        using a by (cases r) auto
    qed
    then show ?thesis using False by (simp add: spec_bind st1_def)
  qed simp
qed simp

text \<open>A success carries the one address of its slot in the list that only grows.\<close>

definition serves :: "int \<Rightarrow> cookie_state \<Rightarrow> turn_creds \<Rightarrow> bool" where
  "serves slot st c \<longleftrightarrow> nat slot < length (ck_relays st) \<and> tc_addresses c = [fst (ck_relays st ! nat slot)]
     \<and> tc_address c = fst (ck_relays st ! nat slot)"

lemma serves_grows: "grows st st' \<Longrightarrow> serves slot st c \<Longrightarrow> serves slot st' c"
  by (auto simp: serves_def dest: grows_nth)

lemma cred_for_slot_serves:
  "spec (cookie_cred_for_slot now slot st) (\<lambda>tr (r, st'). grows st st' \<and> (case r of Inr c \<Rightarrow> serves slot st' c | Inl e \<Rightarrow> True))"
proof -
  let ?Q = "\<lambda>a. (\<lambda>(r :: cookie_error + turn_creds, st'). grows st st' \<and> (case r of Inr c \<Rightarrow> serves slot st' c | Inl e \<Rightarrow> True)) a"
  have rest: "spec (cookie_mint_cached now (ck_header st) link st1) (\<lambda>tr a. spec (case a of (r, st2) \<Rightarrow> case r of
        Inl e \<Rightarrow> Return (Inl e, st2) | Inr c \<Rightarrow> Return (Inr (relay_cred (fst (ck_relays st1 ! nat slot)) c), st2)) (\<lambda>tr. ?Q))"
    if g: "grows st st1" and len: "nat slot < length (ck_relays st1)" for st1 link
  proof (rule spec_mono [OF mint_cached_grows])
    fix a :: "(cookie_error + turn_creds) \<times> cookie_state"
    assume "case a of (r, st2) \<Rightarrow> grows st1 st2 \<and> ck_discovered st2 = ck_discovered st1"
    then obtain r st2 where a: "a = (r, st2)" "grows st1 st2" by (cases a) auto
    then show "spec (case a of (r, st2) \<Rightarrow> case r of
        Inl e \<Rightarrow> Return (Inl e, st2) | Inr c \<Rightarrow> Return (Inr (relay_cred (fst (ck_relays st1 ! nat slot)) c), st2)) (\<lambda>tr. ?Q)"
      using grows_trans [OF g a(2)] grows_nth [OF a(2) len] by (simp add: serves_def relay_cred_def split: sum.split)
  qed
  show ?thesis
  proof (cases "ck_header st = [] \<or> ck_links st = []")
    case False
    have "spec (case a of (e, st1) \<Rightarrow> case e of
          Some e \<Rightarrow> Return (Inl e, st1)
        | None \<Rightarrow> if length (ck_relays st1) \<le> nat slot then Return (Inl (Cookie_failed t), st1)
            else bind (cookie_mint_cached now (ck_header st) (snd (ck_relays st1 ! nat slot)) st1) (\<lambda>(r, st2). case r of
              Inl e \<Rightarrow> Return (Inl e, st2) | Inr c \<Rightarrow> Return (Inr (relay_cred (fst (ck_relays st1 ! nat slot)) c), st2))) (\<lambda>tr. ?Q)"
      if "case a of (e, st') \<Rightarrow> grows st st'" for a t
    proof (cases a)
      case (Pair e st1)
      with that have "grows st st1" by simp
      with rest [OF this] show ?thesis unfolding Pair by (simp add: spec_bind split: option.split)
    qed
    with False show ?thesis unfolding cookie_cred_for_slot_def Let_def
      by (simp only: if_False de_Morgan_disj, unfold spec_bind, intro spec_mono [OF discover_grows]) blast
  qed (auto simp: cookie_cred_for_slot_def Let_def)
qed

lemma cookie_fetch_serves:
  "spec (cookie_fetch now slot st) (\<lambda>tr (r, st'). grows st st' \<and> (case r of Inr c \<Rightarrow> serves slot st' c | Inl e \<Rightarrow> True))"
proof -
  have same: "grows st (st'\<lparr>ck_fatal := t\<rparr>)" if "grows st st'" for st' t
    using that by (auto simp: grows_def relays_ok_def)
  have same': "serves slot (st'\<lparr>ck_fatal := t\<rparr>) c = serves slot st' c" for st' t c by (simp add: serves_def)
  show ?thesis unfolding cookie_fetch_def spec_bind
    by (rule spec_mono [OF cred_for_slot_serves])
      (auto simp: same same' split: sum.split_asm cookie_error.split sum.split)
qed

text \<open>Any calls in any order: the fetches of the pool's slots.\<close>

fun fetches :: "(time \<times> int) list \<Rightarrow> cookie_state \<Rightarrow> (minted list \<times> cookie_state) mint" where
  "fetches [] st = Return ([], st)"
| "fetches ((now, slot) # cs) st =
     bind (cookie_fetch now slot st) (\<lambda>(r, st). bind (fetches cs st) (\<lambda>(rs, st). Return (r # rs, st)))"

lemma fetches_serve:
  "spec (fetches cs st) (\<lambda>tr (rs, st'). grows st st'
     \<and> list_all2 (\<lambda>(now, slot) r. case r of Inr c \<Rightarrow> serves slot st' c | Inl e \<Rightarrow> True) cs rs)"
proof (induction cs st rule: fetches.induct)
  case (2 now slot cs st)
  show ?case unfolding fetches.simps spec_bind
  proof (rule spec_mono [OF cookie_fetch_serves])
    fix tr and a :: "minted \<times> cookie_state" assume "case a of (r, st') \<Rightarrow> grows st st' \<and> (case r of Inr c \<Rightarrow> serves slot st' c | Inl e \<Rightarrow> True)"
    then obtain r st1 where a: "a = (r, st1)" "grows st st1" "case r of Inr c \<Rightarrow> serves slot st1 c | Inl e \<Rightarrow> True"
      by (cases a) auto
    have "spec (fetches cs st1) (\<lambda>tr (rs, st'). grows st st'
        \<and> list_all2 (\<lambda>(now, slot) r. case r of Inr c \<Rightarrow> serves slot st' c | Inl e \<Rightarrow> True) ((now, slot) # cs) (r # rs))"
    proof (rule spec_mono [OF 2])
      fix b :: "minted list \<times> cookie_state"
      assume "case b of (rs, st') \<Rightarrow> grows st1 st'
        \<and> list_all2 (\<lambda>(now, slot) r. case r of Inr c \<Rightarrow> serves slot st' c | Inl e \<Rightarrow> True) cs rs"
      then obtain rs st' where b: "b = (rs, st')" "grows st1 st'"
          "list_all2 (\<lambda>(now, slot) r. case r of Inr c \<Rightarrow> serves slot st' c | Inl e \<Rightarrow> True) cs rs" by (cases b) auto
      show "case b of (rs, st') \<Rightarrow> grows st st'
        \<and> list_all2 (\<lambda>(now, slot) r. case r of Inr c \<Rightarrow> serves slot st' c | Inl e \<Rightarrow> True) ((now, slot) # cs) (r # rs)"
        using b(1,3) grows_trans [OF a(2) b(2)] serves_grows [OF b(2)] a(3) by (simp split: sum.split_asm sum.split)
    qed
    then show "spec (case a of (r, st) \<Rightarrow> bind (fetches cs st) (\<lambda>(rs, st). Return (r # rs, st)))
        (\<lambda>tr' (rs, st'). grows st st' \<and> list_all2 (\<lambda>(now, slot) r. case r of Inr c \<Rightarrow> serves slot st' c | Inl e \<Rightarrow> True) ((now, slot) # cs) rs)"
      unfolding a(1) case_prod_conv spec_bind by (rule spec_mono) auto
  qed
qed simp

text \<open>
  C25: cookie mode, one relay per slot. Configure the mode and let any number of slots fetch, in any order and
  whatever VK answers: there is one list of distinct relays such that every success for slot \<open>s\<close> names the relay at
  \<open>s\<close>, and no other. So no two slots share a relay, and a slot keeps its own through every re-mint.
\<close>

theorem cookie_slots_fixed:
  "spec (fetches cs (set_vk_cookie_auth en header links)) (\<lambda>tr (rs, st). distinct (map fst (ck_relays st))
     \<and> list_all2 (\<lambda>(now, slot) r. case r of Inr c \<Rightarrow> serves slot st c | Inl e \<Rightarrow> True) cs rs)"
proof (rule spec_mono [OF fetches_serve])
  have ok: "relays_ok (set_vk_cookie_auth en header links)" by (simp add: relays_ok_def set_vk_cookie_auth_def)
  fix tr and a :: "minted list \<times> cookie_state"
  assume "case a of (rs, st') \<Rightarrow> grows (set_vk_cookie_auth en header links) st'
     \<and> list_all2 (\<lambda>(now, slot) r. case r of Inr c \<Rightarrow> serves slot st' c | Inl e \<Rightarrow> True) cs rs"
  then show "case a of (rs, st) \<Rightarrow> distinct (map fst (ck_relays st))
     \<and> list_all2 (\<lambda>(now, slot) r. case r of Inr c \<Rightarrow> serves slot st c | Inl e \<Rightarrow> True) cs rs"
    using ok by (auto simp: grows_def relays_ok_def)
qed

section \<open>The latch\<close>

text \<open>What was asked and answered, with no access token in the answer of \<^verbatim>\<open>web_token\<close>.\<close>

definition no_token :: "mint_event \<Rightarrow> bool" where
  "no_token ev = (case ev of
     Ev_post q (Inr web) \<Rightarrow> rq_url q = ascii ''https://login.vk.ru/?act=web_token''
       \<and> cookie_resp_str [''data'', ''access_token''] web \<in> {None, Some []}
   | _ \<Rightarrow> False)"

definition honest :: "bytes \<Rightarrow> mint_event list \<Rightarrow> cookie_error \<Rightarrow> bool" where
  "honest header tr e = (case e of Rejected t \<Rightarrow> t \<noteq> [] \<and> (header = [] \<or> (\<exists>ev \<in> set tr. no_token ev)) | Cookie_failed t \<Rightarrow> True)"

lemma c_fails_spec [simp]: "spec (c_fails w e) Q \<longleftrightarrow> Q [] (Inl (Cookie_failed (ascii w @ e)))"
  by (simp add: c_fails_def)

lemma ask_specs [simp]:
  "spec (no_error w e) Q1 \<longleftrightarrow> Q1 [] (if e \<noteq> [] then Inl (Cookie_failed (ascii w @ e)) else Inr ())"
  "spec (need w x) Q2 \<longleftrightarrow> Q2 [] (case x of None \<Rightarrow> Inl (Cookie_failed (ascii w)) | Some v \<Rightarrow> Inr v)"
  by (auto simp: no_error_def need_def split: option.split)

definition tame :: "bytes \<Rightarrow> (cookie_error + 'a) mint \<Rightarrow> bool" where
  "tame header p \<longleftrightarrow> spec p (\<lambda>tr r. case r of Inl e \<Rightarrow> honest header tr e | Inr a \<Rightarrow> True)"

lemma honest_later: "honest header tr e \<Longrightarrow> honest header (pre @ tr) e"
  by (auto simp: honest_def split: cookie_error.splits)

lemma tame_later: "tame h p \<Longrightarrow> spec p (\<lambda>tr r. case r of Inl e \<Rightarrow> honest h (pre @ tr) e | Inr a \<Rightarrow> True)"
  unfolding tame_def by (erule spec_mono) (auto split: sum.split_asm sum.split intro: honest_later)

lemma tame_bind_ok: "tame h p \<Longrightarrow> (\<And>a. tame h (f a)) \<Longrightarrow> tame h (bind_ok p f)"
  unfolding tame_def [of h p] tame_def [of h "bind_ok p f"] spec_bind_ok
  by (erule spec_mono) (auto split: sum.split intro: tame_later)

lemma tame_simps [simp]:
  "tame h (no_error w e)" "tame h (need w x)" "tame h (c_fails w e')" "tame h (Return (Inr a))" "tame h (do_form hdr w u ps b)"
  by (auto simp: tame_def do_form_def honest_def split: option.split sum.split)


lemma tame_Identity: "(\<And>i. tame h (p i)) \<Longrightarrow> tame h (Identity p)"
  using tame_later [where pre = "[Ev_identity i]" and h = h and p = "p i" for i] unfolding tame_def [of h "Identity p"] by simp

lemma tame_if: "(c \<Longrightarrow> tame h p) \<Longrightarrow> (\<not> c \<Longrightarrow> tame h q) \<Longrightarrow> tame h (if c then p else q)"
  by simp

lemma tame_web:
  assumes "\<And>web. tame h (p web)"
  shows "tame h (bind_ok (do_form header what (ascii ''https://login.vk.ru/?act=web_token'') form b) (\<lambda>web.
     if (case cookie_resp_str [''data'', ''access_token''] web of None \<Rightarrow> [] | Some t \<Rightarrow> t) = []
     then Return (Inl (Rejected (ascii ''web_token empty access_token''))) else p web))"
proof -
  have "spec (p web) (\<lambda>tr r. case r of Inl e \<Rightarrow> honest h (ev # tr) e | Inr a \<Rightarrow> True)" for web ev
    using tame_later [where pre = "[ev]" and h = h and p = "p web"] assms by simp
  moreover have "ascii ''web_token empty access_token'' \<noteq> []" by (simp add: ascii_def)
  ultimately show ?thesis
    by (auto simp: tame_def do_form_def spec_bind_ok honest_def no_token_def req_def c_fails_def split: sum.split option.split_asm)
qed

lemma via_cookies_tame: "tame h (via_cookies link header)"
  unfolding via_cookies_def Let_def
  by (intro tame_if tame_Identity tame_web tame_simps tame_bind_ok)

lemma mint_cached_tame:
  "spec (cookie_mint_cached now header link st) (\<lambda>tr (r, st'). case r of Inl e \<Rightarrow> honest h tr e | Inr c \<Rightarrow> True)"
proof -
  have "spec (bind (via_cookies link header) (\<lambda>r. case r of Inl e \<Rightarrow> Return (Inl e, st) | Inr c \<Rightarrow> Return (Inr c, st\<lparr>ck_cache := m c\<rparr>)))
      (\<lambda>tr (r, st'). case r of Inl e \<Rightarrow> honest h tr e | Inr c \<Rightarrow> True)" for m
    unfolding spec_bind by (rule spec_mono [OF via_cookies_tame [unfolded tame_def]]) (auto split: sum.split_asm sum.split)
  then show ?thesis by (auto simp: cookie_mint_cached_def Let_def split: option.split)
qed


lemma discover_tame:
  "spec (discover now header slot links st) (\<lambda>tr (r, st'). case r of Some e \<Rightarrow> honest h tr e | None \<Rightarrow> True)"
proof (induction links arbitrary: st)
  case (Cons link links)
  have later: "spec (discover now header slot links st') (\<lambda>tr' (r, st'). case r of Some e \<Rightarrow> honest h (tr @ tr') e | None \<Rightarrow> True)" for st' tr
    by (rule spec_mono [OF Cons.IH]) (auto split: option.split_asm option.split intro: honest_later)
  show ?case
    by (auto simp: spec_bind intro!: spec_mono [OF mint_cached_tame] later split: sum.split_asm sum.split)
qed simp

lemma cred_for_slot_tame:
  "spec (cookie_cred_for_slot now slot st) (\<lambda>tr (r, st'). case r of Inl e \<Rightarrow> honest (ck_header st) tr e | Inr c \<Rightarrow> True)"
proof -
  have "spec (bind (cookie_mint_cached now hd link st1) (\<lambda>(r, st2). case r of Inl e \<Rightarrow> Return (Inl e, st2) | Inr c \<Rightarrow> Return (Inr (f c), st2)))
      (\<lambda>tr' (r, st'). case r of Inl e \<Rightarrow> honest h (tr @ tr') e | Inr (c :: turn_creds) \<Rightarrow> True)" for hd link st1 f h tr
    unfolding spec_bind
    by (rule spec_mono [OF mint_cached_tame]) (auto split: sum.split_asm sum.split intro: honest_later)
  moreover have "honest [] tr (Rejected (ascii ''no VK cookie stored''))" "honest h tr (Cookie_failed t)" for tr h t
    by (simp_all add: honest_def ascii_def)
  ultimately show ?thesis unfolding cookie_cred_for_slot_def Let_def
    by (auto simp: spec_bind intro!: spec_mono [OF discover_tame] split: option.split_asm option.split)
qed

lemma mint_cached_fatal: "spec (cookie_mint_cached now header link st) (\<lambda>tr (r, st'). ck_fatal st' = ck_fatal st)"
proof -
  have "spec (bind p (\<lambda>r. case r of Inl e \<Rightarrow> Return (Inl e, st) | Inr c \<Rightarrow> Return (Inr c, st\<lparr>ck_cache := (ck_cache st)(link \<mapsto> c)\<rparr>)))
      (\<lambda>tr (r, st'). ck_fatal st' = ck_fatal st)" for p
    unfolding spec_bind by (rule spec_mono [where Q = "\<lambda>tr r. True"]) (auto simp: spec_def [of p] split: sum.split)
  then show ?thesis by (auto simp: cookie_mint_cached_def Let_def split: option.split)
qed

lemma add_relays_fatal: "ck_fatal (foldl (add_relay link) st addrs) = ck_fatal st"
  by (induction addrs arbitrary: st) (simp_all add: add_relay_def)

lemma discover_fatal: "spec (discover now header slot links st) (\<lambda>tr (e, st'). ck_fatal st' = ck_fatal st)"
proof (induction links arbitrary: st)
  case (Cons link links)
  have later: "spec (discover now header slot links (foldl (add_relay link) st' addrs)) (\<lambda>tr (e, st''). ck_fatal st'' = t)"
    if "ck_fatal st' = t" for st' t addrs
    using Cons.IH [of "foldl (add_relay link) st' addrs"] that by (simp add: add_relays_fatal)
  show ?case
    by (auto simp: spec_bind intro!: spec_mono [OF mint_cached_fatal] later split: sum.split)
qed simp

lemma cred_for_slot_fatal: "spec (cookie_cred_for_slot now slot st) (\<lambda>tr (r, st'). ck_fatal st' = ck_fatal st)"
proof -
  have "spec (bind (cookie_mint_cached now header link st1) (\<lambda>(r, st2). case r of Inl e \<Rightarrow> Return (Inl e, st2) | Inr c \<Rightarrow> Return (Inr (f c), st2)))
      (\<lambda>tr' (r :: cookie_error + turn_creds, st'). ck_fatal st' = t)" if "ck_fatal st1 = t" for header link st1 f t
    unfolding spec_bind by (rule spec_mono [OF mint_cached_fatal]) (auto simp: that split: sum.split)
  then show ?thesis unfolding cookie_cred_for_slot_def Let_def
    by (auto simp: spec_bind intro!: spec_mono [OF discover_fatal] split: option.split)
qed

text \<open>
  C26: the latch that stops the tunnel. After a fetch in cookie mode the fatal message is cleared by a success; it is
  set only if there is no cookie at all or VK itself answered \<^verbatim>\<open>web_token\<close> without a token. A failure of the
  network, of the other requests or of the relay count leaves it as it was.
\<close>

theorem cookie_latch_needs_rejection:
  "spec (cookie_fetch now slot st) (\<lambda>tr (r, st'). case r of
     Inr c \<Rightarrow> ck_fatal st' = []
   | Inl e \<Rightarrow> ck_fatal st' = ck_fatal st \<or> ck_fatal st' \<noteq> [] \<and> (ck_header st = [] \<or> (\<exists>ev \<in> set tr. no_token ev)))"
proof -
  have same: "spec (cookie_cred_for_slot now slot st) (\<lambda>tr (r, st'). (case r of Inl e \<Rightarrow> honest (ck_header st) tr e | Inr c \<Rightarrow> True)
      \<and> ck_fatal st' = ck_fatal st)"
    using cred_for_slot_tame cred_for_slot_fatal by (fastforce simp: spec_def)
  show ?thesis unfolding cookie_fetch_def spec_bind
    by (rule spec_mono [OF same]) (auto simp: honest_def split: sum.split_asm sum.split cookie_error.split_asm cookie_error.split)
qed


section \<open>A discovery that failed\<close>

text \<open>
  A link counts as discovered before it is minted. If the mint of the only link fails once, for whatever reason, no
  later call asks VK about it: all of them find too few relays, until the mode is configured again.
\<close>

theorem failed_discovery_is_final:
  fixes header link now slot e i
  defines "st \<equiv> set_vk_cookie_auth True header [link]"
  assumes "header \<noteq> []" and trim: "trim_space header = header" and "trim_space (cookie_link_id link) \<noteq> []"
  shows "\<exists>q st'. path (cookie_fetch now slot st) [Ev_identity i, Ev_post q (Inl e)] (Inl (Failed (ascii ''cookie auth: web_token: '' @ e)), st')
     \<and> (\<forall>now' slot'. cookie_fetch now' slot' st' =
          Return (Inl (Failed (ascii ''cookie auth: cookie auth: too few distinct TURN relays'')), st'))"
proof -
  define q where "q = req (ascii ''https://login.vk.ru/?act=web_token'') [(''version'', ascii ''1''), (''app_id'', ascii ''6287487''),
      (''Cookie'', header)]"
  define st1 where "st1 = st\<lparr>ck_discovered := 1\<rparr>"
  have a: "ascii ''cookie auth: web_token: '' @ e = ascii ''cookie auth: '' @ ascii ''web_token: '' @ e"
    "ascii ''cookie auth: cookie auth: too few distinct TURN relays'' = ascii ''cookie auth: '' @ ascii ''cookie auth: too few distinct TURN relays''"
    by (simp_all add: ascii_def)
  have l: "cookie_link_id link \<noteq> []" using assms(4) by (auto simp: trim_space_def)
  have via: "path (via_cookies (cookie_link_id link) header) [Ev_identity i, Ev_post q (Inl e)] (Inl (Cookie_failed (ascii ''web_token: '' @ e)))"
    using assms(2,4) trim by (simp add: via_cookies_def Let_def do_form_def c_fails_def q_def bind_ok_def)
  have "path (cookie_mint_cached now header (cookie_link_id link) st1) ([Ev_identity i, Ev_post q (Inl e)] @ []) (Inl (Cookie_failed (ascii ''web_token: '' @ e)), st1)"
  proof -
    have "ck_cache st1 (cookie_link_id link) = None" by (simp add: st1_def st_def set_vk_cookie_auth_def)
    then show ?thesis unfolding cookie_mint_cached_def Let_def by (simp only: option.case) (rule path_bindI [OF via], simp)
  qed
  then have "path (discover now header (nat slot) [cookie_link_id link] st) (([Ev_identity i, Ev_post q (Inl e)] @ []) @ [])
      (Some (Cookie_failed (ascii ''web_token: '' @ e)), st1)"
  proof -
    assume m: "path (cookie_mint_cached now header (cookie_link_id link) st1) ([Ev_identity i, Ev_post q (Inl e)] @ [])
        (Inl (Cookie_failed (ascii ''web_token: '' @ e)), st1)"
    have "\<not> nat slot < length (ck_relays st)" "st\<lparr>ck_discovered := Suc (ck_discovered st)\<rparr> = st1"
      by (simp_all add: st_def st1_def set_vk_cookie_auth_def)
    then show ?thesis unfolding discover.simps by (simp only: if_False) (rule path_bindI [OF m], simp)
  qed
  moreover have "ck_header st = header" "drop (ck_discovered st) (ck_links st) = [cookie_link_id link]" "ck_links st \<noteq> []"
    using l trim by (simp_all add: st_def set_vk_cookie_auth_def)
  ultimately have "path (cookie_cred_for_slot now slot st) ((([Ev_identity i, Ev_post q (Inl e)] @ []) @ []) @ [])
      (Inl (Cookie_failed (ascii ''web_token: '' @ e)), st1)"
    using assms(2) unfolding cookie_cred_for_slot_def Let_def by (simp only: if_False, intro path_bindI) auto
  then have "path (cookie_fetch now slot st) (((([Ev_identity i, Ev_post q (Inl e)] @ []) @ []) @ []) @ [])
      (Inl (Failed (ascii ''cookie auth: web_token: '' @ e)), st1)"
    unfolding cookie_fetch_def by (rule path_bindI) (simp add: a cookie_error_text_def)
  moreover have "cookie_fetch now' slot' st1 = Return (Inl (Failed (ascii ''cookie auth: cookie auth: too few distinct TURN relays'')), st1)" for now' slot'
    using assms(2) trim l by (simp add: st1_def st_def set_vk_cookie_auth_def cookie_fetch_def cookie_cred_for_slot_def cookie_error_text_def a Let_def)
  ultimately show ?thesis by auto
qed

end
