(* ===== verification/PoolFront.thy ===== *)
theory PoolFront
  imports VkCookie Grower "HOL-Library.List_Lexorder"
begin

text \<open>
  The pool as the second transport sees it, \<^verbatim>\<open>src/pkg/proxy/credpool.go\<close>: the construction from a configuration,
  the fetcher with the optional override of host and port, acquiring and closing, and the relay hosts. With it the
  addresses of Go's \<^verbatim>\<open>net\<close> (\<^verbatim>\<open>SplitHostPort\<close>, \<^verbatim>\<open>JoinHostPort\<close>), written out from its documented grammar. The pool
  itself is \<^theory_text>\<open>CredPool\<close>; a fetch is a program of \<^theory_text>\<open>VkApi\<close>. Error texts are abbreviated.
\<close>

section \<open>Addresses\<close>

text \<open>\<open>cut_last\<close>: the texts around the last occurrence of a byte.\<close>

fun cut_last :: "byte \<Rightarrow> bytes \<Rightarrow> (bytes \<times> bytes) option" where
  "cut_last c [] = None"
| "cut_last c (x # xs) = (case cut_last c xs of
     Some (a, b) \<Rightarrow> Some (x # a, b)
   | None \<Rightarrow> if x = c then Some ([], xs) else None)"

abbreviation colon :: byte where "colon \<equiv> 0x3a"
abbreviation lbr :: byte where "lbr \<equiv> 0x5b"
abbreviation rbr :: byte where "rbr \<equiv> 0x5d"

text \<open>
  In brackets the host ends at the first closing one, which must stand just before the last colon; without them the
  host holds no colon. No further bracket may appear.
\<close>

definition split_host_port :: "bytes \<Rightarrow> (bytes \<times> bytes) option" where
  "split_host_port hp = (case cut_last colon hp of
     None \<Rightarrow> None
   | Some (pre, port) \<Rightarrow>
       if hp \<noteq> [] \<and> hd hp = lbr then
         (let host = takeWhile (\<lambda>b. b \<noteq> rbr) (tl hp) in
          if pre = lbr # host @ [rbr] \<and> lbr \<notin> set (host @ rbr # colon # port) \<and> rbr \<notin> set port then Some (host, port) else None)
       else if colon \<in> set pre \<or> lbr \<in> set hp \<or> rbr \<in> set hp then None
       else Some (pre, port))"

definition join_host_port :: "bytes \<Rightarrow> bytes \<Rightarrow> bytes" where
  "join_host_port host port =
     (if colon \<in> set host then lbr # host @ [rbr, colon] @ port else host @ [colon] @ port)"

lemma cut_last_None [simp]: "cut_last c xs = None \<longleftrightarrow> c \<notin> set xs"
  by (induction xs) (auto split: option.splits)

lemma cut_last_append: "c \<notin> set b \<Longrightarrow> cut_last c (a @ c # b) = Some (a, b)"
  by (induction a) (auto split: option.split simp: option.case_eq_if)

lemma cut_last_Some: "cut_last c xs = Some (a, b) \<Longrightarrow> xs = a @ c # b \<and> c \<notin> set b"
  by (induction xs arbitrary: a b) (auto split: option.split_asm if_splits)

text \<open>What a host and a port must not hold for the pair to survive.\<close>

definition clean :: "bytes \<Rightarrow> bytes \<Rightarrow> bool" where
  "clean host port \<longleftrightarrow> lbr \<notin> set host \<and> rbr \<notin> set host \<and> lbr \<notin> set port \<and> rbr \<notin> set port \<and> colon \<notin> set port"

lemma split_clean: "split_host_port hp = Some (h, p) \<Longrightarrow> clean h p"
  by (auto simp: split_host_port_def clean_def Let_def dest!: cut_last_Some split: option.split_asm if_splits dest: set_takeWhileD)

lemma clean_split_join: "clean h p \<Longrightarrow> split_host_port (join_host_port h p) = Some (h, p)"
proof (cases "colon \<in> set h")
  case True
  assume c: "clean h p"
  have tw: "takeWhile (\<lambda>b. b \<noteq> rbr) (h @ rbr # colon # p) = h"
    using c by (subst takeWhile_append2) (auto simp: clean_def)
  have "cut_last colon ((lbr # h @ [rbr]) @ colon # p) = Some (lbr # h @ [rbr], p)"
    using c by (intro cut_last_append) (simp add: clean_def)
  with True c tw show ?thesis
    by (simp add: split_host_port_def join_host_port_def Let_def clean_def)
next
  case False
  assume c: "clean h p"
  have "cut_last colon (h @ colon # p) = Some (h, p)" using c by (intro cut_last_append) (simp add: clean_def)
  moreover have "\<not> (h @ colon # p \<noteq> [] \<and> hd (h @ colon # p) = lbr)" using c by (cases h) (auto simp: clean_def)
  ultimately show ?thesis using False c by (auto simp: split_host_port_def join_host_port_def clean_def)
qed

text \<open>
   \<^verbatim>\<open>JoinHostPort\<close> and \<^verbatim>\<open>SplitHostPort\<close>: host and port survive exactly when neither holds a bracket and the port
  no colon. A host with colons, an IPv6 address, is put in brackets and survives.
\<close>

theorem join_split_roundtrip: "split_host_port (join_host_port h p) = Some (h, p) \<longleftrightarrow> clean h p"
  using split_clean clean_split_join by blast


lemma split_never_loses: "split_host_port hp = Some (h, p) \<Longrightarrow> hp \<in> {h @ [colon] @ p, lbr # h @ [rbr, colon] @ p}"
  by (auto simp: split_host_port_def Let_def dest!: cut_last_Some split: option.split_asm if_splits)

section \<open>The override\<close>

definition override_addr :: "bytes \<Rightarrow> bytes \<Rightarrow> bytes \<Rightarrow> bytes option" where
  "override_addr server port addr = (case split_host_port addr of
     None \<Rightarrow> None
   | Some (h, p) \<Rightarrow> Some (join_host_port (if server \<noteq> [] then server else h) (if port \<noteq> [] then port else p)))"

text \<open>The loop over the addresses; an address that does not parse ends it.\<close>

fun override_addrs :: "bytes \<Rightarrow> bytes \<Rightarrow> bytes list \<Rightarrow> bytes + bytes list" where
  "override_addrs server port [] = Inr []"
| "override_addrs server port (a # as) = (case override_addr server port a of
     None \<Rightarrow> Inl (ascii ''parse TURN address'')
   | Some b \<Rightarrow> (case override_addrs server port as of Inl e \<Rightarrow> Inl e | Inr bs \<Rightarrow> Inr (b # bs)))"

definition with_addresses :: "bytes list \<Rightarrow> turn_creds \<Rightarrow> turn_creds" where
  "with_addresses as c = c\<lparr>tc_address := hd as, tc_addresses := as\<rparr>"

definition apply_turn_override :: "turn_creds option \<Rightarrow> bytes \<Rightarrow> bytes \<Rightarrow> fetch_result" where
  "apply_turn_override creds server port = (case creds of
     None \<Rightarrow> Inl (ascii ''VK returned no TURN address'')
   | Some c \<Rightarrow> if tc_addresses c = [] then Inl (ascii ''VK returned no TURN address'')
       else (case override_addrs server port (tc_addresses c) of
           Inl e \<Rightarrow> Inl e
         | Inr as \<Rightarrow> Inr (hd as, with_addresses as c)))"

section \<open>The fetcher\<close>

text \<open>
  \<^verbatim>\<open>parseVKLinkID\<close>: what follows the last \<^verbatim>\<open>join/\<close>, up to a slash, question mark or hash.
\<close>

definition parse_vk_link_id :: "bytes \<Rightarrow> bytes" where
  "parse_vk_link_id link =
     takeWhile (\<lambda>b. b \<noteq> 0x2f \<and> b \<noteq> 0x3f \<and> b \<noteq> 0x23) (case after_last (ascii ''join/'') link of Some r \<Rightarrow> r | None \<Rightarrow> link)"

record pool_config =
  pc_link :: bytes
  pc_num_conns :: int
  pc_cooldown :: duration
  pc_cached :: bool
  pc_turn_server :: bytes
  pc_turn_port :: bytes
  pc_seed :: "turn_creds option"

record pool_front =
  pf_cp :: cred_pool
  pf_num_conns :: int
  pf_link :: bytes
  pf_relay_ip :: bytes
  pf_pace :: grow_pace
  pf_closed :: bool

text \<open>
  What a fetch leaves behind beside its result: the cookie state and the relay host, when it parsed. No solver, no
  saved tokens.
\<close>

definition no_solved :: solved_captcha where
  "no_solved = \<lparr>sv_sid = [], sv_key = [], sv_ts = 0, sv_attempt = 0, sv_token1 = [], sv_client_id = []\<rparr>"

definition standard_fetch ::
  "time \<Rightarrow> mint_env \<Rightarrow> pool_config \<Rightarrow> bytes \<Rightarrow> int \<Rightarrow> cookie_state \<Rightarrow> (fetch_result \<times> bytes option \<times> cookie_state) mint" where
  "standard_fetch now me cfg link slot st =
     (let done = (\<lambda>(r, st). case r of
            Inl e \<Rightarrow> Return (Inl (if ck_enabled st then mint_error_text e else ascii ''get VK creds: '' @ mint_error_text e), None, st)
          | Inr c \<Rightarrow> (case apply_turn_override (Some c) (pc_turn_server cfg) (pc_turn_port cfg) of
                Inl e \<Rightarrow> Return (Inl e, None, st)
              | Inr (addr, c) \<Rightarrow> Return (Inr (addr, c), map_option fst (split_host_port addr), st)))
      in if ck_enabled st then bind (cookie_fetch now slot st) done
         else bind (get_vk_creds now me link False no_solved st) done)"

section \<open>The pool\<close>

definition new_pool_front :: "env \<Rightarrow> pool_config \<Rightarrow> cache_file option \<Rightarrow> nat \<Rightarrow> pool_front" where
  "new_pool_front ev cfg disk links =
     (let n = (if pc_num_conns cfg \<le> 0 then 1 else pc_num_conns cfg);
          size = (if ev_cookie ev \<and> 0 < links then 2 * int links else pool_size_for_num_conns n);
          cp = set_cold_start_target n (new_cred_pool ev size (pc_cooldown cfg) (pc_cached cfg) disk);
          f = \<lparr>pf_cp = cp, pf_num_conns = n, pf_link = parse_vk_link_id (pc_link cfg), pf_relay_ip = [], pf_pace = default_grow_pace,
               pf_closed = False\<rparr>
      in case pc_seed cfg of
           None \<Rightarrow> f
         | Some c \<Rightarrow> (case split_host_port (tc_address c) of
             None \<Rightarrow> f
           | Some (host, _) \<Rightarrow> f\<lparr>pf_cp := seed_slot ev 0 (tc_address c) c cp, pf_relay_ip := host\<rparr>))"

text \<open>\<open>None\<close>: the pool is closed.\<close>

definition acquire :: "env \<Rightarrow> int \<Rightarrow> pool_front \<Rightarrow> get_result option \<times> pool_front" where
  "acquire ev conn f =
     (if pf_closed f then (None, f)
      else (case get_begin ev conn (pf_cp f) of (r, cp) \<Rightarrow> (Some r, f\<lparr>pf_cp := cp\<rparr>)))"

definition close_pool :: "env \<Rightarrow> pool_front \<Rightarrow> pool_front" where
  "close_pool ev f = f\<lparr>pf_cp := (if cp_cached (pf_cp f) then save_to_disk ev (pf_cp f) else pf_cp f), pf_closed := True\<rparr>"

text \<open>
  The methods as events. \<open>Fr_pool\<close>: a method that only forwards to the pool (\<^verbatim>\<open>Release\<close>, \<^verbatim>\<open>MarkSaturated\<close>,
  \<^verbatim>\<open>RecordAuthError\<close>, \<^verbatim>\<open>InvalidateSlot\<close>, \<^verbatim>\<open>Invalidate\<close>, \<^verbatim>\<open>OnPathChange\<close>, \<^verbatim>\<open>ExtendPause\<close>), the grower, the end of
  a fetch or a timer. \<open>Fr_publish\<close>: the fetcher stores a relay host.
\<close>

datatype front_event =
    Fr_acquire env int
  | Fr_close env
  | Fr_publish bytes
  | Fr_pool pool_event

fun front_step :: "pool_front \<Rightarrow> front_event \<Rightarrow> pool_front" where
  "front_step f (Fr_acquire ev conn) = snd (acquire ev conn f)"
| "front_step f (Fr_close ev) = close_pool ev f"
| "front_step f (Fr_publish host) = f\<lparr>pf_relay_ip := host\<rparr>"
| "front_step f (Fr_pool e) = f\<lparr>pf_cp := pool_step (pf_cp f) e\<rparr>"

definition held_host :: "pool_entry \<Rightarrow> bytes option" where
  "held_host e =
     (if pe_creds e = None \<or> pe_addr e = [] then None
      else case split_host_port (pe_addr e) of Some (h, _) \<Rightarrow> if h \<noteq> [] then Some h else None | None \<Rightarrow> None)"

definition relay_hosts :: "pool_front \<Rightarrow> bytes list" where
  "relay_hosts f = sort (remdups (List.map_filter held_host (cp_pool (pf_cp f))))"

definition relay_ip :: "pool_front \<Rightarrow> bytes" where
  "relay_ip f = (if pf_relay_ip f \<noteq> [] then pf_relay_ip f else case relay_hosts f of [] \<Rightarrow> [] | h # _ \<Rightarrow> h)"

record pool_stats =
  ps_available :: nat
  ps_with_creds :: nat
  ps_size :: nat
  ps_distinct_relays :: nat
  ps_saturated :: nat
  ps_saturated_longest :: duration

definition stats :: "env \<Rightarrow> pool_front \<Rightarrow> pool_stats" where
  "stats ev f =
     (case snapshot_size ev (pf_cp f) of (available, with_creds, sz) \<Rightarrow>
      case saturation_snapshot ev (pf_cp f) of (saturated, _, longest) \<Rightarrow>
        \<lparr>ps_available = available, ps_with_creds = with_creds, ps_size = sz, ps_distinct_relays = distinct_relays (pf_cp f),
         ps_saturated = saturated, ps_saturated_longest = longest\<rparr>)"


section \<open>The relay hosts\<close>

lemma held_host_nonempty: "held_host e = Some h \<Longrightarrow> h \<noteq> []"
  by (auto simp: held_host_def split: if_splits option.split_asm)

lemma relay_hosts_set: "set (relay_hosts f) = {h. \<exists>e \<in> set (cp_pool (pf_cp f)). held_host e = Some h}"
  by (auto simp: relay_hosts_def map_filter_def image_iff) (metis option.sel)

lemma relay_hosts_nonempty: "h \<in> set (relay_hosts f) \<Longrightarrow> h \<noteq> []"
  by (auto simp: relay_hosts_set dest: held_host_nonempty)

text \<open>
   \<^verbatim>\<open>RelayHosts\<close> and \<^verbatim>\<open>RelayIP\<close>. The hosts come sorted and without repetition, and are those of the slots; and
  \<^verbatim>\<open>RelayIP\<close> is empty only when no mint published a host and no slot holds one, so not after a start from a cache.
\<close>

theorem relay_ip_known:
  "sorted (relay_hosts f) \<and> distinct (relay_hosts f)
   \<and> set (relay_hosts f) = {h. \<exists>e \<in> set (cp_pool (pf_cp f)). held_host e = Some h}
   \<and> (relay_ip f = [] \<longleftrightarrow> pf_relay_ip f = [] \<and> (\<nexists>e. e \<in> set (cp_pool (pf_cp f)) \<and> held_host e \<noteq> None))"
proof -
  have "relay_ip f = [] \<longleftrightarrow> pf_relay_ip f = [] \<and> relay_hosts f = []"
    using relay_hosts_nonempty [of _ f] by (cases "relay_hosts f") (auto simp: relay_ip_def)
  moreover have "relay_hosts f = [] \<longleftrightarrow> (\<nexists>e. e \<in> set (cp_pool (pf_cp f)) \<and> held_host e \<noteq> None)"
  proof -
    have "relay_hosts f = [] \<longleftrightarrow> (\<forall>h. h \<notin> set (relay_hosts f))" by (cases "relay_hosts f") auto
    also have "\<dots> \<longleftrightarrow> (\<nexists>e. e \<in> set (cp_pool (pf_cp f)) \<and> (\<exists>h. held_host e = Some h))" unfolding relay_hosts_set by blast
    finally show ?thesis by simp
  qed
  moreover have "sorted (relay_hosts f)" "distinct (relay_hosts f)" by (simp_all add: relay_hosts_def)
  ultimately show ?thesis by (simp add: relay_hosts_set)
qed

section \<open>What a fetch delivers\<close>

definition dialable :: "bytes \<Rightarrow> bytes \<Rightarrow> bytes \<Rightarrow> bool" where
  "dialable server port a \<longleftrightarrow>
     (if clean server port
      then (case split_host_port a of None \<Rightarrow> False | Some (h, p) \<Rightarrow> (server = [] \<or> h = server) \<and> (port = [] \<or> p = port))
      else True)"

lemma override_addr_dialable: "override_addr server port a = Some b \<Longrightarrow> dialable server port b"
proof -
  assume "override_addr server port a = Some b"
  then obtain h p where hp: "split_host_port a = Some (h, p)"
      "b = join_host_port (if server \<noteq> [] then server else h) (if port \<noteq> [] then port else p)"
    by (auto simp: override_addr_def split: option.split_asm)
  have "clean h p" using hp(1) by (rule split_clean)
  then have "clean (if server \<noteq> [] then server else h) (if port \<noteq> [] then port else p)" if "clean server port"
    using that by (auto simp: clean_def)
  from clean_split_join [OF this] show ?thesis by (auto simp: dialable_def hp(2))
qed

lemma override_addrs_dialable: "override_addrs server port as = Inr bs \<Longrightarrow> list_all (dialable server port) bs \<and> length bs = length as"
  by (induction as arbitrary: bs) (auto dest: override_addr_dialable split: option.split_asm sum.split_asm)

definition delivers :: "bytes \<Rightarrow> bytes \<Rightarrow> bytes \<times> turn_creds \<Rightarrow> bool" where
  "delivers server port = (\<lambda>(addr, c). addr = tc_address c \<and> tc_addresses c \<noteq> [] \<and> hd (tc_addresses c) = addr
     \<and> list_all (dialable server port) (tc_addresses c))"

lemma apply_turn_override_delivers: "apply_turn_override c server port = Inr (addr, c') \<Longrightarrow> delivers server port (addr, c')"
  by (auto simp: apply_turn_override_def delivers_def with_addresses_def dest: override_addrs_dialable
      split: option.split_asm if_splits sum.split_asm)

text \<open>
   the fetcher of the pool. Whatever VK answers, a success hands out a credential whose address is the first of
  its addresses, and every one of them splits into host and port, with the configured override in place; the host it
  publishes is that of the address. A failure publishes none.
\<close>

theorem standard_fetch_delivers:
  "spec (standard_fetch now me cfg link slot st) (\<lambda>tr (r, host, st'). case r of
     Inl e \<Rightarrow> host = None
   | Inr (addr, c) \<Rightarrow> delivers (pc_turn_server cfg) (pc_turn_port cfg) (addr, c) \<and> host = map_option fst (split_host_port addr))"
proof -
  let ?Q = "\<lambda>tr (r, host, st'). case r of
     Inl e \<Rightarrow> host = None
   | Inr (addr, c) \<Rightarrow> delivers (pc_turn_server cfg) (pc_turn_port cfg) (addr, c) \<and> host = map_option fst (split_host_port addr)"
  have "spec (bind p (\<lambda>(r, st). case r of
            Inl e \<Rightarrow> Return (Inl (f st e), None, st)
          | Inr c \<Rightarrow> (case apply_turn_override (Some c) (pc_turn_server cfg) (pc_turn_port cfg) of
                Inl e \<Rightarrow> Return (Inl e, None, st)
              | Inr (addr, c) \<Rightarrow> Return (Inr (addr, c), map_option fst (split_host_port addr), st)))) ?Q"
    for p :: "(minted \<times> cookie_state) mint" and f
    unfolding spec_bind
    by (rule spec_mono [where Q = "\<lambda>tr r. True"])
      (auto simp: spec_def [of p] dest: apply_turn_override_delivers split: sum.split)
  then show ?thesis unfolding standard_fetch_def Let_def by (simp split: if_split)
qed

section \<open>A pool with a seed\<close>

lemma new_pool_empty:
  "cp_pool (new_cred_pool ev sz cd cached None) = replicate (nat (max sz 1)) empty_entry
   \<and> cp_size (new_cred_pool ev sz cd cached None) = nat (max sz 1) \<and> cp_pause_until (new_cred_pool ev sz cd cached None) = 0"
  by (simp add: new_cred_pool_def load_from_disk_def Let_def max_def)

lemma seed_slot_empty:
  assumes "cp_pool cp = replicate n empty_entry" and "0 < n"
  shows "cp_pool (seed_slot ev 0 addr c cp) = filled_entry addr c (ev_now ev) 0 0 # replicate (n - 1) empty_entry
    \<and> cp_size (seed_slot ev 0 addr c cp) = cp_size cp \<and> cp_pause_until (seed_slot ev 0 addr c cp) = cp_pause_until cp"
proof -
  obtain m where m: "n = Suc m" using assms(2) by (cases n) auto
  have e: "\<not> is_fresh now cp 0" for now
    using assms by (simp add: is_fresh_def entry_is_fresh_def empty_entry_def)
  have g: "grow_to (Suc 0) cp = cp" using m assms(1) by (simp add: grow_to_def)
  have z: "pe_creds empty_entry = None" by (simp add: empty_entry_def)
  have "map (\<lambda>(i, x). if i \<noteq> 0 \<and> same_username c x then empty_entry else x) (enumerate (Suc 0) (replicate m empty_entry))
      = replicate m empty_entry"
    by (rule nth_equalityI) (simp_all add: nth_enumerate_eq)
  then have "cp_pool (seed_write ev 0 addr c cp) = filled_entry addr c (ev_now ev) 0 0 # replicate m empty_entry"
    using assms(1) m z by (simp add: seed_write_def Let_def g clear_duplicates_def upd_slot_def)
  moreover have "cp_size (seed_write ev 0 addr c cp) = cp_size cp \<and> cp_pause_until (seed_write ev 0 addr c cp) = cp_pause_until cp"
    using assms(1) m z by (simp add: seed_write_def Let_def g clear_duplicates_def upd_slot_def)
  ultimately show ?thesis using e m by (simp add: seed_slot_def broadcast_def save_to_disk_def reset_auth_errors_def)
qed

text \<open>
   the seed of the bootstrap. A pool with no cache file and a seed that parses and is not about to expire gives it
  to the first connection that asks, whichever that is, with no request to VK; and its host is known at once.
\<close>

theorem seed_spares_a_fetch:
  assumes "pc_seed cfg = Some c" and "split_host_port (tc_address c) = Some (host, port)" and "unexpired (ev_now ev) c"
    and "0 \<le> ev_now ev"
  shows "fst (acquire ev conn (new_pool_front ev cfg None links)) = Some (Got (tc_address c) (Some c) 0)
    \<and> pf_relay_ip (new_pool_front ev cfg None links) = host"
proof -
  define f where "f = new_pool_front ev cfg None links"
  define cp where "cp = pf_cp f"
  obtain cp0 n where cp0: "cp = seed_slot ev 0 (tc_address c) c cp0" "cp_pool cp0 = replicate n empty_entry" "0 < n" "cp_size cp0 = n"
      "cp_pause_until cp0 = 0"
  proof
    let ?n = "if pc_num_conns cfg \<le> 0 then 1 else pc_num_conns cfg"
    let ?sz = "if ev_cookie ev \<and> 0 < links then 2 * int links else pool_size_for_num_conns ?n"
    let ?cp = "set_cold_start_target ?n (new_cred_pool ev ?sz (pc_cooldown cfg) (pc_cached cfg) None)"
    show "cp = seed_slot ev 0 (tc_address c) c ?cp" using assms(1,2) by (simp add: cp_def f_def new_pool_front_def Let_def)
    show "cp_pool ?cp = replicate (nat (max ?sz 1)) empty_entry" "cp_size ?cp = nat (max ?sz 1)" "cp_pause_until ?cp = 0"
      using new_pool_empty by (auto simp: set_cold_start_target_def)
    show "0 < nat (max ?sz 1)" by simp
  qed
  have pool: "cp_pool cp = filled_entry (tc_address c) c (ev_now ev) 0 0 # replicate (n - 1) empty_entry" "cp_size cp = n" "cp_pause_until cp = 0"
    using seed_slot_empty [OF cp0(2,3)] cp0(1,4,5) by auto
  define own where "own = own_slot conn (cp_size cp)"
  have own: "own < n" unfolding own_def pool(2) using cp0(3) by (intro own_slot_less) simp
  have g: "grow_to (Suc own) cp = cp" using own pool(1) cp0(3) by (simp add: grow_to_def)
  have free: "seat_free (ev_now ev) cp i \<longleftrightarrow> i = 0" for i
    using assms(3,4) pool(1)
    by (cases i) (auto simp: seat_free_def is_fresh_def entry_is_fresh_def filled_entry_def empty_entry_def conns_per_slot_def)
  obtain k where k: "pick_acquire_slot (ev_now ev) cp own = Some (0, k)"
    using pick_acquire_Some(1) pick_acquire_None free cp0(3) pool(2) by (metis not_None_eq surj_pair)
  have "fst (get_begin ev conn cp) = Got (tc_address c) (Some c) 0"
    using k g pool unfolding get_begin_def own_def [symmetric]
    by (simp add: take_seat_def upd_slot_def filled_entry_def Let_def)
  moreover have "\<not> pf_closed f" "pf_relay_ip f = host"
    using assms(1,2) by (simp_all add: f_def new_pool_front_def Let_def)
  ultimately show ?thesis by (simp add: acquire_def f_def cp_def split_beta)
qed


text \<open>The seed of a user whose credential expires in 2033, at an address of the documentation network.\<close>

theorem seed_spares_a_fetch_witness:
  "fst (acquire (CredPool.at 1000) 17 (new_pool_front (CredPool.at 1000)
     \<lparr>pc_link = [], pc_num_conns = 30, pc_cooldown = 0, pc_cached = False, pc_turn_server = [], pc_turn_port = [],
      pc_seed = Some \<lparr>tc_username = ascii ''1995000000:1'', tc_password = [], tc_address = ascii ''192.0.2.1:3478'', tc_addresses = []\<rparr>\<rparr> None 0))
   = Some (Got (ascii ''192.0.2.1:3478'') (Some \<lparr>tc_username = ascii ''1995000000:1'', tc_password = [], tc_address = ascii ''192.0.2.1:3478'',
       tc_addresses = []\<rparr>) 0)"
proof -
  let ?c = "\<lparr>tc_username = ascii ''1995000000:1'', tc_password = [], tc_address = ascii ''192.0.2.1:3478'', tc_addresses = []\<rparr>"
  have "split_host_port (tc_address ?c) = Some (ascii ''192.0.2.1'', ascii ''3478'')" by code_simp
  moreover have "unexpired (ev_now (CredPool.at 1000)) ?c" by code_simp
  moreover have "0 \<le> ev_now (CredPool.at 1000)" by code_simp
  ultimately show ?thesis using seed_spares_a_fetch [where c = ?c and ev = "CredPool.at 1000" and conn = 17 and links = 0] by simp
qed

section \<open>Two readings of a link\<close>

text \<open>A full link with a query: the fetcher's reading gives the id, the cookie mode's keeps the slash before the query.\<close>

lemma link_readings_differ:
  "parse_vk_link_id (ascii ''https://vk.ru/call/join/abc/?from=1'') = ascii ''abc''"
  "cookie_link_id (ascii ''https://vk.ru/call/join/abc/?from=1'') = ascii ''abc/''"
  by code_simp+


section \<open>The quota behind the front\<close>

lemma pool_ok_front_step: "pool_ok (pf_cp f) \<Longrightarrow> pool_ok (pf_cp (front_step f e))"
proof (cases e)
  case (Fr_close ev)
  assume "pool_ok (pf_cp f)"
  then have "pool_ok (save_to_disk ev (pf_cp f))" by (simp add: pool_ok_cong [of "save_to_disk ev (pf_cp f)" "pf_cp f"])
  with Fr_close \<open>pool_ok (pf_cp f)\<close> show ?thesis by (simp add: close_pool_def)
qed (auto simp: acquire_def split_beta intro: pool_ok_get_begin pool_ok_step)

text \<open>
  Whatever the second transport does with a pool it built, no slot ever seats more than ten connections, in the
  anonymous mode or with one slot per relay.
\<close>

theorem front_seats_within_quota:
  "list_all (\<lambda>e. pe_active e \<le> conns_per_slot) (cp_pool (pf_cp (run front_step (new_pool_front ev cfg disk links) es)))"
proof -
  have target: "pool_ok (set_cold_start_target n cp) = pool_ok cp" for n cp
    by (rule pool_ok_cong) (simp_all add: set_cold_start_target_def)
  have new: "pool_ok (pf_cp (new_pool_front ev cfg disk links))"
    unfolding new_pool_front_def Let_def by (simp add: target pool_ok_new pool_ok_seed split: option.split)
  have "pool_ok (pf_cp f) \<Longrightarrow> pool_ok (pf_cp (run front_step f es))" for f
    by (induction es arbitrary: f) (simp_all add: pool_ok_front_step)
  from this [OF new] show ?thesis by (simp add: pool_ok_def list_all_iff)
qed

end
