(* ===== verification/LogText.thy ===== *)
theory LogText
  imports Prelude
begin

text \<open>
  Cutting remote text for a log line: \<^verbatim>\<open>truncate\<close> of \<^verbatim>\<open>src/pkg/proxy/creds_vkcalls.go\<close>, which keeps it valid UTF-8,
  and \<^verbatim>\<open>truncForLog\<close> of \<^verbatim>\<open>src/pkg/proxy/creds_vkcookie.go\<close>, which does not. With them what they use of Go's
  \<^verbatim>\<open>unicode/utf8\<close> and \<^verbatim>\<open>strings.ToValidUTF8\<close>.
\<close>

section \<open>UTF-8\<close>

text \<open>
  How many bytes the character at the start of a text takes; 0 when it is not valid, as \<^verbatim>\<open>utf8.DecodeRune\<close> has it:
  the first byte gives the length and the range of the second, the others are continuations.
\<close>

definition cont :: "byte \<Rightarrow> bool" where
  "cont b \<longleftrightarrow> 0x80 \<le> b \<and> b \<le> 0xbf"

definition lead :: "byte \<Rightarrow> nat" where
  "lead a = (if a < 0x80 then 1 else if a < 0xc2 then 0 else if a < 0xe0 then 2 else if a < 0xf0 then 3 else if a < 0xf5 then 4 else 0)"

definition second_ok :: "byte \<Rightarrow> byte \<Rightarrow> bool" where
  "second_ok a b \<longleftrightarrow> (if a = 0xe0 then 0xa0 else if a = 0xf0 then 0x90 else 0x80) \<le> b
     \<and> b \<le> (if a = 0xed then 0x9f else if a = 0xf4 then 0x8f else 0xbf)"

fun rune_len :: "bytes \<Rightarrow> nat" where
  "rune_len [] = 0"
| "rune_len [a] = (if lead a = 1 then 1 else 0)"
| "rune_len (a # b # r) =
     (if lead a = 1 then 1
      else if 2 \<le> lead a \<and> second_ok a b \<and> lead a - 2 \<le> length r \<and> list_all cont (take (lead a - 2) r) then lead a else 0)"

definition rune_start :: "byte \<Rightarrow> bool" where
  "rune_start b \<longleftrightarrow> \<not> cont b"

function valid_utf8 :: "bytes \<Rightarrow> bool" where
  "valid_utf8 s = (if s = [] then True else if rune_len s = 0 then False else valid_utf8 (drop (rune_len s) s))"
  by auto
termination by (relation "measure length") auto

declare valid_utf8.simps [simp del]

text \<open>A run of invalid bytes becomes one replacement; \<open>bad\<close> says that one was just written.\<close>

function to_valid :: "bytes \<Rightarrow> bool \<Rightarrow> bytes \<Rightarrow> bytes" where
  "to_valid rep bad s =
     (if s = [] then []
      else if rune_len s = 0 then (if bad then [] else rep) @ to_valid rep True (tl s)
      else take (rune_len s) s @ to_valid rep False (drop (rune_len s) s))"
  by auto
termination by (relation "measure (\<lambda>(rep, bad, s). length s)") auto

declare to_valid.simps [simp del]

section \<open>The two cuts\<close>

definition replacement :: bytes where
  "replacement = [0xef, 0xbf, 0xbd]"

fun back_off :: "bytes \<Rightarrow> nat \<Rightarrow> nat" where
  "back_off s 0 = 0"
| "back_off s (Suc n) = (if rune_start (s ! Suc n) then Suc n else back_off s n)"

definition truncate :: "bytes \<Rightarrow> nat \<Rightarrow> bytes" where
  "truncate s n = (let s = to_valid replacement False s in
     if length s \<le> n then s else take (back_off s n) s @ ascii ''...'')"

definition ellipsis :: bytes where
  "ellipsis = [0xe2, 0x80, 0xa6]"

definition trunc_for_log :: "bytes \<Rightarrow> nat \<Rightarrow> bytes" where
  "trunc_for_log s n = (if length s \<le> n then s else take n s @ ellipsis)"

section \<open>The cut is valid\<close>

lemma rune_len_le: "rune_len s \<le> length s"
  by (cases s rule: rune_len.cases) auto

lemma valid_Nil [simp]: "valid_utf8 []"
  by (simp add: valid_utf8.simps)

lemma rune_len_append: "rune_len s \<noteq> 0 \<Longrightarrow> rune_len (s @ t) = rune_len s"
proof (cases s rule: rune_len.cases)
  case (2 a)
  assume "rune_len s \<noteq> 0"
  with 2 show ?thesis by (cases t) (auto split: if_splits)
qed (auto split: if_splits)

lemma rune_len_take: "rune_len s \<noteq> 0 \<Longrightarrow> rune_len (take (rune_len s) s) = rune_len s"
proof (cases s rule: rune_len.cases)
  case (3 a b r)
  assume "rune_len s \<noteq> 0"
  with 3 show ?thesis
  proof (cases "lead a = 1")
    case False
    with 3 \<open>rune_len s \<noteq> 0\<close> have "2 \<le> lead a" by (auto split: if_splits)
    then obtain m where m: "lead a = Suc (Suc m)" by (metis add_2_eq_Suc le_Suc_ex)
    then have "rune_len s = Suc (Suc m)" using 3 False \<open>rune_len s \<noteq> 0\<close> by (simp split: if_splits)
    moreover have "second_ok a b" "m \<le> length r" "list_all cont (take m r)"
      using 3 m \<open>rune_len s \<noteq> 0\<close> by (simp_all split: if_splits)
    ultimately show ?thesis using 3 m by (simp add: min_absorb2)
  qed simp
qed (auto split: if_splits)

lemma valid_unfold: "valid_utf8 s \<Longrightarrow> s \<noteq> [] \<Longrightarrow> rune_len s \<noteq> 0 \<and> valid_utf8 (drop (rune_len s) s)"
  by (subst (asm) valid_utf8.simps) (auto split: if_splits)

lemma valid_append: "valid_utf8 s \<Longrightarrow> valid_utf8 t \<Longrightarrow> valid_utf8 (s @ t)"
proof (induction s rule: length_induct)
  case (1 s)
  show ?case
  proof (cases "s = []")
    case False
    with 1(2) have k: "rune_len s \<noteq> 0" "valid_utf8 (drop (rune_len s) s)" using valid_unfold by blast+
    have "length (drop (rune_len s) s) < length s" using k(1) False by simp
    with 1(1,3) k(2) have "valid_utf8 (drop (rune_len s) s @ t)" by blast
    moreover have "drop (rune_len s) (s @ t) = drop (rune_len s) s @ t" using rune_len_le by simp
    ultimately show ?thesis using k(1) by (subst valid_utf8.simps) (simp add: rune_len_append)
  qed (use 1(3) in simp)
qed

lemma valid_take_rune: "rune_len s \<noteq> 0 \<Longrightarrow> valid_utf8 (take (rune_len s) s)"
  by (subst valid_utf8.simps) (simp add: rune_len_take)

lemma valid_to_valid: "valid_utf8 rep \<Longrightarrow> valid_utf8 (to_valid rep bad s)"
proof (induction rep bad s rule: to_valid.induct)
  case (1 rep bad s)
  then show ?case by (subst to_valid.simps) (auto intro: valid_append valid_take_rune)
qed

text \<open>The bytes inside a character are continuations, its first is not.\<close>

lemma second_cont: "second_ok a b \<Longrightarrow> cont b"
  by (auto simp: second_ok_def cont_def word_le_nat_alt split: if_splits)

lemma rune_inside: "0 < i \<Longrightarrow> i < rune_len s \<Longrightarrow> cont (s ! i)"
proof (cases s rule: rune_len.cases)
  case (3 a b r)
  assume i: "0 < i" "i < rune_len s"
  with 3 have k: "rune_len s = lead a" "second_ok a b" "list_all cont (take (lead a - 2) r)" "lead a - 2 \<le> length r"
    by (auto split: if_splits)
  show ?thesis
  proof (cases "i = 1")
    case False
    then obtain j where j: "i = Suc (Suc j)" using i(1) by (metis One_nat_def not0_implies_Suc gr_implies_not0)
    then have "j < lead a - 2" using i(2) k(1) by simp
    then show ?thesis using k(3,4) 3 j by (auto simp: list_all_length)
  qed (use 3 k second_cont in simp)
qed (auto split: if_splits)

lemma back_off_le: "back_off s n \<le> n"
  by (induction n) auto

lemma back_off_inside: "n < rune_len s \<Longrightarrow> back_off s n = 0"
  by (induction n) (auto simp: rune_start_def rune_inside)

lemma back_off_drop: "k \<le> n \<Longrightarrow> k < length s \<Longrightarrow> rune_start (s ! k) \<Longrightarrow> back_off s n = k + back_off (drop k s) (n - k)"
proof (induction n)
  case (Suc n)
  show ?case
  proof (cases "k = Suc n")
    case False
    with Suc show ?thesis by (simp add: Suc_diff_le)
  qed (use Suc.prems in simp)
qed simp

lemma rune_head: "rune_len s \<noteq> 0 \<Longrightarrow> rune_start (s ! 0)"
proof -
  assume "rune_len s \<noteq> 0"
  then have "lead (s ! 0) \<noteq> 0" by (cases s rule: rune_len.cases) (auto split: if_splits)
  then show ?thesis by (auto simp: lead_def rune_start_def cont_def word_le_nat_alt word_less_nat_alt split: if_splits)
qed

lemma valid_cut: "valid_utf8 s \<Longrightarrow> n < length s \<Longrightarrow> valid_utf8 (take (back_off s n) s)"
proof (induction s arbitrary: n rule: length_induct)
  case (1 s)
  define k where "k = rune_len s"
  have k: "k \<noteq> 0" "valid_utf8 (drop k s)" "k \<le> length s" using valid_unfold [OF 1(2)] rune_len_le [of s] 1(3) by (cases "s = []"; simp add: k_def)+
  show ?case
  proof (cases "n < k")
    case True
    then show ?thesis by (simp add: k_def back_off_inside)
  next
    case False
    with 1(3) have "drop k s \<noteq> []" by simp
    then have "rune_start (drop k s ! 0)" using valid_unfold [OF k(2)] rune_head by blast
    then have "back_off s n = k + back_off (drop k s) (n - k)" using False 1(3) k(3) by (intro back_off_drop) simp_all
    moreover have "valid_utf8 (take (back_off (drop k s) (n - k)) (drop k s))"
      using 1 k False by (metis diff_less_mono length_drop linorder_not_le diff_less length_greater_0_conv less_nat_zero_code neq0_conv)
    moreover have "valid_utf8 (take k s)" using k(1) unfolding k_def by (rule valid_take_rune)
    ultimately show ?thesis by (simp add: take_add valid_append)
  qed
qed

section \<open>Log lines\<close>

lemma to_valid_id: "valid_utf8 s \<Longrightarrow> to_valid rep bad s = s"
proof (induction rep bad s rule: to_valid.induct)
  case (1 rep bad s)
  show ?case
  proof (cases "s = []")
    case False
    with 1(3) have "rune_len s \<noteq> 0" "valid_utf8 (drop (rune_len s) s)" using valid_unfold by blast+
    with 1(2) False show ?thesis by (subst to_valid.simps) simp
  qed (simp add: to_valid.simps)
qed

text \<open>
  C31: what \<^verbatim>\<open>truncate\<close> writes is valid UTF-8 and at most three bytes longer than the bound, whatever the remote
  side sent; and a valid text within the bound is written as it is.
\<close>

theorem truncate_valid:
  "valid_utf8 (truncate s n) \<and> length (truncate s n) \<le> n + 3 \<and> (if valid_utf8 s \<and> length s \<le> n then truncate s n = s else True)"
proof -
  have rep: "valid_utf8 replacement" and dots: "valid_utf8 (ascii ''...'')" "length (ascii ''...'') = 3" by code_simp+
  have v: "valid_utf8 (to_valid replacement False s)" using rep by (rule valid_to_valid)
  show ?thesis
  proof (cases "length (to_valid replacement False s) \<le> n")
    case True
    then show ?thesis using v to_valid_id [of s] by (auto simp: truncate_def Let_def)
  next
    case False
    then have "valid_utf8 (take (back_off (to_valid replacement False s) n) (to_valid replacement False s))" using v by (intro valid_cut) simp_all
    then show ?thesis using False back_off_le [of "to_valid replacement False s" n] to_valid_id [of s] dots
      by (auto simp: truncate_def Let_def intro: valid_append)
  qed
qed

text \<open>\<^verbatim>\<open>truncForLog\<close> cuts a Cyrillic letter in half.\<close>

lemma trunc_for_log_breaks: "valid_utf8 [0x61, 0xd0, 0xb0] \<and> \<not> valid_utf8 (trunc_for_log [0x61, 0xd0, 0xb0] 2)"
  by code_simp

end
