(* ===== verification/Captcha.thy ===== *)
theory Captcha
  imports PoolFront
begin

text \<open>
  The captcha of the DTLS/TURN proxy, \<^verbatim>\<open>src/pkg/proxy/proxy.go\<close>: the pending challenge and the tokens of its
  solution, the goroutine that waits for the answer and probes VK (\<^verbatim>\<open>waitCaptchaAndRestart\<close>), \<^verbatim>\<open>SolveCaptcha\<close>,
  \<^verbatim>\<open>RefreshCaptchaURL\<close>, the proxy's fetcher, which consumes the tokens (\<^verbatim>\<open>fetchFreshCreds\<close>), and the hooks of a path
  change. \<^verbatim>\<open>captchaImageURL\<close> is \<open>px_captcha\<close> of \<^theory_text>\<open>Watchdog\<close>'s proxy. A call is one step, except where the section on the
  tokens takes the fetcher's loads and stores apart.
\<close>

section \<open>The state\<close>

text \<open>
  \<open>Wt_spawned\<close>: started, before its drain of the channel. \<open>Wt_waiting d u\<close>: in the select, with the interval \<open>d\<close> and
  the timer at \<open>u\<close>. \<open>Wt_probing d\<close>: asking the pool. \<open>cs_forced\<close>: when the delayed checks of \<^verbatim>\<open>SolveCaptcha\<close> fire.
  \<open>cs_refreshed\<close> is \<^verbatim>\<open>lastRefreshCaptchaTime\<close>, in seconds.
\<close>

datatype waiter = Wt_spawned | Wt_waiting duration time | Wt_probing duration

record captcha_state =
  cs_px :: proxy
  cs_sid :: bytes
  cs_key :: bytes
  cs_ts :: real
  cs_attempt :: real
  cs_token1 :: bytes
  cs_ch :: "bytes option"
  cs_waiter :: "waiter option"
  cs_active :: bool
  cs_refreshed :: int
  cs_forced :: "time list"

definition set_url :: "bytes \<Rightarrow> captcha_state \<Rightarrow> captcha_state" where
  "set_url u cs = cs\<lparr>cs_px := (cs_px cs)\<lparr>px_captcha := u\<rparr>\<rparr>"

definition url :: "captcha_state \<Rightarrow> bytes" where
  "url cs = px_captcha (cs_px cs)"

definition resume_now :: "captcha_state \<Rightarrow> captcha_state" where
  "resume_now cs = cs\<lparr>cs_px := resume (cs_px cs)\<rparr>"

text \<open>The five stores of a captcha that VK asked for.\<close>

definition publish :: "captcha_required \<Rightarrow> captcha_state \<Rightarrow> captcha_state" where
  "publish cr cs = (set_url (cr_url cr) cs)
     \<lparr>cs_sid := cr_sid cr, cs_ts := cr_ts cr, cs_attempt := cr_attempt cr, cs_token1 := cr_token1 cr\<rparr>"

section \<open>The waiter\<close>

text \<open>The end of \<^verbatim>\<open>startConnections\<close> when conn 0 needs a captcha: publish it, and see that one waiter runs.\<close>

definition boot_captcha :: "captcha_required \<Rightarrow> captcha_state \<Rightarrow> captcha_state" where
  "boot_captcha cr cs0 =
     (let cs = publish cr cs0
      in if cs_active cs then cs else cs\<lparr>cs_active := True, cs_waiter := Some Wt_spawned\<rparr>)"

definition probe_interval :: "bool \<Rightarrow> duration" where
  "probe_interval limited = (if limited then 10 * minute else 2 * minute)"

definition view_guard :: duration where
  "view_guard = 10 * minute"

definition waiter_start :: "time \<Rightarrow> captcha_state \<Rightarrow> captcha_state" where
  "waiter_start now cs = (if cs_waiter cs \<noteq> Some Wt_spawned then cs
     else cs\<lparr>cs_ch := None, cs_waiter := Some (Wt_waiting (probe_interval False) (now + probe_interval False))\<rparr>)"

definition waiter_gone :: "captcha_state \<Rightarrow> captcha_state" where
  "waiter_gone cs = cs\<lparr>cs_waiter := None, cs_active := False\<rparr>"

definition waiter_answer :: "captcha_state \<Rightarrow> captcha_state" where
  "waiter_answer cs = (case (cs_waiter cs, cs_ch cs) of
     (Some (Wt_waiting d u), Some ans) \<Rightarrow>
       let cs = set_url [] (cs\<lparr>cs_ch := None\<rparr>); cs = (if ans \<noteq> [] then cs\<lparr>cs_key := ans\<rparr> else cs)
       in waiter_gone (resume_now cs)
   | _ \<Rightarrow> cs)"

text \<open>The timer: a user who looked at the challenge within the last ten minutes is not disturbed.\<close>

definition viewed :: "time \<Rightarrow> captcha_state \<Rightarrow> bool" where
  "viewed now cs \<longleftrightarrow> 0 < cs_refreshed cs \<and> time_sub now (unix_time (cs_refreshed cs)) < view_guard"

definition waiter_tick :: "time \<Rightarrow> captcha_state \<Rightarrow> captcha_state" where
  "waiter_tick now cs = (case cs_waiter cs of
     Some (Wt_waiting d u) \<Rightarrow>
       if now < u then cs
       else if viewed now cs then cs\<lparr>cs_waiter := Some (Wt_waiting d (now + d))\<rparr>
       else cs\<lparr>cs_waiter := Some (Wt_probing d)\<rparr>
   | _ \<Rightarrow> cs)"

datatype probe_result = Probe_ok int | Probe_captcha captcha_required | Probe_failed

definition waiter_probed :: "env \<Rightarrow> probe_result \<Rightarrow> captcha_state \<Rightarrow> captcha_state" where
  "waiter_probed ev r cs = (case cs_waiter cs of
     Some (Wt_probing d) \<Rightarrow>
       (case r of
          Probe_ok slot \<Rightarrow>
            let px = cs_px cs; cs = cs\<lparr>cs_px := px\<lparr>px_pool := release ev slot (px_pool px)\<rparr>\<rparr>
            in waiter_gone (resume_now (set_url [] cs))
        | Probe_captcha cr \<Rightarrow>
            let d = probe_interval (cr_rate_limit cr)
            in (publish cr cs)\<lparr>cs_waiter := Some (Wt_waiting d (ev_now ev + d))\<rparr>
        | Probe_failed \<Rightarrow> cs\<lparr>cs_waiter := Some (Wt_waiting d (ev_now ev + d))\<rparr>)
   | _ \<Rightarrow> cs)"

definition waiter_stop :: "captcha_state \<Rightarrow> captcha_state" where
  "waiter_stop cs = (case cs_waiter cs of
     Some (Wt_waiting d u) \<Rightarrow> if px_ctx_done (cs_px cs) then waiter_gone ((set_url [] cs)\<lparr>cs_sid := []\<rparr>) else cs
   | _ \<Rightarrow> cs)"

section \<open>What the app calls\<close>

text \<open>\<^verbatim>\<open>SolveCaptcha\<close>, and its check fifteen seconds later.\<close>

definition solve_captcha :: "time \<Rightarrow> bytes \<Rightarrow> captcha_state \<Rightarrow> captcha_state" where
  "solve_captcha now ans cs0 =
     (let cs1 = (if ans \<noteq> [] then cs0\<lparr>cs_key := ans\<rparr> else cs0); cs2 = set_url [] cs1;
          cs3 = (if cs_ch cs2 = None then cs2\<lparr>cs_ch := Some ans\<rparr> else cs2)
      in cs3\<lparr>cs_forced := cs_forced cs3 @ [now + 15 * second]\<rparr>)"

definition forced_check :: "time \<Rightarrow> captcha_state \<Rightarrow> captcha_state" where
  "forced_check now cs = (case cs_forced cs of
     [] \<Rightarrow> cs
   | u # us \<Rightarrow> if now < u then cs
       else (let cs = cs\<lparr>cs_forced := us\<rparr> in if px_active (cs_px cs) = 0 then resume_now cs else cs))"

text \<open>\<^verbatim>\<open>waitForCaptchaAnswer\<close>, the solver of a fetch that may block; no caller lets a fetch block.\<close>

definition solver_begin :: "bytes \<Rightarrow> captcha_state \<Rightarrow> captcha_state" where
  "solver_begin img cs = (set_url img cs)\<lparr>cs_ch := None\<rparr>"

definition solver_end :: "captcha_state \<Rightarrow> (bytes + bytes) option \<times> captcha_state" where
  "solver_end cs = (case cs_ch cs of
     Some ans \<Rightarrow> (Some (Inr ans), set_url [] (cs\<lparr>cs_ch := None\<rparr>))
   | None \<Rightarrow> if px_ctx_done (cs_px cs) then (Some (Inl (ascii ''context canceled'')), set_url [] cs) else (None, cs))"

text \<open>
  \<^verbatim>\<open>RefreshCaptchaURL\<close>: the time is stored at once, the challenge when the two requests gave one. \<open>pick\<close> draws the
  credentials.
\<close>

definition refresh_request :: "mint_env \<Rightarrow> bytes \<Rightarrow> captcha_required option mint" where
  "refresh_request me link =
     (if link = [] then Return None
      else Shuffled (\<lambda>pick. Identity (\<lambda>i.
        let vc = vk_credentials_list ! (pick 0 mod length vk_credentials_list) in
        Post (req (ascii ''https://login.vk.ru/?act=get_anonym_token'')
          [(''client_id'', vc_client_id vc), (''token_type'', ascii ''messages''), (''client_secret'', vc_client_secret vc),
           (''version'', ascii ''1''), (''app_id'', vc_client_id vc)]) (\<lambda>r. case r of
            Inl e \<Rightarrow> Return None
          | Inr resp \<Rightarrow> (case extract_str [''data'', ''access_token''] resp of
              Inl e \<Rightarrow> Return None
            | Inr token1 \<Rightarrow>
                Post (req (ascii ''https://'' @ vk_api_host me @ ascii ''/method/calls.getAnonymousToken?v=5.275&client_id='' @ vc_client_id vc)
                  [(''vk_join_link'', vk_call_join_base @ link), (''name'', id_name i), (''access_token'', token1)]) (\<lambda>r. case r of
                    Inl e \<Rightarrow> Return None
                  | Inr resp \<Rightarrow> let c = extract_captcha resp in
                      if ch_sid c = [] then Return None else Return (Some (captcha_required_of c token1 [] False)))))))) "

definition refresh_begin :: "time \<Rightarrow> captcha_state \<Rightarrow> captcha_state" where
  "refresh_begin now cs = cs\<lparr>cs_refreshed := unix_sec now\<rparr>"

definition refresh_end :: "captcha_required option \<Rightarrow> captcha_state \<Rightarrow> bytes \<times> captcha_state" where
  "refresh_end r cs = (case r of None \<Rightarrow> ([], cs) | Some cr \<Rightarrow> (cr_url cr, publish cr cs))"

section \<open>The fetcher\<close>

text \<open>The tokens a fetch takes: a token that was there is cleared; the time and the attempt stay.\<close>

definition take_tokens :: "captcha_state \<Rightarrow> solved_captcha \<times> captcha_state" where
  "take_tokens cs =
     (\<lparr>sv_sid = cs_sid cs, sv_key = cs_key cs, sv_ts = cs_ts cs, sv_attempt = cs_attempt cs, sv_token1 = cs_token1 cs, sv_client_id = []\<rparr>,
      cs\<lparr>cs_sid := [], cs_key := [], cs_token1 := []\<rparr>)"

text \<open>
  \<^verbatim>\<open>fetchFreshCreds\<close> after the tokens. \<open>None\<close> stands for the panic of an index into no addresses; then the relay
  host, which is empty when the address does not split.
\<close>

definition deliver :: "bytes \<Rightarrow> bytes \<Rightarrow> turn_creds \<Rightarrow> (bytes + bytes \<times> turn_creds) option" where
  "deliver server port c = (case override_addrs server port (tc_addresses c) of
     Inl e \<Rightarrow> Some (Inl e)
   | Inr [] \<Rightarrow> None
   | Inr (a # as) \<Rightarrow> Some (Inr (a, with_addresses (a # as) c)))"

definition fetch_fresh_creds ::
  "time \<Rightarrow> mint_env \<Rightarrow> bytes \<Rightarrow> bytes \<Rightarrow> bytes \<Rightarrow> bool \<Rightarrow> int \<Rightarrow> solved_captcha \<Rightarrow> cookie_state
     \<Rightarrow> ((mint_error + bytes \<times> turn_creds) option \<times> cookie_state) mint" where
  "fetch_fresh_creds now me link server port block slot sv st =
     bind (if ck_enabled st then cookie_fetch now slot st else get_vk_creds now me link block sv st) (\<lambda>(r, st). case r of
       Inl e \<Rightarrow> Return (Some (Inl e), st)
     | Inr c \<Rightarrow> Return (map_option (map_sum Failed (\<lambda>x. x)) (deliver server port c), st))"

section \<open>Families and path changes\<close>

text \<open>\<^verbatim>\<open>net.IP.To4\<close>\<close>

definition to4 :: "bytes \<Rightarrow> bytes option" where
  "to4 a = (if length a = 4 then Some a
     else if length a = 16 \<and> take 10 a = replicate 10 0 \<and> a ! 10 = 0xff \<and> a ! 11 = 0xff then Some (drop 12 a) else None)"

datatype addr_family = Fam_v4 | Fam_v6

definition addr_family_for :: "bytes option \<Rightarrow> addr_family" where
  "addr_family_for peer = (case peer of Some a \<Rightarrow> if to4 a = None then Fam_v6 else Fam_v4 | None \<Rightarrow> Fam_v4)"

text \<open>\<^verbatim>\<open>RotateVKSessionClient\<close> without another rotation in between; \<open>ok\<close>: a client could be built.\<close>

definition rotate_vk_session_client :: "bool \<Rightarrow> session_client \<Rightarrow> session_client" where
  "rotate_vk_session_client ok c = (case sc_current c of
     None \<Rightarrow> c
   | Some old \<Rightarrow> (case rotate_begin (Some old) ok c of (Inl _, c) \<Rightarrow> c | (Inr fresh, c) \<Rightarrow> snd (rotate_swap old fresh c)))"

definition on_path_change :: "env \<Rightarrow> bool \<Rightarrow> session_client \<times> proxy \<Rightarrow> session_client \<times> proxy" where
  "on_path_change ev ok = (\<lambda>(c, px). (rotate_vk_session_client ok c, px\<lparr>px_pool := mark_in_use_for_path_change ev (px_pool px)\<rparr>))"

definition on_path_transition :: "env \<Rightarrow> proxy \<Rightarrow> proxy" where
  "on_path_transition ev px = px\<lparr>px_pool := extend_pause ev (5 * second) (px_pool px)\<rparr>"

section \<open>Runs\<close>

text \<open>\<open>Cp_px\<close>: Pause, Resume, ForceReconnect, wake checks and Stop; \<open>Cp_active\<close>: the count of connections changed.\<close>

datatype cap_event =
    Cp_boot captcha_required
  | Cp_start time
  | Cp_answer
  | Cp_tick time
  | Cp_probed env probe_result
  | Cp_stop
  | Cp_solve time bytes
  | Cp_forced time
  | Cp_view time
  | Cp_refreshed "captcha_required option"
  | Cp_take
  | Cp_px px_event
  | Cp_active int

fun cap_step :: "captcha_state \<Rightarrow> cap_event \<Rightarrow> captcha_state" where
  "cap_step cs (Cp_boot cr) = boot_captcha cr cs"
| "cap_step cs (Cp_start now) = waiter_start now cs"
| "cap_step cs Cp_answer = waiter_answer cs"
| "cap_step cs (Cp_tick now) = waiter_tick now cs"
| "cap_step cs (Cp_probed ev r) = waiter_probed ev r cs"
| "cap_step cs Cp_stop = waiter_stop cs"
| "cap_step cs (Cp_solve now ans) = solve_captcha now ans cs"
| "cap_step cs (Cp_forced now) = forced_check now cs"
| "cap_step cs (Cp_view now) = refresh_begin now cs"
| "cap_step cs (Cp_refreshed r) = snd (refresh_end r cs)"
| "cap_step cs Cp_take = snd (take_tokens cs)"
| "cap_step cs (Cp_px e) = (case e of Px_seen v \<Rightarrow> cs | _ \<Rightarrow> cs\<lparr>cs_px := px_step (cs_px cs) e\<rparr>)"
| "cap_step cs (Cp_active n) = cs\<lparr>cs_px := (cs_px cs)\<lparr>px_active := n\<rparr>\<rparr>"

definition no_captcha_state :: "proxy \<Rightarrow> captcha_state" where
  "no_captcha_state px = \<lparr>cs_px = px\<lparr>px_captcha := []\<rparr>, cs_sid = [], cs_key = [], cs_ts = 0, cs_attempt = 0, cs_token1 = [],
     cs_ch = None, cs_waiter = None, cs_active = False, cs_refreshed = 0, cs_forced = []\<rparr>"

section \<open>A pending captcha is waited for\<close>

text \<open>A refreshed challenge arrives while the waiter is there.\<close>

fun watched :: "captcha_state \<Rightarrow> cap_event \<Rightarrow> bool" where
  "watched cs (Cp_refreshed (Some cr)) \<longleftrightarrow> cs_waiter cs \<noteq> None"
| "watched cs e \<longleftrightarrow> True"

fun all_watched :: "captcha_state \<Rightarrow> cap_event list \<Rightarrow> bool" where
  "all_watched cs [] \<longleftrightarrow> True"
| "all_watched cs (e # es) \<longleftrightarrow> watched cs e \<and> all_watched (cap_step cs e) es"

definition waited :: "captcha_state \<Rightarrow> bool" where
  "waited cs \<longleftrightarrow> (cs_active cs \<longleftrightarrow> cs_waiter cs \<noteq> None) \<and> (url cs \<noteq> [] \<longrightarrow> cs_waiter cs \<noteq> None)"

lemma px_step_url: "(\<forall>v. e \<noteq> Px_seen v) \<Longrightarrow> px_captcha (px_step px e) = px_captcha px"
  by (cases e) (auto simp: pause_def resume_def force_reconnect_def replace_session_def stop_def wake_check_def
      clear_pion_errors_def broadcast_wake_def Let_def)

lemma url_simps [simp]:
  "url (set_url u cs) = u" "url (publish cr cs) = cr_url cr" "url (resume_now cs) = url cs" "url (waiter_gone cs) = url cs"
  "cs_waiter (set_url u cs) = cs_waiter cs" "cs_waiter (publish cr cs) = cs_waiter cs" "cs_waiter (resume_now cs) = cs_waiter cs"
  "cs_active (set_url u cs) = cs_active cs" "cs_active (publish cr cs) = cs_active cs" "cs_active (resume_now cs) = cs_active cs"
  "cs_waiter (waiter_gone cs) = None" "\<not> cs_active (waiter_gone cs)"
  by (simp_all add: url_def set_url_def publish_def resume_now_def waiter_gone_def resume_def replace_session_def)

lemma url_upd [simp]:
  "url (cs\<lparr>cs_waiter := w\<rparr>) = url cs" "url (cs\<lparr>cs_active := a\<rparr>) = url cs" "url (cs\<lparr>cs_ch := c\<rparr>) = url cs"
  "url (cs\<lparr>cs_key := k\<rparr>) = url cs" "url (cs\<lparr>cs_sid := k\<rparr>) = url cs" "url (cs\<lparr>cs_forced := f\<rparr>) = url cs"
  "url (cs\<lparr>cs_refreshed := n\<rparr>) = url cs" "url (cs\<lparr>cs_token1 := k\<rparr>) = url cs"
  by (simp_all add: url_def)

lemma waited_step: "waited cs \<Longrightarrow> watched cs e \<Longrightarrow> waited (cap_step cs e)"
proof (cases e)
  case (Cp_px p)
  assume "waited cs"
  with Cp_px px_step_url [of p "cs_px cs"] show ?thesis by (cases p) (auto simp: waited_def url_def)
next
  case (Cp_refreshed r)
  assume "waited cs" "watched cs e"
  with Cp_refreshed show ?thesis by (cases r) (auto simp: waited_def refresh_end_def)
next
  case (Cp_active n)
  assume "waited cs"
  with Cp_active show ?thesis by (simp add: waited_def url_def)
qed (auto simp: waited_def boot_captcha_def waiter_start_def waiter_answer_def waiter_tick_def waiter_probed_def waiter_stop_def
    solve_captcha_def forced_check_def refresh_begin_def take_tokens_def Let_def url_def [of "cs_px_update _ _"] split: option.split waiter.split
    probe_result.split list.split)


text \<open>
   while a captcha is pending, recovery is off: Resume, ForceReconnect and the wake check return at once. So a
  pending captcha must have someone who waits for it: in every run in which a refreshed challenge finds the waiter
  still there, the waiter runs whenever a captcha is pending, and the flag that keeps it single says so.
\<close>

theorem pending_captcha_waited_for:
  assumes "all_watched (no_captcha_state px) es"
  shows "waited (run cap_step (no_captcha_state px) es)"
proof -
  have "all_watched cs es \<Longrightarrow> waited cs \<Longrightarrow> waited (run cap_step cs es)" for cs
    by (induction es arbitrary: cs) (auto intro: waited_step)
  moreover have "waited (no_captcha_state px)" by (simp add: waited_def no_captcha_state_def url_def)
  ultimately show ?thesis using assms by blast
qed

definition a_captcha :: captcha_required where
  "a_captcha = \<lparr>cr_url = ascii ''https://id.vk.ru/captcha'', cr_sid = ascii ''1'', cr_ts = 0, cr_attempt = 1, cr_token1 = ascii ''t'',
     cr_client_id = [], cr_rate_limit = False\<rparr>"

definition probe_run :: "cap_event list" where
  "probe_run = [Cp_boot a_captcha, Cp_start 0, Cp_tick (2 * minute), Cp_view (2 * minute)]"

lemmas cap_defs = boot_captcha_def publish_def set_url_def waiter_start_def waiter_tick_def viewed_def waiter_probed_def refresh_begin_def
  refresh_end_def waiter_gone_def resume_now_def probe_interval_def

theorem pending_captcha_waited_for_witness:
  "waited (run cap_step (no_captcha_state sample_proxy) (probe_run @ [Cp_refreshed (Some a_captcha)]))"
  by (rule pending_captcha_waited_for) (simp add: probe_run_def no_captcha_state_def a_captcha_def cap_defs)

text \<open>
  The other case: a probe that was under way when the user opened the challenge succeeds, the waiter resumes and
  leaves, and then the refreshed challenge is stored. Nobody waits for it, and no Pause, Resume, ForceReconnect or
  wake check starts connections again.
\<close>

lemma blocked_step: "px_captcha px \<noteq> [] \<Longrightarrow> (\<forall>v. e \<noteq> Px_seen v) \<Longrightarrow>
    px_captcha (px_step px e) \<noteq> [] \<and> px_spawned (px_step px e) = px_spawned px"
  by (cases e) (auto simp: pause_def resume_def force_reconnect_def stop_def wake_check_def captcha_pending_def)

theorem refresh_orphans_captcha:
  fixes px :: proxy and ev :: env and es :: "px_event list"
  defines "cs \<equiv> run cap_step (no_captcha_state px) (probe_run @ [Cp_probed ev (Probe_ok 0), Cp_refreshed (Some a_captcha)])"
  shows "url cs \<noteq> [] \<and> cs_waiter cs = None \<and> px_spawned (cs_px (run cap_step cs (map Cp_px es))) = px_spawned (cs_px cs)"
proof -
  have "url cs \<noteq> [] \<and> cs_waiter cs = None"
    by (simp add: cs_def probe_run_def no_captcha_state_def a_captcha_def cap_defs url_def ascii_def resume_def replace_session_def Let_def captcha_pending_def)
  moreover have "url c \<noteq> [] \<Longrightarrow> px_spawned (cs_px (run cap_step c (map Cp_px es))) = px_spawned (cs_px c)" for c
  proof (induction es arbitrary: c)
    case (Cons e es)
    have "url (cap_step c (Cp_px e)) \<noteq> [] \<and> px_spawned (cs_px (cap_step c (Cp_px e))) = px_spawned (cs_px c)"
      using blocked_step [of "cs_px c" e] Cons.prems by (cases e) (auto simp: url_def)
    with Cons.IH [of "cap_step c (Cp_px e)"] show ?case by simp
  qed simp
  ultimately show ?thesis by blast
qed

section \<open>Probes are paced\<close>

definition probe_of :: "captcha_state \<Rightarrow> cap_event \<Rightarrow> time option" where
  "probe_of cs e = (case e of
     Cp_tick now \<Rightarrow> (case cs_waiter (cap_step cs e) of Some (Wt_probing d) \<Rightarrow> (case cs_waiter cs of Some (Wt_waiting d u) \<Rightarrow> Some now | _ \<Rightarrow> None) | _ \<Rightarrow> None)
   | _ \<Rightarrow> None)"

fun cap_clock :: "cap_event \<Rightarrow> time option" where
  "cap_clock (Cp_start now) = Some now"
| "cap_clock (Cp_tick now) = Some now"
| "cap_clock (Cp_probed ev r) = Some (ev_now ev)"
| "cap_clock (Cp_view now) = Some now"
| "cap_clock _ = None"

text \<open>Every probe of a run, with the number of seconds of the last view before it, 0 for none.\<close>

fun probes :: "captcha_state \<Rightarrow> cap_event list \<Rightarrow> (time \<times> int) list" where
  "probes cs [] = []"
| "probes cs (e # es) = (case probe_of cs e of None \<Rightarrow> [] | Some t \<Rightarrow> [(t, cs_refreshed cs)]) @ probes (cap_step cs e) es"

fun clock_mono :: "time \<Rightarrow> cap_event list \<Rightarrow> bool" where
  "clock_mono t [] \<longleftrightarrow> True"
| "clock_mono t (e # es) \<longleftrightarrow> (case cap_clock e of None \<Rightarrow> clock_mono t es | Some u \<Rightarrow> t \<le> u \<and> clock_mono u es)"

fun spaced :: "time \<Rightarrow> (time \<times> int) list \<Rightarrow> bool" where
  "spaced t [] \<longleftrightarrow> True"
| "spaced t ((u, view) # ps) \<longleftrightarrow> t \<le> u \<and> (view \<le> 0 \<or> view_guard \<le> time_sub u (unix_time view)) \<and> spaced (u + 2 * minute) ps"

definition paced_from :: "time \<Rightarrow> time \<Rightarrow> captcha_state \<Rightarrow> bool" where
  "paced_from next now cs \<longleftrightarrow> next \<le> now + 2 * minute \<and> (case cs_waiter cs of
     Some (Wt_waiting d u) \<Rightarrow> 2 * minute \<le> d \<and> next \<le> u
   | Some (Wt_probing d) \<Rightarrow> 2 * minute \<le> d
   | _ \<Rightarrow> True)"

lemma waiter_same:
  "cs_waiter (solve_captcha now ans cs) = cs_waiter cs" "cs_waiter (forced_check now cs) = cs_waiter cs"
  "cs_waiter (refresh_begin now cs) = cs_waiter cs" "cs_waiter (snd (refresh_end r cs)) = cs_waiter cs"
  "cs_waiter (snd (take_tokens cs)) = cs_waiter cs" "cs_waiter (cap_step cs (Cp_px p)) = cs_waiter cs"
  by (simp_all add: solve_captcha_def forced_check_def refresh_begin_def refresh_end_def take_tokens_def Let_def
      split: list.split option.split px_event.split)

lemma paced_later: "paced_from nxt now cs \<Longrightarrow> now \<le> now' \<Longrightarrow> cs_waiter cs' = cs_waiter cs \<Longrightarrow> paced_from nxt now' cs'"
  by (auto simp: paced_from_def)

lemma paced_set: "paced_from nxt now cs \<Longrightarrow> now \<le> now' \<Longrightarrow> cs_waiter cs' = Some (Wt_waiting d (now' + d)) \<Longrightarrow> 2 * minute \<le> d
    \<Longrightarrow> paced_from nxt now' cs'"
  by (auto simp: paced_from_def)

lemma paced_quiet: "paced_from nxt now cs \<Longrightarrow> now \<le> now' \<Longrightarrow> cs_waiter cs' \<in> {None, Some Wt_spawned} \<Longrightarrow> paced_from nxt now' cs'"
  by (auto simp: paced_from_def)

lemma probe_interval_ge: "2 * minute \<le> probe_interval b"
  by (simp add: probe_interval_def)

lemma paced_step:
  assumes p: "paced_from nxt now cs" and t: "now \<le> now'" and c: "case cap_clock e of None \<Rightarrow> now' = now | Some u \<Rightarrow> now' = u"
    and none: "probe_of cs e = None"
  shows "paced_from nxt now' (cap_step cs e)"
proof (cases e)
  case (Cp_boot cr)
  then show ?thesis using paced_later [OF p t] paced_quiet [OF p t] by (auto simp: boot_captcha_def Let_def)
next
  case (Cp_start u)
  then show ?thesis using c paced_later [OF p t] paced_set [OF p t _ probe_interval_ge] by (auto simp: waiter_start_def)
next
  case Cp_answer
  then show ?thesis using paced_later [OF p t] paced_quiet [OF p t]
    by (auto simp: waiter_answer_def Let_def split: option.split waiter.split)
next
  case (Cp_tick u)
  show ?thesis
  proof (cases "\<exists>d v. cs_waiter cs = Some (Wt_waiting d v) \<and> v \<le> u")
    case True
    then obtain d v where w: "cs_waiter cs = Some (Wt_waiting d v)" "v \<le> u" by blast
    have "viewed u cs" using none w Cp_tick by (simp add: probe_of_def waiter_tick_def split: if_splits)
    moreover have "2 * minute \<le> d" using p w by (simp add: paced_from_def)
    ultimately show ?thesis using Cp_tick c w paced_set [OF p t, of _ d] by (simp add: waiter_tick_def)
  next
    case False
    then have "waiter_tick u cs = cs" by (auto simp: waiter_tick_def split: option.split waiter.split)
    then show ?thesis using Cp_tick paced_later [OF p t] by simp
  qed
next
  case (Cp_probed ev r)
  show ?thesis
  proof (cases "\<exists>d. cs_waiter cs = Some (Wt_probing d)")
    case True
    then obtain d where w: "cs_waiter cs = Some (Wt_probing d)" by blast
    have "2 * minute \<le> d" using p w by (simp add: paced_from_def)
    then show ?thesis using Cp_probed c w paced_set [OF p t] paced_quiet [OF p t] probe_interval_ge
      by (cases r) (simp_all add: waiter_probed_def Let_def)
  next
    case False
    then have "waiter_probed ev r cs = cs" by (auto simp: waiter_probed_def split: option.split waiter.split)
    then show ?thesis using Cp_probed paced_later [OF p t] by simp
  qed
next
  case Cp_stop
  then show ?thesis using paced_later [OF p t] paced_quiet [OF p t] by (auto simp: waiter_stop_def split: option.split waiter.split)
qed (use waiter_same paced_later [OF p t] in auto)

lemma probe_step:
  assumes "paced_from nxt now cs" and "probe_of cs e = Some t"
  shows "cap_clock e = Some t \<and> nxt \<le> t \<and> (cs_refreshed cs \<le> 0 \<or> view_guard \<le> time_sub t (unix_time (cs_refreshed cs)))
    \<and> paced_from (t + 2 * minute) t (cap_step cs e)"
proof -
  obtain d u where e: "e = Cp_tick t" "cs_waiter cs = Some (Wt_waiting d u)" "cs_waiter (cap_step cs e) = Some (Wt_probing d)"
    using assms(2) by (auto simp: probe_of_def waiter_tick_def split: cap_event.split_asm option.split_asm waiter.split_asm if_splits)
  then have "u \<le> t" "\<not> viewed t cs" by (auto simp: waiter_tick_def split: if_splits)
  with e assms(1) show ?thesis by (auto simp: paced_from_def viewed_def)
qed

lemma probes_spaced: "clock_mono now es \<Longrightarrow> paced_from nxt now cs \<Longrightarrow> spaced nxt (probes cs es)"
proof (induction es arbitrary: nxt now cs)
  case (Cons e es)
  show ?case
  proof (cases "probe_of cs e")
    case None
    from Cons.prems(1) have "clock_mono (case cap_clock e of None \<Rightarrow> now | Some u \<Rightarrow> u) es" "now \<le> (case cap_clock e of None \<Rightarrow> now | Some u \<Rightarrow> u)"
      by (auto split: option.split_asm option.split)
    with None paced_step [OF Cons.prems(2), where e = e and now' = "case cap_clock e of None \<Rightarrow> now | Some u \<Rightarrow> u"] Cons.IH
    show ?thesis by (auto split: option.split)
  next
    case (Some t)
    with probe_step [OF Cons.prems(2) Some] Cons.IH [of t "t + 2 * minute" "cap_step cs e"] Cons.prems(1) show ?thesis by auto
  qed
qed simp



section \<open>Tokens\<close>

text \<open>
  The consumption load by load and store by store: \<open>tk_pc\<close> counts the accesses, \<open>tk_got\<close> holds what was loaded.
\<close>

record taker =
  tk_pc :: nat
  tk_got :: solved_captcha

definition new_taker :: taker where
  "new_taker = \<lparr>tk_pc = 0, tk_got = no_solved\<rparr>"

definition take_access :: "taker \<times> captcha_state \<Rightarrow> taker \<times> captcha_state" where
  "take_access = (\<lambda>(k, cs). let g = tk_got k in
     if tk_pc k = 0 then (\<lparr>tk_pc = 1, tk_got = g\<lparr>sv_sid := cs_sid cs\<rparr>\<rparr>, cs)
     else if tk_pc k = 1 then (k\<lparr>tk_pc := 2\<rparr>, if sv_sid g \<noteq> [] then cs\<lparr>cs_sid := []\<rparr> else cs)
     else if tk_pc k = 2 then (\<lparr>tk_pc = 3, tk_got = g\<lparr>sv_key := cs_key cs\<rparr>\<rparr>, cs)
     else if tk_pc k = 3 then (k\<lparr>tk_pc := 4\<rparr>, if sv_key g \<noteq> [] then cs\<lparr>cs_key := []\<rparr> else cs)
     else if tk_pc k = 4 then (\<lparr>tk_pc = 5, tk_got = g\<lparr>sv_ts := cs_ts cs\<rparr>\<rparr>, cs)
     else if tk_pc k = 5 then (\<lparr>tk_pc = 6, tk_got = g\<lparr>sv_attempt := cs_attempt cs\<rparr>\<rparr>, cs)
     else if tk_pc k = 6 then (\<lparr>tk_pc = 7, tk_got = g\<lparr>sv_token1 := cs_token1 cs\<rparr>\<rparr>, cs)
     else if tk_pc k = 7 then (k\<lparr>tk_pc := 8\<rparr>, if sv_token1 g \<noteq> [] then cs\<lparr>cs_token1 := []\<rparr> else cs)
     else (k, cs))"

text \<open>Alone, the eight accesses are the step \<open>take_tokens\<close>.\<close>

lemma take_accesses: "((take_access ^^ 8) (new_taker, cs)) = (\<lparr>tk_pc = 8, tk_got = fst (take_tokens cs)\<rparr>, snd (take_tokens cs))"
  by (cases cs) (simp add: numeral_eq_Suc take_access_def new_taker_def no_solved_def take_tokens_def Let_def)

text \<open>Two fetches at once; the schedule names who accesses next.\<close>

fun two_takers :: "bool list \<Rightarrow> (taker \<times> taker) \<times> captcha_state \<Rightarrow> (taker \<times> taker) \<times> captcha_state" where
  "two_takers [] s = s"
| "two_takers (left # sch) ((a, b), cs) =
     two_takers sch (if left then (case take_access (a, cs) of (a, cs) \<Rightarrow> ((a, b), cs)) else (case take_access (b, cs) of (b, cs) \<Rightarrow> ((a, b), cs)))"

text \<open>
  A success token is good for one request. Two concurrent fetches can both take it: the loads and the stores are
  atomic, their pairs are not.
\<close>

theorem token_taken_twice:
  "case two_takers (replicate 3 True @ replicate 8 False @ replicate 5 True) ((new_taker, new_taker), cs) of
     ((a, b), cs') \<Rightarrow> tk_pc a = 8 \<and> tk_pc b = 8 \<and> sv_key (tk_got a) = cs_key cs \<and> sv_key (tk_got b) = cs_key cs"
  by (cases cs) (simp add: numeral_eq_Suc take_access_def new_taker_def no_solved_def Let_def)

text \<open>
  And one after the other: \<^verbatim>\<open>SolveCaptcha\<close> stores the answer before it wakes the waiter, which stores it again. A
  fetch between the two uses it, and so does the next.
\<close>

theorem answer_used_twice:
  assumes "cs_waiter cs = Some (Wt_waiting d u)" and "cs_ch cs = None" and "ans \<noteq> []"
  shows "case take_tokens (solve_captcha now ans cs) of (sv1, cs1) \<Rightarrow>
     (case take_tokens (waiter_answer cs1) of (sv2, cs2) \<Rightarrow> sv_key sv1 = ans \<and> sv_key sv2 = ans)"
  using assms
  by (simp add: solve_captcha_def waiter_answer_def take_tokens_def set_url_def waiter_gone_def resume_now_def Let_def)

section \<open>The fetcher delivers\<close>

text \<open>A credential of either path has an address, so the index after the override is in range.\<close>

definition has_address :: "minted \<Rightarrow> bool" where
  "has_address r \<longleftrightarrow> (case r of Inr c \<Rightarrow> tc_addresses c \<noteq> [] | Inl e \<Rightarrow> True)"

lemma cookie_fetch_has_address: "spec (cookie_fetch now slot st) (\<lambda>tr (r, st'). has_address r)"
  by (rule spec_mono [OF cookie_fetch_serves]) (auto simp: has_address_def serves_def split: sum.split_asm sum.split)

lemma get_vk_creds_has_address: "spec (get_vk_creds now me link block sv st) (\<lambda>tr (r, st'). has_address r)"
proof -
  have "spec (bind (fetch_anonymous me link block sv) (\<lambda>r. Return (r, st))) (\<lambda>tr (r, st'). has_address r)"
    unfolding spec_bind
    by (rule spec_mono [OF fetch_anonymous_finishes [unfolded finishes_def]])
      (auto simp: has_address_def answered_creds_def split: sum.split_asm sum.split)
  then show ?thesis by (simp add: get_vk_creds_def cookie_fetch_has_address)
qed

lemma deliver_delivers: "tc_addresses c \<noteq> [] \<Longrightarrow> case deliver server port c of None \<Rightarrow> False | Some (Inl e) \<Rightarrow> True
   | Some (Inr x) \<Rightarrow> delivers server port x"
  by (auto simp: deliver_def delivers_def with_addresses_def dest: override_addrs_dialable split: sum.split list.split)


end
