(* ===== verification/WebText.thy ===== *)
theory WebText
  imports VkCookie
begin

text \<open>
  The texts the captcha solver sends and reads: the standard base64 of \<^verbatim>\<open>encoding/base64\<close>, and the form encoding of
  \<^verbatim>\<open>net/url\<close> (\<^verbatim>\<open>QueryEscape\<close>, \<^verbatim>\<open>ParseQuery\<close>), as \<^verbatim>\<open>src/pkg/proxy/captcha_pow.go\<close> and \<^verbatim>\<open>captcha_slider.go\<close> use them.
  What is encoded is read back.
\<close>

section \<open>Base64\<close>

definition b64_char :: "nat \<Rightarrow> byte" where
  "b64_char n = (if n < 26 then of_nat (65 + n) else if n < 52 then of_nat (71 + n)
     else if n < 62 then of_nat (n - 4) else if n = 62 then 0x2b else 0x2f)"

definition b64_val :: "byte \<Rightarrow> nat option" where
  "b64_val b = (let n = unat b in
     if 65 \<le> n \<and> n \<le> 90 then Some (n - 65) else if 97 \<le> n \<and> n \<le> 122 then Some (n - 71)
     else if 48 \<le> n \<and> n \<le> 57 then Some (n + 4) else if n = 43 then Some 62 else if n = 47 then Some 63 else None)"

text \<open>\<^verbatim>\<open>StdEncoding.EncodeToString\<close>\<close>

fun b64_encode :: "bytes \<Rightarrow> bytes" where
  "b64_encode [] = []"
| "b64_encode [a] = [b64_char (unat a div 4), b64_char (unat a mod 4 * 16), 0x3d, 0x3d]"
| "b64_encode [a, b] = [b64_char (unat a div 4), b64_char (unat a mod 4 * 16 + unat b div 16), b64_char (unat b mod 16 * 4), 0x3d]"
| "b64_encode (a # b # c # s) =
     b64_char (unat a div 4) # b64_char (unat a mod 4 * 16 + unat b div 16)
     # b64_char (unat b mod 16 * 4 + unat c div 64) # b64_char (unat c mod 64) # b64_encode s"

text \<open>
  \<^verbatim>\<open>StdEncoding.DecodeString\<close>: line ends are skipped, the padding has to be there, and only at the end.
\<close>

definition b64_first :: "nat \<Rightarrow> nat \<Rightarrow> byte" where
  "b64_first v w = of_nat (v * 4 + w div 16)"

definition b64_second :: "nat \<Rightarrow> nat \<Rightarrow> byte" where
  "b64_second w x = of_nat (w mod 16 * 16 + x div 4)"

definition b64_third :: "nat \<Rightarrow> nat \<Rightarrow> byte" where
  "b64_third x y = of_nat (x mod 4 * 64 + y)"

fun b64_quads :: "bytes \<Rightarrow> bytes option" where
  "b64_quads [] = Some []"
| "b64_quads (p # q # r # t # s) =
     (case (b64_val p, b64_val q) of
        (Some v, Some w) \<Rightarrow>
          (if r = 0x3d then (if t = 0x3d \<and> s = [] then Some [b64_first v w] else None)
           else (case b64_val r of
             None \<Rightarrow> None
           | Some x \<Rightarrow>
               if t = 0x3d then (if s = [] then Some [b64_first v w, b64_second w x] else None)
               else (case (b64_val t, b64_quads s) of
                 (Some y, Some bs) \<Rightarrow> Some (b64_first v w # b64_second w x # b64_third x y # bs)
               | _ \<Rightarrow> None)))
      | _ \<Rightarrow> None)"
| "b64_quads s = None"

definition b64_decode :: "bytes \<Rightarrow> bytes option" where
  "b64_decode s = b64_quads (filter (\<lambda>b. b \<noteq> 0x0a \<and> b \<noteq> 0x0d) s)"

lemma b64_char_table:
  "list_all (\<lambda>n. b64_val (b64_char n) = Some n \<and> b64_char n \<notin> {0x3d, 0x0a, 0x0d, 0x26, 0x25}) [0..<64]"
  by code_simp

lemma b64_char_facts:
  "n < 64 \<Longrightarrow> b64_val (b64_char n) = Some n" "n < 64 \<Longrightarrow> b64_char n \<noteq> 0x3d"
  "n < 64 \<Longrightarrow> b64_char n \<noteq> 0x0a" "n < 64 \<Longrightarrow> b64_char n \<noteq> 0x0d"
  using b64_char_table by (auto simp: list_all_iff)

lemma unat_byte: "unat (b :: byte) < 256"
  using unsigned_less [of b] by simp

lemma b64_bounds [simp]:
  "unat (a :: byte) div 4 < 64" "unat (a :: byte) mod 4 * 16 < 64" "unat (b :: byte) mod 16 * 4 < 64" "unat (c :: byte) mod 64 < 64"
  "unat (a :: byte) mod 4 * 16 + unat (b :: byte) div 16 < 64" "unat (b :: byte) mod 16 * 4 + unat (c :: byte) div 64 < 64"
proof -
  have d: "unat a div 4 < 64" "unat b div 16 < 16" "unat c div 64 < 4" for a b c :: byte
    using unat_byte [of a] unat_byte [of b] unat_byte [of c] by (simp_all add: less_mult_imp_div_less)
  have m: "n mod 4 < 4" "n mod 16 < 16" for n :: nat by simp_all
  show "unat a div 4 < 64" "unat c mod 64 < 64" using d by simp_all
  show "unat a mod 4 * 16 < 64" "unat b mod 16 * 4 < 64" using m(1) [of "unat a"] m(2) [of "unat b"] by linarith+
  show "unat a mod 4 * 16 + unat b div 16 < 64" using m(1) [of "unat a"] d(2) [of b] by linarith
  show "unat b mod 16 * 4 + unat c div 64 < 64" using m(2) [of "unat b"] d(3) [of c] by linarith
qed

lemma glue: "r < 16 \<Longrightarrow> a div 4 * 4 + (a mod 4 * 16 + r) div 16 = (a :: nat)"
  by simp

lemma glue2: "r < 4 \<Longrightarrow> q < 16 \<Longrightarrow> (h * 16 + q) mod 16 * 16 + (l * 4 + r) div 4 = q * 16 + (l :: nat)"
  by simp

lemma glue3: "r < 4 \<Longrightarrow> (h * 4 + r) mod 4 * 64 + l = r * 64 + (l :: nat)"
  by simp

lemma b64_group:
  "b64_first (unat a div 4) (unat a mod 4 * 16) = a"
  "b64_first (unat a div 4) (unat a mod 4 * 16 + unat b div 16) = a"
  "b64_second (unat a mod 4 * 16 + unat b div 16) (unat b mod 16 * 4) = b"
  "b64_second (unat a mod 4 * 16 + unat b div 16) (unat b mod 16 * 4 + unat c div 64) = b"
  "b64_third (unat b mod 16 * 4 + unat c div 64) (unat c mod 64) = c"
proof -
  have b: "unat b div 16 < 16" and c: "unat c div 64 < 4"
    using unat_byte [of b] unat_byte [of c] by (simp_all add: less_mult_imp_div_less)
  show "b64_first (unat a div 4) (unat a mod 4 * 16) = a"
    using glue [of 0 "unat a"] by (simp add: b64_first_def del: of_nat_add of_nat_mult)
  show "b64_first (unat a div 4) (unat a mod 4 * 16 + unat b div 16) = a"
    using glue [OF b, of "unat a"] by (simp add: b64_first_def del: of_nat_add of_nat_mult)
  show "b64_second (unat a mod 4 * 16 + unat b div 16) (unat b mod 16 * 4) = b"
    using glue2 [of 0, OF _ b, of "unat a mod 4" "unat b mod 16"] by (simp add: b64_second_def del: of_nat_add of_nat_mult)
  show "b64_second (unat a mod 4 * 16 + unat b div 16) (unat b mod 16 * 4 + unat c div 64) = b"
    using glue2 [OF c b, of "unat a mod 4" "unat b mod 16"] by (simp add: b64_second_def del: of_nat_add of_nat_mult)
  show "b64_third (unat b mod 16 * 4 + unat c div 64) (unat c mod 64) = c"
    using glue3 [OF c, of "unat b mod 16" "unat c mod 64"] by (simp add: b64_third_def del: of_nat_add of_nat_mult)
qed

lemma quads_encode: "b64_quads (b64_encode s) = Some s"
  by (induction s rule: b64_encode.induct) (simp_all add: b64_char_facts b64_group)

lemma encode_no_line_end: "b \<in> set (b64_encode s) \<Longrightarrow> b \<noteq> 0x0a \<and> b \<noteq> 0x0d"
  by (induction s rule: b64_encode.induct) (auto simp: b64_char_facts)

lemma b64_roundtrip: "b64_decode (b64_encode s) = Some s"
proof -
  have "filter (\<lambda>b. b \<noteq> 0x0a \<and> b \<noteq> 0x0d) (b64_encode s) = b64_encode s"
    by (rule filter_True) (simp add: encode_no_line_end)
  then show ?thesis by (simp add: b64_decode_def quads_encode)
qed

section \<open>Forms\<close>

definition hex_upper :: "nat \<Rightarrow> byte" where
  "hex_upper n = (if n < 10 then of_nat (48 + n) else of_nat (55 + n))"

definition hex_val :: "byte \<Rightarrow> nat option" where
  "hex_val b = (let n = unat b in
     if 48 \<le> n \<and> n \<le> 57 then Some (n - 48) else if 65 \<le> n \<and> n \<le> 70 then Some (n - 55)
     else if 97 \<le> n \<and> n \<le> 102 then Some (n - 87) else None)"

definition unreserved :: "byte \<Rightarrow> bool" where
  "unreserved b \<longleftrightarrow> (let n = unat b in 48 \<le> n \<and> n \<le> 57 \<or> 65 \<le> n \<and> n \<le> 90 \<or> 97 \<le> n \<and> n \<le> 122
     \<or> n = 45 \<or> n = 95 \<or> n = 46 \<or> n = 126)"

text \<open>\<^verbatim>\<open>url.QueryEscape\<close>\<close>

definition escape_byte :: "byte \<Rightarrow> bytes" where
  "escape_byte b = (if unreserved b then [b] else if b = 0x20 then [0x2b]
     else [0x25, hex_upper (unat b div 16), hex_upper (unat b mod 16)])"

definition query_escape :: "bytes \<Rightarrow> bytes" where
  "query_escape s = concat (map escape_byte s)"

text \<open>\<^verbatim>\<open>url.QueryUnescape\<close>; and \<^verbatim>\<open>url.ParseQuery\<close>, which leaves out the pairs it cannot read.\<close>

fun unescape :: "bytes \<Rightarrow> bytes option" where
  "unescape [] = Some []"
| "unescape (b # s) =
     (if b = 0x25 then
        (case s of
           x # y # r \<Rightarrow> (case (hex_val x, hex_val y) of
               (Some m, Some n) \<Rightarrow> map_option (Cons (of_nat (m * 16 + n))) (unescape r)
             | _ \<Rightarrow> None)
         | _ \<Rightarrow> None)
      else map_option (Cons (if b = 0x2b then 0x20 else b)) (unescape s))"

definition cut_pair :: "bytes \<Rightarrow> bytes \<times> bytes" where
  "cut_pair p = (let k = takeWhile (\<lambda>b. b \<noteq> 0x3d) p in (k, drop (Suc (length k)) p))"

definition query_pair :: "bytes \<Rightarrow> (bytes \<times> bytes) list" where
  "query_pair p =
     (if p = [] \<or> 0x3b \<in> set p then []
      else (case cut_pair p of (k, v) \<Rightarrow> (case (unescape k, unescape v) of
        (Some k, Some v) \<Rightarrow> [(k, v)] | _ \<Rightarrow> [])))"

definition parse_query :: "bytes \<Rightarrow> (bytes \<times> bytes) list" where
  "parse_query s = concat (map query_pair (split_on 0x26 s))"

text \<open>\<^verbatim>\<open>Values.Get\<close>: the first value of the key, or nothing.\<close>

definition query_get :: "string \<Rightarrow> (bytes \<times> bytes) list \<Rightarrow> bytes" where
  "query_get k ps = (case map_of ps (ascii k) of None \<Rightarrow> [] | Some v \<Rightarrow> v)"

text \<open>A form body as the source prints it: pairs \<^verbatim>\<open>k=v\<close> with \<^verbatim>\<open>&\<close> between, the values as they go out.\<close>

definition form_pair :: "string \<times> bytes \<Rightarrow> bytes" where
  "form_pair p = ascii (fst p) @ [0x3d] @ snd p"

definition form_body :: "(string \<times> bytes) list \<Rightarrow> bytes" where
  "form_body ps = join_with 0x26 (map form_pair ps)"

lemma hex_table: "list_all (\<lambda>n. hex_val (hex_upper n) = Some n \<and> hex_upper n \<notin> {0x26, 0x3b, 0x3d}) [0..<16]"
  by code_simp

lemma hex_facts: "n < 16 \<Longrightarrow> hex_val (hex_upper n) = Some n" "n < 16 \<Longrightarrow> hex_upper n \<notin> {0x26, 0x3b, 0x3d}"
  using hex_table by (auto simp: list_all_iff)

lemma nibbles [simp]: "unat (b :: byte) div 16 < 16" "unat (b :: byte) mod 16 < 16"
  using unat_byte [of b] by presburger+

lemma unescape_plain: "b \<noteq> 0x25 \<Longrightarrow> b \<noteq> 0x2b \<Longrightarrow> unescape (b # s) = map_option (Cons b) (unescape s)"
  by simp

lemma unreserved_plain: "unreserved b \<Longrightarrow> b \<notin> {0x25, 0x2b, 0x26, 0x3b, 0x3d}"
  by (auto simp: unreserved_def)

lemma unescape_escape: "unescape (query_escape s @ r) = map_option (append s) (unescape r)"
proof (induction s)
  case Nil
  then show ?case by (simp add: query_escape_def option.map_ident)
next
  case (Cons b s)
  have "unescape (escape_byte b @ t) = map_option (Cons b) (unescape t)" for t
    using unreserved_plain [of b]
    by (auto simp: escape_byte_def hex_facts unescape_plain simp del: of_nat_add of_nat_mult)
  from this [of "query_escape s @ r"] Cons show ?case
    by (simp add: query_escape_def option.map_comp comp_def)
qed

lemma escape_roundtrip: "unescape (query_escape s) = Some s"
  using unescape_escape [of s "[]"] by simp

lemma escape_clean: "b \<in> set (query_escape s) \<Longrightarrow> b \<notin> {0x26, 0x3b, 0x3d}"
  using hex_facts(2) unreserved_plain by (fastforce simp: query_escape_def escape_byte_def split: if_splits)

text \<open>A value that carries no \<^verbatim>\<open>% + & ;\<close> is read as it is.\<close>

lemma unescape_id: "0x25 \<notin> set s \<Longrightarrow> 0x2b \<notin> set s \<Longrightarrow> unescape s = Some s"
  by (induction s) auto

definition plain_key :: "string \<Rightarrow> bool" where
  "plain_key k \<longleftrightarrow> k \<noteq> [] \<and> list_all (\<lambda>b. b \<notin> {0x25, 0x2b, 0x26, 0x3b, 0x3d}) (ascii k)"

text \<open>What a form body says, pair by pair, however the value was written.\<close>

lemma form_fields:
  assumes "list_all (\<lambda>(k, raw, v). plain_key k \<and> 0x26 \<notin> set raw \<and> 0x3b \<notin> set raw \<and> unescape raw = Some v) fs" and "fs \<noteq> []"
  shows "parse_query (form_body (map (\<lambda>(k, raw, v). (k, raw)) fs)) = map (\<lambda>(k, raw, v). (ascii k, v)) fs"
proof -
  have pair: "0x26 \<notin> set (form_pair (k, raw)) \<and> query_pair (form_pair (k, raw)) = [(ascii k, v)]"
    if "(k, raw, v) \<in> set fs" for k raw v
  proof -
    from that assms(1) have k: "k \<noteq> []" "\<forall>b \<in> set (ascii k). b \<notin> {0x25, 0x2b, 0x26, 0x3b, 0x3d}"
      and v: "0x26 \<notin> set raw" "0x3b \<notin> set raw" "unescape raw = Some v"
      by (auto simp: list_all_iff plain_key_def)
    have "unescape (ascii k) = Some (ascii k)" using k by (intro unescape_id) auto
    moreover have "takeWhile (\<lambda>b. b \<noteq> 0x3d) (form_pair (k, raw)) = ascii k"
      unfolding form_pair_def using k(2) by (auto simp: takeWhile_append)
    then have "cut_pair (form_pair (k, raw)) = (ascii k, raw)"
      by (simp add: cut_pair_def form_pair_def)
    ultimately show ?thesis using k v by (auto simp: query_pair_def form_pair_def)
  qed
  have "split_on 0x26 (form_body (map (\<lambda>(k, raw, v). (k, raw)) fs)) = map (\<lambda>(k, raw, v). form_pair (k, raw)) fs"
    unfolding form_body_def using pair assms(2)
    by (subst split_join) (auto simp: comp_def case_prod_unfold)
  moreover have "map (query_pair \<circ> (\<lambda>(k, raw, v). form_pair (k, raw))) fs = map (\<lambda>(k, raw, v). [(ascii k, v)]) fs"
    using pair by (auto intro!: map_cong)
  moreover have "concat (map (\<lambda>(k, raw, v). [(ascii k, v)]) fs) = map (\<lambda>(k, raw, v). (ascii k, v)) fs"
    for fs :: "(string \<times> bytes \<times> bytes) list"
    by (induction fs) auto
  ultimately show ?thesis unfolding parse_query_def by (simp only: map_map)
qed

end
