(* ===== verification/Slider.thy ===== *)
theory Slider
  imports WebText "HOL-Library.Product_Lexorder"
begin

text \<open>
  The slider captcha, \<^verbatim>\<open>src/pkg/proxy/captcha_slider.go\<close>: what VK's answer says of the puzzle, the permutation of
  the tiles after each prefix of the swaps, the three measures of how well the tiles of a permutation fit, the
  ranking by their consensus, the drawn path of the cursor, and the dialogue that submits the best guesses.
\<close>

section \<open>The puzzle\<close>

text \<open>A decoded picture: its bounds, and the colour that \<^verbatim>\<open>At(x, y).RGBA()\<close> gives, 16 bits a channel in 32.\<close>

record colour =
  red :: u32
  green :: u32
  blue :: u32

record rect =
  min_x :: int
  min_y :: int
  max_x :: int
  max_y :: int

record picture =
  pic_bounds :: rect
  pic_at :: "int \<Rightarrow> int \<Rightarrow> colour"

definition dx :: "rect \<Rightarrow> int" where
  "dx r = max_x r - min_x r"

definition dy :: "rect \<Rightarrow> int" where
  "dy r = max_y r - min_y r"

text \<open>\<^verbatim>\<open>image.Rect\<close> swaps the corners when they are out of order.\<close>

definition mk_rect :: "int \<Rightarrow> int \<Rightarrow> int \<Rightarrow> int \<Rightarrow> rect" where
  "mk_rect x0 y0 x1 y1 = \<lparr>min_x = min x0 x1, min_y = min y0 y1, max_x = max x0 x1, max_y = max y0 y1\<rparr>"

text \<open>The division of Go, towards zero.\<close>

definition quot :: "int \<Rightarrow> int \<Rightarrow> int" where
  "quot a b = (if (a < 0) = (b < 0) then \<bar>a\<bar> div \<bar>b\<bar> else - (\<bar>a\<bar> div \<bar>b\<bar>))"

lemma quot_pos [simp]: "0 \<le> a \<Longrightarrow> 0 < b \<Longrightarrow> quot a b = a div b"
  by (simp add: quot_def)

record slider_content =
  sl_image :: picture
  sl_size :: int
  sl_steps :: "int list"
  sl_attempts :: int

text \<open>What the code asks of \<^verbatim>\<open>encoding/json\<close> and \<^verbatim>\<open>image/jpeg\<close>: a JSON text, an array read back, a picture.\<close>

record codec =
  js_marshal :: "json \<Rightarrow> bytes"
  js_array :: "bytes \<Rightarrow> json list option"
  jpeg :: "bytes \<Rightarrow> picture option"

definition max_grid_size :: int where
  "max_grid_size = 16"

definition default_attempts :: int where
  "default_attempts = 4"

section \<open>Reading the answer\<close>

definition int_of_json :: "json \<Rightarrow> int option" where
  "int_of_json v = (case v of Num x \<Rightarrow> Some (trunc x) | Str s \<Rightarrow> parse_int64 (trim_space s) | _ \<Rightarrow> None)"

fun parse_int_slice :: "json list \<Rightarrow> bytes + int list" where
  "parse_int_slice [] = Inr []"
| "parse_int_slice (v # vs) = (case int_of_json v of
     None \<Rightarrow> Inl (ascii ''invalid numeric'')
   | Some n \<Rightarrow> map_sum id (Cons n) (parse_int_slice vs))"

definition parse_slider_steps :: "int list \<Rightarrow> bytes + int \<times> int list \<times> int" where
  "parse_slider_steps steps =
     (if length steps < 3 then Inl (ascii ''steps too short: '' @ itoa (int (length steps)))
      else
        let n = hd steps in
        if n \<le> 0 then Inl (ascii ''invalid grid size: '' @ itoa n)
        else if max_grid_size < n then Inl (ascii ''grid size too large: '' @ itoa n)
        else
          let rest = tl steps;
              tries = (if odd (length rest) then last rest else default_attempts);
              rest = (if odd (length rest) then butlast rest else rest);
              tries = (if tries \<le> 0 then default_attempts else tries)
          in if rest = [] \<or> odd (length rest) then Inl (ascii ''invalid swap payload'')
             else Inr (n, rest, tries))"

definition decode_slider_image :: "codec \<Rightarrow> bytes \<Rightarrow> bytes + picture" where
  "decode_slider_image cd raw = (case b64_decode raw of
     None \<Rightarrow> Inl (ascii ''base64 decode: '')
   | Some bs \<Rightarrow> (case jpeg cd bs of None \<Rightarrow> Inl (ascii ''image decode: '') | Some p \<Rightarrow> Inr p))"

definition to_lower :: "bytes \<Rightarrow> bytes" where
  "to_lower s = map (\<lambda>b. if 0x41 \<le> b \<and> b \<le> 0x5a then b + 0x20 else b) s"

definition parse_slider_content :: "codec \<Rightarrow> json \<Rightarrow> bytes + slider_content" where
  "parse_slider_content cd resp =
     (let obj = key ''response'' resp; status = str_or_empty (key ''status'' obj);
          ext = to_lower (str_or_empty (key ''extension'' obj)); raw = str_or_empty (key ''image'' obj) in
      if \<not> is_obj obj then Inl (ascii ''invalid response'')
      else if status \<noteq> ascii ''OK'' then Inl (ascii ''status: '' @ status)
      else if ext \<noteq> ascii ''jpeg'' \<and> ext \<noteq> ascii ''jpg'' then Inl (ascii ''unsupported image format: '' @ ext)
      else if raw = [] then Inl (ascii ''image missing'')
      else (case key ''steps'' obj of
        Arr vs \<Rightarrow> (case parse_int_slice vs of
            Inl e \<Rightarrow> Inl e
          | Inr steps \<Rightarrow> (case parse_slider_steps steps of
              Inl e \<Rightarrow> Inl e
            | Inr (n, swaps, tries) \<Rightarrow> (case decode_slider_image cd raw of
                Inl e \<Rightarrow> Inl e
              | Inr p \<Rightarrow> Inr \<lparr>sl_image = p, sl_size = n, sl_steps = swaps, sl_attempts = tries\<rparr>)))
      | _ \<Rightarrow> Inl (ascii ''steps missing'')))"

text \<open>The settings that VK wants back: a text goes as it is, anything else as JSON.\<close>

definition normalize_settings :: "codec \<Rightarrow> json \<Rightarrow> bytes" where
  "normalize_settings cd v = (case v of Null \<Rightarrow> [] | Str s \<Rightarrow> s | _ \<Rightarrow> js_marshal cd v)"

text \<open>The first object of type \<^verbatim>\<open>slider\<close> in the array decides.\<close>

fun settings_of_items :: "codec \<Rightarrow> json list \<Rightarrow> bytes" where
  "settings_of_items cd [] = []"
| "settings_of_items cd (item # items) =
     (if is_obj item \<and> str_or_empty (key ''type'' item) = ascii ''slider''
      then normalize_settings cd (key ''settings'' item) else settings_of_items cd items)"

definition extract_slider_settings :: "codec \<Rightarrow> json \<Rightarrow> bytes" where
  "extract_slider_settings cd resp =
     (case key ''captcha_settings'' (key ''response'' resp) of
        Arr items \<Rightarrow> settings_of_items cd items
      | Obj fs \<Rightarrow> normalize_settings cd (key ''slider'' (Obj fs))
      | Str s \<Rightarrow> (let t = trim_space s in
          if t = [] then [] else (case js_array cd t of None \<Rightarrow> [] | Some items \<Rightarrow> settings_of_items cd items))
      | _ \<Rightarrow> [])"

section \<open>Permutations of the tiles\<close>

definition active_steps :: "int list \<Rightarrow> int \<Rightarrow> int list" where
  "active_steps swaps idx = (if idx \<le> 0 then [] else take (min (nat (idx * 2)) (length swaps)) swaps)"

definition swap_entries :: "'a list \<Rightarrow> nat \<Rightarrow> nat \<Rightarrow> 'a list" where
  "swap_entries m l r = m[l := m ! r, r := m ! l]"

text \<open>The loop over the pairs; \<open>tiles\<close> is the number of tiles.\<close>

fun apply_swaps :: "int \<Rightarrow> int list \<Rightarrow> int list \<Rightarrow> bytes + int list" where
  "apply_swaps tiles (l # r # steps) m =
     (if l < 0 \<or> r < 0 \<or> tiles \<le> l \<or> tiles \<le> r
      then Inl (ascii ''step out of range: '' @ itoa l @ ascii '','' @ itoa r)
      else apply_swaps tiles steps (swap_entries m (nat l) (nat r)))"
| "apply_swaps tiles steps m = Inr m"

definition build_tile_mapping :: "int \<Rightarrow> int list \<Rightarrow> bytes + int list" where
  "build_tile_mapping n active =
     (let tiles = n * n in
      if tiles \<le> 0 then Inl (ascii ''invalid tile count'')
      else if max_grid_size < n then Inl (ascii ''grid size too large: '' @ itoa n)
      else if odd (length active) then Inl (ascii ''invalid steps length: '' @ itoa (int (length active)))
      else apply_swaps tiles active [0..tiles - 1])"

definition tile_rect :: "rect \<Rightarrow> int \<Rightarrow> int \<Rightarrow> rect" where
  "tile_rect b n i =
     (let row = quot i n; col = i - quot i n * n in
      mk_rect (min_x b + quot (col * dx b) n) (min_y b + quot (row * dy b) n)
              (min_x b + quot ((col + 1) * dx b) n) (min_y b + quot ((row + 1) * dy b) n))"

section \<open>How well the tiles fit\<close>

text \<open>
  A pixel of the picture as the permutation shows it: the pixel \<open>(x, y)\<close> of the tile \<open>d\<close>, taken from the tile \<open>s\<close>.
\<close>

definition sample_mapped :: "picture \<Rightarrow> rect \<Rightarrow> rect \<Rightarrow> int \<Rightarrow> int \<Rightarrow> colour" where
  "sample_mapped pic d s x y =
     (let w = max 1 (dx d); h = max 1 (dy d) in
      pic_at pic (min_x s + quot ((x - min_x d) * dx s) w) (min_y s + quot ((y - min_y d) * dy s) h))"

definition channel :: "u32 \<Rightarrow> int" where
  "channel c = uint (drop_bit 8 c)"

definition luma_of :: "colour \<Rightarrow> byte" where
  "luma_of c = ucast ((299 * drop_bit 8 (red c) + 587 * drop_bit 8 (green c) + 114 * drop_bit 8 (blue c)) div 1000)"

definition pixel_diff :: "colour \<Rightarrow> colour \<Rightarrow> int" where
  "pixel_diff a b = \<bar>channel (red a) - channel (red b)\<bar> + \<bar>channel (green a) - channel (green b)\<bar>
     + \<bar>channel (blue a) - channel (blue b)\<bar>"

text \<open>
  The seams, in the order both scorers walk them: between neighbours in a row, with the \<open>y\<close> of each pixel pair,
  and between neighbours in a column.
\<close>

definition row_seam :: "picture \<Rightarrow> int \<Rightarrow> int list \<Rightarrow> int \<Rightarrow> int \<Rightarrow> (int \<times> colour \<times> colour) list" where
  "row_seam pic n m row col =
     (let b = pic_bounds pic; l = row * n + col; r = l + 1;
          ld = tile_rect b n l; rd = tile_rect b n r;
          ls = tile_rect b n (m ! nat l); rs = tile_rect b n (m ! nat r)
      in map (\<lambda>y. let yy = min_y ld + y in
             (yy, sample_mapped pic ld ls (max_x ld - 1) yy, sample_mapped pic rd rs (min_x rd) yy))
           [0..min (dy ld) (dy rd) - 1])"

definition column_seam :: "picture \<Rightarrow> int \<Rightarrow> int list \<Rightarrow> int \<Rightarrow> int \<Rightarrow> (colour \<times> colour) list" where
  "column_seam pic n m row col =
     (let b = pic_bounds pic; t = row * n + col; u = (row + 1) * n + col;
          td = tile_rect b n t; ud = tile_rect b n u;
          ts = tile_rect b n (m ! nat t); us = tile_rect b n (m ! nat u)
      in map (\<lambda>x. let xx = min_x td + x in
             (sample_mapped pic td ts xx (max_y td - 1), sample_mapped pic ud us xx (min_y ud)))
           [0..min (dx td) (dx ud) - 1])"

definition row_seams :: "picture \<Rightarrow> int \<Rightarrow> int list \<Rightarrow> (int \<times> colour \<times> colour) list" where
  "row_seams pic n m = concat (map (\<lambda>row. concat (map (row_seam pic n m row) [0..n - 2])) [0..n - 1])"

definition column_seams :: "picture \<Rightarrow> int \<Rightarrow> int list \<Rightarrow> (colour \<times> colour) list" where
  "column_seams pic n m = concat (map (\<lambda>row. concat (map (column_seam pic n m row) [0..n - 1])) [0..n - 2])"

definition luma_diff :: "colour \<Rightarrow> colour \<Rightarrow> int" where
  "luma_diff a b = \<bar>uint (luma_of a) - uint (luma_of b)\<bar>"

definition seam_score_luma :: "picture \<Rightarrow> int \<Rightarrow> int list \<Rightarrow> int" where
  "seam_score_luma pic n m = sum_list (map (\<lambda>(y, a, b). luma_diff a b) (row_seams pic n m))
     + sum_list (map (\<lambda>(a, b). luma_diff a b) (column_seams pic n m))"

definition seam_score_rgb :: "picture \<Rightarrow> int \<Rightarrow> int list \<Rightarrow> int" where
  "seam_score_rgb pic n m = sum_list (map (\<lambda>(y, a, b). pixel_diff a b) (row_seams pic n m))
     + sum_list (map (\<lambda>(a, b). pixel_diff a b) (column_seams pic n m))"

text \<open>The weight of a line: a bump around the three stripes of text. Floating-point values are real numbers here.\<close>

definition text_weight :: "rect \<Rightarrow> int \<Rightarrow> real" where
  "text_weight b y =
     (let h = of_int (dy b); sigma = max 1 (h * 0.14);
          d = (\<lambda>k. \<bar>of_int y - (of_int (min_y b) + k * h)\<bar>);
          best = min (min (d 0.2) (d 0.5)) (d 0.8)
      in 1 + 3 * exp (- (best * best) / (2 * sigma * sigma)))"

definition blue_diff :: "colour \<Rightarrow> colour \<Rightarrow> real" where
  "blue_diff a b = of_int \<bar>channel (blue a) - channel (blue b)\<bar>"

definition seam_score_text :: "picture \<Rightarrow> int \<Rightarrow> int list \<Rightarrow> real" where
  "seam_score_text pic n m = sum_list (map (\<lambda>(y, a, b). text_weight (pic_bounds pic) y * blue_diff a b) (row_seams pic n m))
     + sum_list (map (\<lambda>(a, b). 0.65 * blue_diff a b) (column_seams pic n m))"

section \<open>The ranking\<close>

record scored =
  sc_index :: int
  sc_active :: "int list"
  sc_luma :: int
  sc_rgb :: int
  sc_text :: real
  sc_consensus :: int

record candidate =
  cand_index :: int
  cand_active :: "int list"
  cand_score :: int

text \<open>Stage 1: every prefix of the swaps, with its luma score.\<close>

fun score_all :: "picture \<Rightarrow> int \<Rightarrow> int list \<Rightarrow> int list \<Rightarrow> bytes + scored list" where
  "score_all pic n swaps [] = Inr []"
| "score_all pic n swaps (idx # idxs) =
     (let active = active_steps swaps idx in
      case build_tile_mapping n active of
        Inl e \<Rightarrow> Inl e
      | Inr m \<Rightarrow> map_sum id (Cons \<lparr>sc_index = idx, sc_active = active, sc_luma = seam_score_luma pic n m,
                   sc_rgb = 0, sc_text = 0, sc_consensus = 0\<rparr>) (score_all pic n swaps idxs))"

text \<open>A stable sort of positions by a measure, then by the index; and the rank of each index in such an order.\<close>

definition order_by :: "(scored \<Rightarrow> 'a::linorder) \<Rightarrow> scored list \<Rightarrow> nat list \<Rightarrow> nat list" where
  "order_by f ss = sort_key (\<lambda>p. (f (ss ! p), sc_index (ss ! p)))"

definition rank_table :: "scored list \<Rightarrow> nat list \<Rightarrow> (int \<times> nat) list" where
  "rank_table ss order = zip (map (\<lambda>p. sc_index (ss ! p)) order) [0..<length order]"

definition rank_of :: "(int \<times> nat) list \<Rightarrow> int \<Rightarrow> int" where
  "rank_of t i = (case map_of t i of None \<Rightarrow> 0 | Some r \<Rightarrow> int r)"

text \<open>Stage 2 measures the positions among the first twelve.\<close>

definition stage2_count :: nat where
  "stage2_count = 12"

fun measure_stage2 :: "picture \<Rightarrow> int \<Rightarrow> nat list \<Rightarrow> scored list \<Rightarrow> bytes + scored list" where
  "measure_stage2 pic n [] ss = Inr ss"
| "measure_stage2 pic n (p # ps) ss = (case build_tile_mapping n (sc_active (ss ! p)) of
     Inl e \<Rightarrow> Inl e
   | Inr m \<Rightarrow> measure_stage2 pic n ps
       (ss[p := (ss ! p)\<lparr>sc_rgb := seam_score_rgb pic n m, sc_text := seam_score_text pic n m\<rparr>]))"

text \<open>The consensus of an entry, and the final order.\<close>

definition with_consensus :: "scored list \<Rightarrow> nat list \<Rightarrow> scored \<Rightarrow> scored" where
  "with_consensus ss luma_order s =
     (let stage2 = take stage2_count luma_order; i = sc_index s;
          luma = rank_of (rank_table ss luma_order) i;
          rgb = rank_of (rank_table ss (order_by sc_rgb ss stage2)) i;
          text = rank_of (rank_table ss (order_by sc_text ss stage2)) i
      in s\<lparr>sc_consensus := luma + (if i \<in> set (map (\<lambda>p. sc_index (ss ! p)) stage2) then rgb + text else int (length ss))\<rparr>)"

definition final_order :: "scored list \<Rightarrow> scored list" where
  "final_order ss = sort_key (\<lambda>s. (sc_consensus s, sc_luma s, sc_index s)) ss"

definition candidate_of :: "scored \<Rightarrow> candidate" where
  "candidate_of s = \<lparr>cand_index = sc_index s, cand_active = sc_active s, cand_score = sc_consensus s\<rparr>"

definition rank_candidates :: "picture \<Rightarrow> int \<Rightarrow> int list \<Rightarrow> bytes + candidate list" where
  "rank_candidates pic n swaps =
     (let cnt = length swaps div 2 in
      if cnt = 0 then Inl (ascii ''no candidates'')
      else (case score_all pic n swaps [1..int cnt] of
        Inl e \<Rightarrow> Inl e
      | Inr ss \<Rightarrow>
          let luma_order = order_by sc_luma ss [0..<cnt] in
          (case measure_stage2 pic n (take stage2_count luma_order) ss of
             Inl e \<Rightarrow> Inl e
           | Inr ss \<Rightarrow> Inr (map candidate_of (final_order (map (with_consensus ss luma_order) ss))))))"

section \<open>The cursor\<close>

text \<open>A source of random numbers and how many were drawn; \<open>roll n\<close> is \<^verbatim>\<open>mathrand.Intn(n)\<close>.\<close>

type_synonym dice = "(nat \<Rightarrow> nat) \<times> nat"

definition roll :: "nat \<Rightarrow> dice \<Rightarrow> int \<times> dice" where
  "roll n d = (int (fst d (snd d) mod n), (fst d, Suc (snd d)))"

type_synonym point = "int \<times> int"

text \<open>A point around a centre: two draws.\<close>

definition jittered :: "int \<Rightarrow> int \<Rightarrow> nat \<Rightarrow> int \<Rightarrow> dice \<Rightarrow> point \<times> dice" where
  "jittered x y n off d =
     (let (a, d) = roll n d; (b, d) = roll n d in ((x + a - off, y + b - off), d))"

text \<open>
  The points at the start. The bound of that loop is drawn anew before each turn: \<open>left\<close> counts what it can still
  be, so a turn happens while a fresh draw exceeds the number of points so far; the third is the last.
\<close>

fun start_points :: "int \<Rightarrow> int \<Rightarrow> nat \<Rightarrow> int \<Rightarrow> dice \<Rightarrow> point list \<times> dice" where
  "start_points x y 0 i d = ([], snd (roll 3 d))"
| "start_points x y (Suc left) i d =
     (let (bound, d) = roll 3 d in
      if i < 1 + bound then
        let (p, d) = jittered x y 5 2 d; (ps, d) = start_points x y left (i + 1) d in (p # ps, d)
      else ([], d))"

text \<open>\<^verbatim>\<open>math.Round\<close>: half away from zero.\<close>

definition round_away :: "real \<Rightarrow> int" where
  "round_away x = (if x < 0 then - \<lfloor>- x + 1 / 2\<rfloor> else \<lfloor>x + 1 / 2\<rfloor>)"

definition bezier :: "real \<Rightarrow> int \<Rightarrow> real \<Rightarrow> int \<Rightarrow> real" where
  "bezier t a c b = (1 - t) * (1 - t) * of_int a + 2 * t * (1 - t) * c + t * t * of_int b"

record drag =
  dg_start :: point
  dg_target :: point
  dg_arc :: point

fun transit_points :: "drag \<Rightarrow> int \<Rightarrow> int list \<Rightarrow> dice \<Rightarrow> point list \<times> dice" where
  "transit_points g steps [] d = ([], d)"
| "transit_points g steps (i # is) d =
     (let t = of_int i / of_int (steps + 1);
          (sx, sy) = dg_start g; (tx, ty) = dg_target g; (ax, ay) = dg_arc g;
          bx = bezier t sx (of_int (sx + tx) / 2 + of_int ax) tx;
          by = bezier t sy (of_int (sy + ty) / 2 + of_int ay) ty;
          jitter = trunc ((1 - t) * 8) + 2;
          (p, d) = jittered (round_away bx) (round_away by) (nat (jitter * 2 + 1)) jitter d;
          (ps, d) = transit_points g steps is d
      in (p # ps, d))"

fun approach_points :: "point \<Rightarrow> point \<Rightarrow> int \<Rightarrow> int list \<Rightarrow> dice \<Rightarrow> point list \<times> dice" where
  "approach_points from to steps [] d = ([], d)"
| "approach_points from to steps (i # is) d =
     (let t = of_int i / of_int steps :: real;
          (p, d) = jittered (fst from + round_away (t * of_int (fst to - fst from)))
                            (snd from + round_away (t * of_int (snd to - snd from))) 5 2 d;
          (ps, d) = approach_points from to steps is d
      in (p # ps, d))"

fun settle_points :: "point \<Rightarrow> nat \<Rightarrow> dice \<Rightarrow> point list \<times> dice" where
  "settle_points to 0 d = ([], d)"
| "settle_points to (Suc n) d =
     (let (p, d) = jittered (fst to) (snd to) 7 3 d; (ps, d) = settle_points to n d in (p # ps, d))"

definition cursor_points :: "int \<Rightarrow> int \<Rightarrow> (nat \<Rightarrow> nat) \<Rightarrow> point list" where
  "cursor_points idx cnt draws =
     (if cnt \<le> 0 then []
      else
        let idx = min (max idx 1) cnt; d = (draws, 0);
            (a, d) = roll 40 d; (b, d) = roll 30 d;
            sx = 570 + a; sy = 875 + b;
            base = 734 + quot ((937 - 734) * (idx - 1)) (max 1 (cnt - 1));
            (a, d) = roll 10 d; (b, d) = roll 14 d;
            tx = base + a - 5; ty = 655 + b;
            (first, d) = start_points sx sy 3 0 d;
            (a, d) = roll 3 d; steps = 2 + a;
            (arcx, d) = roll 60 d; (arcy, d) = roll 30 d;
            g = \<lparr>dg_start = (sx, sy), dg_target = (tx, ty), dg_arc = (arcx - 30, - (arcy + 10))\<rparr>;
            (transit, d) = transit_points g steps [1..steps] d;
            (a, d) = roll 4 d; near = 4 + a;
            (approach, d) = approach_points (last (first @ transit)) (tx, ty) near [1..near] d;
            (a, d) = roll 5 d;
            (settle, d) = settle_points (tx, ty) (nat (3 + a)) d
        in first @ transit @ approach @ settle)"

definition json_point :: "point \<Rightarrow> bytes" where
  "json_point p = ascii ''{'' @ [0x22] @ ascii ''x'' @ [0x22] @ ascii '':'' @ itoa (fst p) @ ascii '','' @ [0x22] @ ascii ''y'' @ [0x22]
     @ ascii '':'' @ itoa (snd p) @ ascii ''}''"

definition json_array :: "bytes list \<Rightarrow> bytes" where
  "json_array xs = ascii ''['' @ join_with 0x2c xs @ ascii '']''"

definition slider_cursor :: "int \<Rightarrow> int \<Rightarrow> (nat \<Rightarrow> nat) \<Rightarrow> bytes" where
  "slider_cursor idx cnt draws = json_array (map json_point (cursor_points idx cnt draws))"

section \<open>The dialogue\<close>

definition encode_slider_answer :: "int list \<Rightarrow> bytes" where
  "encode_slider_answer active =
     b64_encode (ascii ''{'' @ [0x22] @ ascii ''value'' @ [0x22] @ ascii '':'' @ json_array (map itoa active) @ ascii ''}'')"

text \<open>
  A call of a \<^verbatim>\<open>captchaNotRobot\<close> method (\<^verbatim>\<open>vkReq\<close>): the body as the source prints it, and in the request what the
  reader of a form finds in it. The session's parameters come first, the empty access token last.
\<close>

definition not_robot :: "mint_env \<Rightarrow> string \<Rightarrow> (string \<times> bytes) list \<Rightarrow> request" where
  "not_robot me meth fs = \<lparr>rq_url = ascii ''https://'' @ vk_api_host me @ ascii ''/method/captchaNotRobot.'' @ ascii meth @ ascii ''?v=5.131'',
     rq_params = parse_query (form_body (fs @ [(''access_token'', [])]))\<rparr>"

record slider_session =
  ss_base :: "(string \<times> bytes) list"
  ss_fp :: bytes
  ss_device :: bytes
  ss_hash :: bytes

definition empty_array :: bytes where
  "empty_array = query_escape (ascii ''[]'')"

definition canonical_debug_info :: bytes where
  "canonical_debug_info = ascii ''a0ac4896e9b899f78d905fd37c5adb2b768aa955eb7b2a7bcba6ee2a44a96daf''"

definition slider_check_fields :: "slider_session \<Rightarrow> bytes \<Rightarrow> bytes \<Rightarrow> (string \<times> bytes) list" where
  "slider_check_fields s cursor answer = ss_base s @
     [(''accelerometer'', empty_array), (''gyroscope'', empty_array), (''motion'', empty_array), (''cursor'', query_escape cursor),
      (''taps'', empty_array), (''connectionRtt'', empty_array), (''connectionDownlink'', empty_array),
      (''browser_fp'', ss_fp s), (''hash'', ss_hash s), (''answer'', query_escape answer), (''debug_info'', canonical_debug_info)]"

text \<open>\<^verbatim>\<open>requestSliderContentWithFallback\<close>\<close>

definition get_content :: "mint_env \<Rightarrow> slider_session \<Rightarrow> bytes \<Rightarrow> request" where
  "get_content me s settings = not_robot me ''getContent''
     (ss_base s @ (if settings \<noteq> [] then [(''captcha_settings'', query_escape settings)] else []))"

definition request_content :: "mint_env \<Rightarrow> slider_session \<Rightarrow> bytes \<Rightarrow> (bytes + json) mint" where
  "request_content me s settings =
     (let without = Post (get_content me s []) Return in
      if settings = [] then without
      else Post (get_content me s settings) (\<lambda>r. case r of
          Inl e \<Rightarrow> Return (Inl e)
        | Inr resp \<Rightarrow> if str_or_empty (key ''status'' (key ''response'' resp)) = ascii ''OK'' then Return (Inr resp) else without))"

text \<open>The guesses, best first; \<open>max_tries\<close> only names them in the error.\<close>

fun try_candidates :: "mint_env \<Rightarrow> slider_session \<Rightarrow> int \<Rightarrow> int \<Rightarrow> candidate list \<Rightarrow> (bytes + bytes) mint" where
  "try_candidates me s cnt max_tries [] = Return (Inl (ascii ''slider: all '' @ itoa max_tries @ ascii '' guesses rejected''))"
| "try_candidates me s cnt max_tries (c # cs) = Shuffled (\<lambda>draws.
     Post (not_robot me ''check'' (slider_check_fields s (slider_cursor (cand_index c) cnt draws) (encode_slider_answer (cand_active c))))
      (\<lambda>r. case r of
        Inl e \<Rightarrow> Return (Inl (ascii ''slider check: '' @ e))
      | Inr resp \<Rightarrow>
          let obj = key ''response'' resp; status = str_or_empty (key ''status'' obj); token = str_or_empty (key ''success_token'' obj) in
          if \<not> is_obj obj then Return (Inl (ascii ''slider check: invalid response''))
          else if status = ascii ''OK'' then
            (if token = [] then Return (Inl (ascii ''slider: success_token not found'')) else Return (Inr token))
          else if status = ascii ''ERROR_LIMIT'' then Return (Inl (ascii ''slider: ERROR_LIMIT''))
          else Sleep (500 * millisecond) (try_candidates me s cnt max_tries cs)))"

definition solve_slider :: "mint_env \<Rightarrow> codec \<Rightarrow> slider_session \<Rightarrow> json \<Rightarrow> (bytes + bytes) mint" where
  "solve_slider me cd s settings =
     Post (not_robot me ''componentDone'' (ss_base s @ [(''browser_fp'', ss_fp s), (''device'', ss_device s)])) (\<lambda>_.
     bind (request_content me s (extract_slider_settings cd settings)) (\<lambda>r. case r of
       Inl e \<Rightarrow> Return (Inl (ascii ''slider getContent: '' @ e))
     | Inr resp \<Rightarrow> (case parse_slider_content cd resp of
         Inl e \<Rightarrow> Return (Inl (ascii ''slider parse: '' @ e))
       | Inr c \<Rightarrow> (case rank_candidates (sl_image c) (sl_size c) (sl_steps c) of
           Inl e \<Rightarrow> Return (Inl (ascii ''slider rank: '' @ e))
         | Inr cands \<Rightarrow>
             let tries = min (sl_attempts c) (int (length cands)) in
             try_candidates me s (int (length cands)) tries (take (nat tries) cands)))))"

section \<open>A mapping is a permutation\<close>

definition swaps_in_range :: "int \<Rightarrow> int list \<Rightarrow> bool" where
  "swaps_in_range tiles steps \<longleftrightarrow> list_all (\<lambda>s. 0 \<le> s \<and> s < tiles) steps"

lemma apply_swaps_result:
  "int (length m) = tiles \<Longrightarrow> even (length steps) \<Longrightarrow>
     (case apply_swaps tiles steps m of
        Inr m' \<Rightarrow> swaps_in_range tiles steps \<and> mset m' = mset m
      | Inl e \<Rightarrow> \<not> swaps_in_range tiles steps)"
proof (induction tiles steps m rule: apply_swaps.induct)
  case (1 tiles l r steps m)
  show ?case
  proof (cases "l < 0 \<or> r < 0 \<or> tiles \<le> l \<or> tiles \<le> r")
    case True
    then show ?thesis by (auto simp: swaps_in_range_def)
  next
    case False
    then have "mset (swap_entries m (nat l) (nat r)) = mset m" "int (length (swap_entries m (nat l) (nat r))) = tiles"
      using 1(2) by (auto simp: swap_entries_def intro!: mset_swap)
    with 1(1) [OF False] 1(3) False show ?thesis
      by (auto simp: swaps_in_range_def split: sum.splits)
  qed
qed (auto simp: swaps_in_range_def)

text \<open>
  C32: the tile mapping of a slider guess is a permutation of the tiles, whatever the swaps say; and it is refused
  exactly when the grid is empty or has more than 16 rows, the swaps do not come in pairs, or one of them names a
  tile that does not exist.
\<close>

theorem tile_mapping_permutes:
  "case build_tile_mapping n active of
     Inr m \<Rightarrow> mset m = mset [0..n * n - 1] \<and> n \<noteq> 0 \<and> n \<le> 16 \<and> even (length active) \<and> swaps_in_range (n * n) active
   | Inl e \<Rightarrow> \<not> (n \<noteq> 0 \<and> n \<le> 16 \<and> even (length active) \<and> swaps_in_range (n * n) active)"
proof (cases "n = 0 \<or> 16 < n \<or> odd (length active)")
  case True
  then show ?thesis
    by (auto simp: build_tile_mapping_def Let_def max_grid_size_def not_le zero_less_mult_iff split: sum.split)
next
  case False
  then have "0 < n * n" by (auto simp: zero_less_mult_iff)
  with False show ?thesis
    using apply_swaps_result [of "[0..n * n - 1]" "n * n" active]
    by (auto simp: build_tile_mapping_def Let_def max_grid_size_def split: sum.splits)
qed

section \<open>The tiles cover the picture\<close>

definition inside :: "rect \<Rightarrow> int \<Rightarrow> int \<Rightarrow> bool" where
  "inside r x y \<longleftrightarrow> min_x r \<le> x \<and> x < max_x r \<and> min_y r \<le> y \<and> y < max_y r"

text \<open>The edges \<open>c * w div n\<close> of \<open>n\<close> columns cut \<open>0..<w\<close> into pieces, and every offset is in one.\<close>

lemma int_le_div:
  fixes u v n :: int
  assumes "0 < n"
  shows "v \<le> u div n \<longleftrightarrow> v * n \<le> u"
proof
  assume "v \<le> u div n"
  then have "v * n \<le> u div n * n" using assms by (intro mult_right_mono) auto
  also have "\<dots> \<le> u" using assms by (simp add: minus_mod_eq_div_mult [symmetric])
  finally show "v * n \<le> u" .
next
  assume "v * n \<le> u"
  then have "v * n div n \<le> u div n" using assms by (intro zdiv_mono1) auto
  then show "v \<le> u div n" using assms by simp
qed

lemma edge_iff:
  fixes c w n k :: int
  assumes "0 < n" "0 < w"
  shows "c * w div n \<le> k \<and> k < (c + 1) * w div n \<longleftrightarrow> c = ((k + 1) * n - 1) div w"
proof -
  have "c * w div n \<le> k \<longleftrightarrow> \<not> k + 1 \<le> c * w div n" by auto
  also have "\<dots> \<longleftrightarrow> c * w < (k + 1) * n" unfolding int_le_div [OF assms(1)] by auto
  finally have l: "c * w div n \<le> k \<longleftrightarrow> c * w \<le> (k + 1) * n - 1" by auto
  have "k < (c + 1) * w div n \<longleftrightarrow> k + 1 \<le> (c + 1) * w div n" by auto
  also have "\<dots> \<longleftrightarrow> (k + 1) * n \<le> (c + 1) * w" by (rule int_le_div [OF assms(1)])
  finally have r: "k < (c + 1) * w div n \<longleftrightarrow> (k + 1) * n - 1 < (c + 1) * w" by auto
  show ?thesis unfolding l r
  proof
    assume a: "c * w \<le> (k + 1) * n - 1 \<and> (k + 1) * n - 1 < (c + 1) * w"
    have "((k + 1) * n - 1) div w = c"
      using a assms by (intro int_div_pos_eq [where r = "(k + 1) * n - 1 - c * w"]) (auto simp: algebra_simps)
    then show "c = ((k + 1) * n - 1) div w" ..
  next
    assume c: "c = ((k + 1) * n - 1) div w"
    have "((k + 1) * n - 1) = c * w + ((k + 1) * n - 1) mod w" unfolding c by simp
    moreover have "0 \<le> ((k + 1) * n - 1) mod w" "((k + 1) * n - 1) mod w < w" using assms by simp_all
    ultimately show "c * w \<le> (k + 1) * n - 1 \<and> (k + 1) * n - 1 < (c + 1) * w" by (simp add: distrib_right)
  qed
qed

lemma tile_rect_nonneg:
  assumes "0 < n" "0 \<le> i" "0 \<le> dx b" "0 \<le> dy b"
  shows "tile_rect b n i = \<lparr>min_x = min_x b + i mod n * dx b div n, min_y = min_y b + i div n * dy b div n,
     max_x = min_x b + (i mod n + 1) * dx b div n, max_y = min_y b + (i div n + 1) * dy b div n\<rparr>"
proof -
  have c: "0 \<le> i mod n" "0 \<le> i div n" using assms by (simp_all add: pos_imp_zdiv_nonneg_iff)
  have col: "i - i div n * n = i mod n" by (simp add: minus_div_mult_eq_mod)
  have le: "u * w div n \<le> (u + 1) * w div n" if "0 \<le> w" for u w :: int
    using that assms(1) by (intro zdiv_mono1) (auto simp: distrib_right)
  from le [OF assms(3), of "i mod n"] le [OF assms(4), of "i div n"] show ?thesis
    using assms c by (simp add: tile_rect_def mk_rect_def Let_def col)
qed

text \<open>
  C33: the tiles of a picture are disjoint and leave nothing out, whatever the size of the picture and of the grid, also
  where the division has a remainder: a pixel of the picture is in one tile and no other.
\<close>

theorem tiles_partition:
  assumes "0 < n" and "inside b x y"
  shows "\<exists>!i. 0 \<le> i \<and> i < n * n \<and> inside (tile_rect b n i) x y"
proof -
  let ?c = "((x - min_x b + 1) * n - 1) div dx b" and ?r = "((y - min_y b + 1) * n - 1) div dy b"
  have w: "0 < dx b" "0 < dy b" and k: "0 \<le> x - min_x b" "x - min_x b < dx b" "0 \<le> y - min_y b" "y - min_y b < dy b"
    using assms(2) by (auto simp: inside_def dx_def dy_def)
  have iff: "inside (tile_rect b n i) x y \<longleftrightarrow> i mod n = ?c \<and> i div n = ?r" if "0 \<le> i" for i
  proof -
    have "inside (tile_rect b n i) x y \<longleftrightarrow>
       (i mod n * dx b div n \<le> x - min_x b \<and> x - min_x b < (i mod n + 1) * dx b div n)
       \<and> (i div n * dy b div n \<le> y - min_y b \<and> y - min_y b < (i div n + 1) * dy b div n)"
      using assms(1) w that by (auto simp: tile_rect_nonneg inside_def)
    then show ?thesis unfolding edge_iff [OF assms(1) w(1)] edge_iff [OF assms(1) w(2)] .
  qed
  have cell: "0 \<le> ((k + 1) * n - 1) div w \<and> ((k + 1) * n - 1) div w < n" if "0 \<le> k" "k < w" for k w :: int
  proof -
    have "1 * 1 \<le> (k + 1) * n" using that assms(1) by (intro mult_mono) auto
    moreover have "(k + 1) * n \<le> w * n" using that assms(1) by (intro mult_right_mono) auto
    then have "(k + 1) * n - 1 < n * w" by (simp add: mult.commute)
    then have "\<not> n \<le> ((k + 1) * n - 1) div w" using that by (simp add: int_le_div)
    ultimately show ?thesis
      using that by (auto simp: pos_imp_zdiv_nonneg_iff)
  qed
  have rc: "0 \<le> ?c" "?c < n" "0 \<le> ?r" "?r < n" using cell k by auto
  show ?thesis
  proof (rule ex1I [of _ "?r * n + ?c"])
    have nn: "0 \<le> ?r * n + ?c" using rc assms(1) by simp
    moreover have "?r * n + ?c < n * n"
    proof -
      have "?r * n \<le> (n - 1) * n" using rc assms(1) by (intro mult_right_mono) auto
      with rc show ?thesis by (simp add: left_diff_distrib)
    qed
    moreover have "inside (tile_rect b n (?r * n + ?c)) x y"
      unfolding iff [OF nn] using rc by simp
    ultimately show "0 \<le> ?r * n + ?c \<and> ?r * n + ?c < n * n \<and> inside (tile_rect b n (?r * n + ?c)) x y" by blast
  next
    fix i assume "0 \<le> i \<and> i < n * n \<and> inside (tile_rect b n i) x y"
    then have "i mod n = ?c" "i div n = ?r" using iff by auto
    then show "i = ?r * n + ?c" using div_mult_mod_eq [of i n] by simp
  qed
qed

lemma tiles_partition_witness:
  "\<exists>!i. 0 \<le> i \<and> i < 3 * 3 \<and> inside (tile_rect \<lparr>min_x = 10, min_y = 0, max_x = 17, max_y = 5\<rparr> 3 i) 16 (4 :: int)"
  by (rule tiles_partition) (simp_all add: inside_def)

section \<open>The ranking is complete and puts a clear winner first\<close>

text \<open>The three measures of the guess \<open>idx\<close>.\<close>

definition guess_mapping :: "int \<Rightarrow> int list \<Rightarrow> int \<Rightarrow> int list" where
  "guess_mapping n swaps idx = (case build_tile_mapping n (active_steps swaps idx) of Inr m \<Rightarrow> m | Inl e \<Rightarrow> [])"

definition guess_entry :: "picture \<Rightarrow> int \<Rightarrow> int list \<Rightarrow> int \<Rightarrow> scored" where
  "guess_entry pic n swaps idx = \<lparr>sc_index = idx, sc_active = active_steps swaps idx,
     sc_luma = seam_score_luma pic n (guess_mapping n swaps idx), sc_rgb = 0, sc_text = 0, sc_consensus = 0\<rparr>"

definition measured :: "picture \<Rightarrow> int \<Rightarrow> scored \<Rightarrow> scored" where
  "measured pic n s = (case build_tile_mapping n (sc_active s) of
     Inr m \<Rightarrow> s\<lparr>sc_rgb := seam_score_rgb pic n m, sc_text := seam_score_text pic n m\<rparr> | Inl e \<Rightarrow> s)"

lemma score_all_Inr: "score_all pic n swaps idxs = Inr ss \<Longrightarrow>
    ss = map (guess_entry pic n swaps) idxs \<and> (\<forall>i \<in> set idxs. \<not> isl (build_tile_mapping n (active_steps swaps i)))"
proof (induction idxs arbitrary: ss)
  case (Cons i idxs)
  then obtain m rest where "build_tile_mapping n (active_steps swaps i) = Inr m" "score_all pic n swaps idxs = Inr rest"
    "ss = guess_entry pic n swaps i # rest"
    by (cases "build_tile_mapping n (active_steps swaps i)"; cases "score_all pic n swaps idxs")
      (auto simp: Let_def guess_entry_def guess_mapping_def)
  with Cons.IH show ?case by auto
qed simp

lemma measure_stage2_Inr:
  "measure_stage2 pic n ps ss = Inr ss' \<Longrightarrow> list_all (\<lambda>p. p < length ss) ps \<Longrightarrow>
     length ss' = length ss \<and> (\<forall>p < length ss. ss' ! p = (if p \<in> set ps then measured pic n (ss ! p) else ss ! p))"
proof (induction pic n ps ss rule: measure_stage2.induct)
  case (2 pic n p ps ss)
  from 2(2) obtain m where m: "build_tile_mapping n (sc_active (ss ! p)) = Inr m"
    by (auto split: sum.splits)
  let ?ss = "ss[p := measured pic n (ss ! p)]"
  from 2(2) m have "measure_stage2 pic n ps ?ss = Inr ss'" by (simp add: measured_def)
  with 2(1) [OF m] 2(3) m have IH: "length ss' = length ss"
    "\<forall>q < length ss. ss' ! q = (if q \<in> set ps then measured pic n (?ss ! q) else ?ss ! q)"
    by (simp_all add: measured_def)
  have twice: "measured pic n (measured pic n s) = measured pic n s" for s
    by (cases "build_tile_mapping n (sc_active s)") (simp_all add: measured_def)
  show ?case using IH 2(3) by (auto simp: nth_list_update twice)
qed simp

lemma sort_key_head:
  assumes "x \<in> set xs" and "\<And>y. y \<in> set xs \<Longrightarrow> y \<noteq> x \<Longrightarrow> f x < (f y :: 'b :: linorder)"
  shows "\<exists>rest. sort_key f xs = x # rest"
proof -
  obtain y rest where s: "sort_key f xs = y # rest"
    using assms(1) by (cases "sort_key f xs") (auto dest: arg_cong [where f = set])
  have set: "set (y # rest) = set xs" using s by (metis set_sort)
  have "sorted (map f (y # rest))" using s by (metis sorted_sort_key)
  moreover have "x \<in> set (y # rest)" using set assms(1) by simp
  ultimately have "f y \<le> f x" by auto
  moreover have "y \<in> set xs" using set by auto
  ultimately have "y = x" using assms(2) [of y] by (cases "y = x") auto
  with s show ?thesis by blast
qed

lemma rank_head: "rank_of (rank_table ss (p # order)) (sc_index (ss ! p)) = 0"
  by (simp add: rank_table_def rank_of_def upt_conv_Cons del: upt_Suc)

lemma rank_nonneg: "0 \<le> rank_of t i"
  by (simp add: rank_of_def split: option.split)

lemma rank_other:
  assumes "i \<noteq> sc_index (ss ! p)" and "i \<in> set (map (\<lambda>q. sc_index (ss ! q)) order)"
  shows "1 \<le> rank_of (rank_table ss (p # order)) i"
proof -
  have t: "rank_table ss (p # order) = (sc_index (ss ! p), 0) # zip (map (\<lambda>q. sc_index (ss ! q)) order) [1..<Suc (length order)]"
    by (simp add: rank_table_def upt_conv_Cons del: upt_Suc)
  let ?z = "zip (map (\<lambda>q. sc_index (ss ! q)) order) [1..<Suc (length order)]"
  have "i \<in> fst ` set ?z" using assms(2)
    by (metis length_map length_upt diff_Suc_1 map_fst_zip set_map)
  then obtain r where r: "map_of ?z i = Some r" by (metis map_of_eq_None_iff not_None_eq)
  then have "r \<in> set [1..<Suc (length order)]" by (metis map_of_SomeD set_zip_rightD)
  then have "1 \<le> r" by auto
  with assms(1) r show ?thesis by (simp add: t rank_of_def del: upt_Suc)
qed

definition beats :: "picture \<Rightarrow> int \<Rightarrow> int list \<Rightarrow> int \<Rightarrow> int \<Rightarrow> bool" where
  "beats pic n swaps i j \<longleftrightarrow>
     (let a = guess_mapping n swaps i; b = guess_mapping n swaps j in
      seam_score_luma pic n a < seam_score_luma pic n b \<and> seam_score_rgb pic n a < seam_score_rgb pic n b
      \<and> seam_score_text pic n a < seam_score_text pic n b)"

definition beats_all :: "picture \<Rightarrow> int \<Rightarrow> int list \<Rightarrow> int \<Rightarrow> bool" where
  "beats_all pic n swaps i \<longleftrightarrow> list_all (\<lambda>j. j = i \<or> beats pic n swaps i j) [1..int (length swaps div 2)]"

lemma measured_fields [simp]:
  "sc_index (measured pic n s) = sc_index s" "sc_active (measured pic n s) = sc_active s" "sc_luma (measured pic n s) = sc_luma s"
  by (simp_all add: measured_def split: sum.split)

lemma measured_entry:
  "\<not> isl (build_tile_mapping n (active_steps swaps i)) \<Longrightarrow>
     sc_rgb (measured pic n (guess_entry pic n swaps i)) = seam_score_rgb pic n (guess_mapping n swaps i)
     \<and> sc_text (measured pic n (guess_entry pic n swaps i)) = seam_score_text pic n (guess_mapping n swaps i)"
  by (cases "build_tile_mapping n (active_steps swaps i)") (simp_all add: measured_def guess_entry_def guess_mapping_def)

text \<open>What the first two stages leave: the entry \<open>p\<close> is the guess \<open>p + 1\<close>, measured if it is among the first twelve.\<close>

definition staged :: "picture \<Rightarrow> int \<Rightarrow> int list \<Rightarrow> nat list \<Rightarrow> scored list \<Rightarrow> bool" where
  "staged pic n swaps order ss \<longleftrightarrow> length ss = length swaps div 2 \<and>
     (\<forall>p < length ss. \<not> isl (build_tile_mapping n (active_steps swaps (int p + 1))) \<and>
        ss ! p = (if p \<in> set (take stage2_count order) then measured pic n (guess_entry pic n swaps (int p + 1))
                  else guess_entry pic n swaps (int p + 1)))"

lemma order_by_set [simp]: "set (order_by f ss ps) = set ps" "length (order_by f ss ps) = length ps"
  by (simp_all add: order_by_def)

lemma rank_candidates_staged:
  assumes "rank_candidates pic n swaps = Inr cs"
  shows "\<exists>ss order. order = order_by sc_luma (map (guess_entry pic n swaps) [1..int (length swaps div 2)]) [0..<length swaps div 2]
     \<and> staged pic n swaps order ss \<and> cs = map candidate_of (final_order (map (with_consensus ss order) ss)) \<and> 0 < length swaps div 2"
proof -
  let ?k = "length swaps div 2" and ?ss = "map (guess_entry pic n swaps) [1..int (length swaps div 2)]"
  let ?order = "order_by sc_luma ?ss [0..<?k]"
  from assms obtain ss where k: "?k \<noteq> 0" and all: "score_all pic n swaps [1..int ?k] = Inr ?ss"
    and st: "measure_stage2 pic n (take stage2_count ?order) ?ss = Inr ss"
    and cs: "cs = map candidate_of (final_order (map (with_consensus ss ?order) ss))"
    by (auto simp: rank_candidates_def Let_def split: if_splits sum.splits dest!: score_all_Inr)
  from score_all_Inr [OF all] have ok: "\<And>p. p < ?k \<Longrightarrow> \<not> isl (build_tile_mapping n (active_steps swaps (int p + 1)))"
    by auto
  have bound: "list_all (\<lambda>p. p < length ?ss) (take stage2_count ?order)"
    by (auto simp: list_all_iff dest!: in_set_takeD)
  have nth: "?ss ! p = guess_entry pic n swaps (int p + 1)" if "p < ?k" for p
    using that by (simp add: add.commute)
  have "staged pic n swaps ?order ss"
    using measure_stage2_Inr [OF st bound] ok nth by (simp add: staged_def)
  with k cs show ?thesis by auto
qed

lemma staged_fields:
  assumes "staged pic n swaps order ss" and "p < length ss"
  shows "sc_index (ss ! p) = int p + 1" "sc_active (ss ! p) = active_steps swaps (int p + 1)"
    "sc_luma (ss ! p) = seam_score_luma pic n (guess_mapping n swaps (int p + 1))"
  using assms by (simp_all add: staged_def guess_entry_def)

lemma staged_measures:
  assumes "staged pic n swaps order ss" and "p < length ss" and "p \<in> set (take stage2_count order)"
  shows "sc_rgb (ss ! p) = seam_score_rgb pic n (guess_mapping n swaps (int p + 1))"
    "sc_text (ss ! p) = seam_score_text pic n (guess_mapping n swaps (int p + 1))"
  using assms measured_entry by (auto simp: staged_def)

lemma consensus_fields [simp]:
  "sc_index (with_consensus ss order s) = sc_index s" "sc_active (with_consensus ss order s) = sc_active s"
  "sc_luma (with_consensus ss order s) = sc_luma s"
  by (simp_all add: with_consensus_def Let_def)

text \<open>The winner of all three measures has consensus 0, everyone else at least 1.\<close>

lemma winner_order:
  assumes "p \<in> set ps" and "\<And>q. q \<in> set ps \<Longrightarrow> q \<noteq> p \<Longrightarrow> f (ss ! p) < f (ss ! q)"
  shows "\<exists>rest. order_by f ss ps = p # rest"
  unfolding order_by_def using assms by (intro sort_key_head) (auto simp: less_prod_def')

lemma winner_rank:
  assumes "p \<in> set ps" and "\<And>q. q \<in> set ps \<Longrightarrow> q \<noteq> p \<Longrightarrow> f (ss ! p) < f (ss ! q)"
  shows "rank_of (rank_table ss (order_by f ss ps)) (sc_index (ss ! p)) = 0"
proof -
  from assms have "\<exists>rest. order_by f ss ps = p # rest" by (rule winner_order)
  then show ?thesis using rank_head by auto
qed

lemma winner_first:
  assumes st: "staged pic n swaps order ss"
    and order: "order = order_by sc_luma (map (guess_entry pic n swaps) [1..int (length swaps div 2)]) [0..<length swaps div 2]"
    and p: "p < length swaps div 2" and best: "beats_all pic n swaps (int p + 1)"
  shows "sc_consensus (with_consensus ss order (ss ! p)) = 0"
    and "q < length ss \<Longrightarrow> q \<noteq> p \<Longrightarrow> 1 \<le> sc_consensus (with_consensus ss order (ss ! q))"
proof -
  let ?k = "length swaps div 2"
  have len: "length ss = ?k" using st by (simp add: staged_def)
  have beat: "beats pic n swaps (int p + 1) (int q + 1)" if "q < ?k" "q \<noteq> p" for q
    using best that by (auto simp: beats_all_def list_all_iff dest!: bspec [where x = "int q + 1"])
  obtain rest where rest: "order = p # rest"
    unfolding order using p
    by (rule_tac exE [OF winner_order [of p "[0..<?k]" sc_luma "map (guess_entry pic n swaps) [1..int ?k]"]])
      (use beat in \<open>auto simp: beats_def Let_def guess_entry_def add.commute\<close>)
  have order_set: "set order = {0..<?k}" unfolding order by simp
  have stage: "p \<in> set (take stage2_count order)" by (simp add: rest stage2_count_def)
  have sub: "q < ?k" if "q \<in> set (take stage2_count order)" for q
    using in_set_takeD [OF that] order_set by auto
  have r: "sc_rgb (ss ! p) < sc_rgb (ss ! q)" "sc_text (ss ! p) < sc_text (ss ! q)"
    if "q \<in> set (take stage2_count order)" "q \<noteq> p" for q
    using staged_measures [OF st _ that(1)] staged_measures [OF st _ stage] beat [OF sub [OF that(1)] that(2)] p sub [OF that(1)] len
    by (auto simp: beats_def Let_def)
  have zero: "rank_of (rank_table ss order) (sc_index (ss ! p)) = 0" unfolding rest by (rule rank_head)
  have zero2: "rank_of (rank_table ss (order_by sc_rgb ss (take stage2_count order))) (sc_index (ss ! p)) = 0"
    "rank_of (rank_table ss (order_by sc_text ss (take stage2_count order))) (sc_index (ss ! p)) = 0"
    using r by (auto intro!: winner_rank [OF stage])
  have listed: "sc_index (ss ! p) \<in> set (map (\<lambda>q. sc_index (ss ! q)) (take stage2_count order))" using stage by auto
  show "sc_consensus (with_consensus ss order (ss ! p)) = 0"
    unfolding with_consensus_def Let_def by (simp only: zero zero2 listed if_True simp_thms add_0) simp
  assume q: "q < length ss" "q \<noteq> p"
  have "q \<in> set order" unfolding order_set using q len by simp
  then have "q \<in> set rest" using q(2) unfolding rest by simp
  then have "sc_index (ss ! q) \<in> set (map (\<lambda>q. sc_index (ss ! q)) rest)" by simp
  moreover have "sc_index (ss ! q) \<noteq> sc_index (ss ! p)" using q p len staged_fields(1) [OF st] by simp
  ultimately have "1 \<le> rank_of (rank_table ss order) (sc_index (ss ! q))" unfolding rest by (intro rank_other)
  then show "1 \<le> sc_consensus (with_consensus ss order (ss ! q))"
    using rank_nonneg [of "rank_table ss (order_by sc_rgb ss (take stage2_count order))" "sc_index (ss ! q)"]
      rank_nonneg [of "rank_table ss (order_by sc_text ss (take stage2_count order))" "sc_index (ss ! q)"]
    by (simp add: with_consensus_def Let_def)
qed

text \<open>
  C34: the ranking of the slider guesses loses none and invents none: every prefix of the swaps is there once, with the
  swaps it stands for, the scores ascend, and a guess that is better than every other in all three measures is
  tried first.
\<close>

theorem slider_ranking:
  "case rank_candidates pic n swaps of
     Inl e \<Rightarrow> True
   | Inr cs \<Rightarrow> mset (map cand_index cs) = mset [1..int (length swaps div 2)]
       \<and> list_all (\<lambda>c. cand_active c = active_steps swaps (cand_index c)) cs
       \<and> sorted (map cand_score cs)
       \<and> list_all (\<lambda>i. if beats_all pic n swaps i then cand_index (hd cs) = i else True) [1..int (length swaps div 2)]"
proof (cases "rank_candidates pic n swaps")
  case (Inr cs)
  let ?k = "length swaps div 2"
  from rank_candidates_staged [OF Inr] obtain ss order where
    order: "order = order_by sc_luma (map (guess_entry pic n swaps) [1..int ?k]) [0..<?k]"
    and st: "staged pic n swaps order ss" and cs: "cs = map candidate_of (final_order (map (with_consensus ss order) ss))"
    and k: "0 < ?k" by blast
  let ?ws = "map (with_consensus ss order) ss"
  have len: "length ss = ?k" using st by (simp add: staged_def)
  have idx: "map sc_index ss = [1..int ?k]"
    using staged_fields(1) [OF st] len by (intro nth_equalityI) (simp_all add: add.commute)
  have "mset (map cand_index cs) = mset (map sc_index ?ws)"
    unfolding cs final_order_def by (simp add: candidate_of_def comp_def image_mset.compositionality)
  then have all: "mset (map cand_index cs) = mset [1..int ?k]"
    using idx by (simp add: comp_def mset_map [symmetric] del: mset_map)
  have act: "list_all (\<lambda>c. cand_active c = active_steps swaps (cand_index c)) cs"
    using staged_fields(1,2) [OF st] by (auto simp: cs final_order_def list_all_iff candidate_of_def in_set_conv_nth)
  have "sorted (map (\<lambda>s. (sc_consensus s, sc_luma s, sc_index s)) (final_order ?ws))"
    unfolding final_order_def by (rule sorted_sort_key)
  then have sorted: "sorted (map cand_score cs)"
    unfolding cs by (auto simp: sorted_map candidate_of_def elim!: sorted_wrt_mono_rel [rotated])
  have "cand_index (hd cs) = int p + 1" if p: "p < ?k" "beats_all pic n swaps (int p + 1)" for p
  proof -
    note w = winner_first [OF st order p]
    have "\<exists>rest. final_order ?ws = with_consensus ss order (ss ! p) # rest"
      unfolding final_order_def
    proof (rule sort_key_head)
      show "with_consensus ss order (ss ! p) \<in> set ?ws" using p len by auto
      fix y assume "y \<in> set ?ws" "y \<noteq> with_consensus ss order (ss ! p)"
      then obtain q where "q < length ss" "q \<noteq> p" "y = with_consensus ss order (ss ! q)"
        by (auto simp: in_set_conv_nth) metis
      with w(1) w(2) [of q] show "(sc_consensus (with_consensus ss order (ss ! p)), sc_luma (with_consensus ss order (ss ! p)),
          sc_index (with_consensus ss order (ss ! p))) < (sc_consensus y, sc_luma y, sc_index y)"
        by (simp add: less_prod_def')
    qed
    then show ?thesis using staged_fields(1) [OF st] p len by (auto simp: cs candidate_of_def)
  qed
  then have "list_all (\<lambda>i. if beats_all pic n swaps i then cand_index (hd cs) = i else True) [1..int ?k]"
    unfolding list_all_iff
  proof (intro ballI)
    fix i assume first: "\<And>p. p < ?k \<Longrightarrow> beats_all pic n swaps (int p + 1) \<Longrightarrow> cand_index (hd cs) = int p + 1" and "i \<in> set [1..int ?k]"
    then have "nat (i - 1) < ?k" "int (nat (i - 1)) + 1 = i" by auto
    with first [of "nat (i - 1)"] show "if beats_all pic n swaps i then cand_index (hd cs) = i else True" by simp
  qed
  with all act sorted show ?thesis by (simp add: Inr)
qed simp

section \<open>The dialogue ends, and a token is VK's\<close>

definition is_call :: "mint_env \<Rightarrow> string \<Rightarrow> request \<Rightarrow> bool" where
  "is_call me meth q \<longleftrightarrow> rq_url q = rq_url (not_robot me meth [])"

text \<open>The guesses a run submitted, and those that the puzzles it was given allow.\<close>

definition checks :: "mint_env \<Rightarrow> mint_event list \<Rightarrow> nat" where
  "checks me tr = length (filter (\<lambda>e. case e of Ev_post q r \<Rightarrow> is_call me ''check'' q | _ \<Rightarrow> False) tr)"

definition puzzle_tries :: "codec \<Rightarrow> json \<Rightarrow> nat" where
  "puzzle_tries cd resp = (case parse_slider_content cd resp of
     Inl e \<Rightarrow> 0 | Inr c \<Rightarrow> nat (min (sl_attempts c) (int (length (sl_steps c) div 2))))"

definition allowance :: "mint_env \<Rightarrow> codec \<Rightarrow> mint_event list \<Rightarrow> nat" where
  "allowance me cd tr = sum_list (map (\<lambda>e. case e of
     Ev_post q (Inr resp) \<Rightarrow> if is_call me ''getContent'' q then puzzle_tries cd resp else 0 | _ \<Rightarrow> 0) tr)"

text \<open>The token is what the last answer, to a check, gives with the status OK.\<close>

definition earned :: "mint_env \<Rightarrow> mint_event list \<Rightarrow> bytes \<Rightarrow> bool" where
  "earned me tr token \<longleftrightarrow> tr \<noteq> [] \<and> token \<noteq> [] \<and> (case last tr of
     Ev_post q (Inr resp) \<Rightarrow> is_call me ''check'' q \<and> str_or_empty (key ''status'' (key ''response'' resp)) = ascii ''OK''
       \<and> str_or_empty (key ''success_token'' (key ''response'' resp)) = token
   | _ \<Rightarrow> False)"

lemma is_call_simps [simp]:
  "is_call me meth (not_robot me meth' fs) \<longleftrightarrow> ascii meth = ascii meth'"
  "is_call me meth (get_content me s b) \<longleftrightarrow> ascii meth = ascii ''getContent''"
  by (auto simp: is_call_def not_robot_def get_content_def)

lemma trace_counts [simp]:
  "checks me [] = 0" "allowance me cd [] = 0"
  "checks me (e # tr) = (case e of Ev_post q r \<Rightarrow> if is_call me ''check'' q then 1 else 0 | _ \<Rightarrow> 0) + checks me tr"
  "allowance me cd (e # tr) = (case e of Ev_post q (Inr resp) \<Rightarrow> if is_call me ''getContent'' q then puzzle_tries cd resp else 0 | _ \<Rightarrow> 0)
     + allowance me cd tr"
  "checks me (tr @ tr') = checks me tr + checks me tr'" "allowance me cd (tr @ tr') = allowance me cd tr + allowance me cd tr'"
  by (auto simp: checks_def allowance_def split: mint_event.splits)

lemma earned_Cons: "earned me tr token \<Longrightarrow> earned me (e # tr) token"
  by (auto simp: earned_def)

lemma try_candidates_ends:
  "spec (try_candidates me s n k cs) (\<lambda>tr r. checks me tr \<le> length cs \<and> posts tr = checks me tr \<and> allowance me cd tr = 0
     \<and> slept tr \<le> 500 * millisecond * int (checks me tr) \<and> (case r of Inl e \<Rightarrow> True | Inr token \<Rightarrow> earned me tr token))"
proof (induction cs)
  case (Cons c cs)
  show ?case
    unfolding try_candidates.simps spec_simps
  proof (intro allI)
    fix draws ans
    let ?q = "not_robot me ''check'' (slider_check_fields s (slider_cursor (cand_index c) n draws) (encode_slider_answer (cand_active c)))"
    have get: "ascii ''getContent'' \<noteq> ascii ''check''" by (simp add: ascii_def)
    show "spec (case ans of Inl e \<Rightarrow> Return (Inl (ascii ''slider check: '' @ e)) | Inr resp \<Rightarrow>
          let obj = key ''response'' resp; status = str_or_empty (key ''status'' obj); token = str_or_empty (key ''success_token'' obj) in
          if \<not> is_obj obj then Return (Inl (ascii ''slider check: invalid response''))
          else if status = ascii ''OK'' then
            (if token = [] then Return (Inl (ascii ''slider: success_token not found'')) else Return (Inr token))
          else if status = ascii ''ERROR_LIMIT'' then Return (Inl (ascii ''slider: ERROR_LIMIT''))
          else Sleep (500 * millisecond) (try_candidates me s n k cs))
        (\<lambda>tr r. checks me (Ev_shuffle draws # Ev_post ?q ans # tr) \<le> length (c # cs)
           \<and> posts (Ev_shuffle draws # Ev_post ?q ans # tr) = checks me (Ev_shuffle draws # Ev_post ?q ans # tr)
           \<and> allowance me cd (Ev_shuffle draws # Ev_post ?q ans # tr) = 0
           \<and> slept (Ev_shuffle draws # Ev_post ?q ans # tr) \<le> 500 * millisecond * int (checks me (Ev_shuffle draws # Ev_post ?q ans # tr))
           \<and> (case r of Inl e \<Rightarrow> True | Inr token \<Rightarrow> earned me (Ev_shuffle draws # Ev_post ?q ans # tr) token))"
    proof (cases ans)
      case (Inr resp)
      let ?obj = "key ''response'' resp"
      show ?thesis
      proof (cases "is_obj ?obj \<and> str_or_empty (key ''status'' ?obj) \<noteq> ascii ''OK'' \<and> str_or_empty (key ''status'' ?obj) \<noteq> ascii ''ERROR_LIMIT''")
        case True
        then show ?thesis unfolding Inr sum.case Let_def
          by (simp only: if_False if_True simp_thms spec_simps) (rule spec_mono [OF Cons.IH], use get in \<open>auto simp: earned_Cons split: sum.splits\<close>)
      next
        case False
        then show ?thesis unfolding Inr sum.case Let_def
          using get by (auto simp: earned_def)
      qed
    qed (use get in simp)
  qed
qed simp

lemma rank_candidates_length: "rank_candidates pic n swaps = Inr cs \<Longrightarrow> length cs = length swaps div 2"
  using rank_candidates_staged [of pic n swaps cs] by (auto simp: staged_def final_order_def)

text \<open>
  C35: the slider solver always ends: it submits at most as many guesses as the puzzle allows, with at most three
  requests before them and half a second after a refused one; and a token is what VK's last answer, to a submitted
  guess, gave with the status OK.
\<close>

theorem slider_solver_bounded:
  "spec (solve_slider me cd s settings) (\<lambda>tr r. checks me tr \<le> allowance me cd tr \<and> posts tr \<le> 3 + checks me tr
     \<and> slept tr \<le> 500 * millisecond * int (checks me tr) \<and> (case r of Inl e \<Rightarrow> True | Inr token \<Rightarrow> earned me tr token))"
proof -
  let ?Q = "\<lambda>pre tr r. checks me (pre @ tr) \<le> allowance me cd (pre @ tr) \<and> posts (pre @ tr) \<le> 3 + checks me (pre @ tr)
     \<and> slept (pre @ tr) \<le> 500 * millisecond * int (checks me (pre @ tr)) \<and> (case r of Inl e \<Rightarrow> True | Inr token \<Rightarrow> earned me (pre @ tr) token)"
  have names: "ascii ''check'' \<noteq> ascii ''componentDone''" "ascii ''check'' \<noteq> ascii ''getContent''" "ascii ''getContent'' \<noteq> ascii ''componentDone''"
    by (simp_all add: ascii_def)
  have fetch: "spec (request_content me s b) (\<lambda>tr r. checks me tr = 0 \<and> posts tr \<le> 2 \<and> slept tr = 0
      \<and> (case r of Inl e \<Rightarrow> True | Inr resp \<Rightarrow> puzzle_tries cd resp \<le> allowance me cd tr))" for b
    using names by (auto simp: request_content_def Let_def split: sum.split)
  have earned_pre: "earned me tr t \<Longrightarrow> earned me (pre @ tr) t" for pre tr t
    by (auto simp: earned_def)
  have guess: "spec (case r of
       Inl e \<Rightarrow> Return (Inl (ascii ''slider getContent: '' @ e))
     | Inr resp \<Rightarrow> (case parse_slider_content cd resp of
         Inl e \<Rightarrow> Return (Inl (ascii ''slider parse: '' @ e))
       | Inr c \<Rightarrow> (case rank_candidates (sl_image c) (sl_size c) (sl_steps c) of
           Inl e \<Rightarrow> Return (Inl (ascii ''slider rank: '' @ e))
         | Inr cands \<Rightarrow>
             let tries = min (sl_attempts c) (int (length cands)) in
             try_candidates me s (int (length cands)) tries (take (nat tries) cands)))) (?Q pre)"
    if "checks me pre = 0" "posts pre \<le> 3" "slept pre = 0" "case r of Inl e \<Rightarrow> True | Inr resp \<Rightarrow> puzzle_tries cd resp \<le> allowance me cd pre" for r pre
  proof (cases r)
    case (Inr resp)
    show ?thesis
    proof (cases "parse_slider_content cd resp")
      case c: (Inr c)
      show ?thesis
      proof (cases "rank_candidates (sl_image c) (sl_size c) (sl_steps c)")
        case cs: (Inr cands)
        let ?n = "nat (min (sl_attempts c) (int (length cands)))"
        have "?n \<le> allowance me cd pre"
          using that(4) c rank_candidates_length [OF cs] by (simp add: Inr puzzle_tries_def)
        with that show ?thesis
          unfolding Inr c cs sum.case Let_def
          by (intro spec_mono [OF try_candidates_ends [where cd = cd]]) (auto simp: earned_pre split: sum.splits)
      qed (use that in \<open>auto simp: Inr c\<close>)
    qed (use that in \<open>auto simp: Inr\<close>)
  qed (use that in auto)
  show ?thesis
    unfolding solve_slider_def spec_simps spec_bind
  proof (intro allI, rule spec_mono [OF fetch], goal_cases)
    case (1 first tr r)
    let ?e = "Ev_post (not_robot me ''componentDone'' (ss_base s @ [(''browser_fp'', ss_fp s), (''device'', ss_device s)])) first"
    have pre: "checks me (?e # tr) = 0" "posts (?e # tr) \<le> 3" "slept (?e # tr) = 0"
      "case r of Inl e \<Rightarrow> True | Inr resp \<Rightarrow> puzzle_tries cd resp \<le> allowance me cd (?e # tr)"
      using 1 names by (auto split: sum.splits)
    show ?case using guess [OF pre] by (simp only: append_Cons)
  qed
qed

section \<open>The prefixes together\<close>

text \<open>
  \<^verbatim>\<open>maxSliderGridSize\<close> bounds the tiles, but nothing bounds the swaps, and every guess keeps its own copy of its
  prefix: what is kept grows with the square of their number.
\<close>

lemma prefixes_quadratic:
  "k \<le> length swaps div 2 \<Longrightarrow> sum_list (map (\<lambda>i. length (active_steps swaps i)) [1..int k]) = k * (k + 1)"
proof (induction k)
  case (Suc k)
  have "[1..int (Suc k)] = [1..int k] @ [int (Suc k)]" using upto_rec2 [of 1 "int (Suc k)"] by simp
  moreover have "length (active_steps swaps (int (Suc k))) = 2 * Suc k"
    using Suc.prems by (simp add: active_steps_def nat_mult_distrib)
  ultimately show ?case using Suc by simp
qed simp

section \<open>The drawn path\<close>

lemma roll_bounds: "roll n d = (a, d') \<Longrightarrow> 0 < n \<Longrightarrow> 0 \<le> a \<and> a < int n"
  by (auto simp: roll_def)

lemma jittered_bounds: "jittered x y n off d = (p, d') \<Longrightarrow> 0 < n \<Longrightarrow>
    x - off \<le> fst p \<and> fst p < x - off + int n \<and> y - off \<le> snd p \<and> snd p < y - off + int n"
  by (auto simp: jittered_def dest!: roll_bounds split: prod.splits)

lemma start_points_length: "start_points x y left i d = (ps, d') \<Longrightarrow> length ps \<le> left"
  by (induction left arbitrary: i d ps d') (fastforce split: prod.splits if_splits)+

lemma start_points_some: "start_points x y (Suc left) 0 d = (ps, d') \<Longrightarrow> ps \<noteq> []"
  using roll_bounds [of 3 d] by (auto split: prod.splits if_splits)

lemma transit_length: "transit_points g steps is d = (ps, d') \<Longrightarrow> length ps = length is"
  by (induction "is" arbitrary: d ps d') (auto simp: Let_def split: prod.splits)

lemma approach_length: "approach_points from to steps is d = (ps, d') \<Longrightarrow> length ps = length is"
  by (induction "is" arbitrary: d ps d') (auto simp: Let_def split: prod.splits)

definition near :: "point \<Rightarrow> point \<Rightarrow> bool" where
  "near to p \<longleftrightarrow> fst to - 3 \<le> fst p \<and> fst p \<le> fst to + 3 \<and> snd to - 3 \<le> snd p \<and> snd p \<le> snd to + 3"

lemma settle_facts: "settle_points to n d = (ps, d') \<Longrightarrow> length ps = n \<and> (\<forall>p \<in> set ps. near to p)"
  by (induction n arbitrary: d ps d') (fastforce simp: near_def dest!: jittered_bounds split: prod.splits)+

lemma target_range:
  assumes "1 \<le> idx" "idx \<le> cnt"
  shows "734 \<le> 734 + quot ((937 - 734) * (idx - 1)) (max 1 (cnt - 1)) \<and> 734 + quot ((937 - 734) * (idx - 1)) (max 1 (cnt - 1)) \<le> 937"
proof -
  have "203 * (idx - 1) \<le> 203 * max 1 (cnt - 1)" using assms by (intro mult_left_mono) auto
  then have "203 * (idx - 1) div max 1 (cnt - 1) \<le> 203 * max 1 (cnt - 1) div max 1 (cnt - 1)" by (intro zdiv_mono1) auto
  then show ?thesis using assms by (simp add: pos_imp_zdiv_nonneg_iff)
qed

text \<open>
  Whatever is drawn, the path has between 10 and 21 points, as the capacity of 28 in the source assumes, and it ends
  on the slider's track.
\<close>

lemma cursor_bounded:
  assumes "0 < cnt"
  shows "let ps = cursor_points idx cnt draws in 10 \<le> length ps \<and> length ps \<le> 21
     \<and> 726 \<le> fst (last ps) \<and> fst (last ps) \<le> 944 \<and> 652 \<le> snd (last ps) \<and> snd (last ps) \<le> 671"
proof -
  let ?i = "min (max idx 1) cnt" and ?b = "734 + quot ((937 - 734) * (min (max idx 1) cnt - 1)) (max 1 (cnt - 1))"
  obtain a1 d1 where r1: "roll 40 (draws, 0) = (a1, d1)" by (rule prod.exhaust)
  obtain b1 d2 where r2: "roll 30 d1 = (b1, d2)" by (rule prod.exhaust)
  obtain a2 d3 where r3: "roll 10 d2 = (a2, d3)" by (rule prod.exhaust)
  obtain b2 d4 where r4: "roll 14 d3 = (b2, d4)" by (rule prod.exhaust)
  obtain first d5 where f: "start_points (570 + a1) (875 + b1) 3 0 d4 = (first, d5)" by (rule prod.exhaust)
  obtain a3 d6 where r5: "roll 3 d5 = (a3, d6)" by (rule prod.exhaust)
  obtain a4 d7 where r6: "roll 60 d6 = (a4, d7)" by (rule prod.exhaust)
  obtain b4 d8 where r7: "roll 30 d7 = (b4, d8)" by (rule prod.exhaust)
  let ?to = "(?b + a2 - 5, 655 + b2)"
  let ?g = "\<lparr>dg_start = (570 + a1, 875 + b1), dg_target = ?to, dg_arc = (a4 - 30, - (b4 + 10))\<rparr>"
  obtain transit d9 where t: "transit_points ?g (2 + a3) [1..2 + a3] d8 = (transit, d9)" by (rule prod.exhaust)
  obtain a5 d10 where r8: "roll 4 d9 = (a5, d10)" by (rule prod.exhaust)
  obtain app d11 where p: "approach_points (last (first @ transit)) ?to (4 + a5) [1..4 + a5] d10 = (app, d11)" by (rule prod.exhaust)
  obtain a6 d12 where r9: "roll 5 d11 = (a6, d12)" by (rule prod.exhaust)
  obtain settle d13 where s: "settle_points ?to (nat (3 + a6)) d12 = (settle, d13)" by (rule prod.exhaust)
  have nz: "(cnt \<le> 0) = False" using assms by simp
  have ps: "cursor_points idx cnt draws = first @ transit @ app @ settle"
    by (simp only: cursor_points_def Let_def nz if_False prod.case r1 r2 r3 r4 f r5 r6 r7 t r8 p r9 s)
  have len: "1 \<le> length first" "length first \<le> 3" "length transit = nat (2 + a3)" "length app = nat (4 + a5)" "length settle = nat (3 + a6)"
    using start_points_some [OF f [unfolded numeral_3_eq_3]] start_points_length [OF f] transit_length [OF t] approach_length [OF p] settle_facts [OF s]
    by (simp_all add: Suc_le_eq)
  have bounds: "0 \<le> a3" "a3 < 3" "0 \<le> a5" "a5 < 4" "0 \<le> a6" "a6 < 5" "0 \<le> a2" "a2 < 10" "0 \<le> b2" "b2 < 14"
    using roll_bounds [OF r5] roll_bounds [OF r8] roll_bounds [OF r9] roll_bounds [OF r3] roll_bounds [OF r4] by simp_all
  have "settle \<noteq> []" using len(5) bounds by auto
  then have "near ?to (last (cursor_points idx cnt draws))"
    using settle_facts [OF s] by (simp add: ps)
  then have "726 \<le> fst (last (cursor_points idx cnt draws)) \<and> fst (last (cursor_points idx cnt draws)) \<le> 944
      \<and> 652 \<le> snd (last (cursor_points idx cnt draws)) \<and> snd (last (cursor_points idx cnt draws)) \<le> 671"
    using target_range [of ?i cnt] assms bounds by (simp add: near_def)
  moreover have "10 \<le> length (cursor_points idx cnt draws) \<and> length (cursor_points idx cnt draws) \<le> 21"
    unfolding ps length_append using len bounds by linarith
  ultimately show ?thesis by (simp add: Let_def)
qed

end
