(* ===== verification/CaptchaPage.thy ===== *)
theory CaptchaPage
  imports Slider
begin

text \<open>
  What the solver reads off VK's captcha page and how it answers the proof of work,
  \<^verbatim>\<open>src/pkg/proxy/captcha_pow.go\<close>: the patterns of the page, the block \<^verbatim>\<open>window.vk\<close>, the search for a nonce and the
  envelope around it, the bodies of the requests. A pattern is a regular expression of \<^verbatim>\<open>regexp\<close>, with its choice of
  the leftmost match and of the preferred alternative.
\<close>

section \<open>Patterns\<close>

text \<open>
  \<open>Some\<close>: a run of bytes of a class, at least and at most so many, as long as possible; \<open>Lazy\<close>: a run of any
  length, as short as possible; \<open>Edge\<close>: a word boundary. The classes are of ASCII bytes or miss only those, so that
  bytes do as well as runes.
\<close>

datatype pattern =
    Text string
  | Class "byte \<Rightarrow> bool" nat "nat option"
  | Lazy
  | Group nat pattern
  | Opt pattern
  | Alt pattern pattern
  | Edge
  | Pats "pattern list"

type_synonym captures = "(nat \<times> bytes) list"

definition word_byte :: "byte \<Rightarrow> bool" where
  "word_byte b \<longleftrightarrow> 0x30 \<le> b \<and> b \<le> 0x39 \<or> 0x41 \<le> b \<and> b \<le> 0x5a \<or> 0x61 \<le> b \<and> b \<le> 0x7a \<or> b = 0x5f"

definition at_edge :: "bytes \<Rightarrow> nat \<Rightarrow> bool" where
  "at_edge s i \<longleftrightarrow> (0 < i \<and> i \<le> length s \<and> word_byte (s ! (i - 1))) \<noteq> (i < length s \<and> word_byte (s ! i))"

definition run_length :: "(byte \<Rightarrow> bool) \<Rightarrow> bytes \<Rightarrow> nat \<Rightarrow> nat" where
  "run_length f s i = length (takeWhile f (drop i s))"

text \<open>Where a match from \<open>i\<close> can end, with its captures, best first.\<close>

fun ends :: "bytes \<Rightarrow> pattern \<Rightarrow> nat \<Rightarrow> (nat \<times> captures) list" where
  "ends s (Text t) i = (if has_prefix (ascii t) (drop i s) then [(i + length t, [])] else [])"
| "ends s (Class f lo hi) i =
     (let n = run_length f s i; top = (case hi of None \<Rightarrow> n | Some h \<Rightarrow> min n h) in
      map (\<lambda>k. (i + k, [])) (List.rev [lo..<Suc top]))"
| "ends s Lazy i = map (\<lambda>j. (j, [])) [i..<Suc (length s)]"
| "ends s (Group g p) i = map (\<lambda>(j, c). (j, (g, gslice s i j) # c)) (ends s p i)"
| "ends s (Opt p) i = ends s p i @ [(i, [])]"
| "ends s (Alt p q) i = ends s p i @ ends s q i"
| "ends s Edge i = (if at_edge s i then [(i, [])] else [])"
| "ends s (Pats []) i = [(i, [])]"
| "ends s (Pats (p # ps)) i = concat (map (\<lambda>(j, c). map (\<lambda>(k, c'). (k, c @ c')) (ends s (Pats ps) j)) (ends s p i))"

text \<open>The leftmost match: where it begins and ends, and its captures.\<close>

fun first_match :: "bytes \<Rightarrow> pattern \<Rightarrow> nat list \<Rightarrow> (nat \<times> nat \<times> captures) option" where
  "first_match s p [] = None"
| "first_match s p (i # is) = (case ends s p i of [] \<Rightarrow> first_match s p is | (j, c) # _ \<Rightarrow> Some (i, j, c))"

definition find_match :: "pattern \<Rightarrow> bytes \<Rightarrow> (nat \<times> nat \<times> captures) option" where
  "find_match p s = first_match s p [0..<Suc (length s)]"

definition matches :: "pattern \<Rightarrow> bytes \<Rightarrow> bool" where
  "matches p s \<longleftrightarrow> find_match p s \<noteq> None"

text \<open>A group that took no part in the match is empty, as in \<^verbatim>\<open>FindStringSubmatch\<close>.\<close>

definition capture :: "nat \<Rightarrow> captures \<Rightarrow> bytes" where
  "capture g c = (case map_of c g of None \<Rightarrow> [] | Some t \<Rightarrow> t)"

definition submatch :: "pattern \<Rightarrow> bytes \<Rightarrow> captures option" where
  "submatch p s = map_option (\<lambda>(i, j, c). c) (find_match p s)"

definition one_of :: "string \<Rightarrow> byte \<Rightarrow> bool" where
  "one_of t b \<longleftrightarrow> b \<in> set (ascii t)"

definition digit :: "byte \<Rightarrow> bool" where
  "digit b \<longleftrightarrow> 0x30 \<le> b \<and> b \<le> 0x39"

definition alnum :: "byte \<Rightarrow> bool" where
  "alnum b \<longleftrightarrow> digit b \<or> 0x41 \<le> b \<and> b \<le> 0x5a \<or> 0x61 \<le> b \<and> b \<le> 0x7a"

definition is_hex :: "byte \<Rightarrow> bool" where
  "is_hex b \<longleftrightarrow> digit b \<or> 0x41 \<le> b \<and> b \<le> 0x46 \<or> 0x61 \<le> b \<and> b \<le> 0x66"

definition lower_hex :: "byte \<Rightarrow> bool" where
  "lower_hex b \<longleftrightarrow> digit b \<or> 0x61 \<le> b \<and> b \<le> 0x66"

definition blank :: "byte \<Rightarrow> bool" where
  "blank b \<longleftrightarrow> b \<in> {0x09, 0x0a, 0x0c, 0x0d, 0x20}"

abbreviation spaces :: pattern where
  "spaces \<equiv> Class blank 0 None"

abbreviation quote_char :: pattern where
  "quote_char \<equiv> Class (one_of [CHR 0x22, CHR 0x27]) 1 (Some 1)"

abbreviation dquote :: pattern where
  "dquote \<equiv> Text [CHR 0x22]"

abbreviation not_dquote :: "byte \<Rightarrow> bool" where
  "not_dquote \<equiv> (\<lambda>b. b \<noteq> 0x22)"

section \<open>The parameters of the page\<close>

datatype envelope = Legacy3 | Telemetry5

record pow_page =
  pp_input :: bytes
  pp_difficulty :: int
  pp_envelope :: envelope
  pp_prefix :: bytes
  pp_debug_info :: bytes
  pp_lang :: bytes

definition re_iife_args :: pattern where
  "re_iife_args = Pats [Text ''}('', spaces, quote_char, Group 1 (Class (\<lambda>b. alnum b \<or> one_of ''+/=_-'' b) 8 None), quote_char, spaces,
     Text '','', spaces, Group 2 (Class digit 1 None), spaces, Text '','', spaces, quote_char,
     Class (\<lambda>b. \<not> one_of [CHR 0x22, CHR 0x27] b) 0 None, quote_char, spaces, Text '')'', spaces, Text '')'']"

definition re_legacy_input :: pattern where
  "re_legacy_input = Pats [Text ''const'', Class blank 1 None, Text ''powInput'', spaces, Text ''='', spaces, dquote,
     Group 1 (Class not_dquote 1 None), dquote]"

definition re_legacy_diff :: pattern where
  "re_legacy_diff = Alt
     (Pats [Text (''startsWith('' @ [CHR 0x27] @ ''0'' @ [CHR 0x27] @ ''.repeat(''), Group 1 (Class digit 1 None), Text ''))''])
     (Pats [Text ''const'', Class blank 1 None, Text ''difficulty'', spaces, Text ''='', spaces, Group 2 (Class digit 1 None)])"

definition re_prefix :: pattern where
  "re_prefix = Pats [Text ''captchaPowResult'', Class (one_of [CHR 0x22, CHR 0x27, CHR '']'']) 0 (Some 3), spaces, Text ''='', spaces, quote_char,
     Group 1 (Class (\<lambda>b. alnum b \<or> one_of ''._-'' b) 0 (Some 8)), quote_char, spaces, Text ''+'']"

definition re_telemetry :: pattern where
  "re_telemetry = Pats [quote_char, Text ''tel_hash'', quote_char, spaces, Text '':'']"

definition re_vk_start :: pattern where
  "re_vk_start = Pats [Text ''window.vk'', spaces, Text ''='', spaces, Text ''{'']"

definition re_vk_uuid :: pattern where
  "re_vk_uuid = (let h = (\<lambda>n. Class lower_hex n (Some n)); m = Text ''-'' in
     Pats [Class (\<lambda>b. word_byte b \<and> \<not> digit b \<or> b = 0x24) 1 (Some 1), Class (\<lambda>b. word_byte b \<or> b = 0x24) 0 None, spaces, Text '':'', spaces, dquote,
       Group 1 (Pats [h 8, m, h 4, m, h 4, m, h 4, m, h 12]), dquote])"

definition re_vk_lang :: pattern where
  "re_vk_lang = Pats [Edge, Text ''lang'', spaces, Text '':'', spaces, Group 1 (Class digit 1 None), Edge]"

definition re_debug_info :: pattern where
  "re_debug_info = Pats [Text ''debug_info:'', Opt (Pats [Class not_dquote 0 None, Text ''||'']), dquote,
     Group 1 (Class is_hex 64 (Some 64)), dquote]"

definition re_captcha_js :: pattern where
  "re_captcha_js = Pats [Text (''src='' @ [CHR 0x22]), Group 1 (Pats [Text ''https://'', Class not_dquote 1 None, Text ''not_robot_captcha'', Class not_dquote 1 None]), dquote]"

definition re_window_init :: pattern where
  "re_window_init = Pats [Text ''window.init'', spaces, Text ''='', spaces, Group 1 (Pats [Text ''{'', Lazy, Text ''}'']), spaces, Text '';'', spaces, Text ''window.lang'']"

text \<open>
  \<^verbatim>\<open>vkGlobalBlock\<close>: the brace that closes the block, by its distance; \<open>depth\<close> braces are open, in a string when
  \<open>q\<close> is its quote.
\<close>

fun close_at :: "int \<Rightarrow> byte option \<Rightarrow> bytes \<Rightarrow> nat option" where
  "close_at depth q [] = None"
| "close_at depth (Some c) (b # s) =
     (if b = 0x5c then (case s of [] \<Rightarrow> None | _ # s \<Rightarrow> map_option (\<lambda>n. n + 2) (close_at depth (Some c) s))
      else if b = c then map_option Suc (close_at depth None s)
      else map_option Suc (close_at depth (Some c) s))"
| "close_at depth None (b # s) =
     (if b = 0x22 \<or> b = 0x27 then map_option Suc (close_at depth (Some b) s)
      else if b = 0x7b then map_option Suc (close_at (depth + 1) None s)
      else if b = 0x7d then (if depth - 1 = 0 then Some 0 else map_option Suc (close_at (depth - 1) None s))
      else map_option Suc (close_at depth None s))"

definition vk_global_block :: "bytes \<Rightarrow> bytes" where
  "vk_global_block html = (case find_match re_vk_start html of
     None \<Rightarrow> []
   | Some (i, j, c) \<Rightarrow> (let rest = drop (j - 1) html in
       case close_at 0 None rest of None \<Rightarrow> [] | Some n \<Rightarrow> take (Suc n) rest))"

definition parse_vk_global :: "bytes \<Rightarrow> bytes \<times> bytes" where
  "parse_vk_global html =
     (let block = vk_global_block html; get = (\<lambda>p. case submatch p block of None \<Rightarrow> [] | Some c \<Rightarrow> capture 1 c) in
      if block = [] then ([], []) else (get re_vk_uuid, get re_vk_lang))"

definition pow_prefix_fallback :: bytes where
  "pow_prefix_fallback = ascii ''v2.''"

definition legacy_difficulty :: "bytes \<Rightarrow> int" where
  "legacy_difficulty html = (case submatch re_legacy_diff html of
     None \<Rightarrow> 2
   | Some c \<Rightarrow> (let raw = (if capture 1 c \<noteq> [] then capture 1 c else capture 2 c) in
       case parse_int64 raw of None \<Rightarrow> 2 | Some d \<Rightarrow> if 0 < d \<and> d \<le> 8 then d else 2))"

definition parse_pow_page :: "bytes \<Rightarrow> bytes + pow_page" where
  "parse_pow_page html =
     (let read = submatch re_prefix html;
          prefix = (case read of None \<Rightarrow> pow_prefix_fallback | Some c \<Rightarrow> capture 1 c);
          env = (if matches re_telemetry html then Telemetry5 else Legacy3);
          (info, lang) = parse_vk_global html;
          page = (\<lambda>input d. \<lparr>pp_input = input, pp_difficulty = d, pp_envelope = env, pp_prefix = prefix, pp_debug_info = info, pp_lang = lang\<rparr>) in
      if prefix \<noteq> pow_prefix_fallback then Inl (ascii ''captcha pow envelope prefix is unknown'')
      else if env = Telemetry5 \<and> read = None then Inl (ascii ''captcha pow envelope prefix is not readable on a telemetry-shaped page'')
      else (case submatch re_iife_args html of
        Some c \<Rightarrow> (case parse_int64 (capture 2 c) of
            Some d \<Rightarrow> if d \<le> 0 \<or> 8 < d then Inl (ascii ''captcha pow difficulty out of range'') else Inr (page (capture 1 c) d)
          | None \<Rightarrow> Inl (ascii ''captcha pow difficulty out of range''))
      | None \<Rightarrow> (case submatch re_legacy_input html of
          Some c \<Rightarrow> Inr (page (capture 1 c) (legacy_difficulty html))
        | None \<Rightarrow> Inl (ascii ''captcha pow parameters not found in HTML''))))"

section \<open>The block is the balanced one\<close>

text \<open>A reader of JavaScript text, byte by byte: the open braces, the quote of the string it is in, a pending escape.\<close>

fun scan_byte :: "int \<times> byte option \<times> bool \<Rightarrow> byte \<Rightarrow> int \<times> byte option \<times> bool" where
  "scan_byte (d, Some c, esc) b =
     (if esc then (d, Some c, False) else if b = 0x5c then (d, Some c, True) else if b = c then (d, None, False) else (d, Some c, False))"
| "scan_byte (d, None, esc) b =
     (if b = 0x22 \<or> b = 0x27 then (d, Some b, False) else if b = 0x7b then (d + 1, None, False)
      else if b = 0x7d then (d - 1, None, False) else (d, None, False))"

definition scan :: "bytes \<Rightarrow> int \<times> byte option \<times> bool" where
  "scan s = foldl scan_byte (0, None, False) s"

lemma close_at_scan:
  "close_at d q s = Some n \<Longrightarrow> 0 < d \<Longrightarrow> (case q of None \<Rightarrow> True | Some c \<Rightarrow> c \<noteq> 0x5c) \<Longrightarrow>
     n < length s \<and> foldl scan_byte (d, q, False) (take (Suc n) s) = (0, None, False)
     \<and> (\<forall>k \<le> n. 0 < fst (foldl scan_byte (d, q, False) (take k s)))"
proof (induction d q s arbitrary: n rule: close_at.induct)
  case (2 d c b s)
  show ?case
  proof (cases "b = 0x5c")
    case True
    with 2(4) obtain x s' m where s: "s = x # s'" and m: "close_at d (Some c) s' = Some m" and n: "n = m + 2"
      by (auto split: list.splits)
    have IH: "m < length s'" "foldl scan_byte (d, Some c, False) (take (Suc m) s') = (0, None, False)"
      "\<And>k. k \<le> m \<Longrightarrow> 0 < fst (foldl scan_byte (d, Some c, False) (take k s'))"
      using 2(1) [OF True s m 2(5,6)] by auto
    show ?thesis
    proof (intro conjI allI impI)
      show "n < length (b # s)" using IH(1) by (simp add: s n)
      show "foldl scan_byte (d, Some c, False) (take (Suc n) (b # s)) = (0, None, False)"
        using IH(2) 2(6) True by (simp add: s n)
      fix k assume k: "k \<le> n"
      show "0 < fst (foldl scan_byte (d, Some c, False) (take k (b # s)))"
      proof (cases k)
        case (Suc k')
        then show ?thesis using IH(3) [of "k' - 1"] k 2(5,6) True by (cases k') (auto simp: s n)
      qed (use 2(5) in simp)
    qed
  next
    case False
    then obtain q' m where m: "close_at d q' s = Some m" "n = Suc m" and q': "q' = (if b = c then None else Some c)"
      using 2(4) by (auto split: if_splits)
    have IH: "m < length s" "foldl scan_byte (d, q', False) (take (Suc m) s) = (0, None, False)"
      "\<And>k. k \<le> m \<Longrightarrow> 0 < fst (foldl scan_byte (d, q', False) (take k s))"
      using 2(2) [OF False _ _ 2(5)] 2(3) [OF False _ _ 2(5)] m 2(6) q' by (auto split: if_splits)
    have step: "scan_byte (d, Some c, False) b = (d, q', False)" using False q' by simp
    show ?thesis
    proof (intro conjI allI impI)
      fix k assume "k \<le> n"
      then show "0 < fst (foldl scan_byte (d, Some c, False) (take k (b # s)))"
        using IH(3) [of "k - 1"] 2(5) step m(2) by (cases k) (simp_all del: scan_byte.simps)
    qed (use IH step m in \<open>simp_all del: scan_byte.simps\<close>)
  qed
next
  case (3 d b s)
  show ?case
  proof (cases "b = 0x7d \<and> d = 1")
    case True
    then show ?thesis using 3(5,6) by (auto simp: le_Suc_eq)
  next
    case False
    obtain d' q' m where m: "close_at d' q' s = Some m" "n = Suc m" "0 < d'" "case q' of None \<Rightarrow> True | Some c \<Rightarrow> c \<noteq> 0x5c"
        and step: "scan_byte (d, None, False) b = (d', q', False)"
        and IH: "m < length s \<and> foldl scan_byte (d', q', False) (take (Suc m) s) = (0, None, False)
          \<and> (\<forall>k \<le> m. 0 < fst (foldl scan_byte (d', q', False) (take k s)))"
      using 3 False by (auto split: if_splits)
    show ?thesis
    proof (intro conjI allI impI)
      fix k assume "k \<le> n"
      then show "0 < fst (foldl scan_byte (d, None, False) (take k (b # s)))"
        using IH 3(6) step m(2) by (cases k) (simp_all del: scan_byte.simps)
    qed (use IH step m in \<open>simp_all del: scan_byte.simps\<close>)
  qed
qed simp

lemma in_pats: "x \<in> set (ends s (Pats (p # ps)) i) \<longleftrightarrow>
    (\<exists>j c k c'. (j, c) \<in> set (ends s p i) \<and> (k, c') \<in> set (ends s (Pats ps) j) \<and> x = (k, c @ c'))"
  by (cases x) force

lemma first_match_ends: "first_match s p is = Some (i, j, c) \<Longrightarrow> (j, c) \<in> set (ends s p i)"
  by (induction "is") (auto split: list.splits)

lemma vk_start_brace:
  assumes "find_match re_vk_start html = Some (i, j, c)"
  shows "\<exists>rest. drop (j - 1) html = 0x7b # rest"
proof -
  have "(j, c) \<in> set (ends html re_vk_start i)"
    using assms unfolding find_match_def by (rule first_match_ends)
  then obtain k where k: "has_prefix (ascii ''{'') (drop k html)" "j = k + 1"
    unfolding re_vk_start_def by (auto simp: in_pats simp del: ends.simps(9) split: if_splits)
  then have "take 1 (drop k html) = [0x7b]" by (simp add: has_prefix_def ascii_def)
  then show ?thesis using k(2) by (cases "drop k html") auto
qed


section \<open>The proof of work\<close>

definition max_nonce :: nat where
  "max_nonce = 10000000"

definition pow_hex :: "(bytes \<Rightarrow> bytes) \<Rightarrow> bytes \<Rightarrow> nat \<Rightarrow> bytes" where
  "pow_hex sha256 input nonce = hex_encode (sha256 (input @ itoa (int nonce)))"

definition solves :: "(bytes \<Rightarrow> bytes) \<Rightarrow> bytes \<Rightarrow> nat \<Rightarrow> nat \<Rightarrow> bool" where
  "solves sha256 input difficulty nonce \<longleftrightarrow> has_prefix (replicate difficulty 0x30) (pow_hex sha256 input nonce)"

text \<open>The loop of \<^verbatim>\<open>solvePoW\<close>. The hash is the argument \<open>sha256\<close>.\<close>

function pow_search :: "(bytes \<Rightarrow> bytes) \<Rightarrow> bytes \<Rightarrow> nat \<Rightarrow> nat \<Rightarrow> bytes \<times> nat" where
  "pow_search sha256 input difficulty nonce =
     (if max_nonce < nonce then ([], 0)
      else if solves sha256 input difficulty nonce then (pow_hex sha256 input nonce, nonce)
      else pow_search sha256 input difficulty (nonce + 1))"
  by pat_completeness auto

termination
  by (relation "measure (\<lambda>(sha256, input, difficulty, nonce). Suc max_nonce - nonce)") auto

declare pow_search.simps [simp del]

definition solve_pow :: "(bytes \<Rightarrow> bytes) \<Rightarrow> bytes \<Rightarrow> nat \<Rightarrow> bytes \<times> nat" where
  "solve_pow sha256 input difficulty = pow_search sha256 input difficulty 1"

definition pow_text :: "envelope \<Rightarrow> bytes \<Rightarrow> int \<Rightarrow> int \<Rightarrow> bytes" where
  "pow_text env hex nonce ms = (let q = (\<lambda>t. [0x22] @ ascii t @ [0x22]) in
     ascii ''{'' @ q ''hash'' @ ascii '':'' @ [0x22] @ hex @ [0x22] @ ascii '','' @ q ''nonce'' @ ascii '':'' @ itoa nonce @ ascii '','' @ q ''duration_ms''
     @ ascii '':'' @ itoa ms
     @ (if env = Telemetry5 then ascii '','' @ q ''telemetry'' @ ascii '':{},'' @ q ''tel_hash'' @ ascii '':'' @ q '''' else []) @ ascii ''}'')"

definition build_pow_result :: "pow_page \<Rightarrow> bytes \<Rightarrow> int \<Rightarrow> int \<Rightarrow> bytes" where
  "build_pow_result p hex nonce ms =
     (if pp_prefix p = [] then pow_prefix_fallback else pp_prefix p) @ b64_encode (pow_text (pp_envelope p) hex nonce ms)"

definition build_pow_result_v2 :: "bytes \<Rightarrow> int \<Rightarrow> int \<Rightarrow> bytes" where
  "build_pow_result_v2 hex nonce ms = ascii ''v2.'' @ b64_encode (pow_text Legacy3 hex nonce ms)"

lemma pow_search_result:
  "(case pow_search sha256 input d n of (hex, nonce) \<Rightarrow>
     if nonce = 0 then hex = [] \<and> (\<forall>k. n \<le> k \<and> k \<le> max_nonce \<longrightarrow> \<not> solves sha256 input d k)
     else n \<le> nonce \<and> nonce \<le> max_nonce \<and> hex = pow_hex sha256 input nonce \<and> solves sha256 input d nonce
       \<and> (\<forall>k. n \<le> k \<and> k < nonce \<longrightarrow> \<not> solves sha256 input d k))" if "0 < n"
  using that
proof (induction sha256 input d n rule: pow_search.induct)
  case (1 sha256 input d n)
  show ?case
  proof (cases "max_nonce < n \<or> solves sha256 input d n")
    case True
    then show ?thesis using 1(2) by (subst pow_search.simps) auto
  next
    case False
    then have r: "pow_search sha256 input d n = pow_search sha256 input d (n + 1)" by (subst pow_search.simps) simp
    have le: "n \<le> k \<longleftrightarrow> k = n \<or> n + 1 \<le> k" for k by auto
    show ?thesis unfolding r le using 1(1) False by (auto split: prod.splits if_splits)
  qed
qed

text \<open>
  C37: \<^verbatim>\<open>solvePoW\<close> returns for every input, and it returns the least nonce up to ten million whose digest begins with
  as many zeros as asked, with that digest; no nonce at all is reported only when there is none.
\<close>

theorem pow_solution_least:
  "case solve_pow sha256 input d of (hex, nonce) \<Rightarrow>
     if nonce = 0 then hex = [] \<and> \<not> list_ex (solves sha256 input d) [1..<Suc max_nonce]
     else nonce \<le> max_nonce \<and> hex = pow_hex sha256 input nonce \<and> take d hex = replicate d 0x30
       \<and> \<not> list_ex (solves sha256 input d) [1..<nonce]"
  using pow_search_result [of 1 sha256 input d]
  by (auto simp: solve_pow_def list_ex_iff solves_def has_prefix_def split: prod.splits if_splits)

section \<open>The envelope in a form\<close>

text \<open>
  Bytes whose base64 has neither \<^verbatim>\<open>+\<close> nor \<^verbatim>\<open>/\<close>, wherever they stand: below 128, and not \<^verbatim>\<open>> ? ~\<close> or DEL.
\<close>

definition tame :: "byte \<Rightarrow> bool" where
  "tame b \<longleftrightarrow> unat b < 128 \<and> unat b mod 64 < 62"

lemma b64_char_alnum: "n < 62 \<Longrightarrow> alnum (b64_char n)"
proof -
  have "list_all (\<lambda>n. alnum (b64_char n)) [0..<62]" by code_simp
  then show "n < 62 \<Longrightarrow> alnum (b64_char n)" by (simp add: list_all_iff)
qed

lemma tame_sextets:
  "tame a \<Longrightarrow> unat a div 4 < 62" "tame c \<Longrightarrow> unat c mod 64 < 62" "unat (a :: byte) mod 4 * 16 < 62" "unat (b :: byte) mod 16 * 4 < 62"
  "tame b \<Longrightarrow> unat a mod 4 * 16 + unat b div 16 < 62" "tame c \<Longrightarrow> unat b mod 16 * 4 + unat c div 64 < 62"
proof -
  have d: "unat a div 4 < 32" "unat a div 16 < 8" "unat a div 64 < 2" if "tame a" for a
    using that by (simp_all add: tame_def less_mult_imp_div_less)
  have m: "n mod 4 < 4" "n mod 16 < 16" for n :: nat by simp_all
  show "tame a \<Longrightarrow> unat a div 4 < 62" using d(1) [of a] by simp
  show "unat a mod 4 * 16 < 62" "tame b \<Longrightarrow> unat a mod 4 * 16 + unat b div 16 < 62" using d(2) [of b] m(1) [of "unat a"] by linarith+
  show "unat b mod 16 * 4 < 62" "tame c \<Longrightarrow> unat b mod 16 * 4 + unat c div 64 < 62" using d(3) [of c] m(2) [of "unat b"] by linarith+
  show "tame c \<Longrightarrow> unat c mod 64 < 62" by (simp add: tame_def)
qed

lemma b64_tame: "list_all tame s \<Longrightarrow> list_all (\<lambda>x. alnum x \<or> x = 0x3d) (b64_encode s)"
  by (induction s rule: b64_encode.induct) (simp_all add: b64_char_alnum tame_sextets)

lemma tame_hex: "list_all tame (hex_encode s)"
proof -
  have "list_all (\<lambda>n. tame (Liveness.hex_digit (of_nat n))) [0..<16]" by code_simp
  then have d: "tame (Liveness.hex_digit h)" if "unat h < 16" for h :: byte
    using that by (auto simp: list_all_iff dest!: bspec [where x = "unat h"])
  have "unat (drop_bit 4 b) < 16" "unat (b AND 0x0f) < 16" for b :: byte
    using unat_byte [of b] word_and_le1 [of b "0x0f"]
    by (simp_all add: drop_bit_eq_div unat_div less_mult_imp_div_less word_le_nat_alt)
  then show ?thesis by (auto simp: hex_encode_def list_all_iff d)
qed

lemma tame_digit: "b \<in> insert 0x2d {0x30..0x39} \<Longrightarrow> tame b"
  by (auto simp: tame_def word_le_nat_alt)

lemma tame_itoa: "list_all tame (itoa i)"
  using set_itoa [of i] tame_digit by (auto simp: list_all_iff)

lemma tame_pow_text: "list_all tame hex \<Longrightarrow> list_all tame (pow_text env hex nonce ms)"
  by (simp add: pow_text_def Let_def tame_itoa) (simp add: ascii_def tame_def)

text \<open>A value in a form that is read as it stands.\<close>

definition plain_value :: "bytes \<Rightarrow> bool" where
  "plain_value v \<longleftrightarrow> list_all (\<lambda>b. b \<notin> {0x25, 0x2b, 0x26, 0x3b}) v"

lemma plain_value_read: "plain_value v \<Longrightarrow> unescape v = Some v \<and> 0x26 \<notin> set v \<and> 0x3b \<notin> set v"
  by (auto simp: plain_value_def list_all_iff intro!: unescape_id)

lemma alnum_plain: "alnum b \<Longrightarrow> b \<notin> {0x25, 0x2b, 0x26, 0x3b}"
  by (auto simp: alnum_def digit_def)


section \<open>The bodies\<close>

definition base_params :: "bytes \<Rightarrow> bytes \<Rightarrow> bytes \<Rightarrow> (string \<times> bytes) list" where
  "base_params session domain adfp =
     [(''session_token'', query_escape session), (''domain'', query_escape domain), (''adFp'', query_escape adfp)]"

definition init_session_fields :: "bytes \<Rightarrow> bytes \<Rightarrow> bytes \<Rightarrow> (string \<times> bytes) list" where
  "init_session_fields session domain lang =
     [(''session_token'', query_escape session), (''domain'', query_escape domain),
      (''lang'', query_escape (if lang = [] then ascii ''0'' else lang))]"

definition check_fields :: "(string \<times> bytes) list \<Rightarrow> bytes \<Rightarrow> bytes \<Rightarrow> bytes \<Rightarrow> bytes \<Rightarrow> bool \<Rightarrow> (string \<times> bytes) list" where
  "check_fields base fp hash answer debug_info conn = base @
     [(''accelerometer'', empty_array), (''gyroscope'', empty_array), (''motion'', empty_array), (''cursor'', empty_array),
      (''taps'', empty_array)]
     @ (if conn then [(''connectionRtt'', empty_array), (''connectionDownlink'', empty_array)] else [])
     @ [(''browser_fp'', fp), (''hash'', query_escape hash), (''answer'', query_escape answer), (''debug_info'', debug_info)]"

text \<open>Each field as it is written and as it is read.\<close>

definition escaped :: "string \<times> bytes \<Rightarrow> string \<times> bytes \<times> bytes" where
  "escaped p = (fst p, query_escape (snd p), snd p)"

definition verbatim :: "string \<times> bytes \<Rightarrow> string \<times> bytes \<times> bytes" where
  "verbatim p = (fst p, snd p, snd p)"

abbreviation readable :: "string \<times> bytes \<times> bytes \<Rightarrow> bool" where
  "readable f \<equiv> (case f of (k, raw, v) \<Rightarrow> plain_key k \<and> 0x26 \<notin> set raw \<and> 0x3b \<notin> set raw \<and> unescape raw = Some v)"

lemma readable_escaped: "readable (escaped (k, v)) \<longleftrightarrow> plain_key k"
  using escape_clean [of _ v] by (auto simp: escaped_def escape_roundtrip)

lemma readable_verbatim: "plain_value v \<Longrightarrow> readable (verbatim (k, v)) \<longleftrightarrow> plain_key k"
  using plain_value_read [of v] by (simp add: verbatim_def)

lemma empty_array_escaped: "empty_array = query_escape (ascii ''[]'')"
  by (simp add: empty_array_def)

text \<open>
  The bodies of both checks are read as they were meant: every field, in order; of the slider's check also the hash,
  although it goes out unescaped.
\<close>

lemma body_read:
  assumes "list_all readable fs"
  shows "rq_params (not_robot me meth (map (\<lambda>(k, raw, v). (k, raw)) fs)) = map (\<lambda>(k, raw, v). (ascii k, v)) fs @ [(ascii ''access_token'', [])]"
proof -
  have "parse_query (form_body (map (\<lambda>(k, raw, v). (k, raw)) (fs @ [verbatim (''access_token'', [])])))
      = map (\<lambda>(k, raw, v). (ascii k, v)) (fs @ [verbatim (''access_token'', [])])"
    using assms by (intro form_fields) (simp_all add: verbatim_def plain_key_def ascii_def)
  then show ?thesis by (simp add: not_robot_def verbatim_def)
qed

lemma check_body_read:
  assumes "plain_value fp" and "plain_value info"
  shows "rq_params (not_robot me ''check'' (check_fields (base_params session domain adfp) fp hash answer info conn)) =
     map (\<lambda>(k, v). (ascii k, v))
      ([(''session_token'', session), (''domain'', domain), (''adFp'', adfp)]
       @ map (\<lambda>k. (k, ascii ''[]'')) ([''accelerometer'', ''gyroscope'', ''motion'', ''cursor'', ''taps'']
           @ (if conn then [''connectionRtt'', ''connectionDownlink''] else []))
       @ [(''browser_fp'', fp), (''hash'', hash), (''answer'', answer), (''debug_info'', info), (''access_token'', [])])"
proof -
  let ?e = "ascii ''[]''"
  let ?fs = "map escaped [(''session_token'', session), (''domain'', domain), (''adFp'', adfp), (''accelerometer'', ?e), (''gyroscope'', ?e),
      (''motion'', ?e), (''cursor'', ?e), (''taps'', ?e)]
    @ (if conn then map escaped [(''connectionRtt'', ?e), (''connectionDownlink'', ?e)] else [])
    @ [verbatim (''browser_fp'', fp), escaped (''hash'', hash), escaped (''answer'', answer), verbatim (''debug_info'', info)]"
  have "list_all readable ?fs"
    using assms by (simp only: list_all_append list.pred_inject list.map readable_escaped readable_verbatim split: if_split)
      (simp add: plain_key_def ascii_def)
  from body_read [OF this, of me "''check''"] show ?thesis
    by (cases conn) (simp_all add: check_fields_def base_params_def escaped_def verbatim_def empty_array_escaped)
qed

lemma slider_check_body_read:
  assumes "plain_value fp" and "plain_value hash"
  shows "rq_params (not_robot me ''check'' (slider_check_fields
        \<lparr>ss_base = base_params session domain adfp, ss_fp = fp, ss_device = device, ss_hash = hash\<rparr> cursor answer)) =
     map (\<lambda>(k, v). (ascii k, v))
      ([(''session_token'', session), (''domain'', domain), (''adFp'', adfp), (''accelerometer'', ascii ''[]''), (''gyroscope'', ascii ''[]''),
        (''motion'', ascii ''[]''), (''cursor'', cursor), (''taps'', ascii ''[]''), (''connectionRtt'', ascii ''[]''), (''connectionDownlink'', ascii ''[]''),
        (''browser_fp'', fp), (''hash'', hash), (''answer'', answer), (''debug_info'', canonical_debug_info), (''access_token'', [])])"
proof -
  let ?e = "ascii ''[]''"
  let ?fs = "map escaped [(''session_token'', session), (''domain'', domain), (''adFp'', adfp), (''accelerometer'', ?e), (''gyroscope'', ?e),
      (''motion'', ?e), (''cursor'', cursor), (''taps'', ?e), (''connectionRtt'', ?e), (''connectionDownlink'', ?e)]
    @ [verbatim (''browser_fp'', fp), verbatim (''hash'', hash), escaped (''answer'', answer), verbatim (''debug_info'', canonical_debug_info)]"
  have "plain_value canonical_debug_info" by (simp add: plain_value_def canonical_debug_info_def ascii_def)
  then have "list_all readable ?fs"
    using assms by (simp only: list_all_append list.pred_inject list.map readable_escaped readable_verbatim split: if_split)
      (simp add: plain_key_def ascii_def)
  from body_read [OF this, of me "''check''"] show ?thesis
    by (simp add: slider_check_fields_def base_params_def escaped_def verbatim_def empty_array_escaped)
qed

end
