(* ===== verification/CaptchaPow.thy ===== *)
theory CaptchaPow
  imports CaptchaPage
begin

text \<open>
  The automatic solver of VK's captcha, \<^verbatim>\<open>solveCaptchaPoW\<close> and \<^verbatim>\<open>callCaptchaNotRobotAPI\<close> of
  \<^verbatim>\<open>src/pkg/proxy/captcha_pow.go\<close>, as trees of questions: it fetches the page, repeats the requests that a browser makes,
  solves the proof of work, and goes through the calls of \<^verbatim>\<open>captchaNotRobot\<close>, with the slider as its last resort. A page
  or a script is answered as a text; headers and cookies are not modelled.
\<close>

section \<open>What the solver is given\<close>

record saved_profile =
  sp_device :: bytes
  sp_fp :: bytes
  sp_user_agent :: bytes

text \<open>
  The switches of the environment; \<open>ce_done i\<close>: the context is done at the \<open>i\<close>-th of the two waits that look at it;
  \<open>ce_bad_url\<close>, \<open>ce_window_init\<close>: what \<^verbatim>\<open>net/url\<close> refuses and what \<^verbatim>\<open>encoding/json\<close> reads; \<open>ce_millis\<close>: how long the
  search took.
\<close>

record captcha_env =
  ce_codec :: codec
  ce_sha256 :: "bytes \<Rightarrow> bytes"
  ce_bad_url :: "bytes \<Rightarrow> bool"
  ce_window_init :: "bytes \<Rightarrow> json option"
  ce_done :: "nat \<Rightarrow> bool"
  ce_millis :: int
  ce_profile_file :: "json option"
  ce_desktop :: bool
  ce_no_init_session :: bool
  ce_constant_debug :: bool
  ce_conn_fields :: bool
  ce_adfp_on_settings :: bool
  ce_empty_component_fp :: bool
  ce_bogus :: bool
  ce_v1 :: bool

text \<open>What outlives one solve: the \<^verbatim>\<open>adFp\<close> of the process and the constants read from scripts.\<close>

record captcha_mem =
  cm_adfp :: "bytes option"
  cm_debug :: "(bytes \<times> bytes) list"

text \<open>\<^verbatim>\<open>loadSavedVKProfile\<close>, of the decoded file, if there is one: a field of another type makes it unreadable.\<close>

definition string_field :: "string \<Rightarrow> json \<Rightarrow> bytes option" where
  "string_field k j = (case key k j of Str s \<Rightarrow> Some s | Null \<Rightarrow> Some [] | _ \<Rightarrow> None)"

definition load_saved_profile :: "json option \<Rightarrow> saved_profile option" where
  "load_saved_profile file = (case file of
     Some (Obj fs) \<Rightarrow>
       (case (string_field ''device'' (Obj fs), string_field ''browser_fp'' (Obj fs), string_field ''user_agent'' (Obj fs), key ''captured_at'' (Obj fs)) of
          (Some device, Some fp, Some ua, captured) \<Rightarrow>
            if fp = [] \<or> device = [] then None
            else (case captured of Null \<Rightarrow> Some \<lparr>sp_device = device, sp_fp = fp, sp_user_agent = ua\<rparr>
                  | Num t \<Rightarrow> Some \<lparr>sp_device = device, sp_fp = fp, sp_user_agent = ua\<rparr> | _ \<Rightarrow> None)
        | _ \<Rightarrow> None)
   | _ \<Rightarrow> None)"

text \<open>JSON texts of the source, written with a caret for the double quote.\<close>

definition quoted :: "string \<Rightarrow> bytes" where
  "quoted t = map (\<lambda>b. if b = 0x5e then 0x22 else b) (ascii t)"

text \<open>The device that is sent without a captured one: the map as JSON prints it, its keys in order; and that of desktop Chrome.\<close>

definition generated_device :: bytes where
  "generated_device = quoted ''{^connectionEffectiveType^:^4g^,^deviceMemory^:8,^devicePixelRatio^:1,^hardwareConcurrency^:8,^innerHeight^:969,^innerWidth^:1903,^language^:^en-US^,^languages^:[^en-US^,^en^,^ru^],^notificationsPermission^:^default^,^screenAvailHeight^:1040,^screenAvailWidth^:1920,^screenHeight^:1080,^screenWidth^:1920,^webdriver^:false}''"

definition desktop_device :: bytes where
  "desktop_device = quoted ''{^screenWidth^:1920,^screenHeight^:1080,^screenAvailWidth^:1920,^screenAvailHeight^:1080,^innerWidth^:1920,^innerHeight^:951,^devicePixelRatio^:1,^language^:^en-US^,^languages^:[^en-US^,^en^],^webdriver^:false,^hardwareConcurrency^:8,^notificationsPermission^:^denied^}''"

definition desktop_user_agent :: bytes where
  "desktop_user_agent = ascii ''Mozilla/5.0 (Windows NT 10.0; Win64; x64) AppleWebKit/537.36 (KHTML, like Gecko) Chrome/146.0.0.0 Safari/537.36''"

definition user_agent :: "captcha_env \<Rightarrow> bytes \<Rightarrow> bytes" where
  "user_agent ce ua = (if ce_desktop ce then desktop_user_agent
     else (case load_saved_profile (ce_profile_file ce) of
       Some p \<Rightarrow> if sp_user_agent p \<noteq> [] then sp_user_agent p else ua
     | None \<Rightarrow> ua))"

section \<open>Random texts\<close>

definition draw_bytes :: "(nat \<Rightarrow> nat) \<Rightarrow> nat \<Rightarrow> bytes" where
  "draw_bytes d n = map (\<lambda>i. of_nat (d i)) [0..<n]"

text \<open>\<^verbatim>\<open>RawURLEncoding\<close>: the other two characters, no padding.\<close>

definition b64_raw_url :: "bytes \<Rightarrow> bytes" where
  "b64_raw_url s = map (\<lambda>b. if b = 0x2b then 0x2d else if b = 0x2f then 0x5f else b) (filter (\<lambda>b. b \<noteq> 0x3d) (b64_encode s))"

definition gen_adfp :: "(nat \<Rightarrow> nat) \<Rightarrow> bytes" where
  "gen_adfp d = take 21 (b64_raw_url (draw_bytes d 16))"

definition random_uuidish :: "bytes \<Rightarrow> bytes" where
  "random_uuidish b = (let h = (\<lambda>i j. hex_encode (gslice b i j)); dash = ascii ''-'' in
     h 0 4 @ dash @ h 4 6 @ dash @ h 6 8 @ dash @ h 8 10 @ dash @ h 10 16)"

text \<open>The verb \<^verbatim>\<open>%x\<close>.\<close>

fun hex_nat :: "nat \<Rightarrow> bytes" where
  "hex_nat n = (if n < 16 then [Liveness.hex_digit (of_nat n)] else hex_nat (n div 16) @ [Liveness.hex_digit (of_nat (n mod 16))])"

declare hex_nat.simps [simp del]

definition generated_fp :: "(nat \<Rightarrow> nat) \<Rightarrow> bytes" where
  "generated_fp d = hex_nat (d 0 mod 2 ^ 63) @ hex_nat (d 1 mod 2 ^ 63)"

text \<open>\<^verbatim>\<open>getSessionAdFp\<close>: drawn once for the process.\<close>

definition session_adfp :: "(nat \<Rightarrow> nat) \<Rightarrow> captcha_mem \<Rightarrow> bytes \<times> captcha_mem" where
  "session_adfp d m = (case cm_adfp m of Some a \<Rightarrow> (a, m) | None \<Rightarrow> (gen_adfp d, m\<lparr>cm_adfp := Some (gen_adfp d)\<rparr>))"

section \<open>Pages and side requests\<close>

definition page_text :: "json \<Rightarrow> bytes" where
  "page_text j = str_or_empty j"

text \<open>\<^verbatim>\<open>fetchAndCacheDebugInfo\<close>\<close>

definition fetch_debug_info :: "bytes \<Rightarrow> captcha_mem \<Rightarrow> (bytes \<times> captcha_mem) mint" where
  "fetch_debug_info url m =
     (if url = [] then Return (canonical_debug_info, m)
      else (case map_of (cm_debug m) url of
        Some v \<Rightarrow> Return (v, m)
      | None \<Rightarrow> Post (req url []) (\<lambda>r. case r of
          Inl e \<Rightarrow> Return (canonical_debug_info, m)
        | Inr body \<Rightarrow> (case submatch re_debug_info (page_text body) of
            None \<Rightarrow> Return (canonical_debug_info, m)
          | Some c \<Rightarrow> Return (capture 1 c, m\<lparr>cm_debug := (url, capture 1 c) # cm_debug m\<rparr>)))))"

text \<open>\<^verbatim>\<open>fetchPoW\<close>: the parameters, the address of the script, the settings in the page.\<close>

definition html_settings :: "captcha_env \<Rightarrow> bytes \<Rightarrow> json option" where
  "html_settings ce html = (case submatch re_window_init html of
     None \<Rightarrow> None
   | Some c \<Rightarrow> (case ce_window_init ce (capture 1 c) of
       None \<Rightarrow> None
     | Some payload \<Rightarrow> (case key ''data'' payload of
         Obj fs \<Rightarrow> Some (Obj [(ascii ''response'', Obj fs)])
       | _ \<Rightarrow> None)))"

definition script_url :: "bytes \<Rightarrow> bytes" where
  "script_url html = (case submatch re_captcha_js html of None \<Rightarrow> [] | Some c \<Rightarrow> capture 1 c)"

definition fetch_pow :: "captcha_env \<Rightarrow> bytes \<Rightarrow> (bytes + pow_page \<times> bytes \<times> json option) mint" where
  "fetch_pow ce uri = Post (req uri []) (\<lambda>r. Return (case r of
     Inl e \<Rightarrow> Inl (ascii ''HTTP GET failed: '' @ e)
   | Inr body \<Rightarrow> (let html = page_text body in
       case parse_pow_page html of Inl e \<Rightarrow> Inl e | Inr p \<Rightarrow> Inr (p, script_url html, html_settings ce html))))"

text \<open>The requests a browser makes beside them; what they answer changes nothing.\<close>

definition mail_ru_body :: "captcha_env \<Rightarrow> bytes \<Rightarrow> bytes" where
  "mail_ru_body ce ua = (let screen = (if ce_desktop ce then ascii ''1080;1920'' else ascii ''667;375'') in
     quoted ''{^script^:{^v^:^v4.0.3^,^b_id^:^152552442^},^navigator^:{^language^:^''
     @ (if ce_desktop ce then ascii ''en-US (en-US)'' else ascii ''en-GB (en-GB)'')
     @ quoted ''^,^plugins_hash^:^f8a4506236a7ac2d7ac1251468bbdc2b^,^properties_hash^:^f34e97527ec40c1deeb748830014d230^,^userAgent^:^'' @ ua
     @ quoted ''^},^screen^:{^availableScreenResolution^:^'' @ screen @ quoted ''^,^screenResolution^:^'' @ screen @ quoted ''^},^sendReason^:1}'')"

definition register_adfp :: "captcha_env \<Rightarrow> bytes \<Rightarrow> bytes \<Rightarrow> request" where
  "register_adfp ce ua adfp = req (ascii ''https://privacy-cs.mail.ru/fp/?id='' @ adfp) [(''body'', mail_ru_body ce ua)]"

definition app_tracer :: "(nat \<Rightarrow> nat) \<Rightarrow> request" where
  "app_tracer d =
     req (ascii ''https://sdk-api.apptracer.ru/api/crash/trackSession?crashToken=91nhGGlf9xzaH5OUO6PxuvR31DAUnL8xtNoULeuCFrK0&sdkVersion=2.6.3'')
       [(''body'', quoted ''{^versionName^:^1.1.1331^,^versionCode^:^0^,^deviceId^:^'' @ random_uuidish (draw_bytes d 16)
          @ quoted ''^,^sessions^:[{^sessionUuid^:^'' @ random_uuidish (draw_bytes (\<lambda>i. d (16 + i)) 16)
          @ quoted ''^,^versionName^:^1.1.1331^,^versionCode^:^0^,^status^:^RUNNING^,^environment^:^production^}]}'')]"

section \<open>The calls\<close>

definition pow_failed :: "bytes \<Rightarrow> bool \<Rightarrow> bytes \<Rightarrow> pow_answer" where
  "pow_failed show reached e = \<lparr>pw_token = [], pw_show_type = show, pw_reached = reached, pw_err = Some e\<rparr>"

definition pow_solved :: "bytes \<Rightarrow> bytes \<Rightarrow> pow_answer" where
  "pow_solved token show = \<lparr>pw_token = token, pw_show_type = show, pw_reached = True, pw_err = None\<rparr>"

record api_args =
  aa_session :: bytes
  aa_domain :: bytes
  aa_hash :: bytes
  aa_adfp :: bytes
  aa_debug_info :: bytes
  aa_lang :: bytes

definition aa_base :: "api_args \<Rightarrow> (string \<times> bytes) list" where
  "aa_base a = base_params (aa_session a) (aa_domain a) (aa_adfp a)"

text \<open>\<^verbatim>\<open>initSessionSettings\<close>: in the form that the slider reads, with the type of captcha VK announces.\<close>

definition settings_entry :: "json \<Rightarrow> json" where
  "settings_entry m = Obj [(ascii ''type'', key ''type'' m),
     (ascii ''settings'', if str_or_empty (key ''settings_key'' m) \<noteq> [] then key ''settings_key'' m else key ''settings'' m)]"

definition init_session_settings :: "json \<Rightarrow> (json \<times> bytes) option" where
  "init_session_settings resp =
     (let obj = key ''response'' resp; show = str_or_empty (key ''show_captcha_type'' obj);
          entries = (case key ''content_settings'' obj of Arr items \<Rightarrow> map settings_entry (filter is_obj items) | _ \<Rightarrow> []) in
      if \<not> is_obj obj then None
      else Some (Obj [(ascii ''response'', Obj ([(ascii ''show_captcha_type'', Str show)]
                  @ (if entries \<noteq> [] then [(ascii ''captcha_settings'', Arr entries)] else [])))], show))"

text \<open>The fingerprint and the device of a session: the first is raw, the second already encoded.\<close>

definition identity_of :: "captcha_env \<Rightarrow> (nat \<Rightarrow> nat) \<Rightarrow> bytes \<times> bytes" where
  "identity_of ce d =
     (if ce_desktop ce then (generated_fp d, query_escape desktop_device)
      else (case load_saved_profile (ce_profile_file ce) of
        Some p \<Rightarrow> (sp_fp p, sp_device p)
      | None \<Rightarrow> (generated_fp d, query_escape generated_device)))"

text \<open>After a token: the session is closed, whatever that answers.\<close>

definition end_session :: "mint_env \<Rightarrow> api_args \<Rightarrow> bytes \<Rightarrow> bytes \<Rightarrow> pow_answer mint" where
  "end_session me a token show = Sleep (200 * millisecond) (Post (not_robot me ''endSession'' (aa_base a)) (\<lambda>_. Return (pow_solved token show)))"

definition slider_fallback :: "mint_env \<Rightarrow> captcha_env \<Rightarrow> api_args \<Rightarrow> bytes \<Rightarrow> bytes \<Rightarrow> json \<Rightarrow> bytes \<Rightarrow> pow_answer mint" where
  "slider_fallback me ce a fp device settings show =
     bind (solve_slider me (ce_codec ce) \<lparr>ss_base = aa_base a, ss_fp = fp, ss_device = device, ss_hash = aa_hash a\<rparr> settings) (\<lambda>r. case r of
       Inr token \<Rightarrow> if token \<noteq> [] then end_session me a token show
         else Return (pow_failed show True (ascii ''checkbox check failed and slider also failed''))
     | Inl e \<Rightarrow> Return (pow_failed show True (ascii ''checkbox check failed and slider also failed: '' @ e)))"

text \<open>The check of the checkbox; from its answer on, the type of captcha is VK's word.\<close>

definition checkbox :: "mint_env \<Rightarrow> captcha_env \<Rightarrow> api_args \<Rightarrow> bytes \<Rightarrow> bytes \<Rightarrow> json \<Rightarrow> bytes \<Rightarrow> pow_answer mint" where
  "checkbox me ce a fp device settings show =
     Post (not_robot me ''check'' (check_fields (aa_base a) fp (aa_hash a) (b64_encode (ascii ''{}'')) (aa_debug_info a) (ce_conn_fields ce))) (\<lambda>r. case r of
       Inl e \<Rightarrow> Return (pow_failed show False (ascii ''check: '' @ e))
     | Inr resp \<Rightarrow>
         let obj = key ''response'' resp; show' = str_or_empty (key ''show_captcha_type'' obj); token = str_or_empty (key ''success_token'' obj) in
         if \<not> is_obj obj then Return (pow_failed show True (ascii ''check: invalid response''))
         else if str_or_empty (key ''status'' obj) = ascii ''OK'' then
           (if token = [] then Return (pow_failed show' True (ascii ''check: no success_token in response''))
            else end_session me a token show')
         else slider_fallback me ce a fp device settings show')"

text \<open>\<open>api_settings\<close>: from the second call on; \<open>html\<close>: the settings of the page or of the first call, \<open>show\<close>: the type so far.\<close>

definition api_settings :: "mint_env \<Rightarrow> captcha_env \<Rightarrow> api_args \<Rightarrow> json option \<Rightarrow> bytes \<Rightarrow> pow_answer mint" where
  "api_settings me ce a html show =
     Post (not_robot me ''settings'' (if ce_adfp_on_settings ce then aa_base a else base_params (aa_session a) (aa_domain a) [])) (\<lambda>r. case r of
       Inl e \<Rightarrow> Return (pow_failed show False (ascii ''settings: '' @ e))
     | Inr resp \<Rightarrow> Shuffled (\<lambda>d. Sleep (int (100 + d 0 mod 100) * millisecond) (Shuffled (\<lambda>d.
         let (fp, device) = identity_of ce d in
         Post (not_robot me ''componentDone'' (aa_base a @ [(''browser_fp'', if ce_empty_component_fp ce then [] else fp), (''device'', device)])) (\<lambda>r. case r of
           Inl e \<Rightarrow> Return (pow_failed show False (ascii ''componentDone: '' @ e))
         | Inr _ \<Rightarrow> Shuffled (\<lambda>d.
             if ce_done ce 1 then Return (pow_failed show False (ascii ''context canceled''))
             else Sleep (int (1950 + d 0 mod 1250) * millisecond)
               (checkbox me ce a fp device (case html of None \<Rightarrow> resp | Some s \<Rightarrow> s) show)))))))"

text \<open>\<^verbatim>\<open>callCaptchaNotRobotAPI\<close>\<close>

definition html_show_type :: "json option \<Rightarrow> bytes" where
  "html_show_type html = (case html of None \<Rightarrow> [] | Some s \<Rightarrow> str_or_empty (key ''show_captcha_type'' (key ''response'' s)))"

definition call_captcha_api :: "mint_env \<Rightarrow> captcha_env \<Rightarrow> api_args \<Rightarrow> json option \<Rightarrow> pow_answer mint" where
  "call_captcha_api me ce a html =
     (let show = html_show_type html in
      if ce_no_init_session ce then api_settings me ce a html show
      else Post (not_robot me ''initSession'' (init_session_fields (aa_session a) (aa_domain a) (aa_lang a))) (\<lambda>r. case r of
          Inl e \<Rightarrow> Return (pow_failed show False (ascii ''initSession: '' @ e))
        | Inr resp \<Rightarrow>
            let (html, show) = (case init_session_settings resp of
                None \<Rightarrow> (html, show)
              | Some (s, announced) \<Rightarrow> (if html = None then Some s else html, if announced \<noteq> [] then announced else show)) in
            Shuffled (\<lambda>d. Sleep (int (100 + d 0 mod 100) * millisecond) (api_settings me ce a html show))))"

section \<open>One solve\<close>

definition raw_query :: "bytes \<Rightarrow> bytes" where
  "raw_query uri = (let u = takeWhile (\<lambda>b. b \<noteq> 0x23) uri in drop (Suc (length (takeWhile (\<lambda>b. b \<noteq> 0x3f) u))) u)"

text \<open>The hash that is sent: in the envelope, or bare; its digest spoilt on purpose when the switch says so.\<close>

definition sent_hash :: "captcha_env \<Rightarrow> pow_page \<Rightarrow> bytes \<Rightarrow> nat \<Rightarrow> bytes" where
  "sent_hash ce p hex nonce = (let hex = (if ce_bogus ce then ascii ''ff'' @ drop 2 hex else hex) in
     if ce_v1 ce then hex else build_pow_result p hex (int nonce) (ce_millis ce))"

definition after_page :: "mint_env \<Rightarrow> captcha_env \<Rightarrow> bytes \<Rightarrow> bytes \<Rightarrow> bytes \<Rightarrow> pow_page \<Rightarrow> json option \<Rightarrow> bytes \<Rightarrow> captcha_mem
    \<Rightarrow> (pow_answer \<times> captcha_mem) mint" where
  "after_page me ce ua session domain p html debug_info m =
     Post (req (ascii ''https://ad.mail.ru/static/sync-loader.js'') []) (\<lambda>_. Shuffled (\<lambda>d.
     let (adfp, m) = session_adfp d m in
     Post (register_adfp ce ua adfp) (\<lambda>_. Shuffled (\<lambda>d. Post (app_tracer d) (\<lambda>_.
     let (hex, nonce) = solve_pow (ce_sha256 ce) (pp_input p) (nat (pp_difficulty p)) in
     if hex = [] then Return (pow_failed [] False (ascii ''PoW: no solution found within 10M iterations''), m)
     else Shuffled (\<lambda>d. Sleep (int (200 + d 0 mod 300) * millisecond)
       (bind (call_captcha_api me ce
          \<lparr>aa_session = session, aa_domain = domain, aa_hash = sent_hash ce p hex nonce, aa_adfp = adfp,
            aa_debug_info = debug_info, aa_lang = pp_lang p\<rparr> html) (\<lambda>w.
        Return (case pw_err w of None \<Rightarrow> w | Some e \<Rightarrow> pow_failed (pw_show_type w) (pw_reached w) (ascii ''captchaNotRobot API: '' @ e), m)))))))))"

definition solve_captcha_pow :: "mint_env \<Rightarrow> captcha_env \<Rightarrow> bytes \<Rightarrow> bytes \<Rightarrow> captcha_mem \<Rightarrow> (pow_answer \<times> captcha_mem) mint" where
  "solve_captcha_pow me ce ua uri m =
     (let query = parse_query (raw_query uri); session = query_get ''session_token'' query;
          domain = (if query_get ''domain'' query = [] then ascii ''vk.com'' else query_get ''domain'' query);
          failed = (\<lambda>e. Return (pow_failed [] False e, m)) in
      if ce_bad_url ce uri then failed (ascii ''parse redirect_uri'')
      else if session = [] then failed (ascii ''no session_token in redirect_uri'')
      else Shuffled (\<lambda>d.
        if ce_done ce 0 then failed (ascii ''context canceled'')
        else Sleep (int (1500 + d 0 mod 1000) * millisecond) (bind (fetch_pow ce uri) (\<lambda>r. case r of
          Inl e \<Rightarrow> failed (ascii ''fetch PoW: '' @ e)
        | Inr (p, script, html) \<Rightarrow> bind (fetch_debug_info script m) (\<lambda>(debug_info, m).
            after_page me ce (user_agent ce ua) session domain p html
              (if \<not> ce_constant_debug ce \<and> pp_debug_info p \<noteq> [] then pp_debug_info p else debug_info) m)))))"

section \<open>What an answer of the solver means\<close>

definition answered :: "mint_env \<Rightarrow> mint_event list \<Rightarrow> bool" where
  "answered me tr \<longleftrightarrow> list_ex (\<lambda>e. case e of Ev_post q (Inr resp) \<Rightarrow> is_call me ''check'' q | _ \<Rightarrow> False) tr"

lemma answered_simps [simp]:
  "\<not> answered me []" "answered me (tr @ tr') \<longleftrightarrow> answered me tr \<or> answered me tr'"
  "answered me (e # tr) \<longleftrightarrow> (case e of Ev_post q (Inr resp) \<Rightarrow> is_call me ''check'' q | _ \<Rightarrow> False) \<or> answered me tr"
  by (auto simp: answered_def)

definition coherent :: "pow_answer \<Rightarrow> bool" where
  "coherent w \<longleftrightarrow> (case pw_err w of None \<Rightarrow> pw_token w \<noteq> [] \<and> pw_reached w | Some e \<Rightarrow> pw_token w = [])"

lemma coherent_simps [simp]:
  "coherent (pow_failed show reached e)" "coherent (pow_solved token show) \<longleftrightarrow> token \<noteq> []"
  "pw_reached (pow_failed show reached e) \<longleftrightarrow> reached" "pw_reached (pow_solved token show)"
  "pw_err (pow_failed show reached e) = Some e" "pw_err (pow_solved token show) = None"
  by (simp_all add: coherent_def pow_failed_def pow_solved_def)

lemma end_session_coherent: "token \<noteq> [] \<Longrightarrow> spec (end_session me a token show) (\<lambda>tr w. coherent w \<and> pw_reached w)"
  by (simp add: end_session_def)

lemma slider_fallback_coherent: "spec (slider_fallback me ce a fp device settings show) (\<lambda>tr w. coherent w \<and> pw_reached w)"
  unfolding slider_fallback_def spec_bind
proof (rule spec_mono [OF slider_solver_bounded [where me = me and cd = "ce_codec ce"]])
  fix tr and r :: "bytes + bytes"
  show "spec (case r of
       Inr token \<Rightarrow> if token \<noteq> [] then end_session me a token show
         else Return (pow_failed show True (ascii ''checkbox check failed and slider also failed''))
     | Inl e \<Rightarrow> Return (pow_failed show True (ascii ''checkbox check failed and slider also failed: '' @ e)))
     (\<lambda>tr'. (\<lambda>tr w. coherent w \<and> pw_reached w) (tr @ tr'))"
    using end_session_coherent by (auto split: sum.split)
qed

lemma method_names:
  "ascii ''check'' \<noteq> ascii ''settings''" "ascii ''check'' \<noteq> ascii ''componentDone''" "ascii ''check'' \<noteq> ascii ''initSession''"
  "ascii ''getContent'' \<noteq> ascii ''check''" "ascii ''getContent'' \<noteq> ascii ''settings''" "ascii ''getContent'' \<noteq> ascii ''componentDone''"
  "ascii ''getContent'' \<noteq> ascii ''initSession''" "ascii ''getContent'' \<noteq> ascii ''endSession''"
  by (simp_all add: ascii_def)

lemma checkbox_coherent: "spec (checkbox me ce a fp device settings show) (\<lambda>tr w. coherent w \<and> pw_reached w = answered me tr)"
  unfolding checkbox_def spec_simps
proof (intro allI, goal_cases)
  case (1 r)
  show ?case
  proof (cases r)
    case (Inr resp)
    have lift: "spec p (\<lambda>tr w. coherent w \<and> pw_reached w) \<Longrightarrow>
        spec p (\<lambda>tr w. coherent w \<and> pw_reached w = answered me (Ev_post (not_robot me ''check''
          (check_fields (aa_base a) fp (aa_hash a) (b64_encode (ascii ''{}'')) (aa_debug_info a) (ce_conn_fields ce))) (Inr resp) # tr))" for p
      by (erule spec_mono) simp
    show ?thesis unfolding Inr sum.case
      by (rule lift) (auto simp: Let_def end_session_coherent slider_fallback_coherent)
  qed simp
qed

lemma api_settings_coherent: "spec (api_settings me ce a html show) (\<lambda>tr w. coherent w \<and> pw_reached w = answered me tr)"
  unfolding api_settings_def
  by (auto simp: method_names checkbox_coherent split: sum.split prod.split)

text \<open>
  C39: what the solver says of an attempt is what happened. It claims that VK was reached exactly when VK answered a
  check, on every path through the calls; it gives a token or an error, never both and never neither; and a token
  only when VK was reached.
\<close>

theorem reached_means_answered:
  "spec (call_captcha_api me ce a html) (\<lambda>tr w. pw_reached w = answered me tr
     \<and> (case pw_err w of None \<Rightarrow> pw_token w \<noteq> [] \<and> pw_reached w | Some e \<Rightarrow> pw_token w = []))"
proof -
  have "spec (call_captcha_api me ce a html) (\<lambda>tr w. coherent w \<and> pw_reached w = answered me tr)"
    unfolding call_captcha_api_def Let_def
    using api_settings_coherent method_names by (auto split: sum.splits option.split)
  then show ?thesis by (rule spec_mono) (simp add: coherent_def)
qed

section \<open>How much a solve can cost\<close>

definition within_allowance :: "mint_env \<Rightarrow> codec \<Rightarrow> nat \<Rightarrow> 'a mint \<Rightarrow> bool" where
  "within_allowance me cd n p \<longleftrightarrow> spec p (\<lambda>tr w. posts tr \<le> n + allowance me cd tr)"

lemma within_Post: "0 < n \<Longrightarrow> (\<And>r. within_allowance me cd (n - 1) (k r)) \<Longrightarrow> within_allowance me cd n (Post q k)"
  unfolding within_allowance_def spec_simps
  by (intro allI) (erule meta_allE, erule spec_mono, simp)

lemma within_simps [simp]:
  "within_allowance me cd n (Return x)"
  "within_allowance me cd n (Shuffled k) \<longleftrightarrow> (\<forall>d. within_allowance me cd n (k d))"
  "within_allowance me cd n (Sleep t p) \<longleftrightarrow> within_allowance me cd n p"
  by (simp_all add: within_allowance_def)

lemma within_mono: "within_allowance me cd n p \<Longrightarrow> n \<le> n' \<Longrightarrow> within_allowance me cd n' p"
  unfolding within_allowance_def by (erule spec_mono) simp

lemma within_bind:
  "within_allowance me cd n p \<Longrightarrow> (\<And>a. within_allowance me cd n' (f a)) \<Longrightarrow> within_allowance me cd (n + n') (bind p f)"
  unfolding within_allowance_def spec_bind
  by (erule spec_mono) (erule meta_allE, erule spec_mono, simp)

lemma within_slider: "within_allowance me cd 3 (solve_slider me cd s settings)"
  unfolding within_allowance_def by (rule spec_mono [OF slider_solver_bounded]) auto

lemma within_end: "0 < n \<Longrightarrow> within_allowance me cd n (end_session me a token show)"
  by (auto simp: end_session_def intro!: within_Post)

lemma within_fallback: "within_allowance me (ce_codec ce) 4 (slider_fallback me ce a fp device settings show)"
proof -
  have "within_allowance me (ce_codec ce) (3 + 1) (slider_fallback me ce a fp device settings show)"
    unfolding slider_fallback_def by (rule within_bind [OF within_slider]) (auto simp: within_end split: sum.split)
  then show ?thesis by simp
qed

lemma within_checkbox: "within_allowance me (ce_codec ce) 5 (checkbox me ce a fp device settings show)"
  unfolding checkbox_def
  by (rule within_Post) (simp_all add: Let_def within_fallback within_end split: sum.split)

lemma within_settings: "within_allowance me (ce_codec ce) 7 (api_settings me ce a html show)"
  unfolding api_settings_def
  by (rule within_Post) (auto intro!: within_Post simp: within_checkbox split: sum.split prod.split)

lemma within_call: "within_allowance me (ce_codec ce) 8 (call_captcha_api me ce a html)"
proof -
  have eight: "within_allowance me (ce_codec ce) 8 (api_settings me ce a html sh)" for html sh
    by (rule within_mono [OF within_settings]) simp
  show ?thesis
    unfolding call_captcha_api_def Let_def
  proof (simp only: eight if_True if_False split: if_split, intro conjI impI, goal_cases)
    case 2
    show ?case by (rule within_Post) (auto simp: within_settings split: sum.split prod.split option.split)
  qed simp
qed

lemma within_after_page: "within_allowance me (ce_codec ce) 11 (after_page me ce ua session domain p html info m)"
proof -
  have call: "within_allowance me (ce_codec ce) 8 (bind (call_captcha_api me ce a html) (\<lambda>w. Return (f w)))"
    for a and f :: "pow_answer \<Rightarrow> pow_answer \<times> captcha_mem"
    using within_bind [OF within_call, where n' = 0 and f = "\<lambda>w. Return (f w)"] by simp
  have tail: "within_allowance me (ce_codec ce) 9 (Post q (\<lambda>_. Return x))"
    "(\<And>r. within_allowance me (ce_codec ce) 8 (k r)) \<Longrightarrow> within_allowance me (ce_codec ce) 9 (Post q k)"
    "(\<And>r. within_allowance me (ce_codec ce) 9 (k r)) \<Longrightarrow> within_allowance me (ce_codec ce) 10 (Post q k)"
    "(\<And>r. within_allowance me (ce_codec ce) 10 (k r)) \<Longrightarrow> within_allowance me (ce_codec ce) 11 (Post q k)"
    for q and k :: "bytes + json \<Rightarrow> (pow_answer \<times> captcha_mem) mint" and x :: "pow_answer \<times> captcha_mem"
    by (rule within_Post; simp)+
  show ?thesis
    unfolding after_page_def Let_def
    by (intro tail(4), unfold within_simps, intro allI, simp only: prod.case_distrib split: prod.split, intro allI impI tail(3), unfold within_simps, intro allI tail(2))
      (auto simp: call)
qed

lemma within_debug_info: "within_allowance me cd 1 (fetch_debug_info url m)"
  by (auto simp: fetch_debug_info_def intro!: within_Post split: option.split sum.split)

text \<open>
   an automatic solve ends, whatever VK answers: it makes at most 13 requests besides the guesses that a slider puzzle
  allows.
\<close>

theorem solve_requests_bounded:
  "spec (solve_captcha_pow me ce ua uri m) (\<lambda>tr r. posts tr \<le> 13 + allowance me (ce_codec ce) tr)"
proof -
  have page: "within_allowance me (ce_codec ce) 1 (fetch_pow ce uri)"
    unfolding fetch_pow_def by (rule within_Post) simp_all
  have tail: "within_allowance me (ce_codec ce) (1 + 11) (bind (fetch_debug_info script m) (\<lambda>(debug_info, m). after_page me ce ua' s d p html (f debug_info) m))"
    for script ua' s d p html f
    by (rule within_bind [OF within_debug_info]) (simp add: within_after_page split: prod.split)
  have "within_allowance me (ce_codec ce) (1 + 12) (bind (fetch_pow ce uri) (\<lambda>r. case r of
      Inl e \<Rightarrow> Return (pow_failed [] False (ascii ''fetch PoW: '' @ e), m)
    | Inr (p, script, html) \<Rightarrow> bind (fetch_debug_info script m) (\<lambda>(debug_info, m). after_page me ce ua' s d p html (f p debug_info) m)))"
    for ua' s d f
    by (rule within_bind [OF page]) (use tail in \<open>auto split: sum.split prod.split\<close>)
  then have "within_allowance me (ce_codec ce) 13 (solve_captcha_pow me ce ua uri m)"
    by (simp add: solve_captcha_pow_def Let_def)
  then show ?thesis by (simp add: within_allowance_def)
qed

section \<open>What outlives a solve\<close>

definition kept :: "captcha_mem \<Rightarrow> captcha_mem \<Rightarrow> bool" where
  "kept m m' \<longleftrightarrow> (cm_adfp m \<noteq> None \<longrightarrow> cm_adfp m' = cm_adfp m) \<and> map_of (cm_debug m) \<subseteq>\<^sub>m map_of (cm_debug m')"

lemma kept_refl [simp]: "kept m m"
  by (simp add: kept_def)

lemma kept_trans: "kept a b \<Longrightarrow> kept b c \<Longrightarrow> kept a c"
  unfolding kept_def using map_le_trans [of "map_of (cm_debug a)" "map_of (cm_debug b)" "map_of (cm_debug c)"] by auto

lemma session_adfp_kept: "session_adfp d m = (a, m') \<Longrightarrow> kept m m' \<and> cm_adfp m' = Some a"
  by (auto simp: session_adfp_def kept_def split: option.splits)

lemma fetch_debug_info_kept: "spec (fetch_debug_info url m) (\<lambda>tr (v, m'). kept m m' \<and> cm_adfp m' = cm_adfp m)"
  by (auto simp: fetch_debug_info_def kept_def map_le_def split: option.split sum.split)

lemma after_page_kept: "spec (after_page me ce ua session domain p html info m) (\<lambda>tr (w, m'). kept m m')"
proof -
  have tail: "kept m m' \<Longrightarrow> spec (bind q (\<lambda>w. Return (f w, m'))) (\<lambda>tr (w, m'). kept m m')" for q :: "pow_answer mint" and f :: "pow_answer \<Rightarrow> pow_answer" and m'
    by (simp add: spec_bind) (simp add: spec_def)
  show ?thesis
    unfolding after_page_def spec_simps
  proof (intro allI, goal_cases)
    case (1 r d)
    obtain a m' where am: "session_adfp d m = (a, m')" by (cases "session_adfp d m")
    then have "kept m m'" using session_adfp_kept by blast
    then show ?case unfolding am Let_def prod.case by (auto split: prod.split intro!: tail)
  qed
qed


end
