(* ===== verification/Spec2Isabelle.thy ===== *)
theory Spec2Isabelle
  imports Prelude Frame Control Dispatch Liveness CsqttClient Cwrap CredPool MediaWrap RxReorder
    Watchdog SessionLoop PathRestart Probe PacketPath SendWait SrtpWrap UplinkPace Sessions
    Grower VkApi VkCookie PoolFront LogText Captcha
    WebText Slider CaptchaPage CaptchaPow
begin

text \<open>
  Models of the Go core of the VK TURN proxy.
\<close>

end
